(* ===== verification/Prelude.thy ===== *)
theory Prelude
  imports Main "HOL-Library.Word" "HOL-Library.AList" "HOL-Library.Char_ord"
    "HOL-Library.List_Lexorder" "HOL-Library.Sublist"
begin

text \<open>
  What every component of the development shares: the machine types of the Go
  program, the functions of Go's \<^verbatim>\<open>strings\<close>, \<^verbatim>\<open>path\<close>, \<^verbatim>\<open>sort\<close> and
  \<^verbatim>\<open>encoding/binary\<close> packages the sources call, results with errors as values, and
  the generic lemmas about them.

  A Go \<^verbatim>\<open>string\<close> is a sequence of bytes and is modelled as a HOL \<open>string\<close>, whose
  characters are bytes; Go's \<open><\<close> on strings is the lexicographic order on bytes, which is
  the order of \<open>List_Lexorder\<close> over \<open>Char_ord\<close>. Functions of \<^verbatim>\<open>strings\<close> that consult
  Unicode tables (\<^verbatim>\<open>TrimSpace\<close>, \<^verbatim>\<open>Fields\<close>, \<^verbatim>\<open>ToUpper\<close>, \<^verbatim>\<open>ToLower\<close>) are modelled on
  their ASCII part.
\<close>

unbundle bit_operations_syntax

section \<open>Types\<close>

type_synonym byte = "8 word"
type_synonym u16 = "16 word"
type_synonym u32 = "32 word"
type_synonym u64 = "64 word"
type_synonym bytes = "8 word list"

named_theorems tbox_simps \<open>unfolding rules of the shared string functions\<close>

section \<open>Results\<close>

text \<open>A fallible Go call returns \<^verbatim>\<open>(value, error)\<close>: \<open>Inl\<close> is the error, \<open>Inr\<close> the value.\<close>

definition bindR :: "'e + 'a \<Rightarrow> ('a \<Rightarrow> 'e + 'b) \<Rightarrow> 'e + 'b" where
  "bindR r f = (case r of Inl e \<Rightarrow> Inl e | Inr a \<Rightarrow> f a)"

lemma bindR_simps [simp]:
  "bindR (Inl e) f = Inl e"
  "bindR (Inr a) f = f a"
  by (simp_all add: bindR_def)

lemma bindR_Inr_iff: "bindR r f = Inr b \<longleftrightarrow> (\<exists>a. r = Inr a \<and> f a = Inr b)"
  by (cases r) auto

lemma bindR_Inl_iff: "bindR r f = Inl e \<longleftrightarrow> r = Inl e \<or> (\<exists>a. r = Inr a \<and> f a = Inl e)"
  by (cases r) auto

text \<open>A loop whose body may return early with an error.\<close>

fun foldR :: "('a \<Rightarrow> 's \<Rightarrow> 'e + 's) \<Rightarrow> 'a list \<Rightarrow> 's \<Rightarrow> 'e + 's" where
  "foldR f [] s = Inr s"
| "foldR f (x # xs) s = bindR (f x s) (foldR f xs)"

lemma foldR_append: "foldR f (xs @ ys) s = bindR (foldR f xs s) (foldR f ys)"
  by (induction xs arbitrary: s) (auto simp: bindR_def split: sum.splits)

lemma foldR_invariant:
  assumes "foldR f xs s = Inr t" and "P s"
    and "\<And>x s t. x \<in> set xs \<Longrightarrow> P s \<Longrightarrow> f x s = Inr t \<Longrightarrow> P t"
  shows "P t"
  using assms
proof (induction xs arbitrary: s)
  case Nil
  then show ?case by simp
next
  case (Cons x xs)
  from Cons.prems(1) obtain u where u: "f x s = Inr u" "foldR f xs u = Inr t"
    by (auto simp: bindR_Inr_iff)
  have pu: "P u" using Cons.prems(3)[OF _ Cons.prems(2) u(1)] by simp
  show ?case
  proof (rule Cons.IH[OF u(2) pu])
    fix y v w
    assume "y \<in> set xs" "P v" "f y v = Inr w"
    then show "P w" using Cons.prems(3)[of y v w] by simp
  qed
qed

lemma foldR_cong:
  "(\<And>x s. x \<in> set xs \<Longrightarrow> f x s = g x s) \<Longrightarrow> foldR f xs s = foldR g xs s"
proof (induction xs arbitrary: s)
  case (Cons x xs)
  have "foldR f xs = foldR g xs" by (rule ext, rule Cons.IH) (use Cons.prems in simp)
  then show ?case using Cons.prems[of x] by simp
qed simp

lemma foldR_each:
  "foldR f xs s = Inr t \<Longrightarrow> x \<in> set xs \<Longrightarrow> \<exists>u v. f x u = Inr v"
proof (induction xs arbitrary: s)
  case (Cons y ys)
  then obtain u where "f y s = Inr u" "foldR f ys u = Inr t" by (auto simp: bindR_Inr_iff)
  with Cons.IH[of u] Cons.prems(2) show ?case by auto
qed simp

section \<open>Strings\<close>

definition has_prefix :: "'a list \<Rightarrow> 'a list \<Rightarrow> bool" where
  "has_prefix s p \<longleftrightarrow> take (length p) s = p"

definition has_suffix :: "'a list \<Rightarrow> 'a list \<Rightarrow> bool" where
  "has_suffix s p \<longleftrightarrow> length p \<le> length s \<and> drop (length s - length p) s = p"

definition trim_prefix :: "'a list \<Rightarrow> 'a list \<Rightarrow> 'a list" where
  "trim_prefix s p = (if has_prefix s p then drop (length p) s else s)"

definition trim_suffix :: "'a list \<Rightarrow> 'a list \<Rightarrow> 'a list" where
  "trim_suffix s p = (if has_suffix s p then take (length s - length p) s else s)"

fun contains :: "'a list \<Rightarrow> 'a list \<Rightarrow> bool" where
  "contains [] sub \<longleftrightarrow> sub = []"
| "contains (c # s) sub \<longleftrightarrow> has_prefix (c # s) sub \<or> contains s sub"

lemma has_prefix_iff: "has_prefix s p \<longleftrightarrow> (\<exists>r. s = p @ r)"
  unfolding has_prefix_def by (metis append_eq_conv_conj append_take_drop_id)

lemma has_prefix_append [simp]: "has_prefix (p @ r) p"
  by (auto simp: has_prefix_iff)

lemma has_prefix_Nil [simp]: "has_prefix s []"
  by (simp add: has_prefix_def)

lemma has_prefix_Cons [simp]: "has_prefix (c # s) (d # p) \<longleftrightarrow> c = d \<and> has_prefix s p"
  by (simp add: has_prefix_def)

lemma has_prefix_empty [simp]: "has_prefix [] p \<longleftrightarrow> p = []"
  by (auto simp: has_prefix_def)

lemma trim_prefix_append [simp]: "trim_prefix (p @ r) p = r"
  by (simp add: trim_prefix_def)

lemma has_suffix_iff: "has_suffix s p \<longleftrightarrow> (\<exists>r. s = r @ p)"
proof
  assume "has_suffix s p"
  then have "s = take (length s - length p) s @ p"
    unfolding has_suffix_def by (metis append_take_drop_id)
  then show "\<exists>r. s = r @ p" by blast
qed (auto simp: has_suffix_def)

lemma trim_suffix_append [simp]: "trim_suffix (r @ p) p = r"
  using has_suffix_iff[of "r @ p" p] by (auto simp: trim_suffix_def)

lemma contains_iff: "contains s sub \<longleftrightarrow> (\<exists>a b. s = a @ sub @ b)"
proof (induction s)
  case Nil
  then show ?case by auto
next
  case (Cons c s)
  note IH = Cons.IH
  show ?case
  proof
    assume "contains (c # s) sub"
    then consider r where "c # s = sub @ r" | a b where "s = a @ sub @ b"
      using Cons.IH by (auto simp: has_prefix_iff)
    then show "\<exists>a b. c # s = a @ sub @ b"
    proof cases
      case (1 r)
      then have "c # s = [] @ sub @ r" by simp
      then show ?thesis by blast
    next
      case (2 a b)
      then have "c # s = (c # a) @ sub @ b" by simp
      then show ?thesis by blast
    qed
  next
    assume "\<exists>a b. c # s = a @ sub @ b"
    then obtain a b where *: "c # s = a @ sub @ b" by blast
    show "contains (c # s) sub"
    proof (cases a)
      case Nil
      with * have "has_prefix (c # s) sub" unfolding has_prefix_iff by auto
      then show ?thesis by simp
    next
      case (Cons d a')
      with * have "s = a' @ sub @ b" by simp
      then have "contains s sub" using IH by blast
      then show ?thesis by simp
    qed
  qed
qed

text \<open>\<^verbatim>\<open>strings.Split\<close> on a one-byte separator and \<^verbatim>\<open>strings.Join\<close>.\<close>

fun split_on :: "char \<Rightarrow> string \<Rightarrow> string list" where
  "split_on c [] = [[]]"
| "split_on c (x # xs) =
     (if x = c then [] # split_on c xs
      else (case split_on c xs of [] \<Rightarrow> [[x]] | y # ys \<Rightarrow> (x # y) # ys))"

fun join_with :: "string \<Rightarrow> string list \<Rightarrow> string" where
  "join_with sep [] = []"
| "join_with sep [x] = x"
| "join_with sep (x # y # ys) = x @ sep @ join_with sep (y # ys)"

lemma split_on_nonempty [simp]: "split_on c s \<noteq> []"
  by (cases s) (auto split: list.splits)

lemma split_on_no_sep: "c \<notin> set s \<Longrightarrow> split_on c s = [s]"
  by (induction s) auto

lemma split_on_parts: "p \<in> set (split_on c s) \<Longrightarrow> c \<notin> set p"
proof (induction s arbitrary: p)
  case Nil
  then show ?case by simp
next
  case (Cons x s)
  then show ?case by (cases "split_on c s") (auto split: if_splits)
qed

lemma split_on_append_sep:
  "c \<notin> set a \<Longrightarrow> split_on c (a @ c # b) = a # split_on c b"
  by (induction a) auto

lemma split_on_append: "split_on c (a @ c # b) = split_on c a @ split_on c b"
proof (induction a)
  case (Cons x a)
  then show ?case by (cases "split_on c a") auto
qed simp

lemma join_with_Cons: "ys \<noteq> [] \<Longrightarrow> join_with sep (x # ys) = x @ sep @ join_with sep ys"
  by (cases ys) auto

lemma join_with_nonempty: "xs \<noteq> [] \<Longrightarrow> \<forall>x \<in> set xs. x \<noteq> [] \<Longrightarrow> join_with sep xs \<noteq> []"
  by (induction xs rule: induct_list012) auto

lemma split_on_join:
  assumes "xs \<noteq> []" and "\<forall>x \<in> set xs. c \<notin> set x"
  shows "split_on c (join_with [c] xs) = xs"
  using assms
proof (induction xs rule: induct_list012)
  case (2 x)
  then show ?case by (simp add: split_on_no_sep)
next
  case (3 x y ys)
  then show ?case by (simp add: split_on_append_sep)
qed simp

lemma join_split_on [simp]: "join_with [c] (split_on c s) = s"
proof (induction s)
  case (Cons x s)
  then show ?case
    by (cases "split_on c s"; cases "tl (split_on c s)") (auto simp: join_with_Cons)
qed simp

subsection \<open>White space\<close>

definition is_space :: "char \<Rightarrow> bool" where
  "is_space c \<longleftrightarrow> c \<in> {CHR 0x20, CHR 0x09, CHR 0x0A, CHR 0x0B, CHR 0x0C, CHR 0x0D}"

definition trim_right_by :: "('a \<Rightarrow> bool) \<Rightarrow> 'a list \<Rightarrow> 'a list" where
  "trim_right_by P s = rev (dropWhile P (rev s))"

definition trim_by :: "('a \<Rightarrow> bool) \<Rightarrow> 'a list \<Rightarrow> 'a list" where
  "trim_by P s = trim_right_by P (dropWhile P s)"

definition trim_space :: "string \<Rightarrow> string" where
  "trim_space s = trim_by is_space s"

lemma trim_right_by_idem: "trim_right_by P (trim_right_by P s) = trim_right_by P s"
  by (simp add: trim_right_by_def)

lemma dropWhile_trim_right:
  "dropWhile P s = s \<Longrightarrow> dropWhile P (trim_right_by P s) = trim_right_by P s"
proof -
  assume s: "dropWhile P s = s"
  obtain t where t: "s = trim_right_by P s @ t"
    unfolding trim_right_by_def by (metis rev_append rev_rev_ident takeWhile_dropWhile_id)
  show ?thesis
  proof (cases "trim_right_by P s")
    case (Cons a u)
    then have "\<not> P a" using s t by (metis append_Cons dropWhile_eq_self_iff list.distinct(1) list.sel(1))
    then show ?thesis by (simp add: Cons)
  qed simp
qed

lemma trim_space_Nil [simp]: "trim_space [] = []"
  by (simp add: trim_space_def trim_by_def trim_right_by_def)

lemma trim_space_idem [simp]: "trim_space (trim_space s) = trim_space s"
  unfolding trim_space_def trim_by_def by (simp add: dropWhile_trim_right trim_right_by_idem)

text \<open>\<^verbatim>\<open>strings.Fields\<close>: maximal runs of non-space bytes.\<close>

fun fields_aux :: "string \<Rightarrow> string \<Rightarrow> string list" where
  "fields_aux cur [] = (if cur = [] then [] else [rev cur])"
| "fields_aux cur (c # cs) =
     (if is_space c then (if cur = [] then [] else [rev cur]) @ fields_aux [] cs
      else fields_aux (c # cur) cs)"

definition fields :: "string \<Rightarrow> string list" where
  "fields s = fields_aux [] s"

lemma fields_aux_word:
  "\<forall>c \<in> set w. \<not> is_space c \<Longrightarrow> fields_aux cur (w @ rest) = fields_aux (rev w @ cur) rest"
  by (induction w arbitrary: cur) auto

lemma fields_word_space:
  assumes "w \<noteq> []" "\<forall>c \<in> set w. \<not> is_space c" "is_space d"
  shows "fields (w @ d # rest) = w # fields rest"
  using assms fields_aux_word[of w "[]" "d # rest"] by (simp add: fields_def)

lemma fields_word:
  assumes "w \<noteq> []" "\<forall>c \<in> set w. \<not> is_space c"
  shows "fields w = [w]"
  using assms fields_aux_word[of w "[]" "[]"] by (simp add: fields_def)

lemma fields_Nil [simp]: "fields [] = []"
  by (simp add: fields_def)

lemma fields_space [simp]: "is_space d \<Longrightarrow> fields (d # s) = fields s"
  by (simp add: fields_def)

lemma fields_aux_words:
  assumes "\<forall>c \<in> set cur. \<not> is_space c" and "w \<in> set (fields_aux cur s)"
  shows "w \<noteq> [] \<and> (\<forall>c \<in> set w. \<not> is_space c)"
  using assms
proof (induction s arbitrary: cur)
  case Nil
  then show ?case by (auto split: if_splits)
next
  case (Cons c s)
  show ?case
  proof (cases "is_space c")
    case True
    with Cons.prems consider "cur \<noteq> []" "w = rev cur" | "w \<in> set (fields_aux [] s)"
      by (auto split: if_splits)
    then show ?thesis
    proof cases
      case 1
      with Cons.prems(1) show ?thesis by simp
    next
      case 2
      then show ?thesis by (rule Cons.IH[rotated]) simp
    qed
  next
    case False
    show ?thesis
      by (rule Cons.IH[of "c # cur"]) (use False Cons.prems in auto)
  qed
qed

lemma fields_words: "w \<in> set (fields s) \<Longrightarrow> w \<noteq> [] \<and> (\<forall>c \<in> set w. \<not> is_space c)"
  unfolding fields_def by (rule fields_aux_words) auto

lemma fields_append_space:
  assumes "is_space d"
  shows "fields (s @ d # t) = fields s @ fields t"
proof -
  have "fields_aux cur (s @ d # t) = fields_aux cur s @ fields_aux [] t" for cur
    using assms by (induction cur s rule: fields_aux.induct) auto
  then show ?thesis by (simp add: fields_def)
qed

lemma fields_join_space:
  assumes "\<forall>w \<in> set ws. w \<noteq> [] \<and> (\<forall>c \<in> set w. \<not> is_space c)"
  shows "fields (join_with '' '' ws) = ws"
  using assms
proof (induction ws rule: induct_list012)
  case (2 x)
  then show ?case by (simp add: fields_word)
next
  case (3 x y zs)
  have "fields (x @ CHR 0x20 # join_with '' '' (y # zs)) = x # fields (join_with '' '' (y # zs))"
    by (rule fields_word_space) (use 3 in \<open>auto simp: is_space_def\<close>)
  with 3 show ?case by simp
qed simp

subsection \<open>Decimal numbers (\<^verbatim>\<open>%d\<close>)\<close>

definition digit_char :: "nat \<Rightarrow> char" where
  "digit_char d = char_of (48 + d)"

fun nat_dec :: "nat \<Rightarrow> string" where
  "nat_dec n = (if n < 10 then [digit_char n] else nat_dec (n div 10) @ [digit_char (n mod 10)])"

declare nat_dec.simps [simp del]

definition is_digit :: "char \<Rightarrow> bool" where
  "is_digit c \<longleftrightarrow> 48 \<le> (of_char c :: nat) \<and> (of_char c :: nat) \<le> 57"

definition dec_val :: "string \<Rightarrow> nat" where
  "dec_val s = foldl (\<lambda>a c. a * 10 + (of_char c - 48)) 0 s"

lemma of_char_digit [simp]: "d < 10 \<Longrightarrow> (of_char (digit_char d) :: nat) = 48 + d"
  by (simp add: digit_char_def)

lemma dec_val_snoc: "dec_val (s @ [c]) = dec_val s * 10 + (of_char c - 48)"
  by (simp add: dec_val_def)

lemma dec_val_Cons: "dec_val (c # cs) = (of_char c - 48) * 10 ^ length cs + dec_val cs"
proof (induction cs rule: rev_induct)
  case (snoc d cs)
  have "dec_val (c # cs @ [d]) = dec_val (c # cs) * 10 + (of_char d - 48)"
    using dec_val_snoc[of "c # cs" d] by simp
  then show ?case using snoc by (simp add: dec_val_snoc algebra_simps)
qed (simp add: dec_val_def)

lemma dec_val_nat_dec [simp]: "dec_val (nat_dec n) = n"
proof (induction n rule: nat_dec.induct)
  case (1 n)
  show ?case
  proof (cases "n < 10")
    case True
    then show ?thesis by (simp add: nat_dec.simps[of n] dec_val_def)
  next
    case False
    with 1 show ?thesis by (simp add: nat_dec.simps[of n] dec_val_snoc)
  qed
qed

lemma nat_dec_inject [simp]: "nat_dec a = nat_dec b \<longleftrightarrow> a = b"
  using dec_val_nat_dec by metis

lemma nat_dec_digits: "c \<in> set (nat_dec n) \<Longrightarrow> is_digit c"
proof (induction n rule: nat_dec.induct)
  case (1 n)
  show ?case
  proof (cases "n < 10")
    case True
    with "1.prems" show ?thesis by (simp add: nat_dec.simps[of n] is_digit_def)
  next
    case False
    with 1 show ?thesis by (auto simp: nat_dec.simps[of n] is_digit_def)
  qed
qed

lemma nat_dec_nonempty [simp]: "nat_dec n \<noteq> []"
  by (subst nat_dec.simps) simp

text \<open>Decimal with leading zeros, the verb \<^verbatim>\<open>%0wd\<close>.\<close>

definition pad_dec :: "nat \<Rightarrow> nat \<Rightarrow> string" where
  "pad_dec w n = replicate (w - length (nat_dec n)) (CHR ''0'') @ nat_dec n"

section \<open>Paths\<close>

text \<open>
  \<^verbatim>\<open>path.Clean\<close> works component by component: empty components and \<^verbatim>\<open>.\<close> vanish, \<^verbatim>\<open>..\<close>
  removes the component before it, and at the root of an absolute path it vanishes too.
  The accumulator holds the components kept so far, innermost first.
\<close>

definition clean_step :: "bool \<Rightarrow> string list \<Rightarrow> string \<Rightarrow> string list" where
  "clean_step rooted st p =
     (if p = [] \<or> p = ''.'' then st
      else if p = ''..'' then
        (case st of
           [] \<Rightarrow> if rooted then [] else [''..'']
         | t # ts \<Rightarrow> if t = ''..'' then ''..'' # st else ts)
      else p # st)"

definition path_clean :: "string \<Rightarrow> string" where
  "path_clean p =
     (if p = [] then ''.''
      else let rooted = (hd p = CHR ''/'');
               out = join_with ''/'' (rev (foldl (clean_step rooted) [] (split_on (CHR ''/'') p)))
           in if rooted then CHR ''/'' # out else if out = [] then ''.'' else out)"

text \<open>The directory part, with its trailing slash, and the file part (\<^verbatim>\<open>path.Split\<close>).\<close>

definition path_split :: "string \<Rightarrow> string \<times> string" where
  "path_split p =
     (let f = rev (takeWhile (\<lambda>c. c \<noteq> CHR ''/'') (rev p))
      in (take (length p - length f) p, f))"

definition path_dir :: "string \<Rightarrow> string" where
  "path_dir p = path_clean (fst (path_split p))"

definition path_base :: "string \<Rightarrow> string" where
  "path_base p =
     (if p = [] then ''.''
      else let q = trim_right_by (\<lambda>c. c = CHR ''/'') p
           in if q = [] then ''/'' else snd (path_split q))"

definition path_join :: "string list \<Rightarrow> string" where
  "path_join es =
     (let ne = filter (\<lambda>e. e \<noteq> []) es
      in if ne = [] then [] else path_clean (join_with ''/'' ne))"

text \<open>A file name that can stand as one component of a cleaned path.\<close>

definition name_ok :: "string \<Rightarrow> bool" where
  "name_ok n \<longleftrightarrow> n \<noteq> [] \<and> n \<noteq> ''.'' \<and> n \<noteq> ''..'' \<and> CHR ''/'' \<notin> set n"

lemma clean_step_ok:
  assumes "\<forall>n \<in> set st. name_ok n" and "CHR ''/'' \<notin> set p"
  shows "\<forall>n \<in> set (clean_step True st p). name_ok n"
  using assms by (cases st) (auto simp: clean_step_def name_ok_def)

lemma clean_steps_ok:
  "\<forall>n \<in> set st. name_ok n \<Longrightarrow> \<forall>p \<in> set ps. CHR ''/'' \<notin> set p \<Longrightarrow>
   \<forall>n \<in> set (foldl (clean_step True) st ps). name_ok n"
proof (induction ps arbitrary: st)
  case (Cons p ps)
  have "\<forall>n \<in> set (clean_step True st p). name_ok n"
    by (rule clean_step_ok) (use Cons.prems in auto)
  then show ?case using Cons.IH[of "clean_step True st p"] Cons.prems by simp
qed simp

lemma clean_steps_names:
  "\<forall>n \<in> set ps. name_ok n \<Longrightarrow> foldl (clean_step r) st ps = rev ps @ st"
  by (induction ps arbitrary: st) (auto simp: clean_step_def name_ok_def)

lemma clean_step_no_slash:
  assumes "\<forall>n \<in> set st. CHR ''/'' \<notin> set n" and "CHR ''/'' \<notin> set p"
  shows "\<forall>n \<in> set (clean_step r st p). CHR ''/'' \<notin> set n"
  using assms by (cases st) (auto simp: clean_step_def)

lemma clean_steps_no_slash:
  "\<forall>n \<in> set st. CHR ''/'' \<notin> set n \<Longrightarrow> \<forall>p \<in> set ps. CHR ''/'' \<notin> set p \<Longrightarrow>
   \<forall>n \<in> set (foldl (clean_step r) st ps). CHR ''/'' \<notin> set n"
proof (induction ps arbitrary: st)
  case (Cons p ps)
  have "\<forall>n \<in> set (clean_step r st p). CHR ''/'' \<notin> set n"
    by (rule clean_step_no_slash) (use Cons.prems in auto)
  then show ?case using Cons.IH[of "clean_step r st p"] Cons.prems by simp
qed simp

lemma path_join_last:
  assumes "name_ok b"
  shows "last (split_on (CHR ''/'') (path_join [d, b])) = b"
proof -
  let ?r = "hd (d @ CHR ''/'' # b) = CHR ''/''"
  let ?st = "foldl (clean_step ?r) [] (split_on (CHR ''/'') d)"
  have b: "b \<noteq> []" "CHR ''/'' \<notin> set b" "split_on (CHR ''/'') b = [b]"
    and push: "clean_step r st b = b # st" for r st
    using assms by (auto simp: name_ok_def split_on_no_sep clean_step_def)
  show ?thesis
  proof (cases "d = []")
    case True
    have "hd b \<noteq> CHR ''/''" using b(1,2) by (metis hd_in_set)
    with True b push show ?thesis by (simp add: path_join_def path_clean_def Let_def)
  next
    case False
    have st: "\<forall>n \<in> set ?st. CHR ''/'' \<notin> set n"
      by (rule clean_steps_no_slash) (auto dest: split_on_parts)
    have out: "split_on (CHR ''/'') (join_with ''/'' (rev ?st @ [b])) = rev ?st @ [b]"
      by (rule split_on_join) (use st b in auto)
    have ne: "join_with ''/'' (rev ?st @ [b]) \<noteq> []"
      using out b by (metis list.inject self_append_conv2 snoc_eq_iff_butlast split_on.simps(1))
    have clean: "path_join [d, b] =
      (if ?r then CHR ''/'' # join_with ''/'' (rev ?st @ [b]) else join_with ''/'' (rev ?st @ [b]))"
      using False b push ne
      by (cases ?r) (simp_all add: path_join_def path_clean_def Let_def split_on_append)
    show ?thesis unfolding clean using out by (cases ?r) (simp_all del: hd_append)
  qed
qed

lemma path_join_names:
  assumes "\<forall>p \<in> set ps. name_ok p" and "name_ok b"
  shows "path_join [join_with ''/'' ps, b] = join_with ''/'' (ps @ [b])"
proof -
  let ?qs = "ps @ [b]"
  have ok: "\<forall>p \<in> set ?qs. name_ok p" using assms by auto
  have sp: "split_on (CHR ''/'') (join_with ''/'' ?qs) = ?qs"
    by (rule split_on_join) (use ok in \<open>auto simp: name_ok_def\<close>)
  have ne: "join_with ''/'' ?qs \<noteq> []"
    by (rule join_with_nonempty) (use ok in \<open>auto simp: name_ok_def\<close>)
  have hd: "hd (join_with ''/'' ?qs) \<noteq> CHR ''/''"
  proof
    assume "hd (join_with ''/'' ?qs) = CHR ''/''"
    with ne have "hd (split_on (CHR ''/'') (join_with ''/'' ?qs)) = []"
      by (cases "join_with ''/'' ?qs") auto
    with sp have "hd ?qs = []" by simp
    with ok show False by (cases ps) (auto simp: name_ok_def)
  qed
  have "path_clean (join_with ''/'' ?qs) = join_with ''/'' ?qs"
    using ne hd by (simp add: path_clean_def Let_def sp clean_steps_names[OF ok] del: foldl_append)
  moreover have "path_join [join_with ''/'' ps, b] = path_clean (join_with ''/'' ?qs)"
  proof (cases "ps = []")
    case True
    with assms(2) show ?thesis by (simp add: path_join_def name_ok_def)
  next
    case False
    have "join_with ''/'' ps \<noteq> []"
      by (rule join_with_nonempty) (use False assms in \<open>auto simp: name_ok_def\<close>)
    moreover have "join_with ''/'' (xs @ [b]) = join_with ''/'' xs @ ''/'' @ b" if "xs \<noteq> []" for xs
      using that by (induction xs rule: induct_list012) auto
    ultimately show ?thesis using assms(2) False by (simp add: path_join_def name_ok_def)
  qed
  ultimately show ?thesis by simp
qed

section \<open>Byte order\<close>

definition le_bytes :: "nat \<Rightarrow> nat \<Rightarrow> bytes" where
  "le_bytes n v = map (\<lambda>i. word_of_nat (v div 256 ^ i)) [0..<n]"

definition le_val :: "bytes \<Rightarrow> nat" where
  "le_val bs = foldr (\<lambda>b a. unat b + 256 * a) bs 0"

lemma length_le_bytes [simp]: "length (le_bytes n v) = n"
  by (simp add: le_bytes_def)

lemma le_val_simps [simp]: "le_val [] = 0" "le_val (b # bs) = unat b + 256 * le_val bs"
  by (simp_all add: le_val_def)

lemma le_bytes_Suc: "le_bytes (Suc n) v = word_of_nat v # le_bytes n (v div 256)"
proof -
  have "le_bytes (Suc n) v = word_of_nat v # map (\<lambda>i. word_of_nat (v div 256 ^ Suc i)) [0..<n]"
    unfolding le_bytes_def
    by (subst upt_conv_Cons) (simp_all only: map_Suc_upt [symmetric] map_map o_def, simp_all)
  also have "map (\<lambda>i. word_of_nat (v div 256 ^ Suc i)) [0..<n] = le_bytes n (v div 256)"
    by (simp add: le_bytes_def div_mult2_eq)
  finally show ?thesis .
qed

lemma le_val_le_bytes: "le_val (le_bytes n v) = v mod 256 ^ n"
proof (induction n arbitrary: v)
  case 0
  then show ?case by (simp add: le_bytes_def)
next
  case (Suc n)
  have "v mod 256 ^ Suc n = v mod 256 + 256 * (v div 256 mod 256 ^ n)"
    using mod_mult2_eq[of v 256 "256 ^ n"] by simp
  with Suc show ?case by (simp add: le_bytes_Suc unat_of_nat take_bit_eq_mod)
qed

definition le16 :: "u16 \<Rightarrow> bytes" where
  "le16 v = [ucast v, ucast (drop_bit 8 v)]"

definition le32 :: "u32 \<Rightarrow> bytes" where
  "le32 v = [ucast v, ucast (drop_bit 8 v), ucast (drop_bit 16 v), ucast (drop_bit 24 v)]"

definition be32 :: "u32 \<Rightarrow> bytes" where
  "be32 v = [ucast (drop_bit 24 v), ucast (drop_bit 16 v), ucast (drop_bit 8 v), ucast v]"

definition le64 :: "u64 \<Rightarrow> bytes" where
  "le64 v = [ucast v, ucast (drop_bit 8 v), ucast (drop_bit 16 v), ucast (drop_bit 24 v),
     ucast (drop_bit 32 v), ucast (drop_bit 40 v), ucast (drop_bit 48 v), ucast (drop_bit 56 v)]"

lemma ucast_byte: "(ucast (v :: 'a::len word) :: byte) = word_of_nat (unat v)"
  by (simp add: word_eq_iff_unsigned [where 'a = nat] unsigned_ucast_eq unsigned_of_nat)

lemma ucast_drop_bit_byte:
  "(ucast (drop_bit k (v :: 'a::len word)) :: byte) = word_of_nat (unat v div 2 ^ k)"
  by (simp only: ucast_byte unat_drop_bit_eq drop_bit_eq_div [where 'a = nat])

lemma le16_eq: "le16 v = le_bytes 2 (unat v)"
  unfolding le16_def ucast_drop_bit_byte unfolding ucast_byte
  by (simp add: le_bytes_def upt_rec)

lemma le32_eq: "le32 v = le_bytes 4 (unat v)"
  unfolding le32_def ucast_drop_bit_byte unfolding ucast_byte
  by (simp add: le_bytes_def upt_rec)

lemma be32_eq: "be32 v = rev (le_bytes 4 (unat v))"
  unfolding be32_def ucast_drop_bit_byte unfolding ucast_byte
  by (simp add: le_bytes_def upt_rec)

lemma le64_eq: "le64 v = le_bytes 8 (unat v)"
  unfolding le64_def ucast_drop_bit_byte unfolding ucast_byte
  by (simp add: le_bytes_def upt_rec)

lemma length_le [simp]: "length (le16 v) = 2" "length (le32 w) = 4" "length (be32 w) = 4" "length (le64 x) = 8"
  by (simp_all add: le16_def le32_def be32_def le64_def)

lemma le_val_le16 [simp]: "le_val (le16 v) = unat v"
  using unsigned_less[of v, where ?'a = nat] by (simp add: le16_eq le_val_le_bytes)

lemma le_val_le32 [simp]: "le_val (le32 v) = unat v"
  using unsigned_less[of v, where ?'a = nat] by (simp add: le32_eq le_val_le_bytes)

lemma le_val_be32 [simp]: "le_val (rev (be32 v)) = unat v"
  using unsigned_less[of v, where ?'a = nat] by (simp add: be32_eq le_val_le_bytes)

lemma le_val_le64 [simp]: "le_val (le64 v) = unat v"
  using unsigned_less[of v, where ?'a = nat] by (simp add: le64_eq le_val_le_bytes)

text \<open>Text as bytes.\<close>

definition bytes_of :: "string \<Rightarrow> bytes" where
  "bytes_of s = map of_char s"

definition string_of_bytes :: "bytes \<Rightarrow> string" where
  "string_of_bytes bs = map (\<lambda>b. char_of (unat b)) bs"

lemma length_bytes_of [simp]: "length (bytes_of s) = length s"
  by (simp add: bytes_of_def)

lemma unat_of_char: "unat (of_char c :: byte) = of_char c"
proof -
  have "(of_char c :: byte) = word_of_nat (of_char c)"
    by (metis of_nat_of_char)
  moreover have "(of_char c :: nat) < 256" by simp
  ultimately show ?thesis by (simp only: unat_of_nat take_bit_eq_mod) simp
qed

lemma bytes_of_string [simp]: "bytes_of (string_of_bytes b) = b"
proof -
  have "(of_char (char_of (unat x)) :: byte) = x" for x :: byte
  proof -
    have "(of_char (char_of (unat x)) :: byte) = word_of_nat (of_char (char_of (unat x)))"
      by (metis of_nat_of_char)
    also have "\<dots> = x" using unsigned_less[of x, where ?'a = nat] by simp
    finally show ?thesis .
  qed
  then show ?thesis by (simp add: bytes_of_def string_of_bytes_def comp_def)
qed

lemma string_of_bytes_of [simp]: "string_of_bytes (bytes_of s) = s"
  by (induction s) (simp_all add: string_of_bytes_def bytes_of_def unat_of_char)

section \<open>Association lists\<close>

text \<open>
  A Go map is an association list with distinct keys; updates and deletions are those of
  \<open>AList\<close>. No model depends on the order of the list: wherever the code iterates over a
  map it sorts the keys first.
\<close>

lemma map_of_AList_update [simp]: "map_of (AList.update k v al) = (map_of al)(k \<mapsto> v)"
  by (rule update_conv')

lemma map_of_AList_delete [simp]: "map_of (AList.delete k al) = (map_of al)(k := None)"
  by (rule delete_conv')

lemma set_AList_update_subset: "set (AList.update k v al) \<subseteq> insert (k, v) (set al)"
  by (induction al) auto

lemma fst_set_AList_delete: "(a, b) \<in> set (AList.delete k al) \<Longrightarrow> (a, b) \<in> set al \<and> a \<noteq> k"
  by (auto simp: AList.delete_eq)

section \<open>Buffers\<close>

text \<open>A fresh buffer, and the bytes copied into it at an offset.\<close>

definition zeros :: "nat \<Rightarrow> bytes" where
  "zeros n = replicate n 0"

definition patch :: "nat \<times> bytes \<Rightarrow> bytes \<Rightarrow> bytes" where
  "patch = (\<lambda>(o', b) buf. take o' buf @ b @ drop (o' + length b) buf)"

lemma length_patches: "\<forall>(i, b) \<in> set ps. i + length b \<le> length buf \<Longrightarrow> length (fold patch ps buf) = length buf"
proof (induction ps arbitrary: buf)
  case (Cons x ps)
  obtain i b where x: "x = (i, b)" by (cases x)
  have "length (patch x buf) = length buf" using Cons.prems by (simp add: x patch_def)
  with Cons.IH[of "patch x buf"] Cons.prems show ?case by simp
qed simp

lemma take_patch: "n \<le> i \<Longrightarrow> n \<le> length buf \<Longrightarrow> take n (patch (i, b) buf) = take n buf"
  by (simp add: patch_def min_def)

lemma length_zeros [simp]: "length (zeros n) = n"
  by (simp add: zeros_def)

lemma length_patch: "i + length b \<le> length buf \<Longrightarrow> length (patch (i, b) buf) = length buf"
  by (simp add: patch_def)

text \<open>A copy that lands on a piece of the same length replaces that piece.\<close>

lemma patch_mid: "length a = i \<Longrightarrow> length c = length b \<Longrightarrow> patch (i, b) (a @ c @ d) = a @ b @ d"
  by (simp add: patch_def)

text \<open>Reading what was copied, and reading beside it.\<close>

lemma read_patch_same: "i + length b \<le> length buf \<Longrightarrow> length b = n \<Longrightarrow> take n (drop i (patch (i, b) buf)) = b"
  by (simp add: patch_def)

lemma read_patch_other:
  assumes "j + n \<le> i \<or> i + length b \<le> j" "i + length b \<le> length buf"
  shows "take n (drop j (patch (i, b) buf)) = take n (drop j buf)"
proof (cases "j + n \<le> i")
  case True
  then have "take n (drop j (take i buf @ c)) = take n (drop j buf)" for c
    using assms(2) by (simp add: take_drop)
  then show ?thesis by (simp only: patch_def split_conv)
next
  case False
  then have j: "i + length b \<le> j" using assms(1) by simp
  then have "drop j (take i buf @ b @ drop (i + length b) buf) = drop (j - (i + length b)) (drop (i + length b) buf)"
    using assms(2) by simp
  also have "\<dots> = drop j buf" using j by simp
  finally show ?thesis by (simp add: patch_def)
qed

end
