(* ===== verification/Oci_Tree.thy ===== *)
theory Oci_Tree
  imports Prelude
begin

text \<open>
  The reconstructed root file system of \<^verbatim>\<open>internal/oci/unpack.go\<close>: the \<^verbatim>\<open>Node\<close> tree,
  the application of tar entries with OCI overlay semantics (\<^verbatim>\<open>splitClean\<close>, \<^verbatim>\<open>dirOf\<close>,
  \<^verbatim>\<open>applyEntry\<close>, \<^verbatim>\<open>applyLayerFiltered\<close>), \<^verbatim>\<open>Lookup\<close>, \<^verbatim>\<open>Walk\<close>, and the blob stores
  \<^verbatim>\<open>MemStore\<close> and \<^verbatim>\<open>DirStore\<close> behind the \<^verbatim>\<open>BlobStore\<close> interface.

  Nodes are never shared between two parents (every pointer the code stores is fresh), so
  the pointer structure is a tree and in-place mutation is functional update along a path.
\<close>

section \<open>Nodes\<close>

datatype ntype = TypeDir | TypeFile | TypeSymlink | TypeHardlink | TypeChar | TypeBlock | TypeFifo

record node_attrs =
  n_type :: ntype
  n_mode :: int
  n_uid :: int
  n_gid :: int
  n_size :: int
  n_ref :: string
  n_target :: string
  n_devmajor :: int
  n_devminor :: int
  n_xattrs :: "(string \<times> string) list"

datatype node = Node (attrs: node_attrs) (children: "(string \<times> node) list")

abbreviation ntype_of :: "node \<Rightarrow> ntype" where
  "ntype_of n \<equiv> n_type (attrs n)"

abbreviation is_dir :: "node \<Rightarrow> bool" where
  "is_dir n \<equiv> n_type (attrs n) = TypeDir"

definition child :: "node \<Rightarrow> string \<Rightarrow> node option" where
  "child n p = map_of (children n) p"

definition blank_attrs :: node_attrs where
  "blank_attrs = \<lparr>n_type = TypeDir, n_mode = 0, n_uid = 0, n_gid = 0, n_size = 0, n_ref = [],
     n_target = [], n_devmajor = 0, n_devminor = 0, n_xattrs = []\<rparr>"

text \<open>The directory the code makes up where none is there: mode \<^verbatim>\<open>0o755\<close>, no children.\<close>

definition new_dir :: node where
  "new_dir = Node (blank_attrs\<lparr>n_mode := 493\<rparr>) []"

definition set_child :: "node \<Rightarrow> string \<Rightarrow> node \<Rightarrow> node" where
  "set_child n p c = Node (attrs n) (AList.update p c (children n))"

definition del_child :: "node \<Rightarrow> string \<Rightarrow> node" where
  "del_child n p = Node (attrs n) (AList.delete p (children n))"

section \<open>Paths inside the tree\<close>

definition splitClean :: "string \<Rightarrow> string list" where
  "splitClean name =
     (let p = path_clean (CHR ''/'' # name)
      in if p = ''/'' then [] else split_on (CHR ''/'') (trim_prefix p ''/''))"

text \<open>
  \<^verbatim>\<open>dirOf\<close> returns a pointer to the parent of \<open>parts\<close>, making directories on the way, and
  the caller then mutates that parent: here the mutation is the argument \<open>f\<close>. A missing
  component and one that is not a directory are both replaced by a fresh directory.
\<close>

definition dir_child :: "node \<Rightarrow> string \<Rightarrow> node" where
  "dir_child n p = (case child n p of Some c \<Rightarrow> if is_dir c then c else new_dir | None \<Rightarrow> new_dir)"

fun dirOf :: "node \<Rightarrow> string list \<Rightarrow> (node \<Rightarrow> string \<Rightarrow> node) \<Rightarrow> node" where
  "dirOf n [] f = n"
| "dirOf n [name] f = f n name"
| "dirOf n (p # q # ps) f = set_child n p (dirOf (dir_child n p) (q # ps) f)"

fun lookup :: "node \<Rightarrow> string list \<Rightarrow> node option" where
  "lookup n [] = Some n"
| "lookup n (p # ps) =
     (if \<not> is_dir n then None
      else case child n p of None \<Rightarrow> None | Some c \<Rightarrow> lookup c ps)"

definition Lookup :: "node \<Rightarrow> string \<Rightarrow> node option" where
  "Lookup n p = lookup n (splitClean p)"

section \<open>Tar entries\<close>

datatype typeflag = TReg | TDir | TSymlink | TLink | TChar | TBlock | TFifo | TOther

record tar_header =
  h_name :: string
  h_type :: typeflag
  h_mode :: int
  h_uid :: int
  h_gid :: int
  h_link :: string
  h_devmajor :: int
  h_devminor :: int
  h_pax :: "(string \<times> string) list"

text \<open>
  The body of an entry: the bytes the tar reader yields and the error it ends with, if it
  does not end with EOF.
\<close>

type_synonym 'e body = "bytes \<times> 'e option"

definition xattr_prefix :: string where
  "xattr_prefix = ''SCHILY.xattr.''"

definition pax_xattrs :: "(string \<times> string) list \<Rightarrow> (string \<times> string) list" where
  "pax_xattrs pax =
     map (\<lambda>(k, v). (trim_prefix k xattr_prefix, v)) (filter (\<lambda>(k, v). has_prefix k xattr_prefix) pax)"

definition entry_attrs :: "tar_header \<Rightarrow> node_attrs" where
  "entry_attrs h = blank_attrs\<lparr>n_mode := h_mode h, n_uid := h_uid h, n_gid := h_gid h,
     n_xattrs := pax_xattrs (h_pax h)\<rparr>"

definition opaque_marker :: string where
  "opaque_marker = ''.wh..wh..opq''"

definition whiteout_prefix :: string where
  "whiteout_prefix = ''.wh.''"

definition clear_dir :: "node \<Rightarrow> string \<Rightarrow> node" where
  "clear_dir parent name = Node (attrs parent) []"

definition whiteout :: "node \<Rightarrow> string \<Rightarrow> node" where
  "whiteout parent name = del_child parent (trim_prefix name whiteout_prefix)"

definition put_dir :: "tar_header \<Rightarrow> node \<Rightarrow> string \<Rightarrow> node" where
  "put_dir h parent name =
     (case child parent name of
        Some ex \<Rightarrow>
          if is_dir ex then
            set_child parent name
              (Node ((attrs ex)\<lparr>n_mode := h_mode h, n_uid := h_uid h, n_gid := h_gid h,
                       n_xattrs := (if pax_xattrs (h_pax h) \<noteq> [] then pax_xattrs (h_pax h)
                                    else n_xattrs (attrs ex))\<rparr>) (children ex))
          else set_child parent name (Node ((entry_attrs h)\<lparr>n_type := TypeDir\<rparr>) [])
      | None \<Rightarrow> set_child parent name (Node ((entry_attrs h)\<lparr>n_type := TypeDir\<rparr>) []))"

text \<open>The node of an entry that is neither a directory nor a regular file.\<close>

definition special_node :: "tar_header \<Rightarrow> node option" where
  "special_node h =
     (case h_type h of
        TSymlink \<Rightarrow> Some (Node ((entry_attrs h)\<lparr>n_type := TypeSymlink, n_target := h_link h\<rparr>) [])
      | TLink \<Rightarrow> Some (Node ((entry_attrs h)\<lparr>n_type := TypeHardlink,
                   n_target := drop 1 (path_clean (CHR ''/'' # h_link h))\<rparr>) [])
      | TChar \<Rightarrow> Some (Node ((entry_attrs h)\<lparr>n_type := TypeChar,
                   n_devmajor := h_devmajor h, n_devminor := h_devminor h\<rparr>) [])
      | TBlock \<Rightarrow> Some (Node ((entry_attrs h)\<lparr>n_type := TypeBlock,
                   n_devmajor := h_devmajor h, n_devminor := h_devminor h\<rparr>) [])
      | TFifo \<Rightarrow> Some (Node ((entry_attrs h)\<lparr>n_type := TypeFifo\<rparr>) [])
      | _ \<Rightarrow> None)"

definition file_node :: "tar_header \<Rightarrow> string \<Rightarrow> int \<Rightarrow> node" where
  "file_node h ref sz = Node ((entry_attrs h)\<lparr>n_type := TypeFile, n_ref := ref, n_size := sz\<rparr>) []"

definition applyEntry ::
  "('s \<Rightarrow> 'e body \<Rightarrow> 'e + (string \<times> int \<times> 's)) \<Rightarrow> (string \<Rightarrow> bool) option \<Rightarrow>
   tar_header \<times> 'e body \<Rightarrow> node \<times> 's \<Rightarrow> 'e + (node \<times> 's)" where
  "applyEntry put skip = (\<lambda>(h, body) (root, s).
     if h_type h = TReg \<and>
        (case skip of None \<Rightarrow> False | Some sk \<Rightarrow> sk (trim_by (\<lambda>c. c = CHR ''/'') (h_name h)))
     then (case snd body of Some e \<Rightarrow> Inl e | None \<Rightarrow> Inr (root, s))
     else
       let parts = splitClean (h_name h) in
       if parts = [] then
         Inr (if h_type h = TDir
              then Node ((attrs root)\<lparr>n_mode := h_mode h, n_uid := h_uid h, n_gid := h_gid h\<rparr>)
                     (children root)
              else root, s)
       else if last parts = opaque_marker then Inr (dirOf root parts clear_dir, s)
       else if has_prefix (last parts) whiteout_prefix then Inr (dirOf root parts whiteout, s)
       else (case h_type h of
           TDir \<Rightarrow> Inr (dirOf root parts (put_dir h), s)
         | TReg \<Rightarrow>
             (case put s body of
                Inl e \<Rightarrow> Inl e
              | Inr (ref, sz, s') \<Rightarrow>
                  Inr (dirOf root parts (\<lambda>p n. set_child p n (file_node h ref sz)), s'))
         | _ \<Rightarrow>
             (case special_node h of
                Some c \<Rightarrow> Inr (dirOf root parts (\<lambda>p n. set_child p n c), s)
              | None \<Rightarrow> Inr (dirOf root parts (\<lambda>p n. p), s))))"

section \<open>Layers\<close>

datatype compression = Zstd | Gzip | Plain

definition media_compression :: "string \<Rightarrow> compression" where
  "media_compression mt =
     (if contains mt ''zstd'' then Zstd else if contains mt ''gzip'' then Gzip else Plain)"

text \<open>
  What the decoder and \<^verbatim>\<open>archive/tar\<close> make of a layer body: the error of opening the
  decoder, the entries \<^verbatim>\<open>Next\<close> yields, the error that ends them instead of EOF, the errors
  of draining the decoder and the raw stream after the last entry, and that of closing the
  gzip reader.
\<close>

record 'e layer_stream =
  ls_open_err :: "'e option"
  ls_entries :: "(tar_header \<times> 'e body) list"
  ls_next_err :: "'e option"
  ls_decoder_err :: "'e option"
  ls_raw_err :: "'e option"
  ls_gzip_close_err :: "'e option"

datatype 'e layer_error =
    StreamErr 'e
  | EntryErr string 'e
  | DecoderCompletion 'e
  | BlobCompletion 'e

definition finishLayer :: "'e layer_stream \<Rightarrow> 'a \<Rightarrow> 'e layer_error + 'a" where
  "finishLayer ls x =
     (case ls_decoder_err ls of Some e \<Rightarrow> Inl (DecoderCompletion e)
      | None \<Rightarrow> (case ls_raw_err ls of Some e \<Rightarrow> Inl (BlobCompletion e) | None \<Rightarrow> Inr x))"

definition wrap_entry :: "string \<Rightarrow> 'e + 'a \<Rightarrow> 'e layer_error + 'a" where
  "wrap_entry name r = (case r of Inl e \<Rightarrow> Inl (EntryErr name e) | Inr x \<Rightarrow> Inr x)"

definition applyLayerFiltered ::
  "('s \<Rightarrow> 'e body \<Rightarrow> 'e + (string \<times> int \<times> 's)) \<Rightarrow> (string \<Rightarrow> bool) option \<Rightarrow>
   (compression \<Rightarrow> 'r \<Rightarrow> 'e layer_stream) \<Rightarrow> string \<Rightarrow> 'r \<Rightarrow> node \<times> 's \<Rightarrow>
   'e layer_error + (node \<times> 's)" where
  "applyLayerFiltered put skip decode mediaType r st =
     (let cmp = media_compression mediaType; ls = decode cmp r in
      case ls_open_err ls of
        Some e \<Rightarrow> Inl (StreamErr e)
      | None \<Rightarrow>
          bindR (foldR (\<lambda>en st. wrap_entry (h_name (fst en)) (applyEntry put skip en st)) (ls_entries ls) st)
            (\<lambda>st'. case ls_next_err ls of
                Some e \<Rightarrow> Inl (StreamErr e)
              | None \<Rightarrow>
                  bindR (finishLayer ls st')
                    (\<lambda>st''. case (cmp, ls_gzip_close_err ls) of
                        (Gzip, Some e) \<Rightarrow> Inl (StreamErr e)
                      | _ \<Rightarrow> Inr st'')))"

definition applyLayer ::
  "('s \<Rightarrow> 'e body \<Rightarrow> 'e + (string \<times> int \<times> 's)) \<Rightarrow>
   (compression \<Rightarrow> 'r \<Rightarrow> 'e layer_stream) \<Rightarrow> string \<Rightarrow> 'r \<Rightarrow> node \<times> 's \<Rightarrow>
   'e layer_error + (node \<times> 's)" where
  "applyLayer put decode mediaType r st = applyLayerFiltered put None decode mediaType r st"

definition ApplyTarOnto ::
  "('s \<Rightarrow> 'e body \<Rightarrow> 'e + (string \<times> int \<times> 's)) \<Rightarrow>
   (compression \<Rightarrow> 'r \<Rightarrow> 'e layer_stream) \<Rightarrow> 'r \<Rightarrow> node \<times> 's \<Rightarrow>
   'e layer_error + (node \<times> 's)" where
  "ApplyTarOnto put decode r st = applyLayer put decode ''application/x-tar'' r st"

definition ApplyTar ::
  "('s \<Rightarrow> 'e body \<Rightarrow> 'e + (string \<times> int \<times> 's)) \<Rightarrow>
   (compression \<Rightarrow> 'r \<Rightarrow> 'e layer_stream) \<Rightarrow> 'r \<Rightarrow> 's \<Rightarrow>
   'e layer_error + (node \<times> 's)" where
  "ApplyTar put decode r s = applyLayer put decode ''application/x-tar'' r (new_dir, s)"

section \<open>Walk\<close>

definition sorted_children :: "node \<Rightarrow> (string \<times> node) list" where
  "sorted_children d = sort_key fst (children d)"

lemma size_children [termination_simp]: "(k, c) \<in> set (children d) \<Longrightarrow> size c < size d"
proof -
  assume *: "(k, c) \<in> set (children d)"
  have "size_list (size_prod (\<lambda>_. 0) size) (children d) < size d"
    by (cases d) simp
  moreover have "size c \<le> size_list (size_prod (\<lambda>_. 0) size) (children d)"
    using size_list_estimation'[OF *, of "size c" "size_prod (\<lambda>_. 0) size"] by simp
  ultimately show ?thesis by linarith
qed

function walk_seq :: "string \<Rightarrow> node \<Rightarrow> (string \<times> node) list" where
  "walk_seq pre d =
     concat (map (\<lambda>(name, c).
        let p = path_join [pre, name]
        in (p, c) # (if is_dir c then walk_seq p c else [])) (sorted_children d))"
  by pat_completeness auto
termination
  by (relation "measure (\<lambda>(p, d). size d)") (auto simp: sorted_children_def size_children)

declare walk_seq.simps [simp del]

text \<open>\<^verbatim>\<open>Walk\<close> calls back in that order and stops at the first error.\<close>

definition Walk :: "(string \<times> node \<Rightarrow> 'a \<Rightarrow> 'e + 'a) \<Rightarrow> node \<Rightarrow> 'a \<Rightarrow> 'e + 'a" where
  "Walk fn n a = foldR fn (walk_seq [] n) a"

section \<open>Stores\<close>

record memstore =
  blobs :: "bytes list"

definition mem_put :: "memstore \<Rightarrow> 'e body \<Rightarrow> 'e + (string \<times> int \<times> memstore)" where
  "mem_put s r =
     (case snd r of
        Some e \<Rightarrow> Inl e
      | None \<Rightarrow> Inr (CHR ''m'' # nat_dec (length (blobs s)), int (length (fst r)),
                  s\<lparr>blobs := blobs s @ [fst r]\<rparr>))"

text \<open>\<^verbatim>\<open>fmt.Sscanf(ref, "m%d", &i)\<close>: the letter, blanks, a sign, at least one digit.\<close>

definition sscan_m :: "string \<Rightarrow> int option" where
  "sscan_m ref =
     (case ref of
        [] \<Rightarrow> None
      | c # r \<Rightarrow>
          if c \<noteq> CHR ''m'' then None
          else let r1 = dropWhile (\<lambda>c. c = CHR '' '' \<or> c = CHR 0x09) r;
                   neg = (r1 \<noteq> [] \<and> hd r1 = CHR ''-'');
                   r2 = (if r1 \<noteq> [] \<and> (hd r1 = CHR ''-'' \<or> hd r1 = CHR ''+'') then tl r1 else r1);
                   ds = takeWhile is_digit r2
               in if ds = [] then None
                  else Some (if neg then - int (dec_val ds) else int (dec_val ds)))"

definition mem_open :: "memstore \<Rightarrow> string \<Rightarrow> bytes option" where
  "mem_open s ref =
     (case sscan_m ref of
        None \<Rightarrow> None
      | Some i \<Rightarrow> if i < 0 \<or> i \<ge> int (length (blobs s)) then None else Some (blobs s ! nat i))"

text \<open>
  \<^verbatim>\<open>DirStore\<close> writes numbered files. The host file system under it is the map \<open>ds_files\<close>;
  \<open>os_err\<close> says whether the host refuses the \<open>n\<close>-th body (\<^verbatim>\<open>MkdirAll\<close>, \<^verbatim>\<open>Create\<close>,
  \<^verbatim>\<open>Copy\<close> or \<^verbatim>\<open>Close\<close> fails).
\<close>

record dirstore =
  ds_dir :: string
  ds_n :: nat
  ds_files :: "(string \<times> bytes) list"

definition ds_name :: "string \<Rightarrow> nat \<Rightarrow> string" where
  "ds_name dir n = path_join [dir, CHR ''b'' # pad_dec 8 n]"

definition dir_put :: "(nat \<Rightarrow> 'e option) \<Rightarrow> dirstore \<Rightarrow> 'e body \<Rightarrow> 'e + (string \<times> int \<times> dirstore)" where
  "dir_put os_err s r =
     (let n = ds_n s + 1; name = ds_name (ds_dir s) n in
      case os_err n of
        Some e \<Rightarrow> Inl e
      | None \<Rightarrow>
          (case snd r of
             Some e \<Rightarrow> Inl e
           | None \<Rightarrow> Inr (name, int (length (fst r)),
                       s\<lparr>ds_n := n, ds_files := AList.update name (fst r) (ds_files s)\<rparr>)))"

definition dir_open :: "dirstore \<Rightarrow> string \<Rightarrow> bytes option" where
  "dir_open s ref = map_of (ds_files s) ref"

section \<open>Well-formed trees\<close>

text \<open>
  The invariant of the tree: only directories have children, no directory has two children
  of one name, and every name is a single, proper path component; in particular no name is
  \<^verbatim>\<open>..\<close> or contains a slash, so no path assembled from names leaves the tree.
\<close>

function wf_node :: "node \<Rightarrow> bool" where
  "wf_node n \<longleftrightarrow> distinct (map fst (children n)) \<and> (\<not> is_dir n \<longrightarrow> children n = []) \<and>
     (\<forall>kc \<in> set (children n). name_ok (fst kc) \<and> wf_node (snd kc))"
  by pat_completeness auto
termination
  by (relation "measure size") (auto intro: size_children)

declare wf_node.simps [simp del]

lemma wf_nodeI:
  assumes "distinct (map fst (children n))" and "\<not> is_dir n \<Longrightarrow> children n = []"
    and "\<And>k c. (k, c) \<in> set (children n) \<Longrightarrow> name_ok k \<and> wf_node c"
  shows "wf_node n"
  using assms by (subst wf_node.simps) auto

lemma wf_node_distinct: "wf_node n \<Longrightarrow> distinct (map fst (children n))"
  by (subst (asm) wf_node.simps) simp

lemma wf_node_leaf: "wf_node n \<Longrightarrow> \<not> is_dir n \<Longrightarrow> children n = []"
  by (subst (asm) wf_node.simps) simp

lemma wf_node_child: "wf_node n \<Longrightarrow> (k, c) \<in> set (children n) \<Longrightarrow> name_ok k \<and> wf_node c"
  by (subst (asm) wf_node.simps) auto

lemma child_in_children: "child n p = Some c \<Longrightarrow> (p, c) \<in> set (children n)"
  by (simp add: child_def map_of_SomeD)

lemma wf_child: "wf_node n \<Longrightarrow> child n p = Some c \<Longrightarrow> name_ok p \<and> wf_node c"
  using wf_node_child[OF _ child_in_children] .

lemma attrs_set_child [simp]: "attrs (set_child n p c) = attrs n"
  by (simp add: set_child_def)

lemma attrs_del_child [simp]: "attrs (del_child n p) = attrs n"
  by (simp add: del_child_def)

lemma child_set_child [simp]: "child (set_child n p c) q = (if q = p then Some c else child n q)"
  by (simp add: child_def set_child_def)

lemma child_del_child [simp]: "child (del_child n p) q = (if q = p then None else child n q)"
  by (simp add: child_def del_child_def)

lemma new_dir_simps [simp]:
  "attrs new_dir = blank_attrs\<lparr>n_mode := 493\<rparr>" "children new_dir = []" "child new_dir p = None"
  by (simp_all add: new_dir_def child_def)

lemma blank_dir [simp]: "n_type blank_attrs = TypeDir"
  by (simp add: blank_attrs_def)

lemma entry_attrs_dir [simp]: "n_type (entry_attrs h) = TypeDir"
  by (simp add: entry_attrs_def)

lemma wf_leaf: "children n = [] \<Longrightarrow> wf_node n"
  by (rule wf_nodeI) auto

lemma wf_new_dir [simp]: "wf_node new_dir"
  by (rule wf_leaf) simp

lemma wf_set_child:
  assumes "wf_node n" "is_dir n" "name_ok p" "wf_node c"
  shows "wf_node (set_child n p c)"
proof (rule wf_nodeI)
  show "distinct (map fst (children (set_child n p c)))"
    using assms(1) by (simp add: set_child_def distinct_update wf_node_distinct)
next
  fix k d
  assume "(k, d) \<in> set (children (set_child n p c))"
  then have "(k, d) = (p, c) \<or> (k, d) \<in> set (children n)"
    using set_AList_update_subset[of p c "children n"] by (auto simp: set_child_def)
  then show "name_ok k \<and> wf_node d"
    using assms wf_node_child by blast
qed (use assms in simp)

lemma wf_del_child:
  assumes "wf_node n"
  shows "wf_node (del_child n p)"
proof (rule wf_nodeI)
  show "distinct (map fst (children (del_child n p)))"
    using assms by (simp add: del_child_def distinct_delete wf_node_distinct)
next
  fix k d
  assume "(k, d) \<in> set (children (del_child n p))"
  then have "(k, d) \<in> set (children n)"
    using fst_set_AList_delete[of k d p "children n"] by (simp add: del_child_def)
  then show "name_ok k \<and> wf_node d"
    by (rule wf_node_child[OF assms])
qed (use assms wf_node_leaf[of n] in \<open>simp add: del_child_def\<close>)

lemma wf_attrs:
  "wf_node n \<Longrightarrow> n_type a = ntype_of n \<Longrightarrow> wf_node (Node a (children n))"
  by (rule wf_nodeI) (auto dest: wf_node_distinct wf_node_leaf wf_node_child)

lemma dir_child_dir [simp]: "is_dir (dir_child n p)"
  by (simp add: dir_child_def split: option.split)

lemma wf_dir_child: "wf_node n \<Longrightarrow> wf_node (dir_child n p)"
  by (auto simp: dir_child_def dest: wf_child split: option.split)

lemma dirOf_wf:
  assumes "wf_node n" "is_dir n" "parts \<noteq> []" "\<forall>p \<in> set parts. name_ok p"
    and "\<And>p. wf_node p \<Longrightarrow> is_dir p \<Longrightarrow> wf_node (f p (last parts)) \<and> is_dir (f p (last parts))"
  shows "wf_node (dirOf n parts f) \<and> is_dir (dirOf n parts f)"
  using assms
proof (induction n parts f rule: dirOf.induct)
  case (3 n p q ps f)
  then have "wf_node (dirOf (dir_child n p) (q # ps) f)"
    by (simp add: wf_dir_child)
  with 3 show ?case by (simp add: wf_set_child)
qed auto

subsection \<open>Clean paths\<close>

lemma splitClean_eq: "splitClean s = rev (foldl (clean_step True) [] (split_on (CHR ''/'') s))"
proof -
  let ?xs = "rev (foldl (clean_step True) [] (split_on (CHR ''/'') s))"
  have ok: "\<forall>n \<in> set ?xs. name_ok n"
    using clean_steps_ok[of "[]" "split_on (CHR ''/'') s"] by (auto dest: split_on_parts)
  have p: "path_clean (CHR ''/'' # s) = CHR ''/'' # join_with ''/'' ?xs"
    by (simp add: path_clean_def clean_step_def Let_def)
  show ?thesis
  proof (cases "?xs = []")
    case True
    with p show ?thesis by (simp add: splitClean_def)
  next
    case False
    have "join_with ''/'' ?xs \<noteq> []"
      by (rule join_with_nonempty) (use False ok in \<open>auto simp: name_ok_def\<close>)
    moreover have "split_on (CHR ''/'') (join_with ''/'' ?xs) = ?xs"
      by (rule split_on_join) (use False ok in \<open>auto simp: name_ok_def\<close>)
    ultimately show ?thesis
      unfolding splitClean_def p by (simp add: trim_prefix_def)
  qed
qed

lemma splitClean_ok: "p \<in> set (splitClean s) \<Longrightarrow> name_ok p"
  unfolding splitClean_eq
  using clean_steps_ok[of "[]" "split_on (CHR ''/'') s"] by (auto dest: split_on_parts)

lemma splitClean_names:
  assumes "\<forall>p \<in> set ps. name_ok p"
  shows "splitClean (join_with ''/'' ps) = ps"
proof (cases "ps = []")
  case True
  then show ?thesis by (simp add: splitClean_eq clean_step_def)
next
  case False
  then have "split_on (CHR ''/'') (join_with ''/'' ps) = ps"
    using assms by (intro split_on_join) (auto simp: name_ok_def)
  then show ?thesis by (simp add: splitClean_eq clean_steps_names assms)
qed

lemma splitClean_name: "name_ok p \<Longrightarrow> splitClean p = [p]"
  using splitClean_names[of "[p]"] by simp

subsection \<open>Looking up after a mutation\<close>

lemma lookup_append: "lookup n (ps @ qs) = (case lookup n ps of None \<Rightarrow> None | Some m \<Rightarrow> lookup m qs)"
  by (induction n ps rule: lookup.induct) (auto split: option.split)

lemma wf_lookup: "wf_node n \<Longrightarrow> lookup n ps = Some m \<Longrightarrow> wf_node m"
  by (induction n ps rule: lookup.induct) (auto dest: wf_child split: if_splits option.splits)

lemma lookup_names: "wf_node n \<Longrightarrow> lookup n ps = Some m \<Longrightarrow> \<forall>p \<in> set ps. name_ok p"
  by (induction n ps rule: lookup.induct) (auto dest: wf_child split: if_splits option.splits)

text \<open>The directory \<^verbatim>\<open>dirOf\<close> hands to its caller.\<close>

fun parent_dir :: "node \<Rightarrow> string list \<Rightarrow> node" where
  "parent_dir n [] = n"
| "parent_dir n [name] = n"
| "parent_dir n (p # q # ps) = parent_dir (dir_child n p) (q # ps)"

lemma dirOf_parent:
  assumes "is_dir n" "parts \<noteq> []"
  shows "lookup (dirOf n parts f) (butlast parts) = Some (f (parent_dir n parts) (last parts))"
  using assms by (induction n parts f rule: dirOf.induct) auto

lemma parent_dir_dir: "is_dir n \<Longrightarrow> is_dir (parent_dir n parts)"
  by (induction n parts rule: parent_dir.induct) auto

lemma wf_parent_dir: "wf_node n \<Longrightarrow> wf_node (parent_dir n parts)"
  by (induction n parts rule: parent_dir.induct) (auto simp: wf_dir_child)

lemma parent_dir_lookup:
  assumes "is_dir n" "lookup n (butlast parts) = Some d" "is_dir d"
  shows "parent_dir n parts = d"
  using assms
proof (induction n parts rule: parent_dir.induct)
  case (3 n p q ps)
  then show ?case by (auto simp: dir_child_def split: option.splits if_splits)
qed auto

text \<open>
  A mutation that touches only the child \<open>t\<close> of the parent changes the lookup of no path
  that is incomparable with the touched one.
\<close>

lemma lookup_incomparable_Cons:
  "\<not> prefix (p # ps) (q # qs) \<Longrightarrow> p = q \<Longrightarrow> \<not> prefix ps qs"
  by simp

lemma dirOf_frame:
  assumes "is_dir n" "parts \<noteq> []"
    and "\<And>p. is_dir p \<Longrightarrow> is_dir (f p (last parts))"
    and "\<And>p m. m \<noteq> t \<Longrightarrow> child (f p (last parts)) m = child p m"
    and "\<not> prefix q (butlast parts @ [t])" "\<not> prefix (butlast parts @ [t]) q"
  shows "lookup (dirOf n parts f) q = lookup n q"
  using assms
proof (induction n parts f arbitrary: q rule: dirOf.induct)
  case (2 n name f)
  then show ?case by (cases q) auto
next
  case (3 n p r ps f)
  show ?case
  proof (cases q)
    case Nil
    with 3 show ?thesis by simp
  next
    case (Cons h q')
    show ?thesis
    proof (cases "h = p")
      case False
      with Cons "3.prems" show ?thesis by simp
    next
      case True
      have inc: "\<not> prefix q' (butlast (r # ps) @ [t])" "\<not> prefix (butlast (r # ps) @ [t]) q'"
        using "3.prems"(5,6) Cons True by auto
      have IH: "lookup (dirOf (dir_child n p) (r # ps) f) q' = lookup (dir_child n p) q'"
        by (rule "3.IH"[OF _ _ _ _ inc]) (use "3.prems" in auto)
      have ne: "q' \<noteq> []" using inc(1) by auto
      have "lookup (dir_child n p) q' = (case child n p of None \<Rightarrow> None | Some c \<Rightarrow> lookup c q')"
        using ne by (cases q') (auto simp: dir_child_def split: option.split)
      with IH Cons True "3.prems"(1) show ?thesis by simp
    qed
  qed
qed simp

lemma dirOf_frame_subtree:
  assumes "is_dir n" "parts \<noteq> []" "\<And>p. is_dir p \<Longrightarrow> is_dir (f p (last parts))"
    and "\<not> prefix q (butlast parts)" "\<not> prefix (butlast parts) q"
  shows "lookup (dirOf n parts f) q = lookup n q"
  using assms
proof (induction n parts f arbitrary: q rule: dirOf.induct)
  case (3 n p r ps f)
  from "3.prems"(4) obtain h q' where q: "q = h # q'" by (cases q) auto
  show ?case
  proof (cases "h = p")
    case False
    with q "3.prems" show ?thesis by simp
  next
    case True
    have inc: "\<not> prefix q' (butlast (r # ps))" "\<not> prefix (butlast (r # ps)) q'"
      using "3.prems"(4,5) q True by auto
    have IH: "lookup (dirOf (dir_child n p) (r # ps) f) q' = lookup (dir_child n p) q'"
      by (rule "3.IH"[OF _ _ _ inc]) (use "3.prems" in auto)
    have "q' \<noteq> []" using inc(1) by auto
    then have "lookup (dir_child n p) q' = (case child n p of None \<Rightarrow> None | Some c \<Rightarrow> lookup c q')"
      by (cases q') (auto simp: dir_child_def split: option.split)
    with IH q True "3.prems"(1) show ?thesis by simp
  qed
qed simp_all

lemma dirOf_child:
  assumes "is_dir n" "parts \<noteq> []" "is_dir (f (parent_dir n parts) (last parts))"
  shows "lookup (dirOf n parts f) (butlast parts @ [t]) = child (f (parent_dir n parts) (last parts)) t"
  using assms by (simp add: lookup_append dirOf_parent split: option.split)

subsection \<open>Facts about every node of a tree\<close>

function all_nodes :: "(node_attrs \<Rightarrow> bool) \<Rightarrow> node \<Rightarrow> bool" where
  "all_nodes P n \<longleftrightarrow> P (attrs n) \<and> (\<forall>kc \<in> set (children n). all_nodes P (snd kc))"
  by pat_completeness auto
termination
  by (relation "measure (size \<circ> snd)") (auto intro: size_children)

declare all_nodes.simps [simp del]

lemma all_nodesI:
  "P (attrs n) \<Longrightarrow> (\<And>k c. (k, c) \<in> set (children n) \<Longrightarrow> all_nodes P c) \<Longrightarrow> all_nodes P n"
  by (subst all_nodes.simps) auto

lemma all_nodes_attrs: "all_nodes P n \<Longrightarrow> P (attrs n)"
  by (subst (asm) all_nodes.simps) simp

lemma all_nodes_children: "all_nodes P n \<Longrightarrow> (k, c) \<in> set (children n) \<Longrightarrow> all_nodes P c"
  by (subst (asm) all_nodes.simps) auto

lemma all_nodes_leaf: "children n = [] \<Longrightarrow> P (attrs n) \<Longrightarrow> all_nodes P n"
  by (rule all_nodesI) auto

lemma all_nodes_child: "all_nodes P n \<Longrightarrow> child n p = Some c \<Longrightarrow> all_nodes P c"
  using all_nodes_children[OF _ child_in_children] .

lemma all_nodes_set_child:
  assumes "all_nodes P n" "all_nodes P c"
  shows "all_nodes P (set_child n p c)"
proof (rule all_nodesI)
  show "P (attrs (set_child n p c))" using assms(1) by (simp add: all_nodes_attrs)
  fix k d
  assume "(k, d) \<in> set (children (set_child n p c))"
  then have "(k, d) = (p, c) \<or> (k, d) \<in> set (children n)"
    using set_AList_update_subset[of p c "children n"] by (auto simp: set_child_def)
  then show "all_nodes P d" using assms all_nodes_children by blast
qed

lemma all_nodes_del_child:
  assumes "all_nodes P n"
  shows "all_nodes P (del_child n p)"
proof (rule all_nodesI)
  show "P (attrs (del_child n p))" using assms by (simp add: all_nodes_attrs)
  fix k d
  assume "(k, d) \<in> set (children (del_child n p))"
  then have "(k, d) \<in> set (children n)"
    using fst_set_AList_delete[of k d p "children n"] by (simp add: del_child_def)
  then show "all_nodes P d" by (rule all_nodes_children[OF assms])
qed

lemma all_nodes_lookup: "all_nodes P n \<Longrightarrow> lookup n ps = Some m \<Longrightarrow> all_nodes P m"
  by (induction n ps rule: lookup.induct) (auto dest: all_nodes_child split: if_splits option.splits)

lemma all_nodes_mono:
  assumes "all_nodes P n" "\<And>a. P a \<Longrightarrow> Q a"
  shows "all_nodes Q n"
  using assms
proof (induction n rule: wf_node.induct)
  case (1 n)
  show ?case
    by (rule all_nodesI) (use 1 all_nodes_attrs all_nodes_children in \<open>fastforce+\<close>)
qed

lemma all_nodes_dirOf:
  assumes "all_nodes P n" "parts \<noteq> []" "P (attrs new_dir)"
    and "\<And>p. all_nodes P p \<Longrightarrow> all_nodes P (f p (last parts))"
  shows "all_nodes P (dirOf n parts f)"
  using assms
proof (induction n parts f rule: dirOf.induct)
  case (3 n p q ps f)
  have "all_nodes P (dir_child n p)"
    using "3.prems"(1,3) by (auto simp: dir_child_def dest: all_nodes_child
        intro: all_nodes_leaf split: option.split)
  then have "all_nodes P (dirOf (dir_child n p) (q # ps) f)"
    by (rule "3.IH") (use "3.prems" in auto)
  with "3.prems"(1) show ?case by (simp add: all_nodes_set_child)
qed auto

section \<open>One entry\<close>

text \<open>The ways an entry can be applied, one per return of \<^verbatim>\<open>applyEntry\<close>.\<close>

lemma applyEntry_elim [consumes 1, case_names Skip Root Opaque Whiteout Dir Reg Special Other]:
  assumes "applyEntry put skip (h, body) (root, s) = Inr (root', s')"
  obtains
    "root' = root" "s' = s"
  | a where "splitClean (h_name h) = []" "root' = Node a (children root)" "n_type a = ntype_of root"
      "s' = s"
  | "splitClean (h_name h) \<noteq> []" "last (splitClean (h_name h)) = opaque_marker"
      "root' = dirOf root (splitClean (h_name h)) clear_dir" "s' = s"
  | "splitClean (h_name h) \<noteq> []" "last (splitClean (h_name h)) \<noteq> opaque_marker"
      "has_prefix (last (splitClean (h_name h))) whiteout_prefix"
      "root' = dirOf root (splitClean (h_name h)) whiteout" "s' = s"
  | "splitClean (h_name h) \<noteq> []" "h_type h = TDir"
      "\<not> has_prefix (last (splitClean (h_name h))) whiteout_prefix"
      "root' = dirOf root (splitClean (h_name h)) (put_dir h)" "s' = s"
  | ref sz where "splitClean (h_name h) \<noteq> []" "h_type h = TReg"
      "\<not> has_prefix (last (splitClean (h_name h))) whiteout_prefix"
      "put s body = Inr (ref, sz, s')"
      "root' = dirOf root (splitClean (h_name h)) (\<lambda>p n. set_child p n (file_node h ref sz))"
  | c where "splitClean (h_name h) \<noteq> []" "special_node h = Some c"
      "\<not> has_prefix (last (splitClean (h_name h))) whiteout_prefix"
      "root' = dirOf root (splitClean (h_name h)) (\<lambda>p n. set_child p n c)" "s' = s"
  | "splitClean (h_name h) \<noteq> []" "\<not> has_prefix (last (splitClean (h_name h))) whiteout_prefix"
      "root' = dirOf root (splitClean (h_name h)) (\<lambda>p n. p)" "s' = s"
proof -
  let ?parts = "splitClean (h_name h)"
  let ?skip = "h_type h = TReg \<and>
    (case skip of None \<Rightarrow> False | Some sk \<Rightarrow> sk (trim_by (\<lambda>c. c = CHR ''/'') (h_name h)))"
  consider "?skip" | "\<not> ?skip" "?parts = []" | "\<not> ?skip" "?parts \<noteq> []" by blast
  then show thesis
  proof cases
    case 1
    with assms show thesis
      by (intro that(1)) (auto simp: applyEntry_def split: option.splits)
  next
    case 2
    with assms have "root' = (if h_type h = TDir
        then Node ((attrs root)\<lparr>n_mode := h_mode h, n_uid := h_uid h, n_gid := h_gid h\<rparr>) (children root)
        else root)" "s' = s"
      by (auto simp: applyEntry_def)
    then show thesis
      by (cases root; cases "h_type h = TDir") (auto intro: that(2)[OF 2(2)])
  next
    case 3
    from assms have eq: "(if last ?parts = opaque_marker then Inr (dirOf root ?parts clear_dir, s)
       else if has_prefix (last ?parts) whiteout_prefix then Inr (dirOf root ?parts whiteout, s)
       else (case h_type h of
           TDir \<Rightarrow> Inr (dirOf root ?parts (put_dir h), s)
         | TReg \<Rightarrow>
             (case put s body of
                Inl e \<Rightarrow> Inl e
              | Inr (ref, sz, s') \<Rightarrow>
                  Inr (dirOf root ?parts (\<lambda>p n. set_child p n (file_node h ref sz)), s'))
         | _ \<Rightarrow>
             (case special_node h of
                Some c \<Rightarrow> Inr (dirOf root ?parts (\<lambda>p n. set_child p n c), s)
              | None \<Rightarrow> Inr (dirOf root ?parts (\<lambda>p n. p), s)))) = Inr (root', s')"
      unfolding applyEntry_def split_conv Let_def if_not_P[OF 3(1)] if_not_P[OF 3(2)] .
    consider "last ?parts = opaque_marker"
      | "last ?parts \<noteq> opaque_marker" "has_prefix (last ?parts) whiteout_prefix"
      | "last ?parts \<noteq> opaque_marker" "\<not> has_prefix (last ?parts) whiteout_prefix"
      by blast
    then show thesis
    proof cases
      case 1
      with eq show thesis by (intro that(3)[OF 3(2) 1]) auto
    next
      case 2
      with eq show thesis by (intro that(4)[OF 3(2) 2]) auto
    next
      case w: 3
      note eq' = eq[unfolded if_not_P[OF w(1)] if_not_P[OF w(2)]]
      show thesis
      proof (cases "h_type h")
        case TReg
        with eq' obtain ref sz s1 where "put s body = Inr (ref, sz, s1)"
          "root' = dirOf root ?parts (\<lambda>p n. set_child p n (file_node h ref sz))" "s1 = s'"
          by (auto split: sum.splits)
        then show thesis using that(6)[OF 3(2) TReg w(2)] by blast
      next
        case TDir
        with eq' show thesis by (intro that(5)[OF 3(2) TDir w(2)]) auto
      qed (use eq' in \<open>auto split: option.splits intro: that(7)[OF 3(2) _ w(2)] that(8)[OF 3(2) w(2)]\<close>)
    qed
  qed
qed

lemma special_node_leaf: "special_node h = Some c \<Longrightarrow> children c = [] \<and> ntype_of c \<noteq> TypeFile"
  by (auto simp: special_node_def split: typeflag.splits)

lemma put_dir_dir: "attrs (put_dir h p n) = attrs p"
  by (auto simp: put_dir_def split: option.splits)

lemma put_dir_wf:
  assumes "wf_node p" "is_dir p" "name_ok n"
  shows "wf_node (put_dir h p n)"
proof -
  have "wf_node (Node ((attrs ex)\<lparr>n_mode := m, n_uid := u, n_gid := g, n_xattrs := x\<rparr>) (children ex))"
    if "child p n = Some ex" for ex m u g x
    using wf_child[OF assms(1) that] by (intro wf_attrs) auto
  then show ?thesis
    using assms by (simp add: put_dir_def wf_set_child wf_leaf split: option.split)
qed

lemma applyEntry_wf_aux:
  assumes "applyEntry put skip (h, body) (root, s) = Inr (root', s')"
    and "wf_node root" "is_dir root"
  shows "wf_node root' \<and> is_dir root'"
proof -
  let ?parts = "splitClean (h_name h)"
  have ok: "\<forall>p \<in> set ?parts. name_ok p" by (simp add: splitClean_ok)
  have via: "wf_node (dirOf root ?parts f) \<and> is_dir (dirOf root ?parts f)"
    if "?parts \<noteq> []" "\<And>p. wf_node p \<Longrightarrow> is_dir p \<Longrightarrow> name_ok (last ?parts) \<Longrightarrow>
      wf_node (f p (last ?parts)) \<and> is_dir (f p (last ?parts))" for f
    by (rule dirOf_wf[OF assms(2,3) that(1) ok]) (use that ok in auto)
  from assms(1) show ?thesis
  proof (cases rule: applyEntry_elim)
    case (Root a)
    with assms(2,3) show ?thesis by (simp add: wf_attrs)
  next
    case Opaque
    then show ?thesis by (simp add: via clear_dir_def wf_leaf)
  next
    case Whiteout
    then show ?thesis by (simp add: via whiteout_def wf_del_child)
  next
    case Dir
    then show ?thesis by (simp add: via put_dir_wf put_dir_dir)
  next
    case (Reg ref sz)
    then show ?thesis by (simp add: via wf_set_child wf_leaf file_node_def)
  next
    case (Special c)
    then show ?thesis by (simp add: via wf_set_child wf_leaf special_node_leaf)
  next
    case Other
    then show ?thesis by (simp add: via)
  qed (use assms in auto)
qed

lemma applyLayerFiltered_fold:
  assumes "applyLayerFiltered put skip decode mt r st = Inr st'"
  shows "foldR (\<lambda>en st. wrap_entry (h_name (fst en)) (applyEntry put skip en st))
           (ls_entries (decode (media_compression mt) r)) st = Inr st'"
    and "ls_open_err (decode (media_compression mt) r) = None"
    and "ls_next_err (decode (media_compression mt) r) = None"
    and "ls_decoder_err (decode (media_compression mt) r) = None"
    and "ls_raw_err (decode (media_compression mt) r) = None"
  using assms
  by (auto simp: applyLayerFiltered_def Let_def finishLayer_def bindR_Inr_iff
      split: option.splits compression.splits)

lemma wrap_entry_Inr [simp]: "wrap_entry n r = Inr x \<longleftrightarrow> r = Inr x"
  by (auto simp: wrap_entry_def split: sum.splits)

lemma applyLayerFiltered_invariant:
  assumes "applyLayerFiltered put skip decode mt r (root, s) = Inr (root', s')" and "P root s"
    and "\<And>h body n t n' t'. P n t \<Longrightarrow> applyEntry put skip (h, body) (n, t) = Inr (n', t') \<Longrightarrow> P n' t'"
  shows "P root' s'"
proof -
  have "case_prod P (root', s')"
    by (rule foldR_invariant[OF applyLayerFiltered_fold(1)[OF assms(1)]])
      (use assms(2,3) in \<open>auto\<close>)
  then show ?thesis by simp
qed

text \<open>
  C1. Applying a whole layer keeps the tree well-formed: whatever names the archive holds
  (\<^verbatim>\<open>..\<close>, absolute, empty components), the tree stays a directory tree with distinct, proper
  names, so nothing an entry says can escape the root.
\<close>

theorem applyLayer_keeps_wf:
  assumes "applyLayerFiltered put skip decode mt r (root, s) = Inr (root', s')"
    and "wf_node root" "is_dir root"
  shows "wf_node root' \<and> is_dir root'"
  by (rule applyLayerFiltered_invariant[OF assms(1), where P = "\<lambda>n _. wf_node n \<and> is_dir n"])
    (use assms(2,3) in \<open>auto dest: applyEntry_wf_aux\<close>)



text \<open>Concrete archive entries for the witnesses.\<close>

definition sample_hdr :: "string \<Rightarrow> typeflag \<Rightarrow> tar_header" where
  "sample_hdr name t = \<lparr>h_name = name, h_type = t, h_mode = 420, h_uid = 0, h_gid = 0, h_link = ''x'',
     h_devmajor = 0, h_devminor = 0, h_pax = []\<rparr>"

definition sample_layer :: "string layer_stream" where
  "sample_layer = \<lparr>ls_open_err = None,
     ls_entries = [(sample_hdr ''../../etc/passwd'' TReg, ([1, 2, 3], None)),
       (sample_hdr ''etc/.wh.shadow'' TReg, ([], None)), (sample_hdr ''a//b'' TDir, ([], None))],
     ls_next_err = None, ls_decoder_err = None, ls_raw_err = None, ls_gzip_close_err = None\<rparr>"

definition empty_mem :: memstore where
  "empty_mem = \<lparr>blobs = []\<rparr>"

definition sample_result :: "string layer_error + (node \<times> memstore)" where
  "sample_result = applyLayerFiltered mem_put None (\<lambda>_ _. sample_layer) ''tar'' () (new_dir, empty_mem)"

definition sample_root :: node where
  "sample_root = (case sample_result of Inr (r, _) \<Rightarrow> r | Inl _ \<Rightarrow> new_dir)"

lemma sample_layer_ok: "sample_result = Inr (sample_root, \<lparr>blobs = [[1, 2, 3]]\<rparr>)"
  by code_simp

lemma sample_root_wf: "wf_node sample_root"
  by code_simp

theorem applyLayer_keeps_wf_witness:
  "wf_node sample_root \<and> is_dir sample_root \<and> Lookup sample_root ''etc/passwd'' \<noteq> None"
proof -
  have "wf_node sample_root \<and> is_dir sample_root"
    by (rule applyLayer_keeps_wf[OF sample_layer_ok[unfolded sample_result_def]]) simp_all
  moreover have "Lookup sample_root ''etc/passwd'' \<noteq> None" by code_simp
  ultimately show ?thesis by blast
qed



end
