(* ===== verification/Oci_Walk.thy ===== *)
theory Oci_Walk
  imports Oci_Tree
begin

text \<open>
  \<^verbatim>\<open>Node.Walk\<close> (\<^verbatim>\<open>internal/oci/unpack.go\<close>): which nodes it visits and in which order. The
  image writers rely on both: every node is written once, and two builds of one image write
  the same bytes.
\<close>

lemma join_append_name:
  "\<forall>p \<in> set ps. name_ok p \<Longrightarrow> name_ok b \<Longrightarrow> path_join [join_with ''/'' ps, b] = join_with ''/'' (ps @ [b])"
  by (rule path_join_names)

lemma walk_seq_at:
  assumes "\<forall>p \<in> set ps. name_ok p" "wf_node d"
  shows "walk_seq (join_with ''/'' ps) d =
    concat (map (\<lambda>(name, c). (join_with ''/'' (ps @ [name]), c) #
      (if is_dir c then walk_seq (join_with ''/'' (ps @ [name])) c else [])) (sorted_children d))"
proof -
  have "map (\<lambda>(name, c). let p = path_join [join_with ''/'' ps, name]
           in (p, c) # (if is_dir c then walk_seq p c else [])) (sorted_children d)
      = map (\<lambda>(name, c). (join_with ''/'' (ps @ [name]), c) #
          (if is_dir c then walk_seq (join_with ''/'' (ps @ [name])) c else [])) (sorted_children d)"
  proof (rule map_cong[OF refl])
    fix kc
    assume "kc \<in> set (sorted_children d)"
    then have "name_ok (fst kc)"
      using assms(2) wf_node_child[of d "fst kc" "snd kc"] by (simp add: sorted_children_def)
    then show "(case kc of (name, c) \<Rightarrow> let p = path_join [join_with ''/'' ps, name]
           in (p, c) # (if is_dir c then walk_seq p c else []))
      = (case kc of (name, c) \<Rightarrow> (join_with ''/'' (ps @ [name]), c) #
          (if is_dir c then walk_seq (join_with ''/'' (ps @ [name])) c else []))"
      using join_append_name[OF assms(1)] by (cases kc) (simp add: Let_def)
  qed
  then show ?thesis by (subst walk_seq.simps) (simp only:)
qed

lemma child_iff: "wf_node d \<Longrightarrow> child d k = Some c \<longleftrightarrow> (k, c) \<in> set (sorted_children d)"
  by (simp add: child_def sorted_children_def wf_node_distinct)

lemma walk_seq_mem:
  assumes "wf_node d" "\<forall>p \<in> set ps. name_ok p"
  shows "(p, m) \<in> set (walk_seq (join_with ''/'' ps) d) \<longleftrightarrow>
     (\<exists>qs. qs \<noteq> [] \<and> p = join_with ''/'' (ps @ qs) \<and> lookup d qs = Some m)"
  using assms
proof (induction d arbitrary: ps rule: measure_induct_rule[where f = size])
  case (less d)
  have IH: "(p, m) \<in> set (walk_seq (join_with ''/'' (ps @ [k])) c) \<longleftrightarrow>
      (\<exists>qs. qs \<noteq> [] \<and> p = join_with ''/'' (ps @ k # qs) \<and> lookup c qs = Some m)"
    if "(k, c) \<in> set (children d)" for k c
    using less.IH[OF size_children[OF that], of "ps @ [k]"] less.prems
      wf_node_child[OF less.prems(1) that] by simp
  have step: "lookup d (k # qs) = Some m \<longleftrightarrow>
      (\<exists>c. (k, c) \<in> set (children d) \<and> (if qs = [] then c = m else is_dir c \<and> lookup c qs = Some m))"
    for k qs
  proof -
    have ci: "(k, c) \<in> set (children d) \<longleftrightarrow> child d k = Some c" for c
      using child_iff[OF less.prems(1), of k c] by (simp add: sorted_children_def)
    have "is_dir d" if "child d k = Some c" for c
      using that wf_node_leaf[OF less.prems(1)] ci[of c] by (cases "is_dir d") auto
    then have "lookup d (k # qs) = Some m \<longleftrightarrow> (\<exists>c. child d k = Some c \<and> lookup c qs = Some m)"
      by (cases "child d k") auto
    then have "lookup d (k # qs) = Some m \<longleftrightarrow> (\<exists>c. (k, c) \<in> set (children d) \<and> lookup c qs = Some m)"
      by (simp only: ci)
    moreover have "lookup c qs = Some m \<longleftrightarrow> (if qs = [] then c = m else is_dir c \<and> lookup c qs = Some m)" for c
      by (cases qs) auto
    ultimately show ?thesis by blast
  qed
  have "(p, m) \<in> set (walk_seq (join_with ''/'' ps) d) \<longleftrightarrow>
      (\<exists>k c. (k, c) \<in> set (children d) \<and> (p = join_with ''/'' (ps @ [k]) \<and> m = c \<or>
         is_dir c \<and> (p, m) \<in> set (walk_seq (join_with ''/'' (ps @ [k])) c)))"
    unfolding walk_seq_at[OF less.prems(2,1)] by (force simp: sorted_children_def split: if_splits)
  also have "\<dots> \<longleftrightarrow> (\<exists>k c. (k, c) \<in> set (children d) \<and> (p = join_with ''/'' (ps @ [k]) \<and> m = c \<or>
         is_dir c \<and> (\<exists>qs. qs \<noteq> [] \<and> p = join_with ''/'' (ps @ k # qs) \<and> lookup c qs = Some m)))"
    using IH by blast
  also have "\<dots> \<longleftrightarrow> (\<exists>k qs. p = join_with ''/'' (ps @ k # qs) \<and> lookup d (k # qs) = Some m)"
  proof -
    have split: "(\<exists>qs. R qs) \<longleftrightarrow> R [] \<or> (\<exists>qs. qs \<noteq> [] \<and> R qs)" for R :: "string list \<Rightarrow> bool"
      by metis
    have "(\<exists>qs. p = join_with ''/'' (ps @ k # qs) \<and> lookup d (k # qs) = Some m) \<longleftrightarrow>
      (\<exists>c. (k, c) \<in> set (children d) \<and> (p = join_with ''/'' (ps @ [k]) \<and> m = c \<or>
         is_dir c \<and> (\<exists>qs. qs \<noteq> [] \<and> p = join_with ''/'' (ps @ k # qs) \<and> lookup c qs = Some m)))" for k
      unfolding step by (subst split) auto
    then show ?thesis by simp
  qed
  also have "\<dots> \<longleftrightarrow> (\<exists>qs. qs \<noteq> [] \<and> p = join_with ''/'' (ps @ qs) \<and> lookup d qs = Some m)"
    by (metis list.distinct(1) list.exhaust)
  finally show ?case .
qed

subsection \<open>Order\<close>

lemma sorted_wrt_concat:
  assumes "\<And>x. x \<in> set xs \<Longrightarrow> sorted_wrt R (f x)"
    and "sorted_wrt (\<lambda>x y. \<forall>a \<in> set (f x). \<forall>b \<in> set (f y). R a b) xs"
  shows "sorted_wrt R (concat (map f xs))"
  using assms by (induction xs) (auto simp: sorted_wrt_append)

lemma sorted_children_strict:
  assumes "wf_node d"
  shows "sorted_wrt (\<lambda>x y. fst x < fst y) (sorted_children d)"
proof -
  have "sorted (map fst (sorted_children d))" by (simp add: sorted_children_def)
  moreover have "distinct (map fst (sorted_children d))"
    using wf_node_distinct[OF assms] unfolding sorted_children_def
    by (metis distinct_map distinct_sort inj_on_cong set_sort)
  ultimately have "sorted_wrt (<) (map fst (sorted_children d))"
    by (simp add: strict_sorted_iff)
  then show ?thesis by (simp add: sorted_wrt_map)
qed

lemma append_less_append: "(ps @ xs :: 'a::linorder list) < ps @ ys \<longleftrightarrow> xs < ys"
  by (induction ps) auto

definition path_order :: "(string \<times> node) list \<Rightarrow> bool" where
  "path_order xs \<longleftrightarrow> sorted_wrt (<) (map (splitClean \<circ> fst) xs)"

lemma walk_seq_sorted:
  assumes "wf_node d" "\<forall>p \<in> set ps. name_ok p"
  shows "path_order (walk_seq (join_with ''/'' ps) d)"
  using assms
proof (induction d arbitrary: ps rule: measure_induct_rule[where f = size])
  case (less d)
  let ?f = "\<lambda>(name, c). (join_with ''/'' (ps @ [name]), c) #
      (if is_dir c then walk_seq (join_with ''/'' (ps @ [name])) c else [])"
  have below: "\<exists>qs. splitClean p = ps @ k # qs \<and> (p \<noteq> join_with ''/'' (ps @ [k]) \<longrightarrow> qs \<noteq> [])"
    if "(k, c) \<in> set (children d)" "(p, m) \<in> set (?f (k, c))" for k c p m
  proof -
    have kc: "name_ok k" "wf_node c" using wf_node_child[OF less.prems(1) that(1)] by auto
    from that(2) consider "p = join_with ''/'' (ps @ [k])"
      | qs where "qs \<noteq> []" "p = join_with ''/'' ((ps @ [k]) @ qs)" "lookup c qs = Some m"
      using walk_seq_mem[OF kc(2), of "ps @ [k]"] less.prems(2) kc(1)
      by (auto split: if_splits)
    then show ?thesis
    proof cases
      case 1
      then show ?thesis using splitClean_names[of "ps @ [k]"] less.prems(2) kc(1) by auto
    next
      case (2 qs)
      have "splitClean p = ps @ k # qs"
        unfolding 2(2) using splitClean_names[of "(ps @ [k]) @ qs"] less.prems(2) kc
          lookup_names[OF kc(2) 2(3)] by auto
      with 2 show ?thesis by auto
    qed
  qed
  have "sorted_wrt (\<lambda>x y. splitClean (fst x) < splitClean (fst y))
     (concat (map ?f (sorted_children d)))"
  proof (rule sorted_wrt_concat)
    fix kc
    assume "kc \<in> set (sorted_children d)"
    then obtain k c where kc: "kc = (k, c)" "(k, c) \<in> set (children d)"
      by (metis set_sort sorted_children_def surj_pair)
    have ok: "name_ok k" "wf_node c" using wf_node_child[OF less.prems(1) kc(2)] by auto
    have tail: "path_order (walk_seq (join_with ''/'' (ps @ [k])) c)"
      by (rule less.IH[OF size_children[OF kc(2)] ok(2)]) (use less.prems ok in auto)
    have head: "splitClean (join_with ''/'' (ps @ [k])) < splitClean p"
      if "(p, m) \<in> set (walk_seq (join_with ''/'' (ps @ [k])) c)" for p m
    proof -
      have psk: "\<forall>q \<in> set (ps @ [k]). name_ok q" using less.prems(2) ok(1) by auto
      note mem = iffD1[OF walk_seq_mem[OF ok(2) psk] that]
      obtain qs where qs: "qs \<noteq> []" "p = join_with ''/'' ((ps @ [k]) @ qs)" "lookup c qs = Some m"
        using mem by blast
      have "splitClean p = (ps @ [k]) @ qs" unfolding qs(2)
        using splitClean_names[of "(ps @ [k]) @ qs"] less.prems(2) ok lookup_names[OF ok(2) qs(3)] by auto
      moreover have "splitClean (join_with ''/'' (ps @ [k])) = (ps @ [k]) @ []"
        using splitClean_names[of "ps @ [k]"] less.prems(2) ok(1) by auto
      ultimately show ?thesis
        using qs(1) by (simp only: append_less_append) (cases qs; simp)
    qed
    show "sorted_wrt (\<lambda>x y. splitClean (fst x) < splitClean (fst y)) (?f kc)"
      using tail head unfolding kc(1) path_order_def
      by (auto simp: sorted_wrt_map o_def)
  next
    show "sorted_wrt (\<lambda>x y. \<forall>a \<in> set (?f x). \<forall>b \<in> set (?f y). splitClean (fst a) < splitClean (fst b))
       (sorted_children d)"
    proof (rule sorted_wrt_mono_rel[OF _ sorted_children_strict[OF less.prems(1)]])
      fix x y
      assume xy: "x \<in> set (sorted_children d)" "y \<in> set (sorted_children d)" "fst x < fst y"
      obtain k c l e where kl: "x = (k, c)" "y = (l, e)" by (cases x, cases y) auto
      with xy have in_d: "(k, c) \<in> set (children d)" "(l, e) \<in> set (children d)"
        by (auto simp: sorted_children_def)
      show "\<forall>a \<in> set (?f x). \<forall>b \<in> set (?f y). splitClean (fst a) < splitClean (fst b)"
      proof (intro ballI)
        fix a b
        assume "a \<in> set (?f x)" "b \<in> set (?f y)"
        then obtain qa qb where "splitClean (fst a) = ps @ k # qa" "splitClean (fst b) = ps @ l # qb"
          using below[OF in_d(1), of "fst a" "snd a"] below[OF in_d(2), of "fst b" "snd b"]
          unfolding kl by auto
        then show "splitClean (fst a) < splitClean (fst b)"
          using xy(3) kl by (simp add: append_less_append)
      qed
    qed
  qed
  then show ?case
    unfolding path_order_def walk_seq_at[OF less.prems(2,1)]
    by (simp add: sorted_wrt_map)
qed

text \<open>
  C5. \<^verbatim>\<open>Walk\<close> visits exactly the nodes below the root, each once, in depth-first order with
  siblings in name order: the paths' component lists are strictly increasing.
\<close>

theorem Walk_complete_sorted:
  assumes "wf_node n"
  shows "set (walk_seq [] n) = {(join_with ''/'' qs, m) | qs m. qs \<noteq> [] \<and> lookup n qs = Some m} \<and>
     path_order (walk_seq [] n)"
proof
  show "set (walk_seq [] n) = {(join_with ''/'' qs, m) | qs m. qs \<noteq> [] \<and> lookup n qs = Some m}"
    using walk_seq_mem[OF assms, of "[]"] by auto
  show "path_order (walk_seq [] n)"
    using walk_seq_sorted[OF assms, of "[]"] by simp
qed

theorem Walk_complete_sorted_witness:
  "(''etc/passwd'', the (Lookup sample_root ''etc/passwd'')) \<in> set (walk_seq [] sample_root) \<and>
   path_order (walk_seq [] sample_root)"
proof -
  have wf: "wf_node sample_root" by (rule sample_root_wf)
  have found: "lookup sample_root [''etc'', ''passwd''] = Some (the (Lookup sample_root ''etc/passwd''))"
    by code_simp
  have "(join_with ''/'' [''etc'', ''passwd''], the (Lookup sample_root ''etc/passwd''))
      \<in> set (walk_seq [] sample_root)"
    using Walk_complete_sorted[OF wf] found by blast
  then show ?thesis using Walk_complete_sorted[OF wf] by simp
qed

text \<open>
  The visited sequence depends only on what the tree contains: two trees that agree on
  the attributes found at every path are walked identically, whatever order the maps of
  children have in memory.
\<close>

theorem Walk_deterministic:
  assumes "wf_node n" "wf_node m"
    and "\<And>qs. map_option attrs (lookup n qs) = map_option attrs (lookup m qs)"
  shows "map (\<lambda>(p, c). (p, attrs c)) (walk_seq [] n) = map (\<lambda>(p, c). (p, attrs c)) (walk_seq [] m)"
proof -
  let ?key = "\<lambda>n. map (splitClean \<circ> fst) (walk_seq [] n)"
  let ?out = "\<lambda>(n :: node) ks. (join_with ''/'' ks, attrs (the (lookup n ks)))"
  have mem: "(p, c) \<in> set (walk_seq [] k) \<longleftrightarrow> (\<exists>qs. qs \<noteq> [] \<and> p = join_with ''/'' qs \<and> lookup k qs = Some c)"
    if "wf_node k" for p c k
    using walk_seq_mem[OF that, of "[]" p c] by simp
  have unjoin: "splitClean (join_with ''/'' qs) = qs" if "wf_node k" "lookup k qs = Some c" for k qs c
    by (rule splitClean_names[OF lookup_names[OF that]])
  have keys: "set (?key k) = {qs. qs \<noteq> [] \<and> lookup k qs \<noteq> None}" if "wf_node k" for k
  proof (intro set_eqI iffI)
    note mem_k = mem[OF that] and unjoin_k = unjoin[OF that]
    fix qs
    assume "qs \<in> set (?key k)"
    then obtain p c where "(p, c) \<in> set (walk_seq [] k)" "qs = splitClean p" by auto
    then show "qs \<in> {qs. qs \<noteq> [] \<and> lookup k qs \<noteq> None}" using mem_k unjoin_k by auto
  next
    note mem_k = mem[OF that] and unjoin_k = unjoin[OF that]
    fix qs
    assume "qs \<in> {qs. qs \<noteq> [] \<and> lookup k qs \<noteq> None}"
    then obtain c where c: "qs \<noteq> []" "lookup k qs = Some c" by auto
    then have "(join_with ''/'' qs, c) \<in> set (walk_seq [] k)" using mem_k by blast
    then have "splitClean (join_with ''/'' qs) \<in> set (?key k)" by force
    then show "qs \<in> set (?key k)" using unjoin_k[OF c(2)] by simp
  qed
  have same: "lookup n qs = None \<longleftrightarrow> lookup m qs = None" for qs
    using assms(3)[of qs] by (cases "lookup n qs"; cases "lookup m qs") auto
  have sorted: "sorted_wrt (<) (?key k)" if "wf_node k" for k
    using walk_seq_sorted[OF that, of "[]"] by (simp add: path_order_def)
  have key_eq: "?key n = ?key m"
    using sorted[OF assms(1)] sorted[OF assms(2)] keys[OF assms(1)] keys[OF assms(2)] same
    by (intro sorted_distinct_set_unique) (auto simp: strict_sorted_iff)
  have out: "map (\<lambda>(p, c). (p, attrs c)) (walk_seq [] k) = map (?out k) (?key k)" if "wf_node k" for k
    unfolding map_map
  proof (rule map_cong[OF refl])
    note mem_k = mem[OF that] and unjoin_k = unjoin[OF that]
    fix pc
    assume "pc \<in> set (walk_seq [] k)"
    then obtain qs where "qs \<noteq> []" "fst pc = join_with ''/'' qs" "lookup k qs = Some (snd pc)"
      using mem_k[of "fst pc" "snd pc"] by auto
    then show "(case pc of (p, c) \<Rightarrow> (p, attrs c)) = (?out k \<circ> (splitClean \<circ> fst)) pc"
      using unjoin_k by (cases pc) simp
  qed
  have "map (?out n) (?key n) = map (?out m) (?key n)"
  proof (rule map_cong[OF refl])
    fix qs
    assume "qs \<in> set (?key n)"
    then obtain a b where "lookup n qs = Some a" "lookup m qs = Some b"
      using keys[OF assms(1)] same[of qs] by auto
    then show "?out n qs = ?out m qs" using assms(3)[of qs] by simp
  qed
  then show ?thesis using out[OF assms(1)] out[OF assms(2)] key_eq by simp
qed

definition two_a :: node where
  "two_a = Node (attrs new_dir) [(''a'', new_dir), (''b'', file_node (sample_hdr ''b'' TReg) ''m0'' 1)]"

definition two_b :: node where
  "two_b = Node (attrs new_dir) [(''b'', file_node (sample_hdr ''b'' TReg) ''m0'' 1), (''a'', new_dir)]"

theorem Walk_deterministic_witness:
  "two_a \<noteq> two_b \<and>
   map (\<lambda>(p, c). (p, attrs c)) (walk_seq [] two_a) = map (\<lambda>(p, c). (p, attrs c)) (walk_seq [] two_b)"
proof -
  have wf: "wf_node two_a" "wf_node two_b" by code_simp+
  have dirs: "is_dir two_a" "is_dir two_b" "attrs two_a = attrs two_b" by code_simp+
  have "child two_a k = child two_b k" for k by (simp add: child_def two_a_def two_b_def)
  then have "map_option attrs (lookup two_a qs) = map_option attrs (lookup two_b qs)" for qs
    using dirs by (cases qs) auto
  from Walk_deterministic[OF wf this] have
    "map (\<lambda>(p, c). (p, attrs c)) (walk_seq [] two_a) = map (\<lambda>(p, c). (p, attrs c)) (walk_seq [] two_b)" .
  moreover have "two_a \<noteq> two_b" by code_simp
  ultimately show ?thesis by blast
qed

end
