(* ===== verification/Oci_Types.thy ===== *)
theory Oci_Types
  imports Prelude
begin

text \<open>
  The registry data of \<^verbatim>\<open>internal/oci/client.go\<close> that the unpacker, the download and the
  manifest resolution share.
\<close>

record platform =
  pl_arch :: string
  pl_variant :: string

record descriptor =
  d_mediaType :: string
  d_digest :: string
  d_size :: int
  d_platform :: "platform option"

record ref =
  ref_repo :: string
  ref_tag :: string

record manifest =
  m_mediaType :: string
  m_manifests :: "descriptor list"
  m_config :: descriptor
  m_layers :: "descriptor list"
  m_annotations :: "(string \<times> string) list"

end
