(* ===== verification/Oci_Resume.thy ===== *)
theory Oci_Resume
  imports Oci_Types
begin

text \<open>
  The layer download of \<^verbatim>\<open>internal/oci/resume.go\<close> (\<^verbatim>\<open>resumingReader\<close>) and
  \<^verbatim>\<open>internal/oci/client.go\<close> (\<^verbatim>\<open>verifyingReader\<close>, \<^verbatim>\<open>Blob\<close>).

  A response body is modelled by the bytes its stream has not delivered yet. What the world
  does is a script: the answers the reader gets, in the order it asks. The select of
  \<^verbatim>\<open>Read\<close> is answered by a chunk of the pump (how many bytes, and the error that came with
  them) or by the timer; a call of \<^verbatim>\<open>open\<close> is answered by success or an error. A run whose
  script ends before \<^verbatim>\<open>Read\<close> returns, or does not fit the question asked, is \<open>None\<close>. What a
  body opened at an offset delivers is the parameter \<open>content\<close>; the printed messages, the
  pauses between retries and the message texts are not modelled.
\<close>

section \<open>The resuming reader\<close>

datatype 'e io_err = IoEOF | IoErr 'e

datatype 'e answer =
    Recv nat "'e io_err option"
  | TimerFired
  | OpenOk
  | OpenErr 'e

datatype 'e why = NoData | ReadError 'e

datatype 'e rr_err =
    EOF
  | StalledNoAttempts nat "'e why"
  | StalledReopen nat "'e why" 'e
  | ReaderClosed

record 'e rr =
  rr_attempts :: int
  rr_rc :: "bytes option"
  rr_off :: nat
  rr_pend :: bytes
  rr_stash :: "'e option"
  rr_closed :: bool
  rr_error :: "'e rr_err option"
  rr_opens :: "nat list"
  rr_closes :: nat

definition DefaultResumeAttempts :: int where
  "DefaultResumeAttempts = 4"

definition rr_attach :: "bytes \<Rightarrow> 'e rr \<Rightarrow> 'e rr" where
  "rr_attach rc r = r\<lparr>rr_rc := Some rc\<rparr>"

definition rr_abandon :: "'e rr \<Rightarrow> 'e rr" where
  "rr_abandon r = (case rr_rc r of
      None \<Rightarrow> r
    | Some _ \<Rightarrow> r\<lparr>rr_rc := None, rr_closes := rr_closes r + 1\<rparr>)"

text \<open>\<open>rr_opens\<close> and \<open>rr_closes\<close> record the offsets of the bodies opened and how many were closed.\<close>

definition newResumingReader :: "(nat \<Rightarrow> bytes) \<Rightarrow> int \<Rightarrow> 'e answer \<Rightarrow> ('e + 'e rr) option" where
  "newResumingReader content attempts ans =
     (let r = \<lparr>rr_attempts = (if attempts < 1 then DefaultResumeAttempts else attempts), rr_rc = None,
               rr_off = 0, rr_pend = [], rr_stash = None, rr_closed = False, rr_error = None,
               rr_opens = [], rr_closes = 0\<rparr>
      in case ans of
           OpenOk \<Rightarrow> Some (Inr (rr_attach (content 0) (r\<lparr>rr_opens := [0]\<rparr>)))
         | OpenErr e \<Rightarrow> Some (Inl e)
         | _ \<Rightarrow> None)"

text \<open>The retry loop of \<^verbatim>\<open>resume\<close>: \<open>k\<close> further tries, stopping at the first success.\<close>

fun reopen :: "nat \<Rightarrow> 'e answer list \<Rightarrow> ('e option \<times> 'e answer list) option" where
  "reopen (Suc k) (OpenOk # s) = Some (None, s)"
| "reopen (Suc 0) (OpenErr e # s) = Some (Some e, s)"
| "reopen (Suc (Suc k)) (OpenErr e # s) = reopen (Suc k) s"
| "reopen _ _ = None"

definition rr_resume ::
  "(nat \<Rightarrow> bytes) \<Rightarrow> 'e why \<Rightarrow> 'e rr \<Rightarrow> 'e answer list \<Rightarrow> (bool \<times> 'e rr \<times> 'e answer list) option" where
  "rr_resume content why r s =
     (let r1 = rr_abandon r in
      if rr_attempts r1 \<le> 0
      then Some (False, r1\<lparr>rr_error := Some (StalledNoAttempts (rr_off r1) why)\<rparr>, s)
      else let r2 = r1\<lparr>rr_attempts := rr_attempts r1 - 1\<rparr> in
        case reopen 3 s of
          None \<Rightarrow> None
        | Some (Some e, s') \<Rightarrow> Some (False, r2\<lparr>rr_error := Some (StalledReopen (rr_off r2) why e)\<rparr>, s')
        | Some (None, s') \<Rightarrow>
            Some (True, rr_attach (content (rr_off r2)) (r2\<lparr>rr_opens := rr_opens r2 @ [rr_off r2]\<rparr>), s'))"

text \<open>What the pump hands over: \<open>n\<close> more bytes of the stream; end of file only at its end.\<close>

definition pump :: "nat \<Rightarrow> 'e io_err option \<Rightarrow> 'e rr \<Rightarrow> (bytes \<times> 'e rr) option" where
  "pump n err r = (case rr_rc r of
      None \<Rightarrow> None
    | Some rest \<Rightarrow>
        if n \<le> length rest \<and> n \<le> 32 * 1024 \<and> (err = Some IoEOF \<longrightarrow> n = length rest)
        then Some (take n rest, r\<lparr>rr_rc := Some (drop n rest)\<rparr>) else None)"

datatype 'e turn = Return bytes "'e rr_err option" | Continue

definition resume_turn ::
  "(bool \<times> 'e rr \<times> 'e answer list) option \<Rightarrow> ('e turn \<times> 'e rr \<times> 'e answer list) option" where
  "resume_turn res = (case res of
      None \<Rightarrow> None
    | Some (ok, r, s) \<Rightarrow> Some (if ok then Continue else Return [] (rr_error r), r, s))"

text \<open>One turn of the loop of \<^verbatim>\<open>Read\<close>, the caller's buffer being \<open>plen\<close> bytes long.\<close>

definition rr_turn ::
  "(nat \<Rightarrow> bytes) \<Rightarrow> nat \<Rightarrow> 'e rr \<Rightarrow> 'e answer list \<Rightarrow> ('e turn \<times> 'e rr \<times> 'e answer list) option" where
  "rr_turn content plen r s =
     (if rr_closed r then Some (Return [] (Some ReaderClosed), r, s)
      else if rr_pend r \<noteq> [] then
        let b = take plen (rr_pend r) in
        Some (Return b None, r\<lparr>rr_pend := drop plen (rr_pend r), rr_off := rr_off r + length b\<rparr>, s)
      else case rr_error r of Some e \<Rightarrow> Some (Return [] (Some e), r, s)
      | None \<Rightarrow>
        (case rr_stash r of
          Some e \<Rightarrow> resume_turn (rr_resume content (ReadError e) (r\<lparr>rr_stash := None\<rparr>) s)
        | None \<Rightarrow>
          (case s of
             Recv n err # s' \<Rightarrow>
               (case pump n err r of
                  None \<Rightarrow> None
                | Some (b, r0) \<Rightarrow>
                    let r1 = (if b \<noteq> [] then r0\<lparr>rr_pend := b\<rparr> else r0) in
                    (case err of
                       None \<Rightarrow> Some (Continue, r1, s')
                     | Some IoEOF \<Rightarrow>
                         let r2 = r1\<lparr>rr_error := Some EOF\<rparr> in
                         if rr_pend r2 \<noteq> [] then Some (Continue, r2, s') else Some (Return [] (Some EOF), r2, s')
                     | Some (IoErr e) \<Rightarrow>
                         if rr_pend r1 \<noteq> [] then Some (Continue, r1\<lparr>rr_stash := Some e\<rparr>, s')
                         else resume_turn (rr_resume content (ReadError e) r1 s')))
           | TimerFired # s' \<Rightarrow> resume_turn (rr_resume content NoData r s')
           | _ \<Rightarrow> None)))"

lemma reopen_shorter: "reopen k s = Some (x, s') \<Longrightarrow> length s' < length s"
  by (induction k s rule: reopen.induct) auto

lemma reopen_ok: "reopen 3 (OpenOk # s) = Some (None, s)"
  by (simp add: eval_nat_numeral)

lemma resume_shorter:
  assumes "resume_turn (rr_resume content w r s) = Some (Continue, r', s')"
  shows "length s' < length s"
  using assms reopen_shorter
  by (fastforce simp: resume_turn_def rr_resume_def Let_def split: option.splits if_splits)

lemma rr_turn_shorter:
  assumes "rr_turn content plen r s = Some (Continue, r', s')"
  shows "length s' < length s"
  using assms resume_shorter
  by (force simp: rr_turn_def Let_def less_Suc_eq
      split: if_splits option.splits list.splits answer.splits io_err.splits)

function (sequential) rr_read ::
  "(nat \<Rightarrow> bytes) \<Rightarrow> nat \<Rightarrow> 'e rr \<Rightarrow> 'e answer list \<Rightarrow>
   ((bytes \<times> 'e rr_err option) \<times> 'e rr \<times> 'e answer list) option" where
  "rr_read content plen r s = (case rr_turn content plen r s of
      None \<Rightarrow> None
    | Some (Return b e, r', s') \<Rightarrow> Some ((b, e), r', s')
    | Some (Continue, r', s') \<Rightarrow> rr_read content plen r' s')"
  by pat_completeness auto
termination
  by (relation "measure (\<lambda>(content, plen, r, s). length s)") (auto dest: rr_turn_shorter)

declare rr_read.simps [simp del]

definition rr_close :: "'e rr \<Rightarrow> 'e rr" where
  "rr_close r = rr_abandon (r\<lparr>rr_closed := True\<rparr>)"

text \<open>A caller reading with a sequence of buffer sizes.\<close>

fun rr_reads ::
  "(nat \<Rightarrow> bytes) \<Rightarrow> nat list \<Rightarrow> 'e rr \<Rightarrow> 'e answer list \<Rightarrow>
   ((bytes \<times> 'e rr_err option) list \<times> 'e rr \<times> 'e answer list) option" where
  "rr_reads content [] r s = Some ([], r, s)"
| "rr_reads content (p # ps) r s = (case rr_read content p r s of
      None \<Rightarrow> None
    | Some (o1, r1, s1) \<Rightarrow> (case rr_reads content ps r1 s1 of
        None \<Rightarrow> None
      | Some (os, r2, s2) \<Rightarrow> Some (o1 # os, r2, s2)))"

section \<open>Every byte arrives exactly once, in order\<close>

text \<open>What \<^verbatim>\<open>openAt\<close> promises: a body opened at an offset delivers the blob from there on.\<close>

definition serves :: "bytes \<Rightarrow> (nat \<Rightarrow> bytes) \<Rightarrow> bool" where
  "serves B content \<longleftrightarrow> (\<forall>off. content off = drop off B)"

definition rr_inv :: "int \<Rightarrow> bytes \<Rightarrow> 'e rr \<Rightarrow> bool" where
  "rr_inv budget B r \<longleftrightarrow>
     (\<exists>rest. drop (rr_off r) B = rr_pend r @ rest \<and> rr_off r \<le> length B \<and>
        (\<forall>c. rr_rc r = Some c \<longrightarrow> c = rest) \<and>
        (rr_error r = Some EOF \<longrightarrow> rest = [])) \<and>
     (rr_error r = None \<longrightarrow> rr_closed r \<or> rr_rc r \<noteq> None) \<and>
     length (rr_opens r) = rr_closes r + (if rr_rc r = None then 0 else 1) \<and>
     0 \<le> rr_attempts r \<and> int (length (rr_opens r)) + rr_attempts r \<le> 1 + budget"

lemma rr_inv_abandon:
  "rr_inv budget B r \<Longrightarrow> rr_error r' = Some e \<Longrightarrow> e \<noteq> EOF \<Longrightarrow> rr_rc r' = None \<Longrightarrow> rr_off r' = rr_off r \<Longrightarrow>
   rr_pend r' = rr_pend r \<Longrightarrow> rr_opens r' = rr_opens r \<Longrightarrow> rr_closes r' = length (rr_opens r) \<Longrightarrow>
   0 \<le> rr_attempts r' \<Longrightarrow> rr_attempts r' \<le> rr_attempts r \<Longrightarrow> rr_inv budget B r'"
  by (auto simp: rr_inv_def)

lemma rr_resume_inv:
  assumes "serves B content" "rr_inv budget B r" "rr_pend r = []" "rr_error r = None"
    "rr_resume content w r s = Some (ok, r', s')"
  shows "rr_inv budget B r' \<and> rr_off r' = rr_off r \<and> rr_pend r' = [] \<and>
    (\<not> ok \<longrightarrow> (\<exists>e. rr_error r' = Some e \<and> e \<noteq> EOF))"
  using assms
  by (auto simp: rr_resume_def rr_abandon_def rr_attach_def serves_def rr_inv_def Let_def
      split: option.splits if_splits)

definition turn_ok :: "bytes \<Rightarrow> 'e rr \<Rightarrow> 'e turn \<Rightarrow> 'e rr \<Rightarrow> bool" where
  "turn_ok B r t r' \<longleftrightarrow> (case t of
      Continue \<Rightarrow> rr_off r' = rr_off r
    | Return b e \<Rightarrow> take (rr_off r') B = take (rr_off r) B @ b \<and> (e = Some EOF \<longrightarrow> rr_off r' = length B))"

lemma resume_turn_inv:
  assumes "serves B content" "rr_inv budget B r" "rr_pend r = []" "rr_error r = None"
    "resume_turn (rr_resume content w r s) = Some (t, r', s')"
  shows "rr_inv budget B r' \<and> turn_ok B r t r'"
  using assms rr_resume_inv[OF assms(1-4)]
  by (fastforce simp: resume_turn_def turn_ok_def split: option.splits)

lemma pump_inv:
  assumes "rr_inv budget B r" "rr_pend r = []" "rr_error r = None" "pump n err r = Some (b, r0)"
  shows "rr_inv budget B (r0\<lparr>rr_pend := b\<rparr>) \<and> rr_off r0 = rr_off r \<and> rr_pend r0 = [] \<and>
    rr_error r0 = None \<and> rr_stash r0 = rr_stash r \<and> rr_closed r0 = rr_closed r \<and>
    (err = Some IoEOF \<longrightarrow> drop (rr_off r) B = b)"
proof -
  from assms(4) obtain rest where rest: "rr_rc r = Some rest" "n \<le> length rest" "b = take n rest"
      "err = Some IoEOF \<longrightarrow> n = length rest" "r0 = r\<lparr>rr_rc := Some (drop n rest)\<rparr>"
    by (auto simp: pump_def split: option.splits if_splits)
  then have "drop (rr_off r) B = rest" using assms(1,2) by (auto simp: rr_inv_def)
  with assms(1-3) rest show ?thesis by (auto simp: rr_inv_def)
qed

lemma drain_inv:
  assumes "rr_inv budget B r"
    and r'_def: "r' = r\<lparr>rr_pend := drop plen (rr_pend r), rr_off := rr_off r + length (take plen (rr_pend r))\<rparr>"
  shows "rr_inv budget B r' \<and> turn_ok B r (Return (take plen (rr_pend r)) None) r'"
proof -
  obtain rest where d: "drop (rr_off r) B = rr_pend r @ rest" "rr_off r \<le> length B"
    "\<forall>c. rr_rc r = Some c \<longrightarrow> c = rest" "rr_error r = Some EOF \<longrightarrow> rest = []"
    using assms(1) by (auto simp: rr_inv_def)
  let ?k = "length (take plen (rr_pend r))"
  have split: "drop (rr_off r + ?k) B = drop plen (rr_pend r) @ rest"
    using d(1) by (simp add: drop_drop [symmetric] add.commute [of "rr_off r"] min_def)
  have "length B = rr_off r + length (rr_pend r @ rest)"
    using arg_cong[OF d(1), of length] d(2) by simp
  then have le: "rr_off r + ?k \<le> length B" by simp
  have "take (rr_off r + ?k) B = take (rr_off r) B @ take ?k (rr_pend r @ rest)"
    by (simp only: take_add d(1))
  also have "take ?k (rr_pend r @ rest) = take plen (rr_pend r)"
    by (cases "plen \<le> length (rr_pend r)") auto
  finally have "turn_ok B r (Return (take plen (rr_pend r)) None) r'" by (simp add: r'_def turn_ok_def)
  moreover have "rr_inv budget B r'"
    using assms(1) split le d(3,4) by (auto simp: r'_def rr_inv_def)
  ultimately show ?thesis by simp
qed

text \<open>The receive branch of the select, after the chunk went into \<open>pend\<close>.\<close>

lemma recv_inv:
  assumes "serves B content" "rr_inv budget B r" "rr_pend r = []" "rr_error r = None"
    "pump n err r = Some (b, r0)"
    "(case err of
       None \<Rightarrow> Some (Continue, r0\<lparr>rr_pend := b\<rparr>, s)
     | Some IoEOF \<Rightarrow> if b \<noteq> [] then Some (Continue, r0\<lparr>rr_pend := b, rr_error := Some EOF\<rparr>, s)
         else Some (Return [] (Some EOF), r0\<lparr>rr_pend := b, rr_error := Some EOF\<rparr>, s)
     | Some (IoErr e) \<Rightarrow> if b \<noteq> [] then Some (Continue, r0\<lparr>rr_pend := b, rr_stash := Some e\<rparr>, s)
         else resume_turn (rr_resume content (ReadError e) (r0\<lparr>rr_pend := b\<rparr>) s)) = Some (t, r', s')"
  shows "rr_inv budget B r' \<and> turn_ok B r t r'"
proof -
  note P = pump_inv[OF assms(2-5)]
  consider (none) "err = None" | (eof) "err = Some IoEOF"
    | (keep) x where "err = Some (IoErr x)" "b \<noteq> []" | (now) x where "err = Some (IoErr x)" "b = []"
    by (cases err rule: option.exhaust; metis io_err.exhaust)
  then show ?thesis
  proof cases
    case none
    with assms(6) P show ?thesis by (auto simp: turn_ok_def)
  next
    case eof
    then have b: "drop (rr_off r) B = b" using P by simp
    have "rr_inv budget B (r0\<lparr>rr_pend := b, rr_error := Some EOF\<rparr>)"
      using P b by (auto simp: rr_inv_def)
    moreover have "b = [] \<Longrightarrow> rr_off r = length B"
      using b assms(2) by (auto simp: rr_inv_def)
    ultimately show ?thesis
      using assms(6) eof P by (auto simp: turn_ok_def split: if_splits)
  next
    case keep
    with assms(6) P show ?thesis by (auto simp: turn_ok_def rr_inv_def)
  next
    case now
    with assms(6) P resume_turn_inv[OF assms(1), of budget "r0\<lparr>rr_pend := b\<rparr>" "ReadError x" s t r' s']
    show ?thesis by (cases t) (auto simp: turn_ok_def)
  qed
qed

lemma rr_turn_inv:
  assumes "serves B content" "rr_inv budget B r" "rr_turn content plen r s = Some (t, r', s')"
  shows "rr_inv budget B r' \<and> turn_ok B r t r'"
proof -
  note T = assms(3)[unfolded rr_turn_def]
  consider (closed) "rr_closed r" | (pend) "\<not> rr_closed r" "rr_pend r \<noteq> []"
    | (error) e where "\<not> rr_closed r" "rr_pend r = []" "rr_error r = Some e"
    | (stash) e where "\<not> rr_closed r" "rr_pend r = []" "rr_error r = None" "rr_stash r = Some e"
    | (select) "\<not> rr_closed r" "rr_pend r = []" "rr_error r = None" "rr_stash r = None"
    by (cases "rr_error r"; cases "rr_stash r") auto
  then show ?thesis
  proof cases
    case closed
    with T assms(2) show ?thesis by (auto simp: turn_ok_def)
  next
    case pend
    with T drain_inv[OF assms(2), of _ plen] show ?thesis by (auto simp: Let_def)
  next
    case error
    with T assms(2) show ?thesis by (auto simp: turn_ok_def rr_inv_def)
  next
    case stash
    have "rr_inv budget B (r\<lparr>rr_stash := None\<rparr>)" using assms(2) by (simp add: rr_inv_def)
    with resume_turn_inv[OF assms(1) this, of "ReadError e" s t r' s'] T stash
    show ?thesis by (cases t) (auto simp: turn_ok_def)
  next
    case select
    with T consider (recv) n err s0 b r0 where "s = Recv n err # s0" "pump n err r = Some (b, r0)"
      | (timer) s0 where "s = TimerFired # s0"
      by (auto split: list.splits answer.splits option.splits)
    then show ?thesis
    proof cases
      case recv
      have r1: "(if b \<noteq> [] then r0\<lparr>rr_pend := b\<rparr> else r0) = r0\<lparr>rr_pend := b\<rparr>"
        using pump_inv[OF assms(2) select(2,3) recv(2)] by (cases "b = []") simp_all
      show ?thesis
        by (rule recv_inv[OF assms(1,2) select(2,3) recv(2), where s = s0 and s' = s'])
          (use T[unfolded recv(1) Let_def list.case answer.case recv(2) option.case prod.case r1] select
            in \<open>auto split: option.splits io_err.splits if_splits\<close>)
    next
      case timer
      with T select resume_turn_inv[OF assms(1,2), of NoData s0 t r' s'] show ?thesis by simp
    qed
  qed
qed

lemma rr_read_inv:
  "rr_read content plen r s = Some ((b, e), r', s') \<Longrightarrow> serves B content \<Longrightarrow> rr_inv budget B r \<Longrightarrow>
   rr_inv budget B r' \<and> turn_ok B r (Return b e) r'"
proof (induction content plen r s rule: rr_read.induct)
  case (1 content plen r s)
  from "1.prems"(1) obtain t r1 s1 where t: "rr_turn content plen r s = Some (t, r1, s1)"
    by (subst (asm) rr_read.simps) (auto split: option.splits)
  note inv = rr_turn_inv[OF "1.prems"(2,3) t]
  show ?case
  proof (cases t)
    case (Return b' e')
    with "1.prems"(1) t inv show ?thesis by (subst (asm) rr_read.simps) auto
  next
    case Continue
    with "1.prems"(1) t have "rr_read content plen r1 s1 = Some ((b, e), r', s')"
      by (subst (asm) rr_read.simps) auto
    from "1.IH"[OF t _ _ _ this] Continue inv "1.prems"(2) show ?thesis
      by (auto simp: turn_ok_def)
  qed
qed

lemma newResumingReader_inv:
  assumes "newResumingReader content attempts ans = Some (Inr r)" "serves B content"
  shows "rr_inv (if attempts < 1 then DefaultResumeAttempts else attempts) B r \<and> rr_off r = 0"
  using assms
  by (auto simp: newResumingReader_def rr_attach_def rr_inv_def serves_def DefaultResumeAttempts_def
      Let_def split: answer.splits)

lemma rr_reads_inv:
  "rr_reads content ps r s = Some (outs, r', s') \<Longrightarrow> serves B content \<Longrightarrow> rr_inv budget B r \<Longrightarrow>
   rr_inv budget B r' \<and> take (rr_off r') B = take (rr_off r) B @ concat (map fst outs) \<and>
   (Some EOF \<in> snd ` set outs \<longrightarrow> rr_off r' = length B)"
proof (induction ps arbitrary: r s outs)
  case (Cons p ps)
  from Cons.prems(1) obtain b e r1 s1 os where 1: "rr_read content p r s = Some ((b, e), r1, s1)"
      "rr_reads content ps r1 s1 = Some (os, r', s')" "outs = (b, e) # os"
    by (auto split: option.splits)
  note R = rr_read_inv[OF 1(1) Cons.prems(2,3)]
  note IH = Cons.IH[OF 1(2) Cons.prems(2) conjunct1[OF R]]
  have "length (take (rr_off r1) B) \<le> length (take (rr_off r') B)" using IH by simp
  moreover have "rr_off r' \<le> length B" using IH unfolding rr_inv_def by blast
  ultimately have "rr_off r1 = length B \<Longrightarrow> rr_off r' = length B" by simp
  then show ?case using R IH by (auto simp: turn_ok_def 1(3))
qed simp

text \<open>
  C10. Whatever stalls, transport errors and reopens a download goes through, the bytes the
  caller has received are exactly the first \<^verbatim>\<open>off\<close> bytes of the blob, none lost, repeated or
  out of order, and end of file is reported only when that is the whole blob. The blob is
  opened at most one time more than the resume budget allows, and every body opened except
  the current one has been closed.
\<close>

theorem resumed_stream_exact:
  assumes "serves B content" "newResumingReader content attempts ans = Some (Inr r0)"
    "rr_reads content ps r0 s = Some (outs, r, s')"
  shows "concat (map fst outs) = take (rr_off r) B \<and>
    (Some EOF \<in> snd ` set outs \<longrightarrow> concat (map fst outs) = B) \<and>
    int (length (rr_opens r)) \<le> 1 + (if attempts < 1 then 4 else attempts) \<and>
    length (rr_opens r) = rr_closes r + (if rr_rc r = None then 0 else 1)"
proof -
  let ?budget = "if attempts < 1 then DefaultResumeAttempts else attempts"
  have r: "rr_inv ?budget B r" "take (rr_off r) B = concat (map fst outs)"
      "Some EOF \<in> snd ` set outs \<longrightarrow> rr_off r = length B"
    using rr_reads_inv[OF assms(3,1)] newResumingReader_inv[OF assms(2,1)] by fastforce+
  have "int (length (rr_opens r)) \<le> 1 + ?budget"
      "length (rr_opens r) = rr_closes r + (if rr_rc r = None then 0 else 1)"
    using r(1) unfolding rr_inv_def by linarith+
  with r(2,3) show ?thesis unfolding DefaultResumeAttempts_def by auto
qed

definition sample_blob :: bytes where
  "sample_blob = [10, 20, 30, 40, 50]"

definition sample_reader :: "string rr" where
  "sample_reader = \<lparr>rr_attempts = 2, rr_rc = Some sample_blob, rr_off = 0, rr_pend = [], rr_stash = None,
     rr_closed = False, rr_error = None, rr_opens = [0], rr_closes = 0\<rparr>"

text \<open>Two bytes, a broken connection with a third, a reopen that fails once, a stall, the rest.\<close>

definition sample_script :: "string answer list" where
  "sample_script = [Recv 2 None, Recv 1 (Some (IoErr ''reset'')), OpenErr ''503'', OpenOk,
     TimerFired, OpenOk, Recv 2 (Some IoEOF)]"

theorem resumed_stream_exact_witness:
  "(case rr_reads (\<lambda>off. drop off sample_blob) [1, 9, 9, 9, 9] sample_reader sample_script of
      Some (outs, r, s') \<Rightarrow> outs = [([10], None), ([20], None), ([30], None), ([40, 50], None), ([], Some EOF)] \<and>
        concat (map fst outs) = sample_blob \<and> rr_opens r = [0, 3, 3] \<and> rr_closes r = 2
    | None \<Rightarrow> False)"
proof -
  let ?c = "\<lambda>off. drop off sample_blob"
  have new: "newResumingReader ?c 2 OpenOk = Some (Inr sample_reader)" by code_simp
  have run: "rr_reads ?c [1, 9, 9, 9, 9] sample_reader sample_script
      = Some ([([10], None), ([20], None), ([30], None), ([40, 50], None), ([], Some EOF)],
          \<lparr>rr_attempts = 0, rr_rc = Some [], rr_off = 5, rr_pend = [], rr_stash = None, rr_closed = False,
           rr_error = Some EOF, rr_opens = [0, 3, 3], rr_closes = 2\<rparr>, [])"
    by code_simp
  from resumed_stream_exact[OF _ new run, of sample_blob] show ?thesis
    unfolding run by (simp add: serves_def sample_blob_def)
qed

text \<open>
  C11. A dead link cannot hang a build: on a connection that delivers nothing and whose every
  reopening succeeds but delivers nothing either, \<^verbatim>\<open>Read\<close> returns the stall error, at the
  offset reached, after exactly one idle period more than it has resume attempts.
\<close>

theorem dead_link_returns:
  assumes "\<not> rr_closed r" "rr_pend r = []" "rr_error r = None" "rr_stash r = None"
    "rr_attempts r = int k"
  shows "\<exists>r'. rr_read content plen r (concat (replicate k [TimerFired, OpenOk]) @ [TimerFired])
     = Some (([], Some (StalledNoAttempts (rr_off r) NoData)), r', []) \<and>
     rr_rc r' = None \<and> rr_attempts r' = 0"
  using assms
proof (induction k arbitrary: r)
  case 0
  let ?r = "(rr_abandon r)\<lparr>rr_error := Some (StalledNoAttempts (rr_off r) NoData)\<rparr>"
  have "rr_turn content plen r [TimerFired]
      = Some (Return [] (Some (StalledNoAttempts (rr_off r) NoData)), ?r, [])"
    using 0 by (cases "rr_rc r") (simp_all add: rr_turn_def rr_resume_def resume_turn_def rr_abandon_def)
  then have "rr_read content plen r [TimerFired]
      = Some (([], Some (StalledNoAttempts (rr_off r) NoData)), ?r, [])"
    by (subst rr_read.simps) simp
  moreover have "rr_rc ?r = None" "rr_attempts ?r = 0"
    using 0 by (simp_all add: rr_abandon_def split: option.split)
  ultimately show ?case by simp
next
  case (Suc k)
  let ?rest = "concat (replicate k [TimerFired, OpenOk]) @ [TimerFired]"
  let ?r1 = "rr_attach (content (rr_off r)) ((rr_abandon r)\<lparr>rr_attempts := int k,
      rr_opens := rr_opens r @ [rr_off r]\<rparr>)"
  have ab: "rr_attempts (rr_abandon r) = rr_attempts r" "rr_off (rr_abandon r) = rr_off r"
      "rr_opens (rr_abandon r) = rr_opens r" "rr_closed (rr_abandon r) = rr_closed r"
      "rr_pend (rr_abandon r) = rr_pend r" "rr_error (rr_abandon r) = rr_error r"
      "rr_stash (rr_abandon r) = rr_stash r"
    by (simp_all add: rr_abandon_def split: option.split)
  have turn: "rr_turn content plen r (TimerFired # OpenOk # ?rest) = Some (Continue, ?r1, ?rest)"
    using Suc.prems by (simp add: rr_turn_def rr_resume_def resume_turn_def ab reopen_ok Let_def)
  have "rr_off ?r1 = rr_off r" by (simp add: rr_attach_def ab)
  moreover have "\<not> rr_closed ?r1" "rr_pend ?r1 = []" "rr_error ?r1 = None" "rr_stash ?r1 = None"
      "rr_attempts ?r1 = int k"
    using Suc.prems by (simp_all add: rr_attach_def ab)
  ultimately show ?case
    using Suc.IH[of ?r1] turn by (subst rr_read.simps) simp
qed

theorem dead_link_returns_witness:
  "\<exists>r'. rr_read (\<lambda>off. drop off sample_blob) 8 sample_reader
      [TimerFired, OpenOk, TimerFired, OpenOk, TimerFired]
     = Some (([], Some (StalledNoAttempts 0 NoData)), r', [])"
proof -
  have "\<not> rr_closed sample_reader" "rr_pend sample_reader = []" "Option.is_none (rr_error sample_reader)"
      "rr_stash sample_reader = None" "rr_attempts sample_reader = int 2" "rr_off sample_reader = 0"
    by code_simp+
  then show ?thesis
    using dead_link_returns[of sample_reader 2 "\<lambda>off. drop off sample_blob" 8]
    by (auto simp: Option.is_none_def eval_nat_numeral)
qed

section \<open>The verifying reader\<close>

text \<open>
  \<^verbatim>\<open>verifyingReader\<close> works over any \<^verbatim>\<open>io.ReadCloser\<close>: \<open>rd\<close> is the body's \<^verbatim>\<open>Read\<close>, a function of
  the buffer length and the body's state. The hash is kept as the bytes written to it and
  \<open>sha\<close> is SHA-256 in hexadecimal.
\<close>

record vr =
  v_want :: string
  v_wantSize :: int
  v_seen :: int
  v_limitErr :: "(int \<times> int) option"
  v_hash :: bytes
  v_eof :: bool

datatype 'e vr_err = BodyErr 'e | SizeAtLeast int int | SizeMismatch int int | DigestMismatch string string

definition vr_len :: "vr \<Rightarrow> nat \<Rightarrow> nat" where
  "vr_len v plen =
     (if v_wantSize v > 0 then
        let remaining = v_wantSize v - v_seen v in
        if remaining < int plen then nat (remaining + 1) else plen
      else plen)"

definition vr_read ::
  "('e \<Rightarrow> bool) \<Rightarrow> (nat \<Rightarrow> 'b \<Rightarrow> ((bytes \<times> 'e option) \<times> 'b) option) \<Rightarrow> nat \<Rightarrow> vr \<times> 'b \<Rightarrow>
   ((bytes \<times> 'e vr_err option) \<times> vr \<times> 'b) option" where
  "vr_read is_eof rd plen = (\<lambda>(v, body).
     case v_limitErr v of
       Some (g, w) \<Rightarrow> Some (([], Some (SizeAtLeast g w)), v, body)
     | None \<Rightarrow>
         (case rd (vr_len v plen) body of
            None \<Rightarrow> None
          | Some ((b, err), body') \<Rightarrow>
              let v1 = v\<lparr>v_hash := v_hash v @ b, v_seen := v_seen v + int (length b)\<rparr> in
              if v_wantSize v1 > 0 \<and> v_seen v1 > v_wantSize v1
              then Some ((b, Some (SizeAtLeast (v_seen v1) (v_wantSize v1))),
                         v1\<lparr>v_limitErr := Some (v_seen v1, v_wantSize v1)\<rparr>, body')
              else Some ((b, map_option BodyErr err),
                     v1\<lparr>v_eof := v_eof v1 \<or> (case err of None \<Rightarrow> False | Some e \<Rightarrow> is_eof e)\<rparr>, body')))"

text \<open>The errors \<^verbatim>\<open>Close\<close> joins; the empty list is \<^verbatim>\<open>nil\<close>.\<close>

definition vr_close :: "(bytes \<Rightarrow> string) \<Rightarrow> 'e vr_err list \<Rightarrow> vr \<Rightarrow> 'e vr_err list" where
  "vr_close sha body_close v =
     (let err = (case v_limitErr v of None \<Rightarrow> [] | Some (g, w) \<Rightarrow> [SizeAtLeast g w]);
          got = ''sha256:'' @ sha (v_hash v)
      in (if v_eof v then
            (if v_wantSize v > 0 \<and> v_seen v \<noteq> v_wantSize v then [SizeMismatch (v_seen v) (v_wantSize v)] else err)
            @ (if got \<noteq> v_want v then [DigestMismatch got (v_want v)] else [])
          else err) @ body_close)"

fun vr_reads ::
  "('e \<Rightarrow> bool) \<Rightarrow> (nat \<Rightarrow> 'b \<Rightarrow> ((bytes \<times> 'e option) \<times> 'b) option) \<Rightarrow> nat list \<Rightarrow> vr \<times> 'b \<Rightarrow>
   ((bytes \<times> 'e vr_err option) list \<times> vr \<times> 'b) option" where
  "vr_reads is_eof rd [] st = Some ([], st)"
| "vr_reads is_eof rd (p # ps) st = (case vr_read is_eof rd p st of
      None \<Rightarrow> None
    | Some (o1, st1) \<Rightarrow> (case vr_reads is_eof rd ps st1 of
        None \<Rightarrow> None
      | Some (os, st2) \<Rightarrow> Some (o1 # os, st2)))"

text \<open>\<^verbatim>\<open>Blob\<close>: the verifying reader over a resuming reader.\<close>

datatype 'e blob_err = InvalidBlobSize int | OpenFailed 'e

definition Blob ::
  "(nat \<Rightarrow> bytes) \<Rightarrow> int \<Rightarrow> descriptor \<Rightarrow> 'e answer \<Rightarrow> ('e blob_err + (vr \<times> 'e rr)) option" where
  "Blob content attempts d ans =
     (if d_size d < 0 then Some (Inl (InvalidBlobSize (d_size d)))
      else case newResumingReader content (if attempts > 0 then attempts else DefaultResumeAttempts) ans of
        None \<Rightarrow> None
      | Some (Inl e) \<Rightarrow> Some (Inl (OpenFailed e))
      | Some (Inr r) \<Rightarrow> Some (Inr (\<lparr>v_want = d_digest d, v_wantSize = d_size d, v_seen = 0,
           v_limitErr = None, v_hash = [], v_eof = False\<rparr>, r)))"

definition blob_rd ::
  "(nat \<Rightarrow> bytes) \<Rightarrow> nat \<Rightarrow> 'e rr \<times> 'e answer list \<Rightarrow>
   ((bytes \<times> 'e rr_err option) \<times> 'e rr \<times> 'e answer list) option" where
  "blob_rd content plen = (\<lambda>(r, s). rr_read content plen r s)"

definition blob_reads ::
  "(nat \<Rightarrow> bytes) \<Rightarrow> nat list \<Rightarrow> vr \<times> 'e rr \<times> 'e answer list \<Rightarrow>
   ((bytes \<times> 'e rr_err vr_err option) list \<times> vr \<times> 'e rr \<times> 'e answer list) option" where
  "blob_reads content ps st = vr_reads (\<lambda>e. case e of EOF \<Rightarrow> True | _ \<Rightarrow> False) (blob_rd content) ps st"

text \<open>The body's contract: \<^verbatim>\<open>Read\<close> puts no more into the buffer than fits.\<close>

locale body_reader =
  fixes rd :: "nat \<Rightarrow> 'b \<Rightarrow> ((bytes \<times> 'e option) \<times> 'b) option"
  assumes rd_fits: "rd plen body = Some ((b, err), body') \<Longrightarrow> length b \<le> plen"
begin

lemma vr_read_bound:
  assumes "vr_read is_eof rd plen (v, body) = Some ((b, e), v', body')"
    "v_seen v = int (length (v_hash v))" "v_limitErr v = None \<longrightarrow> v_wantSize v > 0 \<longrightarrow> v_seen v \<le> v_wantSize v"
    "v_wantSize v > 0 \<longrightarrow> v_seen v \<le> v_wantSize v + 1"
  shows "v_hash v' = v_hash v @ b \<and> v_seen v' = int (length (v_hash v')) \<and> v_want v' = v_want v \<and>
    v_wantSize v' = v_wantSize v \<and>
    (v_limitErr v' = None \<longrightarrow> v_wantSize v > 0 \<longrightarrow> v_seen v' \<le> v_wantSize v) \<and>
    (v_wantSize v > 0 \<longrightarrow> v_seen v' \<le> v_wantSize v + 1)"
proof (cases "v_limitErr v")
  case None
  with assms(1) obtain err where rd: "rd (vr_len v plen) body = Some ((b, err), body')"
    by (auto simp: vr_read_def Let_def split: option.splits if_splits)
  have "v_wantSize v > 0 \<Longrightarrow> v_seen v + int (length b) \<le> v_wantSize v + 1"
    using rd_fits[OF rd] assms(3) None by (auto simp: vr_len_def Let_def split: if_splits)
  with rd None assms show ?thesis by (auto simp: vr_read_def Let_def split: if_splits)
qed (use assms in \<open>auto simp: vr_read_def\<close>)

lemma vr_reads_bound:
  "vr_reads is_eof rd ps (v, body) = Some (outs, v', body') \<Longrightarrow>
   v_seen v = int (length (v_hash v)) \<Longrightarrow>
   (v_limitErr v = None \<longrightarrow> v_wantSize v > 0 \<longrightarrow> v_seen v \<le> v_wantSize v) \<Longrightarrow>
   (v_wantSize v > 0 \<longrightarrow> v_seen v \<le> v_wantSize v + 1) \<Longrightarrow>
   v_hash v' = v_hash v @ concat (map fst outs) \<and> v_seen v' = int (length (v_hash v')) \<and>
   v_want v' = v_want v \<and> v_wantSize v' = v_wantSize v \<and>
   (v_wantSize v > 0 \<longrightarrow> v_seen v' \<le> v_wantSize v + 1)"
proof (induction ps arbitrary: v body outs)
  case (Cons p ps)
  from Cons.prems(1) obtain b e v1 body1 os where
    1: "vr_read is_eof rd p (v, body) = Some ((b, e), v1, body1)"
       "vr_reads is_eof rd ps (v1, body1) = Some (os, v', body')" "outs = (b, e) # os"
    by (auto split: option.splits)
  note R = vr_read_bound[OF 1(1) Cons.prems(2-)]
  have "v_limitErr v1 = None \<longrightarrow> v_wantSize v1 > 0 \<longrightarrow> v_seen v1 \<le> v_wantSize v1"
    "v_wantSize v1 > 0 \<longrightarrow> v_seen v1 \<le> v_wantSize v1 + 1" "v_seen v1 = int (length (v_hash v1))"
    using R by auto
  from Cons.IH[OF 1(2) this(3,1,2)] R show ?case by (fastforce simp: 1(3))
qed simp

end

lemma rr_turn_fits:
  "rr_turn content plen r s = Some (Return b e, r', s') \<Longrightarrow> length b \<le> plen"
  by (auto simp: rr_turn_def resume_turn_def Let_def
      split: if_splits option.splits list.splits answer.splits io_err.splits)

lemma rr_read_fits: "rr_read content plen r s = Some ((b, e), r', s') \<Longrightarrow> length b \<le> plen"
proof (induction content plen r s rule: rr_read.induct)
  case (1 content plen r s)
  from "1.prems" obtain t r1 s1 where t: "rr_turn content plen r s = Some (t, r1, s1)"
    by (subst (asm) rr_read.simps) (auto split: option.splits)
  show ?case
  proof (cases t)
    case (Return b' e')
    with "1.prems" t rr_turn_fits[of content plen r s] show ?thesis by (subst (asm) rr_read.simps) auto
  next
    case Continue
    with "1.prems" t have "rr_read content plen r1 s1 = Some ((b, e), r', s')"
      by (subst (asm) rr_read.simps) auto
    from "1.IH"[OF t _ _ _ this] Continue show ?thesis by simp
  qed
qed

interpretation blob: body_reader "blob_rd content" for content :: "nat \<Rightarrow> bytes"
  by unfold_locales (auto simp: blob_rd_def intro: rr_read_fits)

text \<open>
  C12. Integrity of a downloaded blob, whatever the registry sends: when the caller has read
  to the end and \<^verbatim>\<open>Close\<close> reports no error, the bytes delivered hash to the descriptor's
  digest and, when the descriptor gives a size, have that size. Before that, no more than
  one byte beyond the declared size is ever read.
\<close>

theorem verified_blob_sound:
  assumes "Blob content attempts d ans = Some (Inr (v0, r0))"
    "blob_reads content ps (v0, r0, s) = Some (outs, v, r, s')"
  shows "(d_size d > 0 \<longrightarrow> int (length (concat (map fst outs))) \<le> d_size d + 1) \<and>
    (v_eof v \<and> vr_close sha [] v = ([] :: 'x vr_err list) \<longrightarrow>
       ''sha256:'' @ sha (concat (map fst outs)) = d_digest d \<and>
       (d_size d > 0 \<longrightarrow> int (length (concat (map fst outs))) = d_size d))"
proof -
  have v0: "v0 = \<lparr>v_want = d_digest d, v_wantSize = d_size d, v_seen = 0, v_limitErr = None,
      v_hash = [], v_eof = False\<rparr>"
    using assms(1) by (auto simp: Blob_def split: if_splits option.splits sum.splits)
  have "v_hash v = v_hash v0 @ concat (map fst outs) \<and> v_seen v = int (length (v_hash v)) \<and>
     v_want v = v_want v0 \<and> v_wantSize v = v_wantSize v0 \<and>
     (v_wantSize v0 > 0 \<longrightarrow> v_seen v \<le> v_wantSize v0 + 1)"
    by (rule blob.vr_reads_bound[OF assms(2)[unfolded blob_reads_def]]) (simp_all add: v0)
  then show ?thesis by (auto simp: v0 vr_close_def Let_def split: if_splits)
qed

text \<open>The state of a download from an honest registry.\<close>

definition blob_inv :: "int \<Rightarrow> bytes \<Rightarrow> vr \<times> 'e rr \<times> 'e answer list \<Rightarrow> bool" where
  "blob_inv budget B = (\<lambda>(v, r, s). rr_inv budget B r \<and> v_hash v = take (rr_off r) B \<and>
     v_seen v = int (length (v_hash v)) \<and> v_limitErr v = None \<and>
     (v_wantSize v > 0 \<longrightarrow> v_wantSize v = int (length B)) \<and> (v_eof v \<longrightarrow> rr_off r = length B))"

lemma blob_read_inv:
  assumes "vr_read (\<lambda>e. case e of EOF \<Rightarrow> True | _ \<Rightarrow> False) (blob_rd content) p (v, r, s)
      = Some ((b, e), v', r', s')"
    "serves B content" "blob_inv budget B (v, r, s)"
  shows "blob_inv budget B (v', r', s') \<and> v_want v' = v_want v \<and> v_wantSize v' = v_wantSize v \<and>
    v_hash v' = v_hash v @ b \<and> (v_eof v' \<longleftrightarrow> v_eof v \<or> e = Some (BodyErr EOF))"
proof -
  from assms(1,3) obtain err where rd: "rr_read content (vr_len v p) r s = Some ((b, err), r', s')"
    by (auto simp: vr_read_def blob_rd_def blob_inv_def Let_def split: option.splits if_splits)
  have inv: "rr_inv budget B r" using assms(3) by (simp add: blob_inv_def)
  note R = rr_read_inv[OF rd assms(2) inv]
  have hash: "v_hash v @ b = take (rr_off r') B"
    using R assms(3) by (simp add: turn_ok_def blob_inv_def)
  have le: "rr_off r' \<le> length B" using R unfolding rr_inv_def by blast
  have seen: "v_seen v + int (length b) = int (rr_off r')"
    using arg_cong[OF hash, of length] le assms(3) by (simp add: blob_inv_def)
  have eofs: "v_eof v \<Longrightarrow> rr_off r' = length B"
    using assms(3) arg_cong[OF hash, of length] le by (auto simp: blob_inv_def)
  have size: "v_wantSize v > 0 \<Longrightarrow> v_wantSize v = int (length B)" "v_limitErr v = None"
    "v_seen v = int (length (v_hash v))"
    using assms(3) by (simp_all add: blob_inv_def)
  let ?v = "v\<lparr>v_hash := v_hash v @ b, v_seen := v_seen v + int (length b),
      v_eof := v_eof v \<or> err = Some EOF\<rparr>"
  have eof: "(case err of None \<Rightarrow> False | Some e \<Rightarrow> case e of EOF \<Rightarrow> True | _ \<Rightarrow> False) \<longleftrightarrow> err = Some EOF"
    by (auto split: option.split rr_err.split)
  have no: "\<not> (v_wantSize v > 0 \<and> v_seen v + int (length b) > v_wantSize v)"
    using seen size(1) le by linarith
  have "Some ((b, map_option BodyErr err), ?v, r', s') = Some ((b, e), v', r', s')"
    using assms(1) rd size(2) no unfolding vr_read_def blob_rd_def Let_def
    by (simp add: eof [symmetric] cong: if_cong option.case_cong)
  then have v': "v' = ?v" "e = map_option BodyErr err" by simp_all
  have "err = Some EOF \<Longrightarrow> rr_off r' = length B" using R by (simp add: turn_ok_def)
  then have "blob_inv budget B (v', r', s')"
    using R hash eofs size seen le by (auto simp: v' blob_inv_def)
  then show ?thesis by (auto simp: v')
qed

lemma blob_reads_inv:
  "blob_reads content ps (v, r, s) = Some (outs, v', r', s') \<Longrightarrow> serves B content \<Longrightarrow>
   blob_inv budget B (v, r, s) \<Longrightarrow>
   blob_inv budget B (v', r', s') \<and> v_want v' = v_want v \<and> v_hash v' = v_hash v @ concat (map fst outs) \<and>
   (v_eof v' \<longleftrightarrow> v_eof v \<or> Some (BodyErr EOF) \<in> snd ` set outs)"
proof (induction ps arbitrary: v r s outs)
  case (Cons p ps)
  from Cons.prems(1) obtain b e v1 r1 s1 os where
    1: "vr_read (\<lambda>e. case e of EOF \<Rightarrow> True | _ \<Rightarrow> False) (blob_rd content) p (v, r, s) = Some ((b, e), v1, r1, s1)"
       "blob_reads content ps (v1, r1, s1) = Some (os, v', r', s')" "outs = (b, e) # os"
    by (auto simp: blob_reads_def split: option.splits)
  note R = blob_read_inv[OF 1(1) Cons.prems(2,3)]
  from Cons.IH[OF 1(2) Cons.prems(2) conjunct1[OF R]] R show ?case by (auto simp: 1(3))
qed (simp add: blob_reads_def)

text \<open>
  C13. A download that stalls and resumes verifies: from a registry that serves the blob the
  descriptor names, a caller that reads to end of file has received the blob, and \<^verbatim>\<open>Close\<close>
  reports no error.
\<close>

theorem Blob_complete:
  assumes "serves B content" "d_digest d = ''sha256:'' @ sha B" "d_size d = 0 \<or> d_size d = int (length B)"
    "Blob content attempts d ans = Some (Inr (v0, r0))"
    "blob_reads content ps (v0, r0, s) = Some (outs, v, r, s')"
    "Some (BodyErr EOF) \<in> snd ` set outs"
  shows "concat (map fst outs) = B \<and> vr_close sha [] v = ([] :: 'x vr_err list)"
proof -
  have v0: "v0 = \<lparr>v_want = d_digest d, v_wantSize = d_size d, v_seen = 0, v_limitErr = None,
      v_hash = [], v_eof = False\<rparr>"
    and r0: "newResumingReader content (if attempts > 0 then attempts else DefaultResumeAttempts) ans = Some (Inr r0)"
    using assms(4) by (auto simp: Blob_def split: if_splits option.splits sum.splits)
  from newResumingReader_inv[OF r0 assms(1)] obtain budget where
    "blob_inv budget B (v0, r0, s)"
    using assms(3) by (auto simp: blob_inv_def v0)
  from blob_reads_inv[OF assms(5,1) this] assms(2,6) show ?thesis
    by (auto simp: blob_inv_def vr_close_def v0)
qed

text \<open>A stand-in for SHA-256 on the sample blob: any function of the bytes will do.\<close>

definition sample_sha :: "bytes \<Rightarrow> string" where
  "sample_sha b = nat_dec (length b)"

definition sample_blob_desc :: descriptor where
  "sample_blob_desc = \<lparr>d_mediaType = '''', d_digest = ''sha256:5'', d_size = 5, d_platform = None\<rparr>"

definition sample_vr :: vr where
  "sample_vr = \<lparr>v_want = ''sha256:5'', v_wantSize = 5, v_seen = 0, v_limitErr = None, v_hash = [], v_eof = False\<rparr>"

definition sample_final :: "vr \<times> string rr \<times> string answer list" where
  "sample_final = (\<lparr>v_want = ''sha256:5'', v_wantSize = 5, v_seen = 5, v_limitErr = None,
      v_hash = sample_blob, v_eof = True\<rparr>,
     \<lparr>rr_attempts = 1, rr_rc = Some [], rr_off = 5, rr_pend = [], rr_stash = None, rr_closed = False,
      rr_error = Some EOF, rr_opens = [0, 2], rr_closes = 1\<rparr>, [])"

lemma sample_blob_run:
  "Blob (\<lambda>off. drop off sample_blob) 2 sample_blob_desc OpenOk = Some (Inr (sample_vr, sample_reader))"
  "blob_reads (\<lambda>off. drop off sample_blob) [9, 9, 9]
      (sample_vr, sample_reader, [Recv 2 None, TimerFired, OpenOk, Recv 3 (Some IoEOF)])
    = Some ([([10, 20], None), ([30, 40, 50], None), ([], Some (BodyErr EOF))], sample_final)"
  subgoal by code_simp
  subgoal by code_simp
  done

theorem verified_blob_sound_witness:
  "v_eof (fst sample_final) \<and> vr_close sample_sha [] (fst sample_final) = ([] :: string vr_err list) \<and>
   ''sha256:'' @ sample_sha [10, 20, 30, 40, 50] = d_digest sample_blob_desc"
proof -
  have ok: "v_eof (fst sample_final)" "vr_close sample_sha [] (fst sample_final) = ([] :: string vr_err list)"
    by code_simp+
  obtain v r s where f: "sample_final = (v, r, s)" by (cases sample_final)
  from verified_blob_sound[OF sample_blob_run(1) sample_blob_run(2)[unfolded f],
      where sha = sample_sha and 'x = string] ok
  show ?thesis by (simp add: f)
qed

theorem Blob_complete_witness:
  "vr_close sample_sha [] (fst sample_final) = ([] :: string vr_err list)"
proof -
  obtain v r s where f: "sample_final = (v, r, s)" by (cases sample_final)
  have "d_digest sample_blob_desc = ''sha256:'' @ sample_sha sample_blob"
    "d_size sample_blob_desc = int (length sample_blob)"
    by code_simp+
  with Blob_complete[OF _ _ _ sample_blob_run(1) sample_blob_run(2)[unfolded f],
      where B = sample_blob and sha = sample_sha and 'x = string]
  show ?thesis by (simp add: serves_def f)
qed

end
