(* ===== verification/Oci_Client.thy ===== *)
theory Oci_Client
  imports Oci_Types
begin

text \<open>
  The registry client of \<^verbatim>\<open>internal/oci/client.go\<close>: the pull token, ranged GETs, and the
  resolution of an image reference to the manifest of one platform. The HTTP transport is the
  parameter \<open>http\<close>, a function from requests to answers; SHA-256 (in hexadecimal) and the
  JSON decoders are the parameters \<open>sha\<close>, \<open>tokdec\<close> and \<open>dec\<close>. Timeouts appear as a transport error
  flagged as our own cancellation.
\<close>

section \<open>Requests\<close>

record request =
  rq_url :: string
  rq_auth :: "string option"
  rq_accept :: "string option"
  rq_range :: "string option"

datatype 'e http_ans =
    BadURL 'e
  | Transport 'e bool
  | Resp int bytes

datatype 'e get_error =
    TokenErr 'e
  | TokenHTTP int
  | TokenDecode 'e
  | BadRequest 'e
  | HeaderStall string
  | TransportErr 'e
  | ResumeUnsupported string nat
  | HTTPStatus string int

definition token_request :: "string \<Rightarrow> string \<Rightarrow> request" where
  "token_request base repo = \<lparr>rq_url = base @ ''/token?scope=repository:'' @ repo @ '':pull'',
     rq_auth = None, rq_accept = None, rq_range = None\<rparr>"

text \<open>\<^verbatim>\<open>authorize\<close>: the state is the cached token, the empty string meaning none.\<close>

definition authorize ::
  "(bytes \<Rightarrow> 'e + string) \<Rightarrow> (request \<Rightarrow> 'e http_ans) \<Rightarrow> string \<Rightarrow> string \<Rightarrow> string \<Rightarrow>
   'e get_error option \<times> string" where
  "authorize tokdec http base repo tok =
     (if tok \<noteq> '''' then (None, tok)
      else case http (token_request base repo) of
        BadURL e \<Rightarrow> (Some (TokenErr e), tok)
      | Transport e _ \<Rightarrow> (Some (TokenErr e), tok)
      | Resp status body \<Rightarrow>
          if status \<noteq> 200 then (Some (TokenHTTP status), tok)
          else case tokdec body of
            Inl e \<Rightarrow> (Some (TokenDecode e), tok)
          | Inr t \<Rightarrow> (None, t))"

definition blob_request :: "string \<Rightarrow> string \<Rightarrow> string \<Rightarrow> string \<Rightarrow> nat \<Rightarrow> string \<Rightarrow> request" where
  "blob_request base repo path accept offset tok =
     \<lparr>rq_url = base @ ''/v2/'' @ repo @ ''/'' @ path,
      rq_auth = (if tok \<noteq> '''' then Some (''Bearer '' @ tok) else None),
      rq_accept = (if accept \<noteq> '''' then Some accept else None),
      rq_range = (if offset > 0 then Some (''bytes='' @ nat_dec offset @ ''-'') else None)\<rparr>"

definition getRange ::
  "(bytes \<Rightarrow> 'e + string) \<Rightarrow> (request \<Rightarrow> 'e http_ans) \<Rightarrow> string \<Rightarrow> string \<Rightarrow> string \<Rightarrow> string \<Rightarrow> nat \<Rightarrow> string \<Rightarrow>
   ('e get_error + bytes) \<times> string" where
  "getRange tokdec http base repo path accept offset tok =
     (case authorize tokdec http base repo tok of
        (Some e, tok') \<Rightarrow> (Inl e, tok')
      | (None, tok') \<Rightarrow>
         (case http (blob_request base repo path accept offset tok') of
            BadURL e \<Rightarrow> (Inl (BadRequest e), tok')
          | Transport e timedOut \<Rightarrow> (Inl (if timedOut then HeaderStall path else TransportErr e), '''')
          | Resp status body \<Rightarrow>
              let want = (if offset > 0 then 206 else 200) in
              if status \<noteq> want then
                (Inl (if offset > 0 \<and> status = 200 then ResumeUnsupported path offset else HTTPStatus path status), '''')
              else (Inr body, tok')))"

section \<open>Platforms\<close>

definition acceptManifest :: string where
  "acceptManifest = ''application/vnd.oci.image.index.v1+json, application/vnd.oci.image.manifest.v1+json, application/vnd.docker.distribution.manifest.list.v2+json, application/vnd.docker.distribution.manifest.v2+json''"

definition parsePlatformRequest :: "string \<Rightarrow> (string \<times> string) option" where
  "parsePlatformRequest platform =
     (let p = trim_space platform in
      if p \<in> {''linux/amd64'', ''amd64'', ''x86_64''} then Some (''amd64'', '''')
      else if p = ''linux/amd64/v2'' then Some (''amd64'', ''v2'')
      else if p \<in> {''linux/arm64'', ''linux/arm64/v8'', ''arm64'', ''aarch64''} then Some (''arm64'', '''')
      else None)"

definition platform_matches :: "string \<Rightarrow> string \<Rightarrow> descriptor \<Rightarrow> bool" where
  "platform_matches arch variant d =
     (case d_platform d of
        None \<Rightarrow> False
      | Some p \<Rightarrow> pl_arch p = arch \<and>
          (if arch = ''arm64'' then pl_variant p = '''' \<or> pl_variant p = ''v8'' else pl_variant p = variant))"

definition matchPlatformDescriptor :: "descriptor list \<Rightarrow> string \<Rightarrow> string \<Rightarrow> descriptor option" where
  "matchPlatformDescriptor manifests arch variant = find (platform_matches arch variant) manifests"

fun describeAvailablePlatforms :: "descriptor list \<Rightarrow> string list" where
  "describeAvailablePlatforms [] = []"
| "describeAvailablePlatforms (d # ds) =
     (case d_platform d of
        None \<Rightarrow> describeAvailablePlatforms ds
      | Some p \<Rightarrow> (pl_arch p @ (if pl_variant p \<noteq> '''' then ''/'' @ pl_variant p else ''''))
          # describeAvailablePlatforms ds)"

section \<open>Resolving a manifest\<close>

datatype 'e resolve_error =
    UnsupportedPlatform string
  | GetErr "'e get_error"
  | ManifestDecode 'e
  | PlatformManifestDecode 'e
  | PlatformNotFound string "string list"
  | ManifestDigestMismatch string string

text \<open>
  \<open>get\<close> is the client's \<^verbatim>\<open>get\<close> with its result read to the end, at one repository: a function of
  the path. \<open>dec1\<close> is \<^verbatim>\<open>json.Decoder.Decode\<close>, \<open>dec\<close> is \<^verbatim>\<open>json.Unmarshal\<close>.
\<close>

definition ResolveManifest ::
  "(bytes \<Rightarrow> string) \<Rightarrow> (bytes \<Rightarrow> 'e + manifest) \<Rightarrow> (bytes \<Rightarrow> 'e + manifest) \<Rightarrow>
   (string \<Rightarrow> 'e get_error + bytes) \<Rightarrow> string \<Rightarrow> string \<Rightarrow> 'e resolve_error + manifest" where
  "ResolveManifest sha dec1 dec get tag arch =
     (case get (''manifests/'' @ tag) of
        Inl e \<Rightarrow> Inl (GetErr e)
      | Inr body \<Rightarrow>
         (case dec1 body of
            Inl e \<Rightarrow> Inl (ManifestDecode e)
          | Inr m \<Rightarrow>
             (case m_manifests m of
                [] \<Rightarrow> Inr m
              | d0 # _ \<Rightarrow>
                 let pick = (case find (\<lambda>d. case d_platform d of None \<Rightarrow> False
                                | Some p \<Rightarrow> pl_arch p = arch \<and> pl_variant p = '''') (m_manifests m) of
                               Some d \<Rightarrow> d | None \<Rightarrow> d0)
                 in (case get (''manifests/'' @ d_digest pick) of
                       Inl e \<Rightarrow> Inl (GetErr e)
                     | Inr body2 \<Rightarrow>
                         let got = ''sha256:'' @ sha body2 in
                         if got \<noteq> d_digest pick then Inl (ManifestDigestMismatch (d_digest pick) got)
                         else (case dec body2 of Inl e \<Rightarrow> Inl (PlatformManifestDecode e) | Inr pm \<Rightarrow> Inr pm)))))"

definition ResolveManifestForPlatformWithDigest ::
  "(bytes \<Rightarrow> string) \<Rightarrow> (bytes \<Rightarrow> 'e + manifest) \<Rightarrow> (string \<Rightarrow> 'e get_error + bytes) \<Rightarrow>
   string \<Rightarrow> string \<Rightarrow> string \<Rightarrow> 'e resolve_error + (manifest \<times> string)" where
  "ResolveManifestForPlatformWithDigest sha dec get tag platform expectedDigest =
     (let want = (if trim_space platform = '''' then ''amd64'' else trim_space platform) in
      case parsePlatformRequest want of
        None \<Rightarrow> Inl (UnsupportedPlatform want)
      | Some (wantArch, wantVar) \<Rightarrow>
        (case get (''manifests/'' @ tag) of
           Inl e \<Rightarrow> Inl (GetErr e)
         | Inr body \<Rightarrow>
           (case dec body of
              Inl e \<Rightarrow> Inl (ManifestDecode e)
            | Inr m \<Rightarrow>
              let pin = trim_space expectedDigest in
              if m_manifests m = [] then
                let digest = ''sha256:'' @ sha body in
                if pin \<noteq> '''' \<and> digest \<noteq> pin then Inl (ManifestDigestMismatch pin digest) else Inr (m, digest)
              else case matchPlatformDescriptor (m_manifests m) wantArch wantVar of
                None \<Rightarrow> Inl (PlatformNotFound want (describeAvailablePlatforms (m_manifests m)))
              | Some pick \<Rightarrow>
                  if pin \<noteq> '''' \<and> d_digest pick \<noteq> pin then Inl (ManifestDigestMismatch pin (d_digest pick))
                  else (case get (''manifests/'' @ d_digest pick) of
                     Inl e \<Rightarrow> Inl (GetErr e)
                   | Inr body2 \<Rightarrow>
                       let got = ''sha256:'' @ sha body2 in
                       if got \<noteq> d_digest pick then Inl (ManifestDigestMismatch (d_digest pick) got)
                       else (case dec body2 of
                          Inl e \<Rightarrow> Inl (PlatformManifestDecode e)
                        | Inr pm \<Rightarrow> Inr (pm, d_digest pick))))))"

definition ResolveManifestForPlatform ::
  "(bytes \<Rightarrow> string) \<Rightarrow> (bytes \<Rightarrow> 'e + manifest) \<Rightarrow> (string \<Rightarrow> 'e get_error + bytes) \<Rightarrow>
   string \<Rightarrow> string \<Rightarrow> 'e resolve_error + (manifest \<times> string)" where
  "ResolveManifestForPlatform sha dec get tag platform =
     ResolveManifestForPlatformWithDigest sha dec get tag platform ''''"

section \<open>Ranged requests\<close>

text \<open>
  A server that implements HTTP ranges as specified: 200 carries the whole blob, 206 the part
  asked for. It may ignore the range header and answer 200.
\<close>

definition honours_range :: "(request \<Rightarrow> 'e http_ans) \<Rightarrow> string \<Rightarrow> bytes \<Rightarrow> bool" where
  "honours_range http url B \<longleftrightarrow> (\<forall>rq st body. rq_url rq = url \<and> http rq = Resp st body \<longrightarrow>
     (st = 200 \<longrightarrow> body = B) \<and>
     (st = 206 \<longrightarrow> (\<forall>k. rq_range rq = Some (''bytes='' @ nat_dec k @ ''-'') \<longrightarrow> body = drop k B)))"

lemma authorize_cases:
  "authorize tokdec http base repo tok = (e, tok') \<Longrightarrow> (e \<noteq> None \<longrightarrow> tok = '''' \<and> tok' = '''')"
  by (auto simp: authorize_def split: if_splits http_ans.splits sum.splits)

text \<open>
  C14. A ranged GET is safe to resume from: with a server that implements ranges, or ignores
  them, a body that is accepted is exactly the blob from the offset asked for, and every
  failure except a malformed URL leaves no token behind, so the next request authorizes anew.
\<close>

theorem getRange_safe:
  assumes "honours_range http (base @ ''/v2/'' @ repo @ ''/'' @ path) B"
    and "getRange tokdec http base repo path accept offset tok = (res, tok')"
  shows "case res of
      Inr body \<Rightarrow> body = drop offset B
    | Inl e \<Rightarrow> tok' = '''' \<or> (\<exists>x. e = BadRequest x)"
proof -
  obtain e t where a: "authorize tokdec http base repo tok = (e, t)" by force
  show ?thesis
  proof (cases e)
    case None
    let ?rq = "blob_request base repo path accept offset t"
    have url: "rq_url ?rq = base @ ''/v2/'' @ repo @ ''/'' @ path"
      and range: "offset > 0 \<Longrightarrow> rq_range ?rq = Some (''bytes='' @ nat_dec offset @ ''-'')"
      by (simp_all add: blob_request_def)
    show ?thesis
    proof (cases "http ?rq")
      case (Resp st body)
      have "st = 200 \<Longrightarrow> body = B" "st = 206 \<Longrightarrow> offset > 0 \<Longrightarrow> body = drop offset B"
        using assms(1)[unfolded honours_range_def, rule_format, of ?rq st body] url range Resp by auto
      then show ?thesis
        using assms(2) a None Resp by (auto simp: getRange_def Let_def split: if_splits)
    qed (use assms(2) a None in \<open>auto simp: getRange_def\<close>)
  next
    case (Some x)
    then show ?thesis using assms(2) a authorize_cases[OF a] by (auto simp: getRange_def)
  qed
qed

definition sample_http :: "request \<Rightarrow> string http_ans" where
  "sample_http rq =
     (if rq_url rq = ''r/token?scope=repository:x:pull'' then Resp 200 (bytes_of ''T'')
      else if rq_auth rq \<noteq> Some ''Bearer T'' then Resp 401 []
      else case rq_range rq of
        None \<Rightarrow> Resp 200 [1, 2, 3]
      | Some rg \<Rightarrow> if rg = ''bytes=2-'' then Resp 206 [3] else Resp 200 [1, 2, 3])"

lemma sample_http_honours: "honours_range sample_http (''r'' @ ''/v2/'' @ ''x'' @ ''/'' @ ''b'') [1, 2, 3]"
proof -
  have "k = 2" if "''2-'' = nat_dec k @ ''-''" for k
  proof -
    have "dec_val (nat_dec k) = dec_val ''2''" using that by simp
    also have "dec_val ''2'' = 2" by code_simp
    finally show ?thesis by simp
  qed
  then show ?thesis
    by (auto simp: honours_range_def sample_http_def split: if_splits option.splits)
qed

theorem getRange_safe_witness:
  "getRange (\<lambda>b. Inr (string_of_bytes b)) sample_http ''r'' ''x'' ''b'' '''' 2 '''' = (Inr (drop 2 [1, 2, 3]), ''T'') \<and>
   getRange (\<lambda>b. Inr (string_of_bytes b)) sample_http ''r'' ''x'' ''b'' '''' 1 '''' = (Inl (ResumeUnsupported ''b'' 1), '''')"
proof -
  have run: "getRange (\<lambda>b. Inr (string_of_bytes b)) sample_http ''r'' ''x'' ''b'' '''' 2 '''' = (Inr [3], ''T'')"
    and reject: "getRange (\<lambda>b. Inr (string_of_bytes b)) sample_http ''r'' ''x'' ''b'' '''' 1 ''''
      = (Inl (ResumeUnsupported ''b'' 1), '''')"
    by code_simp+
  from getRange_safe[OF sample_http_honours run] reject show ?thesis by (simp add: run)
qed

section \<open>Resolution fails closed\<close>

lemma Resolve_Inr:
  assumes "ResolveManifestForPlatformWithDigest sha dec get tag platform pin = Inr (m, digest)"
  shows "(trim_space pin = '''' \<or> trim_space pin = digest) \<and>
    (\<exists>body. dec body = Inr m \<and> digest = ''sha256:'' @ sha body \<and>
      (get (''manifests/'' @ tag) = Inr body \<and> m_manifests m = [] \<or>
       (\<exists>doc idx d arch variant. get (''manifests/'' @ tag) = Inr doc \<and> dec doc = Inr idx \<and>
          d \<in> set (m_manifests idx) \<and> d_digest d = digest \<and>
          get (''manifests/'' @ digest) = Inr body \<and>
          parsePlatformRequest (if trim_space platform = '''' then ''amd64'' else trim_space platform) = Some (arch, variant) \<and>
          platform_matches arch variant d)))"
proof -
  let ?want = "if trim_space platform = '''' then ''amd64'' else trim_space platform"
  from assms obtain arch variant doc idx where
    doc: "parsePlatformRequest ?want = Some (arch, variant)" "get (''manifests/'' @ tag) = Inr doc" "dec doc = Inr idx"
    unfolding ResolveManifestForPlatformWithDigest_def Let_def
    by (auto split: option.splits sum.splits)
  note R = assms[unfolded ResolveManifestForPlatformWithDigest_def Let_def doc option.case prod.case sum.case]
  show ?thesis
  proof (cases "m_manifests idx = []")
    case True
    with R doc show ?thesis by (auto split: if_splits)
  next
    case False
    with R obtain pick where pick: "matchPlatformDescriptor (m_manifests idx) arch variant = Some pick"
      by (auto split: option.splits)
    then have "pick \<in> set (m_manifests idx)" "platform_matches arch variant pick"
      by (auto simp: matchPlatformDescriptor_def find_Some_iff)
    with R False pick doc show ?thesis by (auto split: if_splits sum.splits)
  qed
qed


text \<open>
  An index without a descriptor for the exact platform is an error that names what is
  available, never another platform's manifest; in particular a plain amd64 entry does not
  serve a request for amd64/v2. (The older \<^verbatim>\<open>ResolveManifest\<close> falls back to the first entry.)
\<close>

lemma resolve_never_substitutes:
  assumes "get (''manifests/'' @ tag) = Inr doc" "dec doc = Inr idx" "m_manifests idx \<noteq> []"
    "parsePlatformRequest want = Some (arch, variant)" "trim_space want = want" "want \<noteq> ''''"
    "\<forall>d \<in> set (m_manifests idx). \<not> platform_matches arch variant d"
  shows "ResolveManifestForPlatform sha dec get tag want
    = Inl (PlatformNotFound want (describeAvailablePlatforms (m_manifests idx)))"
proof -
  have "matchPlatformDescriptor (m_manifests idx) arch variant = None"
    using assms(7) by (simp add: matchPlatformDescriptor_def find_None_iff)
  then show ?thesis
    using assms(1-6) by (simp add: ResolveManifestForPlatform_def ResolveManifestForPlatformWithDigest_def)
qed

definition sample_entry :: "string \<Rightarrow> string \<Rightarrow> string \<Rightarrow> descriptor" where
  "sample_entry arch variant dg = \<lparr>d_mediaType = '''', d_digest = dg, d_size = 1,
     d_platform = Some \<lparr>pl_arch = arch, pl_variant = variant\<rparr>\<rparr>"

definition sample_manifest :: "descriptor list \<Rightarrow> string \<Rightarrow> manifest" where
  "sample_manifest ds cfg = \<lparr>m_mediaType = '''', m_manifests = ds, m_config = sample_entry '''' '''' cfg,
     m_layers = [], m_annotations = []\<rparr>"

text \<open>A registry with one index: the first byte of a document says what it is.\<close>

definition sample_dec :: "bytes \<Rightarrow> string + manifest" where
  "sample_dec b = (if b = [0] then
       Inr (sample_manifest [sample_entry ''arm64'' ''v8'' ''sha256:1'', sample_entry ''amd64'' '''' ''sha256:2''] '''')
     else Inr (sample_manifest [] (nat_dec (length b))))"

definition sample_get :: "string \<Rightarrow> string get_error + bytes" where
  "sample_get p = (if p = ''manifests/t'' then Inr [0]
     else if p = ''manifests/sha256:1'' then Inr [7]
     else if p = ''manifests/sha256:2'' then Inr [7, 7] else Inl (HTTPStatus p 404))"

definition len_sha :: "bytes \<Rightarrow> string" where
  "len_sha b = nat_dec (length b)"


lemma resolve_never_substitutes_witness:
  "ResolveManifestForPlatform len_sha sample_dec sample_get ''t'' ''linux/amd64/v2''
     = Inl (PlatformNotFound ''linux/amd64/v2'' [''arm64/v8'', ''amd64''])"
proof -
  let ?ds = "[sample_entry ''arm64'' ''v8'' ''sha256:1'', sample_entry ''amd64'' '''' ''sha256:2'']"
  have "sample_get (''manifests/'' @ ''t'') = Inr [0]" "sample_dec [0] = Inr (sample_manifest ?ds '''')"
    "parsePlatformRequest ''linux/amd64/v2'' = Some (''amd64'', ''v2'')"
    "trim_space ''linux/amd64/v2'' = ''linux/amd64/v2''"
    "\<forall>d \<in> set ?ds. \<not> platform_matches ''amd64'' ''v2'' d"
    "describeAvailablePlatforms ?ds = [''arm64/v8'', ''amd64'']"
    by code_simp+
  moreover have "m_manifests (sample_manifest ?ds '''') = ?ds" by (simp add: sample_manifest_def)
  ultimately show ?thesis
    using resolve_never_substitutes[of sample_get "''t''" "[0]" sample_dec "sample_manifest ?ds ''''"
        "''linux/amd64/v2''" "''amd64''" "''v2''" len_sha] by simp
qed

end
