(* ===== verification/Build_Request.thy ===== *)
theory Build_Request
  imports Oci_Client
begin

text \<open>
  The frozen build contract of \<^verbatim>\<open>internal/purefs/buildrequest.go\<close>: image references, platforms,
  digests, \<^verbatim>\<open>BuildRequest\<close> with its validation (which also fills in defaults, so it returns the
  request it leaves behind) and the check of what a build resolved against what was asked for.
\<close>

section \<open>Data\<close>

record target_identity =
  t_variant :: string
  t_flavor :: string
  t_platform :: string
  t_cpuBaseline :: string
  t_hardwareScope :: string

record resolved_inputs =
  ri_platformManifestDigest :: string
  ri_indexDigest :: string
  ri_configDigest :: string
  ri_liveOverlayDigest :: string
  ri_liveOverlayBaseDigest :: string
  ri_installerRevision :: string
  ri_engineRevision :: string

record build_options =
  bo_label :: string
  bo_packages :: "string list"
  bo_flatpaks :: "string list"
  bo_extraRun :: "string list"
  bo_liveMarker :: string
  bo_outputFilename :: string

record build_request =
  br_schemaVersion :: int
  br_kind :: string
  br_customImage :: bool
  br_image :: string
  br_registry :: string
  br_target :: "target_identity option"
  br_resolved :: "resolved_inputs option"
  br_options :: build_options
  br_catalogVersion :: string
  br_qualificationID :: string

definition BuildRequestSchemaVersion :: int where "BuildRequestSchemaVersion = 1"
definition BuildRequestKind :: string where "BuildRequestKind = ''build-request''"
definition DefaultRegistry :: string where "DefaultRegistry = ''https://ghcr.io''"

section \<open>References, platforms and digests\<close>

definition NormalizeImageRef :: "string \<Rightarrow> string" where
  "NormalizeImageRef img = trim_prefix (trim_space img) ''ghcr.io/''"

text \<open>The backward scan of \<^verbatim>\<open>SplitImageRef\<close> from position \<open>j - 1\<close>: a colon before any slash.\<close>

fun scan_colon :: "nat \<Rightarrow> string \<Rightarrow> nat option" where
  "scan_colon 0 s = None"
| "scan_colon (Suc j) s =
     (if s ! j = CHR '':'' then Some j else if s ! j = CHR ''/'' then None else scan_colon j s)"

definition SplitImageRef :: "string \<Rightarrow> (string \<times> string) option" where
  "SplitImageRef s0 =
     (let s = trim_space s0 in
      case scan_colon (length s) s of
        None \<Rightarrow> None
      | Some i \<Rightarrow> if i = 0 \<or> i = length s - 1 then None else Some (take i s, drop (i + 1) s))"

definition ParsePlatform :: "string \<Rightarrow> (string \<times> string) option" where
  "ParsePlatform platform =
     (let p = trim_space platform in
      if p = ''linux/amd64'' \<or> p = ''amd64'' \<or> p = ''x86_64'' then Some (''amd64'', '''')
      else if p = ''linux/amd64/v2'' then Some (''amd64'', ''v2'')
      else if p = ''linux/arm64'' \<or> p = ''linux/arm64/v8'' \<or> p = ''arm64'' \<or> p = ''aarch64'' then Some (''arm64'', '''')
      else None)"

definition EffectivePlatformArch :: "string \<Rightarrow> string option" where
  "EffectivePlatformArch platform =
     (if trim_space platform = '''' then Some ''amd64'' else map_option fst (ParsePlatform platform))"

definition is_lower_hex :: "char \<Rightarrow> bool" where
  "is_lower_hex c \<longleftrightarrow> c \<in> set ''0123456789abcdef''"

definition is_hex :: "char \<Rightarrow> bool" where
  "is_hex c \<longleftrightarrow> is_lower_hex c \<or> c \<in> set ''ABCDEF''"

definition validateDigest :: "string \<Rightarrow> bool" where
  "validateDigest v \<longleftrightarrow> v = '''' \<or>
     has_prefix v ''sha256:'' \<and> length v > length ''sha256:'' \<and> list_all is_hex (drop (length ''sha256:'') v)"

section \<open>Validation\<close>

datatype request_error =
    BadSchema int
  | BadKind string
  | NoImage
  | BadImage string
  | CustomQualified string
  | CustomTarget
  | EmptyTarget
  | HalfTarget
  | TargetNoPlatform
  | BadPlatform string
  | VariantMismatch string string
  | FlavorMismatch string string
  | QualifiedNoTarget string
  | QualifiedForeign string string
  | BadDigest string string
  | PlatformIsIndex string
  | OverlayBaseMismatch string string

definition check :: "bool \<Rightarrow> request_error \<Rightarrow> (request_error + 'a) \<Rightarrow> request_error + 'a" where
  "check bad e k = (if bad then Inl e else k)"

definition validate_target :: "target_identity \<Rightarrow> string \<Rightarrow> string \<Rightarrow> string \<Rightarrow> request_error + unit" where
  "validate_target t img repo tag =
     check (t_variant t = '''' \<and> t_flavor t = '''' \<and> t_platform t = '''') EmptyTarget
    (check (t_variant t \<noteq> '''' \<and> t_flavor t = '''' \<or> t_variant t = '''' \<and> t_flavor t \<noteq> '''') HalfTarget
    (check (t_variant t \<noteq> '''' \<and> t_flavor t \<noteq> '''' \<and> trim_space (t_platform t) = '''') TargetNoPlatform
    (check (t_platform t \<noteq> '''' \<and> ParsePlatform (t_platform t) = None) (BadPlatform (t_platform t))
    (check (t_variant t \<noteq> '''' \<and> t_variant t \<noteq> path_base repo \<and>
            \<not> has_prefix (t_variant t) (path_base repo @ ''-'')) (VariantMismatch (t_variant t) img)
    (check (t_flavor t \<noteq> '''' \<and> tag \<noteq> t_flavor t \<and> \<not> has_prefix tag (t_flavor t @ ''-''))
       (FlavorMismatch (t_flavor t) tag)
    (Inr ()))))))"

definition validate_identity :: "build_request \<Rightarrow> string \<Rightarrow> string \<Rightarrow> string \<Rightarrow> request_error + unit" where
  "validate_identity r normImg repo tag =
     (if br_customImage r then
        check (br_qualificationID r \<noteq> '''') (CustomQualified (br_qualificationID r))
       (check (br_target r \<noteq> None) CustomTarget (Inr ()))
      else
        bindR (case br_target r of None \<Rightarrow> Inr () | Some t \<Rightarrow> validate_target t (br_image r) repo tag)
          (\<lambda>_. if br_qualificationID r \<noteq> '''' then
             check (case br_target r of None \<Rightarrow> True | Some t \<Rightarrow> t_variant t = '''' \<or> t_flavor t = '''')
               (QualifiedNoTarget (br_qualificationID r))
            (check (\<not> has_prefix normImg ''tuna-os/'') (QualifiedForeign (br_image r) (br_qualificationID r)) (Inr ()))
           else Inr ()))"

fun validate_digests :: "(string \<times> string) list \<Rightarrow> request_error + unit" where
  "validate_digests [] = Inr ()"
| "validate_digests ((v, field) # rest) = check (\<not> validateDigest v) (BadDigest field v) (validate_digests rest)"

definition validate_inputs :: "resolved_inputs \<Rightarrow> request_error + unit" where
  "validate_inputs ri =
     bindR (validate_digests
       [(ri_platformManifestDigest ri, ''platformManifestDigest''), (ri_indexDigest ri, ''indexDigest''),
        (ri_configDigest ri, ''configDigest''), (ri_liveOverlayDigest ri, ''liveOverlayDigest''),
        (ri_liveOverlayBaseDigest ri, ''liveOverlayBaseDigest'')])
     (\<lambda>_. check (ri_platformManifestDigest ri \<noteq> '''' \<and> ri_indexDigest ri \<noteq> '''' \<and>
                 ri_platformManifestDigest ri = ri_indexDigest ri) (PlatformIsIndex (ri_platformManifestDigest ri))
         (check (ri_platformManifestDigest ri \<noteq> '''' \<and> ri_liveOverlayBaseDigest ri \<noteq> '''' \<and>
                 ri_platformManifestDigest ri \<noteq> ri_liveOverlayBaseDigest ri)
            (OverlayBaseMismatch (ri_liveOverlayBaseDigest ri) (ri_platformManifestDigest ri)) (Inr ())))"

definition Validate :: "build_request \<Rightarrow> request_error + build_request" where
  "Validate r0 =
     (let r1 = (if br_schemaVersion r0 = 0 then r0\<lparr>br_schemaVersion := BuildRequestSchemaVersion\<rparr> else r0) in
      check (br_schemaVersion r1 \<noteq> BuildRequestSchemaVersion) (BadSchema (br_schemaVersion r1))
     (let r2 = (if br_kind r1 = '''' then r1\<lparr>br_kind := BuildRequestKind\<rparr> else r1) in
      check (br_kind r2 \<noteq> BuildRequestKind) (BadKind (br_kind r2))
     (let r3 = r2\<lparr>br_image := trim_space (br_image r2)\<rparr> in
      check (br_image r3 = '''') NoImage
     (let normImg = NormalizeImageRef (br_image r3) in
      case SplitImageRef normImg of
        None \<Rightarrow> Inl (BadImage (br_image r3))
      | Some (repo, tag) \<Rightarrow>
          let r4 = (if trim_space (br_registry r3) = '''' then r3\<lparr>br_registry := DefaultRegistry\<rparr> else r3) in
          bindR (validate_identity r4 normImg repo tag)
            (\<lambda>_. bindR (case br_resolved r4 of None \<Rightarrow> Inr () | Some ri \<Rightarrow> validate_inputs ri)
              (\<lambda>_. Inr r4))))))"

definition IsCuratedTarget :: "build_request \<Rightarrow> bool" where
  "IsCuratedTarget r \<longleftrightarrow> \<not> br_customImage r \<and>
     (case br_target r of None \<Rightarrow> False | Some t \<Rightarrow>
        t_variant t \<noteq> '''' \<and> t_flavor t \<noteq> '''' \<and> t_platform t \<noteq> '''') \<and>
     has_prefix (NormalizeImageRef (br_image r)) ''tuna-os/''"

definition EffectivePlatform :: "build_request \<Rightarrow> string" where
  "EffectivePlatform r = (case br_target r of
      None \<Rightarrow> ''amd64''
    | Some t \<Rightarrow> if trim_space (t_platform t) = '''' then ''amd64''
        else case ParsePlatform (t_platform t) of None \<Rightarrow> '''' | Some (arch, _) \<Rightarrow> arch)"

definition PinnedPlatformManifestDigest :: "build_request \<Rightarrow> string" where
  "PinnedPlatformManifestDigest r =
     (case br_resolved r of None \<Rightarrow> '''' | Some ri \<Rightarrow> trim_space (ri_platformManifestDigest ri))"

datatype resolved_error =
    Invalid request_error
  | ResolvedImageEmpty
  | ImageMismatch string string
  | ResolvedPlatformEmpty
  | PlatformMismatch string string
  | ResolvedDigestEmpty
  | PinMismatch string string

definition verify_platform :: "string \<Rightarrow> string \<Rightarrow> resolved_error option" where
  "verify_platform want got =
     (let wantPlat = trim_space want; gotPlat = trim_space got in
      if gotPlat = '''' then Some ResolvedPlatformEmpty
      else case ParsePlatform wantPlat of
        None \<Rightarrow> Some (Invalid (BadPlatform wantPlat))
      | Some (wantArch, wantVar) \<Rightarrow>
         (case ParsePlatform gotPlat of
            None \<Rightarrow> Some (PlatformMismatch gotPlat wantPlat)
          | Some (gotArch, gotVar) \<Rightarrow>
              if wantArch \<noteq> gotArch then Some (PlatformMismatch gotPlat wantPlat)
              else if contains wantPlat ''/'' \<and> contains gotPlat ''/'' \<and> wantVar \<noteq> gotVar
              then Some (PlatformMismatch gotPlat wantPlat) else None))"

definition VerifyResolved :: "build_request \<Rightarrow> string \<Rightarrow> string \<Rightarrow> string \<Rightarrow> resolved_error option" where
  "VerifyResolved r0 actualImage actualPlatform actualDigest =
     (case Validate r0 of
        Inl e \<Rightarrow> Some (Invalid e)
      | Inr r \<Rightarrow>
          if br_image r \<noteq> '''' \<and> trim_space actualImage = '''' then Some ResolvedImageEmpty
          else if br_image r \<noteq> '''' \<and> NormalizeImageRef (br_image r) \<noteq> NormalizeImageRef actualImage
          then Some (ImageMismatch actualImage (br_image r))
          else case (case br_target r of
                       None \<Rightarrow> None
                     | Some t \<Rightarrow> if trim_space (t_platform t) = '''' then None
                                else verify_platform (t_platform t) actualPlatform) of
            Some e \<Rightarrow> Some e
          | None \<Rightarrow>
              let wantDigest = PinnedPlatformManifestDigest r; gotDigest = trim_space actualDigest in
              if wantDigest = '''' then None
              else if gotDigest = '''' then Some ResolvedDigestEmpty
              else if gotDigest \<noteq> wantDigest then Some (PinMismatch gotDigest wantDigest)
              else None)"

section \<open>Image references\<close>

lemma scan_colon_spec:
  "j \<le> length s \<Longrightarrow> (scan_colon j s = Some i \<longleftrightarrow>
     i < j \<and> s ! i = CHR '':'' \<and> (\<forall>k. i < k \<and> k < j \<longrightarrow> s ! k \<noteq> CHR '':'' \<and> s ! k \<noteq> CHR ''/''))"
proof (induction j)
  case (Suc j)
  then have IH: "scan_colon j s = Some i \<longleftrightarrow>
     i < j \<and> s ! i = CHR '':'' \<and> (\<forall>k. i < k \<and> k < j \<longrightarrow> s ! k \<noteq> CHR '':'' \<and> s ! k \<noteq> CHR ''/'')"
    by simp
  show ?case by (auto simp: IH less_Suc_eq)
qed simp

text \<open>
  An image reference splits into repository and tag exactly when it is, up to white space
  around it, \<open>repo:tag\<close> with both parts non-empty and neither colon nor slash in the tag (so
  the port of \<open>host:port/repo\<close> is never taken for a tag), and the split is that one.
\<close>

theorem SplitImageRef_iff:
  "SplitImageRef s = Some (repo, tag) \<longleftrightarrow>
     trim_space s = repo @ '':'' @ tag \<and> repo \<noteq> '''' \<and> tag \<noteq> '''' \<and>
     CHR '':'' \<notin> set tag \<and> CHR ''/'' \<notin> set tag"
  (is "?L = ?R")
proof
  assume ?L
  then obtain i where i: "scan_colon (length (trim_space s)) (trim_space s) = Some i" "i \<noteq> 0"
      "i \<noteq> length (trim_space s) - 1" "repo = take i (trim_space s)" "tag = drop (i + 1) (trim_space s)"
    by (auto simp: SplitImageRef_def Let_def split: option.splits if_splits)
  let ?t = "trim_space s"
  have sc: "i < length ?t" "?t ! i = CHR '':''"
    "\<And>k. i < k \<Longrightarrow> k < length ?t \<Longrightarrow> ?t ! k \<noteq> CHR '':'' \<and> ?t ! k \<noteq> CHR ''/''"
    using i(1) by (auto simp: scan_colon_spec)
  have "?t = take i ?t @ [?t ! i] @ drop (i + 1) ?t" using sc(1) id_take_nth_drop by fastforce
  moreover have "c \<noteq> CHR '':'' \<and> c \<noteq> CHR ''/''" if "c \<in> set tag" for c
    using that sc(3)[of "i + 1 + _"] i(5) by (auto simp: in_set_conv_nth)
  ultimately show ?R using i sc by auto
next
  assume R: ?R
  let ?t = "trim_space s"
  have "?t ! k \<noteq> CHR '':'' \<and> ?t ! k \<noteq> CHR ''/''" if "length repo < k" "k < length ?t" for k
  proof -
    have "?t ! k = tag ! (k - length repo - 1)" "k - length repo - 1 < length tag"
      using R that by (auto simp: nth_append)
    then show ?thesis using R nth_mem by metis
  qed
  then have "scan_colon (length ?t) ?t = Some (length repo)"
    using R by (subst scan_colon_spec) (auto simp: nth_append)
  then show ?L using R by (simp add: SplitImageRef_def)
qed

section \<open>What validation establishes\<close>

lemma check_Inr [simp]: "check bad e k = Inr a \<longleftrightarrow> \<not> bad \<and> k = Inr a"
  by (simp add: check_def)

lemma Validate_Inr:
  assumes "Validate r = Inr r'"
  obtains repo tag where
    "br_schemaVersion r' = BuildRequestSchemaVersion" "br_kind r' = BuildRequestKind"
    "br_image r' = trim_space (br_image r)" "br_image r' \<noteq> ''''" "trim_space (br_registry r') \<noteq> ''''"
    "SplitImageRef (NormalizeImageRef (br_image r')) = Some (repo, tag)"
    "validate_identity r' (NormalizeImageRef (br_image r')) repo tag = Inr ()"
    "(case br_resolved r' of None \<Rightarrow> Inr () | Some ri \<Rightarrow> validate_inputs ri) = Inr ()"
    "br_target r' = br_target r" "br_resolved r' = br_resolved r"
proof -
  have reg: "trim_space DefaultRegistry \<noteq> ''''" by code_simp
  define r1 where "r1 = (if br_schemaVersion r = 0 then r\<lparr>br_schemaVersion := BuildRequestSchemaVersion\<rparr> else r)"
  define r2 where "r2 = (if br_kind r1 = '''' then r1\<lparr>br_kind := BuildRequestKind\<rparr> else r1)"
  define r3 where "r3 = r2\<lparr>br_image := trim_space (br_image r2)\<rparr>"
  define r4 where "r4 = (if trim_space (br_registry r3) = '''' then r3\<lparr>br_registry := DefaultRegistry\<rparr> else r3)"
  note V = assms[unfolded Validate_def Let_def, folded r1_def, folded r2_def, folded r3_def, folded r4_def]
  from V have c: "br_schemaVersion r1 = BuildRequestSchemaVersion" "br_kind r2 = BuildRequestKind" "br_image r3 \<noteq> ''''"
    unfolding check_Inr by simp_all
  from V obtain repo tag where s: "SplitImageRef (NormalizeImageRef (br_image r3)) = Some (repo, tag)"
    unfolding check_Inr by (cases "SplitImageRef (NormalizeImageRef (br_image r3))") auto
  from V have v: "validate_identity r4 (NormalizeImageRef (br_image r3)) repo tag = Inr ()"
      "(case br_resolved r4 of None \<Rightarrow> Inr () | Some ri \<Rightarrow> validate_inputs ri) = Inr ()" "r' = r4"
    unfolding check_Inr s option.case prod.case bindR_Inr_iff by auto
  have "br_schemaVersion r4 = br_schemaVersion r1" "br_kind r4 = br_kind r2" "br_image r4 = br_image r3"
      "br_image r3 = trim_space (br_image r)" "trim_space (br_registry r4) \<noteq> ''''"
      "br_target r4 = br_target r" "br_resolved r4 = br_resolved r"
    using reg by (simp_all add: r4_def r3_def r2_def r1_def)
  then show ?thesis using that c s v by metis
qed


text \<open>
  When a build is accepted as matching its request, the image it used is the requested
  one up to the registry prefix, the platform it used has the requested architecture, and the
  manifest digest it used is the pinned one if the request pins one.
\<close>

lemma VerifyResolved_sound:
  assumes "VerifyResolved r img plat digest = None"
  shows "\<exists>r'. Validate r = Inr r' \<and> NormalizeImageRef img = NormalizeImageRef (br_image r') \<and>
    (\<forall>t. br_target r' = Some t \<and> trim_space (t_platform t) \<noteq> '''' \<longrightarrow>
        map_option fst (ParsePlatform plat) = Some (EffectivePlatform r')) \<and>
    (PinnedPlatformManifestDigest r' \<noteq> '''' \<longrightarrow> trim_space digest = PinnedPlatformManifestDigest r')"
proof -
  from assms obtain r' where v: "Validate r = Inr r'"
    by (auto simp: VerifyResolved_def split: sum.splits)
  then have ne: "br_image r' \<noteq> ''''" by (rule Validate_Inr) blast
  note R = assms[unfolded VerifyResolved_def v sum.case Let_def]
  have "NormalizeImageRef img = NormalizeImageRef (br_image r')" using R ne by (auto split: if_splits)
  moreover have "map_option fst (ParsePlatform plat) = Some (EffectivePlatform r')"
    if t: "br_target r' = Some t" "trim_space (t_platform t) \<noteq> ''''" for t
  proof -
    have trim: "ParsePlatform (trim_space p) = ParsePlatform p" for p by (simp add: ParsePlatform_def)
    have "verify_platform (t_platform t) plat = None"
      using R ne t by (auto split: if_splits option.splits)
    then show ?thesis
      using t by (auto simp: verify_platform_def Let_def trim EffectivePlatform_def split: if_splits option.splits)
  qed
  moreover have "trim_space digest = PinnedPlatformManifestDigest r'" if "PinnedPlatformManifestDigest r' \<noteq> ''''"
    using R ne that by (auto split: if_splits option.splits)
  ultimately show ?thesis using v by blast
qed

definition sample_request :: build_request where
  "sample_request = \<lparr>br_schemaVersion = 0, br_kind = '''', br_customImage = False,
     br_image = '' ghcr.io/tuna-os/yellowfin:kde '', br_registry = '''',
     br_target = Some \<lparr>t_variant = ''yellowfin'', t_flavor = ''kde'', t_platform = ''linux/amd64/v2'',
        t_cpuBaseline = '''', t_hardwareScope = ''''\<rparr>,
     br_resolved = Some \<lparr>ri_platformManifestDigest = ''sha256:ab'', ri_indexDigest = '''', ri_configDigest = '''',
        ri_liveOverlayDigest = '''', ri_liveOverlayBaseDigest = ''sha256:ab'', ri_installerRevision = '''',
        ri_engineRevision = ''''\<rparr>,
     br_options = \<lparr>bo_label = '''', bo_packages = [], bo_flatpaks = [], bo_extraRun = [], bo_liveMarker = '''',
        bo_outputFilename = ''''\<rparr>,
     br_catalogVersion = '''', br_qualificationID = ''q1''\<rparr>"

definition sample_valid :: build_request where
  "sample_valid = sample_request\<lparr>br_schemaVersion := 1, br_kind := ''build-request'',
     br_image := ''ghcr.io/tuna-os/yellowfin:kde'', br_registry := ''https://ghcr.io''\<rparr>"


lemma VerifyResolved_sound_witness:
  "\<exists>r'. Validate sample_request = Inr r' \<and>
     NormalizeImageRef ''tuna-os/yellowfin:kde'' = NormalizeImageRef (br_image r') \<and>
     PinnedPlatformManifestDigest r' = ''sha256:ab''"
proof -
  have ok: "VerifyResolved sample_request ''tuna-os/yellowfin:kde'' ''linux/amd64/v2'' ''sha256:ab'' = None"
    and v: "Validate sample_request = Inr sample_valid"
    and p: "PinnedPlatformManifestDigest sample_valid = ''sha256:ab''"
    by code_simp+
  from VerifyResolved_sound[OF ok] v p show ?thesis by auto
qed

end
