(* ===== verification/Source_Image.thy ===== *)
theory Source_Image
  imports Build_Request
begin

text \<open>
  How a build finds its source image: \<^verbatim>\<open>ResolveManifestObserved\<close> and
  \<^verbatim>\<open>ResolveSourceManifestObserved\<close> of \<^verbatim>\<open>internal/purefs/buildrequest.go\<close>, the pinned fetch of
  \<^verbatim>\<open>internal/purefs/pinned.go\<close>, and the digest, platform and media-input checks of
  \<^verbatim>\<open>internal/purefs/offlinemedia.go\<close>. \<^verbatim>\<open>url.Parse\<close> is the parameter \<open>parse_url\<close>, reading a config
  blob to the end and closing it the parameter \<open>read_blob\<close>, JSON decoding of a config the
  parameter \<open>cfgdec\<close> (the content, and whether nothing followed it).
\<close>

section \<open>Observed resolution\<close>

record url =
  u_scheme :: string
  u_host :: string
  u_user :: bool
  u_rawQuery :: string
  u_forceQuery :: bool
  u_fragment :: string

record config_content =
  cc_os :: string
  cc_arch :: string
  cc_variant :: string

record observation =
  mo_endpoint :: string
  mo_repo :: string
  mo_reference :: string
  mo_manifestDigest :: string
  mo_indexDigest :: string
  mo_platform :: "platform option"
  mo_config :: descriptor
  mo_bytesVerified :: bool
  mo_content :: "config_content option"

datatype 'e source_error =
    SUnsupportedPlatform string
  | SUnsafeEndpoint
  | SGet "'e get_error"
  | STagDigest string string
  | SDecode 'e
  | SPlatformMissing string string
  | SPlatformDigest string string
  | SPlatformDecode 'e
  | SPinShape string
  | SPinDigest string string
  | SPinDecode 'e
  | SPinIsIndex string
  | SNoConfig
  | SConfigSize int
  | SConfigRead 'e
  | SConfigInvalid
  | SConfigPlatform string

definition observedRegistryBase :: "(string \<Rightarrow> url option) \<Rightarrow> string \<Rightarrow> string option" where
  "observedRegistryBase parse_url cbase =
     (let base = trim_right_by (\<lambda>c. c = CHR ''/'') cbase in
      case parse_url base of
        None \<Rightarrow> None
      | Some u \<Rightarrow>
          if u_host u = '''' \<or> u_scheme u \<noteq> ''https'' \<and> u_scheme u \<noteq> ''http'' \<or> u_user u \<or>
             u_rawQuery u \<noteq> '''' \<or> u_forceQuery u \<or> u_fragment u \<noteq> '''' \<or> contains base ''#''
          then None else Some base)"

definition defaultPlatform :: "string \<Rightarrow> string" where
  "defaultPlatform platform = (if trim_space platform = '''' then ''amd64'' else trim_space platform)"

definition fetchRegistryToken ::
  "(bytes \<Rightarrow> 'e + string) \<Rightarrow> (request \<Rightarrow> 'e http_ans) \<Rightarrow> string \<Rightarrow> string \<Rightarrow> 'e get_error + string" where
  "fetchRegistryToken tokdec http base repo =
     (case http (token_request base repo) of
        BadURL e \<Rightarrow> Inl (TokenErr e)
      | Transport e _ \<Rightarrow> Inl (TokenErr e)
      | Resp status body \<Rightarrow>
          if status \<noteq> 200 then Inl (TokenHTTP status)
          else case tokdec body of Inl e \<Rightarrow> Inl (TokenDecode e) | Inr t \<Rightarrow> Inr t)"

definition fetchRegistryManifestBytes ::
  "(request \<Rightarrow> 'e http_ans) \<Rightarrow> string \<Rightarrow> string \<Rightarrow> string \<Rightarrow> string \<Rightarrow> 'e get_error + bytes" where
  "fetchRegistryManifestBytes http base repo reference token =
     (case http (blob_request base repo (''manifests/'' @ reference) acceptManifest 0 token) of
        BadURL e \<Rightarrow> Inl (BadRequest e)
      | Transport e _ \<Rightarrow> Inl (TransportErr e)
      | Resp status body \<Rightarrow>
          if status \<noteq> 200 then Inl (HTTPStatus (''manifests/'' @ reference) status) else Inr body)"

text \<open>The selection loop, and the second loop that admits a sole variantless amd64 entry for v2.\<close>

definition is_amd64 :: "descriptor \<Rightarrow> bool" where
  "is_amd64 d = (case d_platform d of None \<Rightarrow> False | Some p \<Rightarrow> pl_arch p = ''amd64'')"

definition d_variant :: "descriptor \<Rightarrow> string" where
  "d_variant d = (case d_platform d of None \<Rightarrow> '''' | Some p \<Rightarrow> pl_variant p)"

definition pick_observed :: "descriptor list \<Rightarrow> string \<Rightarrow> string \<Rightarrow> descriptor option" where
  "pick_observed ds wantArch wantVar =
     (case find (\<lambda>d. case d_platform d of
                   None \<Rightarrow> False
                 | Some p \<Rightarrow> pl_arch p = wantArch \<and>
                     (if wantArch = ''arm64'' then pl_variant p = '''' \<or> pl_variant p = ''v8''
                      else pl_variant p = wantVar)) ds of
        Some d \<Rightarrow> Some d
      | None \<Rightarrow>
          if wantArch = ''amd64'' \<and> wantVar = ''v2'' then
            (let hasAnyVariant = list_ex (\<lambda>d. is_amd64 d \<and> d_variant d \<noteq> '''') ds;
                 fallback = find (\<lambda>d. is_amd64 d \<and> d_variant d = '''') ds
             in if \<not> hasAnyVariant then fallback else None)
          else None)"

definition ResolveManifestObserved ::
  "(bytes \<Rightarrow> string) \<Rightarrow> (bytes \<Rightarrow> 'e + manifest) \<Rightarrow> (bytes \<Rightarrow> 'e + string) \<Rightarrow> (request \<Rightarrow> 'e http_ans) \<Rightarrow>
   (string \<Rightarrow> url option) \<Rightarrow> string \<Rightarrow> ref \<Rightarrow> string \<Rightarrow> 'e source_error + (manifest \<times> observation)" where
  "ResolveManifestObserved sha dec tokdec http parse_url cbase r platform =
     (case ParsePlatform (defaultPlatform platform) of
        None \<Rightarrow> Inl (SUnsupportedPlatform (defaultPlatform platform))
      | Some (wantArch, wantVar) \<Rightarrow>
     (case observedRegistryBase parse_url cbase of
        None \<Rightarrow> Inl SUnsafeEndpoint
      | Some base \<Rightarrow>
     (case fetchRegistryToken tokdec http base (ref_repo r) of
        Inl e \<Rightarrow> Inl (SGet e)
      | Inr token \<Rightarrow>
     (case fetchRegistryManifestBytes http base (ref_repo r) (ref_tag r) token of
        Inl e \<Rightarrow> Inl (SGet e)
      | Inr body \<Rightarrow>
        let topDigest = ''sha256:'' @ sha body in
        if has_prefix (ref_tag r) ''sha256:'' \<and> ref_tag r \<noteq> topDigest then Inl (STagDigest topDigest (ref_tag r))
        else
     (case dec body of
        Inl e \<Rightarrow> Inl (SDecode e)
      | Inr m \<Rightarrow>
        let obs = \<lparr>mo_endpoint = base, mo_repo = ref_repo r, mo_reference = ref_tag r,
                   mo_manifestDigest = topDigest, mo_indexDigest = '''', mo_platform = None,
                   mo_config = m_config m, mo_bytesVerified = False, mo_content = None\<rparr> in
        if m_manifests m = [] then Inr (m, obs)
        else
     (case pick_observed (m_manifests m) wantArch wantVar of
        None \<Rightarrow> Inl (SPlatformMissing (defaultPlatform platform) wantArch)
      | Some pick \<Rightarrow>
     (case fetchRegistryManifestBytes http base (ref_repo r) (d_digest pick) token of
        Inl e \<Rightarrow> Inl (SGet e)
      | Inr body2 \<Rightarrow>
        let gotDigest = ''sha256:'' @ sha body2 in
        if gotDigest \<noteq> d_digest pick then Inl (SPlatformDigest gotDigest (d_digest pick))
        else
     (case dec body2 of
        Inl e \<Rightarrow> Inl (SPlatformDecode e)
      | Inr pm \<Rightarrow> Inr (pm, obs\<lparr>mo_manifestDigest := d_digest pick, mo_indexDigest := topDigest,
            mo_platform := d_platform pick, mo_config := m_config pm\<rparr>)))))))))"

section \<open>Digests and media platforms\<close>

definition validOfflineDigest :: "string \<Rightarrow> bool" where
  "validOfflineDigest d \<longleftrightarrow> has_prefix d ''sha256:'' \<and> length d = length ''sha256:'' + 64 \<and>
     list_all is_lower_hex (drop (length ''sha256:'') d)"

definition SplitDigest :: "string \<Rightarrow> (string \<times> string) option" where
  "SplitDigest digest =
     (if \<not> validOfflineDigest digest then None else Some (''sha256'', drop (length ''sha256:'') digest))"

definition OfflineLayoutDir :: string where
  "OfflineLayoutDir = ''/OCI''"

definition offlineBlobPath :: "string \<Rightarrow> string option" where
  "offlineBlobPath digest = (case SplitDigest digest of
      None \<Rightarrow> None | Some (alg, hex) \<Rightarrow> Some (OfflineLayoutDir @ ''/blobs/'' @ alg @ ''/'' @ hex))"

text \<open>\<^verbatim>\<open>strings.Cut\<close> at the first slash.\<close>

definition cut_slash :: "string \<Rightarrow> string \<times> string" where
  "cut_slash s = (takeWhile (\<lambda>c. c \<noteq> CHR ''/'') s, drop 1 (dropWhile (\<lambda>c. c \<noteq> CHR ''/'') s))"

datatype media_error =
    MediaPlatformEmpty
  | MediaPlatformShape string
  | MediaPlatformArch string
  | MediaImageEmpty
  | MediaManifestDigest string
  | MediaIndexDigest string
  | MediaConfigDigest string
  | MediaLayoutPath string
  | MediaTargetEmpty

definition normalizeMediaPlatform :: "string \<Rightarrow> media_error + string" where
  "normalizeMediaPlatform platform0 =
     (let p = trim_space platform0 in
      if p = '''' then Inl MediaPlatformEmpty
      else
        let platform = (if \<not> contains p ''/'' then ''linux/'' @ p else p);
            (osPart, archPart) = cut_slash platform
        in if osPart \<noteq> ''linux'' \<or> archPart = '''' \<or> contains archPart ''/'' then Inl (MediaPlatformShape platform)
           else case EffectivePlatformArch archPart of
             None \<Rightarrow> Inl (MediaPlatformArch platform)
           | Some arch \<Rightarrow> Inr (''linux/'' @ arch))"

record media_input =
  mi_schemaVersion :: int
  mi_kind :: string
  mi_image :: string
  mi_platformManifestDigest :: string
  mi_indexDigest :: string
  mi_configDigest :: string
  mi_ociLayoutPath :: string
  mi_targetImgref :: string
  mi_platform :: string
  mi_catalogVersion :: string
  mi_qualificationID :: string

definition validateOfflineMediaInput :: "media_input \<Rightarrow> media_error + string" where
  "validateOfflineMediaInput inp =
     (if trim_space (mi_image inp) = '''' then Inl MediaImageEmpty
      else if \<not> validOfflineDigest (mi_platformManifestDigest inp)
        then Inl (MediaManifestDigest (mi_platformManifestDigest inp))
      else if mi_indexDigest inp \<noteq> '''' \<and> \<not> validOfflineDigest (mi_indexDigest inp)
        then Inl (MediaIndexDigest (mi_indexDigest inp))
      else if mi_configDigest inp \<noteq> '''' \<and> \<not> validOfflineDigest (mi_configDigest inp)
        then Inl (MediaConfigDigest (mi_configDigest inp))
      else if mi_ociLayoutPath inp = '''' \<or> \<not> has_prefix (mi_ociLayoutPath inp) ''/''
        then Inl (MediaLayoutPath (mi_ociLayoutPath inp))
      else if trim_space (mi_targetImgref inp) = '''' then Inl MediaTargetEmpty
      else normalizeMediaPlatform (mi_platform inp))"

text \<open>\<^verbatim>\<open>WriteMediaInputJSON\<close> up to the JSON encoding: the document it encodes.\<close>

definition WriteMediaInput ::
  "string \<Rightarrow> string \<Rightarrow> string \<Rightarrow> string \<Rightarrow> string \<Rightarrow> string \<Rightarrow> string \<Rightarrow> string \<Rightarrow> string \<Rightarrow>
   media_error + media_input" where
  "WriteMediaInput img manifestDigest indexDigest configDigest layoutPath target platform catalog qualification =
     (let inp = \<lparr>mi_schemaVersion = 1, mi_kind = ''tacklebox-live'', mi_image = img,
             mi_platformManifestDigest = manifestDigest, mi_indexDigest = indexDigest,
             mi_configDigest = configDigest, mi_ociLayoutPath = layoutPath, mi_targetImgref = target,
             mi_platform = platform, mi_catalogVersion = catalog, mi_qualificationID = qualification\<rparr>
      in bindR (validateOfflineMediaInput inp) (\<lambda>p. Inr (inp\<lparr>mi_platform := p\<rparr>)))"

definition ShouldEmbedOfflineLayout :: "build_request option \<Rightarrow> bool" where
  "ShouldEmbedOfflineLayout req = (case req of None \<Rightarrow> False | Some r \<Rightarrow>
     (case br_resolved r of None \<Rightarrow> False | Some ri \<Rightarrow>
        ri_platformManifestDigest ri \<noteq> '''' \<or> ri_indexDigest ri \<noteq> '''' \<or> ri_configDigest ri \<noteq> ''''))"

section \<open>Pinned manifests\<close>

definition FetchManifestBytes ::
  "(bytes \<Rightarrow> string) \<Rightarrow> (bytes \<Rightarrow> 'e + string) \<Rightarrow> (request \<Rightarrow> 'e http_ans) \<Rightarrow> string \<Rightarrow> ref \<Rightarrow> string \<Rightarrow>
   'e source_error + bytes" where
  "FetchManifestBytes sha tokdec http cbase r digest =
     (if \<not> validOfflineDigest digest then Inl (SPinShape digest)
      else let base = trim_right_by (\<lambda>c. c = CHR ''/'') cbase in
        case fetchRegistryToken tokdec http base (ref_repo r) of
          Inl e \<Rightarrow> Inl (SGet e)
        | Inr token \<Rightarrow>
            (case fetchRegistryManifestBytes http base (ref_repo r) digest token of
               Inl e \<Rightarrow> Inl (SGet e)
             | Inr body \<Rightarrow>
                 let got = ''sha256:'' @ sha body in
                 if got \<noteq> digest then Inl (SPinDigest got digest) else Inr body))"

definition ReadVerifiedConfigContent ::
  "(bytes \<Rightarrow> (config_content \<times> bool) option) \<Rightarrow> bytes \<Rightarrow> int \<Rightarrow> 'e source_error + config_content" where
  "ReadVerifiedConfigContent cfgdec data sz =
     (if sz \<le> 0 \<or> sz > 1024 * 1024 then Inl (SConfigSize sz)
      else case cfgdec (take (nat (sz + 1)) data) of
        None \<Rightarrow> Inl SConfigInvalid
      | Some (content, nothing_after) \<Rightarrow>
          if \<not> nothing_after \<or> int (length (take (nat (sz + 1)) data)) \<noteq> sz then Inl SConfigInvalid
          else Inr content)"

definition fetchVerifiedConfigContent ::
  "(bytes \<Rightarrow> (config_content \<times> bool) option) \<Rightarrow> (descriptor \<Rightarrow> 'e + bytes) \<Rightarrow> descriptor \<Rightarrow>
   'e source_error + config_content" where
  "fetchVerifiedConfigContent cfgdec read_blob d =
     (if d_digest d = '''' then Inl SNoConfig
      else if d_size d \<le> 0 \<or> d_size d > 1024 * 1024 then Inl (SConfigSize (d_size d))
      else case read_blob d of
        Inl e \<Rightarrow> Inl (SConfigRead e)
      | Inr data \<Rightarrow> ReadVerifiedConfigContent cfgdec data (d_size d))"

definition checkConfigPlatform :: "config_content \<Rightarrow> string \<Rightarrow> string \<Rightarrow> string option" where
  "checkConfigPlatform content wantArch wantVar =
     (let got = cc_os content @ ''/'' @ cc_arch content @
            (if cc_variant content \<noteq> '''' then ''/'' @ cc_variant content else '''') in
      if cc_os content \<noteq> ''linux'' \<or> cc_arch content \<noteq> wantArch then Some got
      else if wantArch = ''arm64'' then
        (if cc_variant content \<noteq> '''' \<and> cc_variant content \<noteq> ''v8'' then Some got else None)
      else if cc_variant content \<noteq> wantVar \<and> (wantVar \<noteq> ''v2'' \<or> cc_variant content \<noteq> '''') then Some got
      else None)"

definition FetchPinnedPlatformManifest ::
  "(bytes \<Rightarrow> string) \<Rightarrow> (bytes \<Rightarrow> 'e + manifest) \<Rightarrow> (bytes \<Rightarrow> 'e + string) \<Rightarrow> (request \<Rightarrow> 'e http_ans) \<Rightarrow>
   (bytes \<Rightarrow> (config_content \<times> bool) option) \<Rightarrow> (descriptor \<Rightarrow> 'e + bytes) \<Rightarrow> string \<Rightarrow> ref \<Rightarrow> string \<Rightarrow> string \<Rightarrow>
   'e source_error + (manifest \<times> config_content)" where
  "FetchPinnedPlatformManifest sha dec tokdec http cfgdec read_blob cbase r platform digest =
     (let want = defaultPlatform platform in
      case ParsePlatform want of
        None \<Rightarrow> Inl (SUnsupportedPlatform want)
      | Some (wantArch, wantVar) \<Rightarrow>
         if \<not> validOfflineDigest digest then Inl (SPinShape digest)
         else
         (case FetchManifestBytes sha tokdec http cbase r digest of
            Inl e \<Rightarrow> Inl e
          | Inr body \<Rightarrow>
         (case dec body of
            Inl e \<Rightarrow> Inl (SPinDecode e)
          | Inr m \<Rightarrow>
             if m_manifests m \<noteq> [] then Inl (SPinIsIndex digest)
             else
         (case fetchVerifiedConfigContent cfgdec read_blob (m_config m) of
            Inl e \<Rightarrow> Inl e
          | Inr content \<Rightarrow>
             (case checkConfigPlatform content wantArch wantVar of
                Some got \<Rightarrow> Inl (SConfigPlatform got)
              | None \<Rightarrow> Inr (m, content))))))"

definition ResolveSourceManifestObserved ::
  "(bytes \<Rightarrow> string) \<Rightarrow> (bytes \<Rightarrow> 'e + manifest) \<Rightarrow> (bytes \<Rightarrow> 'e + string) \<Rightarrow> (request \<Rightarrow> 'e http_ans) \<Rightarrow>
   (string \<Rightarrow> url option) \<Rightarrow> (bytes \<Rightarrow> (config_content \<times> bool) option) \<Rightarrow> (descriptor \<Rightarrow> 'e + bytes) \<Rightarrow>
   string \<Rightarrow> ref \<Rightarrow> string \<Rightarrow> string \<Rightarrow> 'e source_error + (manifest \<times> observation)" where
  "ResolveSourceManifestObserved sha dec tokdec http parse_url cfgdec read_blob cbase r platform pinned0 =
     (let pinned = trim_space pinned0 in
      if pinned = '''' then ResolveManifestObserved sha dec tokdec http parse_url cbase r platform
      else case observedRegistryBase parse_url cbase of
        None \<Rightarrow> Inl SUnsafeEndpoint
      | Some base \<Rightarrow>
         (case FetchPinnedPlatformManifest sha dec tokdec http cfgdec read_blob cbase r platform pinned of
            Inl e \<Rightarrow> Inl e
          | Inr (m, content) \<Rightarrow>
              Inr (m, \<lparr>mo_endpoint = base, mo_repo = ref_repo r, mo_reference = pinned,
                mo_manifestDigest = pinned, mo_indexDigest = '''', mo_platform = None,
                mo_config = m_config m, mo_bytesVerified = True, mo_content = Some content\<rparr>)))"

section \<open>The two resolvers\<close>

lemma observed_first_loop:
  "find (\<lambda>d. case d_platform d of
             None \<Rightarrow> False
           | Some p \<Rightarrow> pl_arch p = wantArch \<and>
               (if wantArch = ''arm64'' then pl_variant p = '''' \<or> pl_variant p = ''v8''
                else pl_variant p = wantVar)) ds = matchPlatformDescriptor ds wantArch wantVar"
  unfolding matchPlatformDescriptor_def platform_matches_def[abs_def] ..

text \<open>
  The resolver that records evidence selects what the registry client's exact matcher
  selects, with one exception: a request for amd64/v2 is also served by a plain amd64 entry,
  and only when the index has no amd64 entry that names a variant.
\<close>

lemma pick_observed_vs_match:
  "pick_observed ds arch variant = matchPlatformDescriptor ds arch variant \<or>
   (matchPlatformDescriptor ds arch variant = None \<and> arch = ''amd64'' \<and> variant = ''v2'' \<and>
    (\<forall>d. d \<in> set ds \<and> is_amd64 d \<longrightarrow> d_variant d = '''') \<and>
    (\<exists>d \<in> set ds. pick_observed ds arch variant = Some d \<and> is_amd64 d))"
proof (cases "matchPlatformDescriptor ds arch variant")
  case (Some d)
  then show ?thesis by (simp add: pick_observed_def observed_first_loop)
next
  case None
  then have p: "pick_observed ds arch variant =
     (if arch = ''amd64'' \<and> variant = ''v2'' \<and> \<not> list_ex (\<lambda>d. is_amd64 d \<and> d_variant d \<noteq> '''') ds
      then find (\<lambda>d. is_amd64 d \<and> d_variant d = '''') ds else None)"
    by (simp add: pick_observed_def observed_first_loop Let_def)
  show ?thesis
  proof (cases "pick_observed ds arch variant")
    case (Some d)
    then have "d \<in> set ds" "is_amd64 d" "arch = ''amd64''" "variant = ''v2''"
      "\<not> list_ex (\<lambda>d. is_amd64 d \<and> d_variant d \<noteq> '''') ds"
      using p by (auto simp: find_Some_iff split: if_splits)
    then show ?thesis using None Some by (auto simp: list_ex_iff)
  qed (simp add: None)
qed

text \<open>A match of the client is a match of the observer; a sole plain entry shows the exception.\<close>

lemma pick_observed_vs_match_witness:
  "matchPlatformDescriptor [sample_entry ''amd64'' '''' ''sha256:2''] ''amd64'' ''v2'' = None \<and>
   pick_observed [sample_entry ''amd64'' '''' ''sha256:2''] ''amd64'' ''v2'' = Some (sample_entry ''amd64'' '''' ''sha256:2'')"
proof -
  let ?ds = "[sample_entry ''amd64'' '''' ''sha256:2'']"
  have "matchPlatformDescriptor ?ds ''amd64'' ''v2'' = None"
    "pick_observed ?ds ''amd64'' ''v2'' = Some (sample_entry ''amd64'' '''' ''sha256:2'')"
    by code_simp+
  with pick_observed_vs_match[of ?ds "''amd64''" "''v2''"] show ?thesis by simp
qed

section \<open>The source of a build is verified\<close>

lemma ParsePlatform_trim: "ParsePlatform (trim_space p) = ParsePlatform p"
  by (simp add: ParsePlatform_def)

lemma ParsePlatform_amd64: "ParsePlatform ''amd64'' = Some (''amd64'', '''')"
  by code_simp

lemma FetchManifestBytes_Inr:
  assumes "FetchManifestBytes sha tokdec http cbase r digest = Inr body"
  shows "validOfflineDigest digest \<and> ''sha256:'' @ sha body = digest"
  using assms by (auto simp: FetchManifestBytes_def Let_def split: if_splits sum.splits)

lemma FetchPinned_Inr:
  assumes "FetchPinnedPlatformManifest sha dec tokdec http cfgdec read_blob cbase r platform digest = Inr (m, content)"
  shows "(\<exists>body. dec body = Inr m \<and> ''sha256:'' @ sha body = digest) \<and> m_manifests m = [] \<and>
    cc_os content = ''linux'' \<and> Some (cc_arch content) = EffectivePlatformArch platform \<and> validOfflineDigest digest"
proof -
  from assms obtain arch variant body where
    1: "ParsePlatform (defaultPlatform platform) = Some (arch, variant)"
      "FetchManifestBytes sha tokdec http cbase r digest = Inr body" "dec body = Inr m" "m_manifests m = []"
      "checkConfigPlatform content arch variant = None"
    unfolding FetchPinnedPlatformManifest_def Let_def
    by (auto split: option.splits sum.splits if_splits)
  have "EffectivePlatformArch platform = Some arch"
    using 1(1) by (cases "trim_space platform = ''''")
      (simp_all add: EffectivePlatformArch_def defaultPlatform_def ParsePlatform_amd64 ParsePlatform_trim)
  moreover have "cc_os content = ''linux'' \<and> cc_arch content = arch"
    using 1(5) by (auto simp: checkConfigPlatform_def Let_def split: if_splits)
  ultimately show ?thesis using FetchManifestBytes_Inr[OF 1(2)] 1(3,4) by auto
qed

lemma ResolveObserved_Inr:
  assumes "ResolveManifestObserved sha dec tokdec http parse_url cbase r platform = Inr (m, obs)"
  shows "\<exists>body. dec body = Inr m \<and> mo_manifestDigest obs = ''sha256:'' @ sha body"
proof -
  from assms obtain base token body arch variant m0 where
    1: "ParsePlatform (defaultPlatform platform) = Some (arch, variant)"
      "observedRegistryBase parse_url cbase = Some base"
      "fetchRegistryToken tokdec http base (ref_repo r) = Inr token"
      "fetchRegistryManifestBytes http base (ref_repo r) (ref_tag r) token = Inr body"
      "\<not> (has_prefix (ref_tag r) ''sha256:'' \<and> ref_tag r \<noteq> ''sha256:'' @ sha body)" "dec body = Inr m0"
    unfolding ResolveManifestObserved_def Let_def
    by (auto split: option.splits sum.splits if_splits)
  note R = assms[unfolded ResolveManifestObserved_def Let_def 1(1-4,6) option.case sum.case prod.case if_not_P[OF 1(5)]]
  show ?thesis
  proof (cases "m_manifests m0 = []")
    case True
    then show ?thesis using R 1(6) by auto
  next
    case False
    obtain pick where p: "pick_observed (m_manifests m0) arch variant = Some pick"
      using R False by (cases "pick_observed (m_manifests m0) arch variant") auto
    obtain body2 where b: "fetchRegistryManifestBytes http base (ref_repo r) (d_digest pick) token = Inr body2"
      using R False p by (cases "fetchRegistryManifestBytes http base (ref_repo r) (d_digest pick) token") auto
    have eq: "''sha256:'' @ sha body2 = d_digest pick" using R False p b by (auto split: if_splits)
    then have "dec body2 = Inr m \<and> mo_manifestDigest obs = d_digest pick"
      using R False p b by (cases "dec body2") auto
    then show ?thesis using eq by metis
  qed
qed

text \<open>
  C17. Whatever a build resolves as its source, the manifest was decoded from bytes that hash
  to the digest recorded as evidence. With a pin, that digest is the pin, the manifest is a
  platform manifest and the config that came with it declares Linux on the requested
  architecture; and a request that validates and pins a digest accepts the build so resolved.
\<close>

theorem ResolveSource_sound:
  assumes "ResolveSourceManifestObserved sha dec tokdec http parse_url cfgdec read_blob cbase r platform pin = Inr (m, obs)"
  shows "(\<exists>body. dec body = Inr m \<and> mo_manifestDigest obs = ''sha256:'' @ sha body) \<and>
    (trim_space pin \<noteq> '''' \<longrightarrow> mo_manifestDigest obs = trim_space pin \<and> m_manifests m = [] \<and>
       (\<exists>c. mo_content obs = Some c \<and> cc_os c = ''linux'' \<and> Some (cc_arch c) = EffectivePlatformArch platform)) \<and>
    (\<forall>req. Validate req = Inr req \<and> br_target req = None \<and> PinnedPlatformManifestDigest req = trim_space pin \<longrightarrow>
       VerifyResolved req (br_image req) platform (mo_manifestDigest obs) = None)"
proof -
  have trim: "trim_space (mo_manifestDigest obs) = mo_manifestDigest obs" if "trim_space pin \<noteq> ''''"
    using assms that
    by (auto simp: ResolveSourceManifestObserved_def Let_def split: option.splits sum.splits)
  have pinned: "(\<exists>body. dec body = Inr m \<and> mo_manifestDigest obs = ''sha256:'' @ sha body) \<and>
      mo_manifestDigest obs = trim_space pin \<and> m_manifests m = [] \<and>
      (\<exists>c. mo_content obs = Some c \<and> cc_os c = ''linux'' \<and> Some (cc_arch c) = EffectivePlatformArch platform)"
    if "trim_space pin \<noteq> ''''"
    using assms that
    by (auto simp: ResolveSourceManifestObserved_def Let_def split: option.splits sum.splits
        dest!: FetchPinned_Inr)
  have "\<exists>body. dec body = Inr m \<and> mo_manifestDigest obs = ''sha256:'' @ sha body"
  proof (cases "trim_space pin = ''''")
    case True
    then show ?thesis using assms ResolveObserved_Inr by (auto simp: ResolveSourceManifestObserved_def)
  next
    case False
    then show ?thesis using pinned by blast
  qed
  moreover have "VerifyResolved req (br_image req) platform (mo_manifestDigest obs) = None"
    if v: "Validate req = Inr req" and t: "br_target req = None"
      and p: "PinnedPlatformManifestDigest req = trim_space pin" for req
  proof -
    have ne: "trim_space (br_image req) \<noteq> ''''" by (rule Validate_Inr[OF v]) metis
    show ?thesis
      using v t p ne pinned trim by (cases "trim_space pin = ''''") (auto simp: VerifyResolved_def)
  qed
  ultimately show ?thesis using pinned by blast
qed

definition pin64 :: string where
  "pin64 = ''sha256:7777777777777777777777777777777777777777777777777777777777777777''"

definition pin_http :: "request \<Rightarrow> string http_ans" where
  "pin_http rq = (if rq_url rq = ''r/token?scope=repository:x:pull'' then Resp 200 []
     else if rq_url rq = ''r/v2/x/manifests/'' @ pin64 then Resp 200 [7] else Resp 404 [])"

definition pin_content :: config_content where
  "pin_content = \<lparr>cc_os = ''linux'', cc_arch = ''arm64'', cc_variant = ''v8''\<rparr>"

definition pin_result :: "manifest \<times> observation" where
  "pin_result = (sample_manifest [] ''cfg'', \<lparr>mo_endpoint = ''r'', mo_repo = ''x'', mo_reference = pin64,
     mo_manifestDigest = pin64, mo_indexDigest = '''', mo_platform = None, mo_config = sample_entry '''' '''' ''cfg'',
     mo_bytesVerified = True, mo_content = Some pin_content\<rparr>)"

theorem ResolveSource_sound_witness:
  "mo_manifestDigest (snd pin_result) = pin64 \<and>
   (\<exists>c. mo_content (snd pin_result) = Some c \<and> cc_os c = ''linux'' \<and> Some (cc_arch c) = EffectivePlatformArch ''aarch64'')"
proof -
  let ?cfg = "\<lambda>_. Some (pin_content, True)"
  have pin: "trim_space pin64 = pin64" "pin64 \<noteq> ''''" "validOfflineDigest pin64" by code_simp+
  have run: "ResolveSourceManifestObserved (\<lambda>_. drop 7 pin64) (\<lambda>_. Inr (sample_manifest [] ''cfg''))
      (\<lambda>_. Inr ''T'') pin_http (\<lambda>_. Some \<lparr>u_scheme = ''https'', u_host = ''h'', u_user = False, u_rawQuery = '''',
         u_forceQuery = False, u_fragment = ''''\<rparr>) ?cfg (\<lambda>_. Inr [1]) ''r/''
      \<lparr>ref_repo = ''x'', ref_tag = ''moved''\<rparr> ''aarch64'' pin64 = Inr pin_result"
  proof -
    have base: "trim_right_by (\<lambda>c. c = CHR ''/'') ''r/'' = ''r''" "\<not> contains ''r'' ''#''"
      "ParsePlatform (defaultPlatform ''aarch64'') = Some (''arm64'', '''')"
      by code_simp+
    have token: "fetchRegistryToken (\<lambda>_. Inr ''T'') pin_http ''r'' ''x'' = Inr ''T''"
      by (simp add: fetchRegistryToken_def token_request_def pin_http_def)
    have "fetchRegistryManifestBytes pin_http ''r'' ''x'' pin64 ''T'' = Inr [7]"
      by (simp add: fetchRegistryManifestBytes_def blob_request_def pin_http_def)
    then have bytes: "FetchManifestBytes (\<lambda>_. drop 7 pin64) (\<lambda>_. Inr ''T'') pin_http ''r/''
        \<lparr>ref_repo = ''x'', ref_tag = ''moved''\<rparr> pin64 = (Inr [7] :: string source_error + bytes)"
      using token pin(3) by (simp add: FetchManifestBytes_def base pin64_def)
    have cfg: "fetchVerifiedConfigContent ?cfg (\<lambda>_. Inr [1]) (sample_entry '''' '''' ''cfg'')
        = (Inr pin_content :: string source_error + config_content)"
      "checkConfigPlatform pin_content ''arm64'' '''' = None"
      by code_simp+
    have man: "m_manifests (sample_manifest [] ''cfg'') = []"
      "m_config (sample_manifest [] ''cfg'') = sample_entry '''' '''' ''cfg''"
      by (simp_all add: sample_manifest_def)
    have "FetchPinnedPlatformManifest (\<lambda>_. drop 7 pin64) (\<lambda>_. Inr (sample_manifest [] ''cfg'')) (\<lambda>_. Inr ''T'')
        pin_http ?cfg (\<lambda>_. Inr [1]) ''r/'' \<lparr>ref_repo = ''x'', ref_tag = ''moved''\<rparr> ''aarch64'' pin64
        = Inr (sample_manifest [] ''cfg'', pin_content)"
      unfolding FetchPinnedPlatformManifest_def Let_def base bytes
      using pin(3) by (simp only: cfg man option.case sum.case prod.case not_True_eq_False if_False simp_thms)
    then show ?thesis
      unfolding ResolveSourceManifestObserved_def observedRegistryBase_def Let_def base pin(1)
      using pin(2) by (simp add: base man pin_result_def)
  qed
  obtain m obs where f: "pin_result = (m, obs)" by (cases pin_result)
  from ResolveSource_sound[OF run[unfolded f]] pin show ?thesis unfolding f snd_conv by metis
qed

section \<open>Media descriptors\<close>

text \<open>
  Blob paths of the embedded layout are safe and collision-free: a digest that gets a
  path gets one directly under the layout's blob directory, made of 64 hexadecimal characters,
  and distinct digests get distinct paths.
\<close>

theorem offlineBlobPath_safe:
  assumes "offlineBlobPath d = Some p"
  shows "\<exists>hex. p = ''/OCI/blobs/sha256/'' @ hex \<and> length hex = 64 \<and> list_all is_lower_hex hex \<and>
    CHR ''/'' \<notin> set hex \<and> (\<forall>d'. offlineBlobPath d' = Some p \<longrightarrow> d' = d)"
proof -
  have shape: "d' = ''sha256:'' @ drop 7 d' \<and> length (drop 7 d') = 64 \<and> list_all is_lower_hex (drop 7 d') \<and>
      q = ''/OCI/blobs/sha256/'' @ drop 7 d'" if "offlineBlobPath d' = Some q" for d' q
    using that
    by (auto simp: offlineBlobPath_def SplitDigest_def validOfflineDigest_def OfflineLayoutDir_def has_prefix_iff
        split: if_splits)
  have "CHR ''/'' \<notin> set h" if "list_all is_lower_hex h" for h
    using that by (auto simp: list_all_iff is_lower_hex_def)
  then show ?thesis using shape[OF assms] shape by (intro exI[of _ "drop 7 d"]) (metis same_append_eq)
qed

theorem offlineBlobPath_safe_witness:
  "offlineBlobPath pin64 = Some (''/OCI/blobs/sha256/'' @ drop 7 pin64) \<and>
   {d. offlineBlobPath d = offlineBlobPath pin64} = {pin64}"
proof -
  have p: "offlineBlobPath pin64 = Some (''/OCI/blobs/sha256/'' @ drop 7 pin64)" by code_simp
  from offlineBlobPath_safe[OF p] p show ?thesis by auto
qed

lemma normalizeMediaPlatform_trim: "normalizeMediaPlatform (trim_space p) = normalizeMediaPlatform p"
  by (simp add: normalizeMediaPlatform_def)

text \<open>
  The platform written into the media descriptor, for every platform a build may be asked
  for: \<open>linux/\<close> and the architecture, except that the two spellings with a variant,
  \<open>linux/amd64/v2\<close> and \<open>linux/arm64/v8\<close>, are refused. (The comment on the function says the variant
  is folded away.)
\<close>

theorem normalizeMediaPlatform_of_build:
  assumes "ParsePlatform p = Some (arch, variant)"
  shows "normalizeMediaPlatform p =
    (if trim_space p \<in> {''linux/amd64/v2'', ''linux/arm64/v8''} then Inl (MediaPlatformShape (trim_space p))
     else Inr (''linux/'' @ arch))"
proof -
  have "ParsePlatform q = Some (arch, variant) \<Longrightarrow> trim_space q = q \<Longrightarrow>
     q \<in> {''linux/amd64'', ''amd64'', ''x86_64'', ''linux/amd64/v2'', ''linux/arm64'', ''linux/arm64/v8'', ''arm64'', ''aarch64''}" for q
    by (auto simp: ParsePlatform_def Let_def split: if_splits)
  from this[of "trim_space p"] have q: "trim_space p \<in> {''linux/amd64'', ''amd64'', ''x86_64'', ''linux/amd64/v2'',
     ''linux/arm64'', ''linux/arm64/v8'', ''arm64'', ''aarch64''}"
    using assms by (simp add: ParsePlatform_trim)
  have n: "normalizeMediaPlatform ''linux/amd64'' = Inr ''linux/amd64''" "normalizeMediaPlatform ''amd64'' = Inr ''linux/amd64''"
    "normalizeMediaPlatform ''x86_64'' = Inr ''linux/amd64''" "normalizeMediaPlatform ''linux/arm64'' = Inr ''linux/arm64''"
    "normalizeMediaPlatform ''arm64'' = Inr ''linux/arm64''" "normalizeMediaPlatform ''aarch64'' = Inr ''linux/arm64''"
    "normalizeMediaPlatform ''linux/amd64/v2'' = Inl (MediaPlatformShape ''linux/amd64/v2'')"
    "normalizeMediaPlatform ''linux/arm64/v8'' = Inl (MediaPlatformShape ''linux/arm64/v8'')"
    by code_simp+
  have a: "arch = (if trim_space p \<in> {''linux/amd64'', ''amd64'', ''x86_64'', ''linux/amd64/v2''} then ''amd64'' else ''arm64'')"
    using assms by (auto simp: ParsePlatform_def Let_def split: if_splits)
  show ?thesis
    using q unfolding normalizeMediaPlatform_trim[of p, symmetric] a by (auto simp: n)
qed

theorem normalizeMediaPlatform_of_build_witness:
  "normalizeMediaPlatform ''linux/amd64/v2'' = Inl (MediaPlatformShape ''linux/amd64/v2'')"
proof -
  have "ParsePlatform ''linux/amd64/v2'' = Some (''amd64'', ''v2'')" "trim_space ''linux/amd64/v2'' = ''linux/amd64/v2''"
    by code_simp+
  with normalizeMediaPlatform_of_build[of "''linux/amd64/v2''"] show ?thesis by simp
qed

end
