(* ===== verification/Oci_Store.thy ===== *)
theory Oci_Store
  imports Oci_Tree
begin

text \<open>
  The \<^verbatim>\<open>BlobStore\<close> interface of \<^verbatim>\<open>internal/oci/unpack.go\<close> as a locale: what a store owes
  its client. Both stores of the package provide it, and the client of the interface, the
  layer application, then keeps every file node of the tree backed by the body it was made
  from.
\<close>

section \<open>The interface\<close>

locale blob_store =
  fixes put :: "'s \<Rightarrow> 'e body \<Rightarrow> 'e + (string \<times> int \<times> 's)"
    and get :: "'s \<Rightarrow> string \<Rightarrow> bytes option"
    and invar :: "'s \<Rightarrow> bool"
  assumes put_get: "invar s \<Longrightarrow> put s r = Inr (ref, sz, s') \<Longrightarrow>
      get s' ref = Some (fst r) \<and> sz = int (length (fst r))"
    and put_keeps: "invar s \<Longrightarrow> put s r = Inr (ref, sz, s') \<Longrightarrow> get s q = Some b \<Longrightarrow> get s' q = Some b"
    and put_invar: "invar s \<Longrightarrow> put s r = Inr (ref, sz, s') \<Longrightarrow> invar s'"
    and put_complete: "put s r = Inr (ref, sz, s') \<Longrightarrow> snd r = None"

text \<open>Every regular file of the tree names a stored body, of exactly the recorded size.\<close>

definition file_backed :: "('s \<Rightarrow> string \<Rightarrow> bytes option) \<Rightarrow> 's \<Rightarrow> node_attrs \<Rightarrow> bool" where
  "file_backed get s a \<longleftrightarrow>
     (n_type a = TypeFile \<longrightarrow>
        (case get s (n_ref a) of None \<Rightarrow> False | Some b \<Rightarrow> n_size a = int (length b)))"

definition backed :: "('s \<Rightarrow> string \<Rightarrow> bytes option) \<Rightarrow> 's \<Rightarrow> node \<Rightarrow> bool" where
  "backed get s n \<longleftrightarrow> all_nodes (file_backed get s) n"

lemma backed_leaf: "children n = [] \<Longrightarrow> ntype_of n \<noteq> TypeFile \<Longrightarrow> backed get s n"
  by (simp add: backed_def all_nodes_leaf file_backed_def)

lemma backed_new_dir [simp]: "backed get s new_dir"
  by (rule backed_leaf) auto

lemma backed_retype:
  assumes "backed get s n" "n_type a \<noteq> TypeFile"
  shows "backed get s (Node a (children n))"
  unfolding backed_def
  by (rule all_nodesI) (use assms in \<open>auto simp: backed_def file_backed_def dest: all_nodes_children\<close>)

lemma backed_put_dir:
  assumes "backed get s p"
  shows "backed get s (put_dir h p n)"
proof -
  have "backed get s (Node a (children ex))" if "child p n = Some ex" "n_type a = TypeDir" for a ex
    using assms that backed_retype[of get s ex a] by (simp add: backed_def all_nodes_child)
  then show ?thesis
    using assms by (simp add: put_dir_def backed_leaf backed_def all_nodes_set_child
        all_nodes_leaf file_backed_def split: option.split)
qed

context blob_store
begin

lemma backed_later:
  assumes "invar s" "put s r = Inr (ref, sz, s')" "backed get s n"
  shows "backed get s' n"
  unfolding backed_def
proof (rule all_nodes_mono[OF assms(3)[unfolded backed_def]])
  fix a
  assume "file_backed get s a"
  then show "file_backed get s' a"
    using put_keeps[OF assms(1,2)] by (auto simp: file_backed_def split: option.splits)
qed

lemma applyEntry_backed:
  assumes "applyEntry put skip (h, body) (root, s) = Inr (root', s')"
    and "invar s" "is_dir root" "backed get s root"
  shows "invar s' \<and> backed get s' root'"
  using assms(1)
proof (cases rule: applyEntry_elim)
  case (Root a)
  with assms show ?thesis by (auto intro: backed_retype)
next
  case Opaque
  have "all_nodes (file_backed get s) (clear_dir p n)" if "all_nodes (file_backed get s) p" for p n
    using all_nodes_attrs[OF that] by (simp add: clear_dir_def all_nodes_leaf)
  with Opaque assms(2,4) show ?thesis
    by (auto simp: backed_def file_backed_def intro!: all_nodes_dirOf)
next
  case Whiteout
  with assms(2,4) show ?thesis
    by (auto simp: backed_def whiteout_def file_backed_def
        intro!: all_nodes_dirOf all_nodes_del_child)
next
  case Dir
  with assms(2,4) backed_put_dir show ?thesis
    by (auto simp: backed_def file_backed_def intro!: all_nodes_dirOf)
next
  case (Reg ref sz)
  have "backed get s' root" by (rule backed_later[OF assms(2) Reg(4) assms(4)])
  moreover have "backed get s' (file_node h ref sz)"
    using put_get[OF assms(2) Reg(4)]
    by (simp add: backed_def file_node_def file_backed_def all_nodes_leaf)
  ultimately show ?thesis
    using Reg put_invar[OF assms(2) Reg(4)]
    by (auto simp: backed_def file_backed_def intro!: all_nodes_dirOf all_nodes_set_child)
next
  case (Special c)
  have "backed get s c"
    using special_node_leaf[OF Special(2)] by (simp add: backed_leaf)
  with Special assms(2,4) show ?thesis
    by (auto simp: backed_def file_backed_def intro!: all_nodes_dirOf all_nodes_set_child)
next
  case Other
  with assms(2,4) show ?thesis
    by (auto simp: backed_def file_backed_def intro!: all_nodes_dirOf)
qed (use assms in auto)

lemma applyLayer_backed:
  assumes "applyLayerFiltered put skip decode mt r (root, s) = Inr (root', s')"
    and "invar s" "wf_node root" "is_dir root" "backed get s root"
  shows "invar s' \<and> wf_node root' \<and> is_dir root' \<and> backed get s' root'"
  by (rule applyLayerFiltered_invariant[OF assms(1),
        where P = "\<lambda>n t. invar t \<and> wf_node n \<and> is_dir n \<and> backed get t n"])
    (use assms(2-) in \<open>auto dest: applyEntry_backed applyEntry_wf_aux\<close>)

end

section \<open>The in-memory store\<close>

lemma takeWhile_digits: "takeWhile is_digit (nat_dec n) = nat_dec n"
  by (simp add: nat_dec_digits)

lemma sscan_m_ref: "sscan_m (CHR ''m'' # nat_dec n) = Some (int n)"
proof -
  obtain c cs where c: "nat_dec n = c # cs" by (cases "nat_dec n") auto
  then have d: "is_digit c" using nat_dec_digits[of c n] by simp
  then have "c \<noteq> CHR '' ''" "c \<noteq> CHR 0x09" "c \<noteq> CHR ''-''" "c \<noteq> CHR ''+''"
    by (auto simp: is_digit_def)
  moreover have tcs: "takeWhile is_digit cs = cs"
    using takeWhile_digits[of n] c d by simp
  ultimately show ?thesis
    unfolding sscan_m_def c using c dec_val_nat_dec[of n] by (simp add: Let_def d tcs)
qed

lemma mem_open_ref: "mem_open s (CHR ''m'' # nat_dec n) = (if n < length (blobs s) then Some (blobs s ! n) else None)"
  by (simp add: mem_open_def sscan_m_ref)

interpretation mem: blob_store mem_put mem_open "\<lambda>_. True"
proof
  fix s s' :: memstore and r and ref sz
  assume "mem_put s r = Inr (ref, sz, s')"
  then have *: "snd r = None" "ref = CHR ''m'' # nat_dec (length (blobs s))"
    "sz = int (length (fst r))" "blobs s' = blobs s @ [fst r]"
    by (auto simp: mem_put_def split: option.splits)
  show "mem_open s' ref = Some (fst r) \<and> sz = int (length (fst r))"
    using * by (simp add: mem_open_ref)
  show "snd r = None" by (fact *)
  show "mem_open s' q = Some b" if "mem_open s q = Some b" for q b
    using that *(4) by (auto simp: mem_open_def nth_append split: option.splits if_splits)
qed simp

section \<open>The directory store\<close>

lemma dec_val_zeros: "dec_val (replicate k (CHR ''0'') @ s) = dec_val s"
proof -
  have "foldl (\<lambda>a c. a * 10 + (of_char c - 48)) 0 (replicate k (CHR ''0'')) = (0::nat)"
    by (induction k) auto
  then show ?thesis by (simp add: dec_val_def)
qed

lemma dec_val_pad [simp]: "dec_val (pad_dec w n) = n"
  by (simp add: pad_dec_def dec_val_zeros)

lemma pad_dec_digits: "c \<in> set (pad_dec w n) \<Longrightarrow> is_digit c"
  by (auto simp: pad_dec_def is_digit_def dest: nat_dec_digits)

lemma ds_base_ok: "name_ok (CHR ''b'' # pad_dec 8 n)"
  using pad_dec_digits[of "CHR ''/''" 8 n] by (auto simp: name_ok_def is_digit_def)

lemma ds_name_inj: "ds_name d m = ds_name d n \<Longrightarrow> m = n"
proof -
  assume "ds_name d m = ds_name d n"
  then have "CHR ''b'' # pad_dec 8 m = CHR ''b'' # pad_dec 8 n"
    unfolding ds_name_def using path_join_last[OF ds_base_ok] by metis
  then show "m = n" using dec_val_pad by (metis list.inject)
qed

text \<open>The store's files are the bodies numbered so far.\<close>

definition ds_inv :: "dirstore \<Rightarrow> bool" where
  "ds_inv s \<longleftrightarrow> (\<forall>(k, b) \<in> set (ds_files s). \<exists>i \<in> {1..ds_n s}. k = ds_name (ds_dir s) i)"

lemma ds_fresh: "ds_inv s \<Longrightarrow> map_of (ds_files s) (ds_name (ds_dir s) (Suc (ds_n s))) = None"
  by (force simp: ds_inv_def map_of_eq_None_iff dest: ds_name_inj)

interpretation dir: blob_store "dir_put os_err" dir_open ds_inv
proof
  fix s s' :: dirstore and r and ref sz
  assume "dir_put os_err s r = Inr (ref, sz, s')"
  then have *: "snd r = None" "ref = ds_name (ds_dir s) (Suc (ds_n s))" "sz = int (length (fst r))"
    "s' = s\<lparr>ds_n := Suc (ds_n s), ds_files := AList.update ref (fst r) (ds_files s)\<rparr>"
    by (auto simp: dir_put_def Let_def split: option.splits)
  show "snd r = None" by (fact *)
  assume inv: "ds_inv s"
  show "dir_open s' ref = Some (fst r) \<and> sz = int (length (fst r))"
    using * by (simp add: dir_open_def)
  show "dir_open s' q = Some b" if "dir_open s q = Some b" for q b
    using that * ds_fresh[OF inv] by (auto simp: dir_open_def)
  show "ds_inv s'"
    unfolding ds_inv_def
  proof clarify
    fix k b
    assume "(k, b) \<in> set (ds_files s')"
    then have "(k, b) = (ref, fst r) \<or> (k, b) \<in> set (ds_files s)"
      using *(4) set_AList_update_subset[of ref "fst r" "ds_files s"] by auto
    then show "\<exists>i \<in> {1..ds_n s'}. k = ds_name (ds_dir s') i"
    proof
      assume "(k, b) \<in> set (ds_files s)"
      with inv obtain i where "i \<in> {1..ds_n s}" "k = ds_name (ds_dir s) i"
        by (auto simp: ds_inv_def)
      with *(4) show ?thesis by (intro bexI[of _ i]) auto
    qed (use * in auto)
  qed
qed

text \<open>
  C4. After any layer, every regular file of the tree opens in the blob store, and the body
  found there has exactly the size the node records; this holds for the in-memory store and
  for the directory store, whatever the host refuses.
\<close>

theorem applyLayer_files_backed:
  "(applyLayerFiltered mem_put skip decode mt r (root, s) = Inr (root', s') \<longrightarrow>
      wf_node root \<longrightarrow> is_dir root \<longrightarrow> backed mem_open s root \<longrightarrow> backed mem_open s' root') \<and>
   (applyLayerFiltered (dir_put os_err) skip decode mt r (root, t) = Inr (root', t') \<longrightarrow>
      ds_inv t \<longrightarrow> wf_node root \<longrightarrow> is_dir root \<longrightarrow> backed dir_open t root \<longrightarrow>
      ds_inv t' \<and> backed dir_open t' root')"
  by (auto dest: mem.applyLayer_backed dir.applyLayer_backed)

theorem applyLayer_files_backed_witness:
  "backed mem_open \<lparr>blobs = [[1, 2, 3]]\<rparr> sample_root \<and>
   mem_open \<lparr>blobs = [[1, 2, 3]]\<rparr> (n_ref (attrs (the (Lookup sample_root ''etc/passwd'')))) = Some [1, 2, 3]"
proof -
  have "backed mem_open \<lparr>blobs = [[1, 2, 3]]\<rparr> sample_root"
    using applyLayer_files_backed[of None "\<lambda>_ _. sample_layer" "''tar''" "()" new_dir empty_mem
        sample_root "\<lparr>blobs = [[1, 2, 3]]\<rparr>"] sample_layer_ok
    by (simp add: sample_result_def)
  moreover have "mem_open \<lparr>blobs = [[1, 2, 3]]\<rparr>
      (n_ref (attrs (the (Lookup sample_root ''etc/passwd'')))) = Some [1, 2, 3]"
    by code_simp
  ultimately show ?thesis by blast
qed

end
