(* ===== verification/Oci_Pipeline.thy ===== *)
theory Oci_Pipeline
  imports Oci_Store Oci_Types
begin

text \<open>
  The layer pipeline of \<^verbatim>\<open>internal/oci/unpack.go\<close> and the two unpackers that drive it.
  \<^verbatim>\<open>layerPipeline\<close> fetches several layers concurrently and hands them back in index order;
  its concurrency is a step relation in which any running fetch may complete at any time.
  \<^verbatim>\<open>Unpack\<close> and \<^verbatim>\<open>UnpackOnto\<close> then see the fetch results in order, which is what the
  first theorem about the pipeline shows. The progress callback is not modelled.
\<close>

section \<open>The pipeline\<close>

text \<open>
  A slot is a channel of capacity one: nothing launched yet, a goroutine running, a result
  waiting, or the result taken out.
\<close>

datatype 'r slot = Idle | InFlight | Full 'r | Drained

record 'r pipe =
  p_slots :: "'r slot list"
  p_depth :: nat
  p_n :: nat
  p_cur :: nat
  p_started :: nat

definition pipe_launch :: "nat \<Rightarrow> 'r pipe \<Rightarrow> 'r pipe" where
  "pipe_launch i p = p\<lparr>p_slots := (p_slots p)[i := InFlight]\<rparr>"

definition newLayerPipeline :: "nat \<Rightarrow> int \<Rightarrow> 'r pipe" where
  "newLayerPipeline n depth =
     (let d = (if depth < 1 then 1 else nat depth);
          start = (if d > n then n else d);
          p = \<lparr>p_slots = replicate n Idle, p_depth = d, p_n = n, p_cur = 0, p_started = 0\<rparr>
      in (fold pipe_launch [0..<start] p)\<lparr>p_started := start\<rparr>)"

text \<open>
  \<^verbatim>\<open>next\<close>: \<open>None\<close> while the receive on the current slot blocks; otherwise the result (\<open>None\<close>
  for \<^verbatim>\<open>io.EOF\<close> past the last layer) and the pipeline with one more fetch launched.
\<close>

definition pipe_next :: "'r pipe \<Rightarrow> ('r option \<times> 'r pipe) option" where
  "pipe_next p =
     (if p_cur p \<ge> p_n p then Some (None, p)
      else case p_slots p ! p_cur p of
        Full r \<Rightarrow>
          let p1 = p\<lparr>p_slots := (p_slots p)[p_cur p := Drained], p_cur := p_cur p + 1\<rparr>;
              p2 = (if p_started p1 < p_n p1
                    then (pipe_launch (p_started p1) p1)\<lparr>p_started := p_started p1 + 1\<rparr> else p1)
          in Some (Some r, p2)
      | _ \<Rightarrow> None)"

text \<open>
  \<^verbatim>\<open>close\<close>: a non-blocking receive on every launched slot not yet consumed; a result found
  there is dropped and its body, if it has one, closed. The closed bodies are returned.
\<close>

definition pipe_close :: "('e + 'b) pipe \<Rightarrow> 'b list \<times> ('e + 'b) pipe" where
  "pipe_close p =
     foldl (\<lambda>(closed, q) i.
        case p_slots q ! i of
          Full r \<Rightarrow> (closed @ (case r of Inr b \<Rightarrow> [b] | Inl _ \<Rightarrow> []),
                     q\<lparr>p_slots := (p_slots q)[i := Drained]\<rparr>)
        | _ \<Rightarrow> (closed, q)) ([], p) [p_cur p..<p_started p]"

text \<open>
  The reachable states, with the results handed out so far: fetches complete in any order
  at any time, the caller takes results whenever one is ready.
\<close>

inductive pipe_reach :: "(nat \<Rightarrow> 'r) \<Rightarrow> nat \<Rightarrow> int \<Rightarrow> 'r pipe \<Rightarrow> 'r list \<Rightarrow> bool"
  for get n depth where
  start: "pipe_reach get n depth (newLayerPipeline n depth) []"
| fetched: "pipe_reach get n depth p ds \<Longrightarrow> i < length (p_slots p) \<Longrightarrow> p_slots p ! i = InFlight \<Longrightarrow>
     pipe_reach get n depth (p\<lparr>p_slots := (p_slots p)[i := Full (get i)]\<rparr>) ds"
| taken: "pipe_reach get n depth p ds \<Longrightarrow> pipe_next p = Some (Some r, p') \<Longrightarrow>
     pipe_reach get n depth p' (ds @ [r])"

section \<open>Unpacking a manifest\<close>

datatype 'e unpack_error =
    FetchErr nat 'e
  | RetainErr nat 'e
  | LayerErr nat "'e layer_error"
  | CloseErr nat 'e
  | NoOverlayLayers nat

definition wrapR :: "('e \<Rightarrow> 'f) \<Rightarrow> 'e + 'a \<Rightarrow> 'f + 'a" where
  "wrapR f r = (case r of Inl e \<Rightarrow> Inl (f e) | Inr a \<Rightarrow> Inr a)"

text \<open>One turn of \<^verbatim>\<open>Unpack\<close>'s loop: take the body, hand it to \<^verbatim>\<open>RetainLayer\<close>, apply it, close it.\<close>

definition unpack_layer ::
  "('s \<Rightarrow> 'e body \<Rightarrow> 'e + (string \<times> int \<times> 's)) \<Rightarrow> (string \<Rightarrow> bool) option \<Rightarrow>
   (descriptor \<Rightarrow> 'r \<Rightarrow> 'e + 'r) option \<Rightarrow> (compression \<Rightarrow> 'r \<Rightarrow> 'e layer_stream) \<Rightarrow>
   (nat \<Rightarrow> 'e + 'r) \<Rightarrow> ('r \<Rightarrow> 'e option) \<Rightarrow> nat \<times> descriptor \<Rightarrow> node \<times> 's \<Rightarrow>
   'e unpack_error + (node \<times> 's)" where
  "unpack_layer put skip retain decode fetch cls = (\<lambda>(i, layer) st.
     bindR (wrapR (FetchErr i) (fetch i))
       (\<lambda>body. bindR (case retain of None \<Rightarrow> Inr body | Some f \<Rightarrow> wrapR (RetainErr i) (f layer body))
         (\<lambda>body'. bindR (wrapR (LayerErr i)
              (applyLayerFiltered put skip decode (d_mediaType layer) body' st))
            (\<lambda>st'. case cls body' of Some e \<Rightarrow> Inl (CloseErr i e) | None \<Rightarrow> Inr st'))))"

definition Unpack ::
  "('s \<Rightarrow> 'e body \<Rightarrow> 'e + (string \<times> int \<times> 's)) \<Rightarrow> (string \<Rightarrow> bool) option \<Rightarrow>
   (descriptor \<Rightarrow> 'r \<Rightarrow> 'e + 'r) option \<Rightarrow> (compression \<Rightarrow> 'r \<Rightarrow> 'e layer_stream) \<Rightarrow>
   (nat \<Rightarrow> 'e + 'r) \<Rightarrow> ('r \<Rightarrow> 'e option) \<Rightarrow> descriptor list \<Rightarrow> 's \<Rightarrow>
   'e unpack_error + (node \<times> 's)" where
  "Unpack put skip retain decode fetch cls layers s =
     foldR (unpack_layer put skip retain decode fetch cls) (enumerate 0 layers) (new_dir, s)"

definition UnpackOnto ::
  "('s \<Rightarrow> 'e body \<Rightarrow> 'e + (string \<times> int \<times> 's)) \<Rightarrow> (string \<Rightarrow> bool) option \<Rightarrow>
   (compression \<Rightarrow> 'r \<Rightarrow> 'e layer_stream) \<Rightarrow> (nat \<Rightarrow> 'e + 'r) \<Rightarrow> ('r \<Rightarrow> 'e option) \<Rightarrow>
   descriptor list \<Rightarrow> (string \<Rightarrow> bool) \<Rightarrow> node \<times> 's \<Rightarrow> 'e unpack_error + (node \<times> 's)" where
  "UnpackOnto put skip decode fetch cls layers known st =
     (let todo = filter (\<lambda>(i, d). \<not> known (d_digest d)) (enumerate 0 layers)
      in bindR (foldR (unpack_layer put skip None decode fetch cls) todo st)
           (\<lambda>st'. if todo = [] then Inl (NoOverlayLayers (length layers)) else Inr st'))"

section \<open>The pipeline hands out results in order\<close>

lemma pipe_launch_simps [simp]:
  "p_slots (pipe_launch i p) = (p_slots p)[i := InFlight]" "p_n (pipe_launch i p) = p_n p"
  "p_cur (pipe_launch i p) = p_cur p" "p_depth (pipe_launch i p) = p_depth p"
  "p_started (pipe_launch i p) = p_started p"
  by (simp_all add: pipe_launch_def)

lemma fold_launch:
  "length (p_slots p) \<ge> k \<Longrightarrow>
   fold pipe_launch [0..<k] p = p\<lparr>p_slots := replicate k InFlight @ drop k (p_slots p)\<rparr>"
proof (induction k)
  case (Suc k)
  have "fold pipe_launch [0..<Suc k] p = pipe_launch k (fold pipe_launch [0..<k] p)"
    by simp
  also have "\<dots> = p\<lparr>p_slots := (replicate k InFlight @ drop k (p_slots p))[k := InFlight]\<rparr>"
    using Suc by (simp add: pipe_launch_def [of k])
  also have "(replicate k InFlight @ drop k (p_slots p))[k := InFlight]
      = replicate (Suc k) InFlight @ drop (Suc k) (p_slots p)"
    using Suc.prems by (simp add: list_update_append Cons_nth_drop_Suc [symmetric] replicate_append_same [symmetric])
  finally show ?case .
qed simp

text \<open>The invariant: what each slot holds, how far ahead the launches run, what was handed out.\<close>

definition eff_depth :: "int \<Rightarrow> nat" where
  "eff_depth depth = (if depth < 1 then 1 else nat depth)"

definition pipe_inv :: "(nat \<Rightarrow> 'r) \<Rightarrow> nat \<Rightarrow> int \<Rightarrow> 'r pipe \<Rightarrow> 'r list \<Rightarrow> bool" where
  "pipe_inv get n depth p ds \<longleftrightarrow>
     p_n p = n \<and> length (p_slots p) = n \<and> p_cur p \<le> n \<and>
     p_started p = min n (p_cur p + eff_depth depth) \<and>
     (\<forall>i < n. (i < p_cur p \<longrightarrow> p_slots p ! i = Drained) \<and>
        (p_cur p \<le> i \<and> i < p_started p \<longrightarrow> p_slots p ! i = InFlight \<or> p_slots p ! i = Full (get i)) \<and>
        (p_started p \<le> i \<longrightarrow> p_slots p ! i = Idle)) \<and>
     ds = map get [0..<p_cur p]"

lemma pipe_inv_start:
  fixes get :: "nat \<Rightarrow> 'r"
  shows "pipe_inv get n depth (newLayerPipeline n depth) []"
proof -
  let ?d = "eff_depth depth"
  have "(newLayerPipeline n depth :: 'r pipe) = \<lparr>p_slots = replicate (min n ?d) InFlight @ replicate (n - min n ?d) Idle,
      p_depth = ?d, p_n = n, p_cur = 0, p_started = min n ?d\<rparr>"
    by (simp add: newLayerPipeline_def Let_def fold_launch eff_depth_def min_def)
  then show ?thesis
    by (auto simp: pipe_inv_def nth_append)
qed

lemma pipe_inv_taken:
  assumes inv: "pipe_inv get n depth p ds" and nx: "pipe_next p = Some (Some r, p')"
  shows "pipe_inv get n depth p' (ds @ [r])"
proof -
  let ?d = "eff_depth depth"
  have d: "?d \<ge> 1" by (auto simp: eff_depth_def)
  have len: "p_n p = n" "length (p_slots p) = n"
    and st: "p_started p = min n (p_cur p + ?d)" and ds: "ds = map get [0..<p_cur p]"
    using inv by (auto simp: pipe_inv_def)
  have cur: "p_cur p < n" and full: "p_slots p ! p_cur p = Full r"
    using nx len by (auto simp: pipe_next_def Let_def split: if_splits slot.splits)
  have slots: "i < n \<Longrightarrow> (i < p_cur p \<longrightarrow> p_slots p ! i = Drained) \<and>
        (p_cur p \<le> i \<and> i < p_started p \<longrightarrow> p_slots p ! i = InFlight \<or> p_slots p ! i = Full (get i)) \<and>
        (p_started p \<le> i \<longrightarrow> p_slots p ! i = Idle)" for i
    using inv by (simp add: pipe_inv_def)
  have r: "r = get (p_cur p)"
    using slots[OF cur] full st cur d by auto
  have p': "p' = (if p_started p < n
      then p\<lparr>p_slots := (p_slots p)[p_cur p := Drained, p_started p := InFlight],
             p_cur := Suc (p_cur p), p_started := Suc (p_started p)\<rparr>
      else p\<lparr>p_slots := (p_slots p)[p_cur p := Drained], p_cur := Suc (p_cur p)\<rparr>)"
    using nx cur full len by (auto simp: pipe_next_def pipe_launch_def Let_def)
  have started': "p_started p' = min n (p_cur p' + ?d)" and cur': "p_cur p' = Suc (p_cur p)"
    using st cur by (auto simp: p' min_def)
  have slot': "p_slots p' ! i = (if i = p_started p \<and> p_started p < n then InFlight
      else if i = p_cur p then Drained else p_slots p ! i)" if "i < n" for i
    using that len cur st d by (auto simp: p' nth_list_update)
  show ?thesis
    unfolding pipe_inv_def
  proof (intro conjI allI impI)
    fix i
    assume i: "i < n"
    show "p_slots p' ! i = Drained" if "i < p_cur p'"
      using that slots[OF i] slot'[OF i] cur' st cur d by auto
    show "p_slots p' ! i = InFlight \<or> p_slots p' ! i = Full (get i)" if "p_cur p' \<le> i \<and> i < p_started p'"
      using that slots[OF i] slot'[OF i] cur' started' st cur d by (auto split: if_splits)
    show "p_slots p' ! i = Idle" if "p_started p' \<le> i"
      using that slots[OF i] slot'[OF i] cur' started' st cur d i by (auto split: if_splits)
  qed (use len cur cur' started' ds r in \<open>auto simp: p'\<close>)
qed

lemma pipe_reach_inv: "pipe_reach get n depth p ds \<Longrightarrow> pipe_inv get n depth p ds"
proof (induction rule: pipe_reach.induct)
  case start
  show ?case by (rule pipe_inv_start)
next
  case (fetched p ds i)
  then show ?case by (fastforce simp: pipe_inv_def nth_list_update)
next
  case (taken p ds r p')
  then show ?case by (blast intro: pipe_inv_taken)
qed

text \<open>
  C6. Whatever order the concurrent fetches complete in and whatever the window depth, the
  results handed out are those of layers 0, 1, 2, ... in order, without gap or repetition,
  and at most \<^verbatim>\<open>depth\<close> (at least one) fetches are running or waiting at any time.
\<close>

theorem pipeline_in_order:
  assumes "pipe_reach get n depth p ds"
  shows "ds = map get [0..<p_cur p] \<and>
     card {i. i < n \<and> p_slots p ! i \<noteq> Idle \<and> p_slots p ! i \<noteq> Drained} \<le> max 1 (nat depth)"
proof -
  have inv: "pipe_inv get n depth p ds" by (rule pipe_reach_inv[OF assms])
  then have "{i. i < n \<and> p_slots p ! i \<noteq> Idle \<and> p_slots p ! i \<noteq> Drained} \<subseteq> {p_cur p..<p_started p}"
    by (auto simp: pipe_inv_def not_less [symmetric])
  then have "card {i. i < n \<and> p_slots p ! i \<noteq> Idle \<and> p_slots p ! i \<noteq> Drained} \<le> p_started p - p_cur p"
    using card_mono[of "{p_cur p..<p_started p}"] by fastforce
  also have "\<dots> \<le> max 1 (nat depth)"
    using inv by (auto simp: pipe_inv_def eff_depth_def)
  finally show ?thesis using inv by (simp add: pipe_inv_def)
qed

text \<open>
  C7. The pipeline cannot wedge: while layers remain, the slot the caller waits on has a
  fetch running or its result ready, and once that fetch completes \<^verbatim>\<open>next\<close> returns that
  layer's result.
\<close>

theorem pipeline_progress:
  assumes "pipe_reach get n depth p ds" "p_cur p < n"
  shows "(\<exists>p'. pipe_next p = Some (Some (get (p_cur p)), p')) \<or>
     (p_slots p ! p_cur p = InFlight \<and>
      (\<exists>p'. pipe_next (p\<lparr>p_slots := (p_slots p)[p_cur p := Full (get (p_cur p))]\<rparr>)
         = Some (Some (get (p_cur p)), p')))"
proof -
  have inv: "pipe_inv get n depth p ds" by (rule pipe_reach_inv[OF assms(1)])
  moreover have "p_cur p < p_started p"
    using inv assms(2) by (auto simp: pipe_inv_def eff_depth_def)
  ultimately have len: "p_n p = n" "length (p_slots p) = n"
    and slot: "p_slots p ! p_cur p = InFlight \<or> p_slots p ! p_cur p = Full (get (p_cur p))"
    using assms(2) by (auto simp: pipe_inv_def)
  from slot show ?thesis
  proof
    assume "p_slots p ! p_cur p = Full (get (p_cur p))"
    then show ?thesis using assms(2) len by (simp add: pipe_next_def Let_def)
  next
    assume "p_slots p ! p_cur p = InFlight"
    then show ?thesis using assms(2) len by (simp add: pipe_next_def Let_def)
  qed
qed

text \<open>A run of three layers with depth two in which the second fetch completes first.\<close>

definition sample_pipe :: "nat pipe" where
  "sample_pipe = \<lparr>p_slots = [Drained, Full 11, InFlight], p_depth = 2, p_n = 3, p_cur = 1, p_started = 3\<rparr>"

lemma sample_pipe_reach: "pipe_reach (\<lambda>i. i + 10) 3 2 sample_pipe [10]"
proof -
  let ?g = "\<lambda>i::nat. i + 10"
  have new: "(newLayerPipeline 3 2 :: nat pipe) = \<lparr>p_slots = [InFlight, InFlight, Idle], p_depth = 2,
     p_n = 3, p_cur = 0, p_started = 2\<rparr>"
    by code_simp
  have 1: "pipe_reach ?g 3 2 \<lparr>p_slots = [InFlight, InFlight, Idle], p_depth = 2, p_n = 3,
     p_cur = 0, p_started = 2\<rparr> []"
    using pipe_reach.start[of ?g 3 2] new by simp
  have 2: "pipe_reach ?g 3 2 \<lparr>p_slots = [InFlight, Full 11, Idle], p_depth = 2, p_n = 3,
     p_cur = 0, p_started = 2\<rparr> []"
    using pipe_reach.fetched[OF 1, of 1] by simp
  have 3: "pipe_reach ?g 3 2 \<lparr>p_slots = [Full 10, Full 11, Idle], p_depth = 2, p_n = 3,
     p_cur = 0, p_started = 2\<rparr> []"
    using pipe_reach.fetched[OF 2, of 0] by simp
  show ?thesis
    using pipe_reach.taken[OF 3, of 10 sample_pipe] by (simp add: pipe_next_def sample_pipe_def Let_def pipe_launch_def)
qed

theorem pipeline_in_order_witness:
  "pipe_reach (\<lambda>i. i + 10) 3 2 sample_pipe [10] \<and> [10] = map (\<lambda>i. i + 10) [0..<p_cur sample_pipe] \<and>
   card {i. i < 3 \<and> p_slots sample_pipe ! i \<noteq> Idle \<and> p_slots sample_pipe ! i \<noteq> Drained} \<le> 2"
  using pipeline_in_order[OF sample_pipe_reach] sample_pipe_reach by simp

theorem pipeline_progress_witness:
  "\<exists>p'. pipe_next sample_pipe = Some (Some 11, p')"
proof -
  have "p_cur sample_pipe < 3" by code_simp
  moreover have "p_slots sample_pipe ! p_cur sample_pipe \<noteq> InFlight" "p_cur sample_pipe = 1"
    by code_simp+
  ultimately show ?thesis using pipeline_progress[OF sample_pipe_reach] by simp
qed

text \<open>The body waiting in a slot, if there is one.\<close>

definition slot_body :: "('e + 'b) slot \<Rightarrow> 'b list" where
  "slot_body sl = (case sl of Full (Inr b) \<Rightarrow> [b] | _ \<Rightarrow> [])"

lemma pipe_close_slots:
  "set is \<subseteq> {..<length (p_slots q)} \<Longrightarrow> distinct is \<Longrightarrow>
   fst (foldl (\<lambda>(closed, q) i. case p_slots q ! i of
          Full r \<Rightarrow> (closed @ (case r of Inr b \<Rightarrow> [b] | Inl _ \<Rightarrow> []),
                     q\<lparr>p_slots := (p_slots q)[i := Drained]\<rparr>)
        | _ \<Rightarrow> (closed, q)) (acc, q) is)
   = acc @ concat (map (\<lambda>i. slot_body (p_slots q ! i)) is)"
proof (induction "is" arbitrary: acc q)
  case (Cons i js)
  have other: "map (\<lambda>j. slot_body ((p_slots q)[i := Drained] ! j)) js
     = map (\<lambda>j. slot_body (p_slots q ! j)) js"
    using Cons.prems by (intro map_cong) (auto simp: nth_list_update)
  show ?case
  proof (cases "p_slots q ! i")
    case (Full r)
    then show ?thesis using Cons.IH[of "q\<lparr>p_slots := (p_slots q)[i := Drained]\<rparr>"] Cons.prems
      by (simp only: foldl_Cons list.map concat.simps)
        (simp add: slot_body_def[of "Full r"] other split: sum.split)
  qed (use Cons in \<open>simp_all add: slot_body_def[of Idle] slot_body_def[of InFlight] slot_body_def[of Drained]\<close>)
qed simp

text \<open>
  What \<^verbatim>\<open>close\<close> releases: exactly the bodies whose fetch had completed and that nobody
  had taken. A fetch still running at that moment is skipped, so its body is not closed by
  anybody (the comment on \<^verbatim>\<open>close\<close> says the in-flight window does not leak).
\<close>

theorem pipe_close_releases:
  assumes "pipe_reach get n depth p ds"
  shows "fst (pipe_close p) =
    concat (map (\<lambda>i. slot_body (p_slots p ! i)) [p_cur p..<p_started p])"
  unfolding pipe_close_def
  by (subst pipe_close_slots)
    (use pipe_reach_inv[OF assms] in \<open>auto simp: pipe_inv_def\<close>)

definition leaky_pipe :: "(string + nat) pipe" where
  "leaky_pipe = \<lparr>p_slots = [InFlight, Full (Inr 11), Idle], p_depth = 2, p_n = 3, p_cur = 0, p_started = 2\<rparr>"

theorem pipe_close_releases_witness:
  "fst (pipe_close leaky_pipe) = [11] \<and> p_slots leaky_pipe ! 0 = InFlight"
proof -
  let ?g = "\<lambda>i::nat. Inr (i + 10) :: string + nat"
  have new: "(newLayerPipeline 3 2 :: (string + nat) pipe) = \<lparr>p_slots = [InFlight, InFlight, Idle],
     p_depth = 2, p_n = 3, p_cur = 0, p_started = 2\<rparr>"
    by code_simp
  have 1: "pipe_reach ?g 3 2 \<lparr>p_slots = [InFlight, InFlight, Idle], p_depth = 2, p_n = 3,
     p_cur = 0, p_started = 2\<rparr> []"
    using pipe_reach.start[of ?g 3 2] new by simp
  have "pipe_reach ?g 3 2 leaky_pipe []"
    using pipe_reach.fetched[OF 1, of 1] by (simp add: leaky_pipe_def)
  from pipe_close_releases[OF this] show ?thesis by (simp add: leaky_pipe_def slot_body_def upt_rec)
qed

section \<open>Whole images\<close>

lemma wrapR_Inr [simp]: "wrapR f r = Inr a \<longleftrightarrow> r = Inr a"
  by (auto simp: wrapR_def split: sum.splits)

lemma unpack_layer_Inr:
  assumes "unpack_layer put skip retain decode fetch cls (i, layer) st = Inr st'"
  obtains body body' where "fetch i = Inr body"
    "(case retain of None \<Rightarrow> Inr body | Some f \<Rightarrow> f layer body) = Inr body'"
    "applyLayerFiltered put skip decode (d_mediaType layer) body' st = Inr st'" "cls body' = None"
  using assms
  by (cases retain) (auto simp: unpack_layer_def bindR_Inr_iff split: option.splits)

context blob_store
begin

lemma unpack_fold_backed:
  assumes "foldR (unpack_layer put skip retain decode fetch cls) xs (root, s) = Inr (root', s')"
    and "invar s" "wf_node root" "is_dir root" "backed get s root"
  shows "invar s' \<and> wf_node root' \<and> is_dir root' \<and> backed get s' root'"
proof -
  have "(\<lambda>(n, t). invar t \<and> wf_node n \<and> is_dir n \<and> backed get t n) (root', s')"
  proof (rule foldR_invariant[OF assms(1)])
    show "(\<lambda>(n, t). invar t \<and> wf_node n \<and> is_dir n \<and> backed get t n) (root, s)"
      using assms(2-) by simp
  next
    fix x st st'
    assume st: "(\<lambda>(n, t). invar t \<and> wf_node n \<and> is_dir n \<and> backed get t n) st"
      and step: "unpack_layer put skip retain decode fetch cls x st = Inr st'"
    obtain i layer n t n' t' where eq: "x = (i, layer)" "st = (n, t)" "st' = (n', t')"
      by (cases x, cases st, cases st') auto
    from step[unfolded eq] obtain body' where
      "applyLayerFiltered put skip decode (d_mediaType layer) body' (n, t) = Inr (n', t')"
      by (rule unpack_layer_Inr)
    from applyLayer_backed[OF this] st show "(\<lambda>(n, t). invar t \<and> wf_node n \<and> is_dir n \<and> backed get t n) st'"
      unfolding eq by simp
  qed
  then show ?thesis by simp
qed

end

text \<open>
  C8. An unpacked image is a well-formed tree whose every file opens in the store with the
  recorded size, and each of its layers was fetched, applied and closed without error.
\<close>

theorem Unpack_sound:
  assumes "Unpack mem_put skip retain decode fetch cls layers s = Inr (root, s')"
  shows "wf_node root \<and> is_dir root \<and> backed mem_open s' root \<and>
    (\<forall>i < length layers. \<exists>body body'. fetch i = Inr body \<and>
       (case retain of None \<Rightarrow> Inr body | Some f \<Rightarrow> f (layers ! i) body) = Inr body' \<and> cls body' = None)"
proof -
  have fold: "foldR (unpack_layer mem_put skip retain decode fetch cls) (enumerate 0 layers) (new_dir, s)
      = Inr (root, s')"
    using assms by (simp add: Unpack_def)
  have "\<exists>body body'. fetch i = Inr body \<and>
       (case retain of None \<Rightarrow> Inr body | Some f \<Rightarrow> f (layers ! i) body) = Inr body' \<and> cls body' = None"
    if i: "i < length layers" for i
  proof -
    have "(i, layers ! i) \<in> set (enumerate 0 layers)"
      using i by (force simp: in_set_conv_nth nth_enumerate_eq)
    from foldR_each[OF fold this] obtain st st' where
      "unpack_layer mem_put skip retain decode fetch cls (i, layers ! i) st = Inr st'" by blast
    then show ?thesis by (rule unpack_layer_Inr) blast
  qed
  then show ?thesis
    using mem.unpack_fold_backed[OF fold] by simp
qed

lemma Unpack_fetch_cong:
  assumes "\<And>i. i < length layers \<Longrightarrow> f i = g i"
  shows "Unpack put skip retain decode f cls layers s = Unpack put skip retain decode g cls layers s"
  unfolding Unpack_def
  by (rule foldR_cong) (use assms in \<open>auto simp: unpack_layer_def in_set_enumerate_eq\<close>)

lemma UnpackOnto_skips_base:
  assumes "Unpack put skip None decode fetch cls base s = Inr st"
    and "delta \<noteq> []"
    and "\<forall>d \<in> set base. known (d_digest d)" "\<forall>d \<in> set delta. \<not> known (d_digest d)"
  shows "UnpackOnto put skip decode fetch cls (base @ delta) known st
     = Unpack put skip None decode fetch cls (base @ delta) s"
proof -
  have en: "enumerate 0 (base @ delta) = enumerate 0 base @ enumerate (length base) delta"
    by (simp add: enumerate_append_eq)
  have "filter (\<lambda>(i, d). \<not> known (d_digest d)) (enumerate 0 base) = []"
    using assms(3) by (auto simp: filter_empty_conv in_set_enumerate_eq)
  moreover have "filter (\<lambda>(i, d). \<not> known (d_digest d)) (enumerate (length base) delta)
      = enumerate (length base) delta"
    using assms(4) by (auto simp: filter_id_conv in_set_enumerate_eq)
  ultimately have todo: "filter (\<lambda>(i, d). \<not> known (d_digest d)) (enumerate 0 (base @ delta))
      = enumerate (length base) delta"
    by (simp add: en)
  have ne: "enumerate (length base) delta \<noteq> []"
    using assms(2) by (cases delta) auto
  let ?f = "unpack_layer put skip None decode fetch cls"
  have "UnpackOnto put skip decode fetch cls (base @ delta) known st
      = bindR (foldR ?f (enumerate (length base) delta) st) Inr"
    unfolding UnpackOnto_def Let_def todo using ne by simp
  also have "\<dots> = foldR ?f (enumerate (length base) delta) st"
    by (simp add: bindR_def split: sum.split)
  also have "\<dots> = Unpack put skip None decode fetch cls (base @ delta) s"
    using assms(1) by (simp add: Unpack_def en foldR_append)
  finally show ?thesis .
qed

text \<open>
  C9. An overlay image is its base image plus delta layers: skipping the base's digests
  and applying the rest onto the unpacked base gives what unpacking the whole overlay image
  from nothing gives, so the base layers need not be fetched again.
\<close>

theorem UnpackOnto_completes_Unpack:
  assumes "Unpack put skip None decode fetch cls base s = Inr st"
    and "delta \<noteq> []"
    and "\<forall>d \<in> set base. known (d_digest d)" "\<forall>d \<in> set delta. \<not> known (d_digest d)"
  shows "UnpackOnto put skip decode fetch cls (base @ delta) known st
     = Unpack put skip None decode fetch cls (base @ delta) s"
  by (rule UnpackOnto_skips_base[OF assms])

definition sample_desc :: "string \<Rightarrow> descriptor" where
  "sample_desc dg = \<lparr>d_mediaType = ''application/vnd.oci.image.layer.v1.tar'', d_digest = dg, d_size = 10,
     d_platform = None\<rparr>"

definition sample_fetch :: "nat \<Rightarrow> string + string layer_stream" where
  "sample_fetch i = (if i = 0 then Inr sample_layer
     else Inr (sample_layer\<lparr>ls_entries := [(sample_hdr ''etc/.wh.passwd'' TReg, ([], None)),
       (sample_hdr ''new'' TReg, ([9], None))]\<rparr>))"

definition sample_unpack :: "descriptor list \<Rightarrow> string unpack_error + (node \<times> memstore)" where
  "sample_unpack ds = Unpack mem_put None None (\<lambda>_ r. r) sample_fetch (\<lambda>_. None) ds empty_mem"

definition sample_image :: "node \<times> memstore" where
  "sample_image = (case sample_unpack [sample_desc ''a'', sample_desc ''b''] of Inr x \<Rightarrow> x | Inl _ \<Rightarrow> (new_dir, empty_mem))"

definition sample_base :: "node \<times> memstore" where
  "sample_base = (case sample_unpack [sample_desc ''a''] of Inr x \<Rightarrow> x | Inl _ \<Rightarrow> (new_dir, empty_mem))"

theorem Unpack_sound_witness:
  "wf_node (fst sample_image) \<and> backed mem_open (snd sample_image) (fst sample_image) \<and>
   Lookup (fst sample_image) ''etc/passwd'' = None \<and> Lookup (fst sample_image) ''new'' \<noteq> None"
proof -
  have "sample_unpack [sample_desc ''a'', sample_desc ''b''] = Inr sample_image" by code_simp
  then have "Unpack mem_put None None (\<lambda>_ r. r) sample_fetch (\<lambda>_. None)
      [sample_desc ''a'', sample_desc ''b''] empty_mem = Inr (fst sample_image, snd sample_image)"
    by (simp add: sample_unpack_def)
  from Unpack_sound[OF this] have "wf_node (fst sample_image) \<and>
      backed mem_open (snd sample_image) (fst sample_image)"
    by blast
  moreover have "Lookup (fst sample_image) ''etc/passwd'' = None"
    and "\<not> Option.is_none (Lookup (fst sample_image) ''new'')"
    by code_simp+
  ultimately show ?thesis by (auto simp: Option.is_none_def)
qed

theorem UnpackOnto_completes_Unpack_witness:
  "UnpackOnto mem_put None (\<lambda>_ r. r) sample_fetch (\<lambda>_. None) ([sample_desc ''a''] @ [sample_desc ''b''])
     (\<lambda>d. d = ''a'') sample_base = Inr sample_image"
proof -
  have "sample_unpack [sample_desc ''a''] = Inr sample_base"
    "sample_unpack ([sample_desc ''a''] @ [sample_desc ''b'']) = Inr sample_image"
    by code_simp+
  then show ?thesis
    using UnpackOnto_completes_Unpack[of mem_put None "\<lambda>_ r. r" sample_fetch "\<lambda>_. None"
        "[sample_desc ''a'']" empty_mem sample_base "[sample_desc ''b'']" "\<lambda>d. d = ''a''"]
    by (simp add: sample_unpack_def sample_desc_def)
qed

end
