(* ===== verification/Live_Overlay.thy ===== *)
theory Live_Overlay
  imports Source_Image Oci_Pipeline
begin

text \<open>
  Grafting the published live overlay onto a base image: \<^verbatim>\<open>internal/purefs/liveoverlay.go\<close>. The
  registry client is a record of what the source reaches through \<^verbatim>\<open>oci.Client\<close>: HTTP, the
  decoders, and the layer download the unpacker uses.
\<close>

section \<open>The client's surroundings\<close>

record ('e, 'r) client =
  cl_base :: string
  cl_http :: "request \<Rightarrow> 'e http_ans"
  cl_sha :: "bytes \<Rightarrow> string"
  cl_dec :: "bytes \<Rightarrow> 'e + manifest"
  cl_tokdec :: "bytes \<Rightarrow> 'e + string"
  cl_cfgdec :: "bytes \<Rightarrow> (config_content \<times> bool) option"
  cl_get :: "string \<Rightarrow> string \<Rightarrow> 'e get_error + bytes"
  cl_config :: "ref \<Rightarrow> descriptor \<Rightarrow> 'e + bytes"
  cl_blob :: "ref \<Rightarrow> descriptor \<Rightarrow> 'e + 'r"
  cl_close :: "'r \<Rightarrow> 'e option"
  cl_decode :: "compression \<Rightarrow> 'r \<Rightarrow> 'e layer_stream"
  cl_skip :: "(string \<Rightarrow> bool) option"

definition client_pinned ::
  "('e, 'r) client \<Rightarrow> ref \<Rightarrow> string \<Rightarrow> string \<Rightarrow> 'e source_error + (manifest \<times> config_content)" where
  "client_pinned c r platform digest =
     FetchPinnedPlatformManifest (cl_sha c) (cl_dec c) (cl_tokdec c) (cl_http c) (cl_cfgdec c) (cl_config c r)
       (cl_base c) r platform digest"

definition client_resolve ::
  "('e, 'r) client \<Rightarrow> ref \<Rightarrow> string \<Rightarrow> 'e resolve_error + (manifest \<times> string)" where
  "client_resolve c r platform =
     ResolveManifestForPlatform (cl_sha c) (cl_dec c) (cl_get c (ref_repo r)) (ref_tag r) platform"

definition client_fetch :: "('e, 'r) client \<Rightarrow> ref \<Rightarrow> manifest \<Rightarrow> nat \<Rightarrow> 'e + 'r" where
  "client_fetch c r m i = cl_blob c r (m_layers m ! i)"

section \<open>Overlay references and the base binding\<close>

definition LiveOverlayRef :: "string \<Rightarrow> ref option" where
  "LiveOverlayRef img =
     (if \<not> has_prefix img ''tuna-os/'' then None
      else let rest = trim_prefix img ''tuna-os/'';
               name = takeWhile (\<lambda>c. c \<noteq> CHR '':'') rest;
               after = dropWhile (\<lambda>c. c \<noteq> CHR '':'') rest
           in if after = '''' \<or> name = '''' \<or> drop 1 after = '''' then None
              else Some \<lparr>ref_repo = ''tuna-os/live-overlay'', ref_tag = name @ ''-'' @ drop 1 after\<rparr>)"

definition annotation :: "manifest \<Rightarrow> string \<Rightarrow> string" where
  "annotation m key = (case map_of (m_annotations m) key of None \<Rightarrow> '''' | Some v \<Rightarrow> v)"

definition liveOverlayBaseAnnotation :: "manifest \<Rightarrow> string" where
  "liveOverlayBaseAnnotation m =
     (let value = trim_space (annotation m ''org.tunaos.live-overlay.actual-base-digest'') in
      if value = '''' then trim_space (annotation m ''org.tunaos.live-overlay.base-digest'') else value)"

datatype 'e overlay_error =
    OverlayMissingPinned string "'e source_error"
  | OverlayMissing string "'e resolve_error"
  | OverlayDigestMismatch string string
  | OverlayBaseDigestMismatch string string
  | OverlayBaseDigestMissing string

definition VerifyLiveOverlayBase :: "manifest \<Rightarrow> string \<Rightarrow> 'e overlay_error option" where
  "VerifyLiveOverlayBase m actualBaseDigest =
     (let want = trim_space actualBaseDigest; got = liveOverlayBaseAnnotation m in
      if want = '''' then Some (OverlayBaseDigestMissing '''')
      else if got = '''' then Some (OverlayBaseDigestMissing want)
      else if got \<noteq> want then Some (OverlayBaseDigestMismatch want got)
      else None)"

section \<open>Grafting\<close>

record graft_options =
  go_platform :: string
  go_expectedOverlay :: string
  go_baseDigest :: string
  go_expectedBase :: string
  go_required :: bool

record overlay_observation =
  oo_status :: string
  oo_manifestDigest :: string
  oo_layersApplied :: bool
  oo_baseAnnotationMatched :: bool
  oo_baseDigest :: string

text \<open>
  The outcomes of \<^verbatim>\<open>GraftLiveOverlayObserved\<close>. Only the last two have touched the tree: \<open>Grafted\<close>
  carries the new one, and after \<open>GraftUnpack\<close> the source's tree holds a part of the overlay.
\<close>

datatype ('e, 's) graft =
    GraftAbsent
  | GraftBlocked "'e overlay_error"
  | GraftUnpack "'e unpack_error"
  | Grafted manifest overlay_observation "node \<times> 's"

definition graft_manifest ::
  "('e, 'r) client \<Rightarrow> ref \<Rightarrow> graft_options \<Rightarrow> ('e overlay_error option) + (manifest \<times> string)" where
  "graft_manifest c r opts =
     (let platform = (if trim_space (go_platform opts) = '''' then ''amd64'' else trim_space (go_platform opts));
          expected = trim_space (go_expectedOverlay opts);
          required = (go_required opts \<or> expected \<noteq> '''')
      in if expected \<noteq> '''' then
           (case client_pinned c r platform expected of
              Inl e \<Rightarrow> Inl (Some (OverlayMissingPinned platform e))
            | Inr (m, _) \<Rightarrow> Inr (m, expected))
         else
           (case client_resolve c r platform of
              Inl (ManifestDigestMismatch want got) \<Rightarrow> Inl (Some (OverlayDigestMismatch want got))
            | Inl e \<Rightarrow> Inl (if required then Some (OverlayMissing platform e) else None)
            | Inr (m, digest) \<Rightarrow> Inr (m, digest)))"

definition GraftLiveOverlayObserved ::
  "('s \<Rightarrow> 'e body \<Rightarrow> 'e + (string \<times> int \<times> 's)) \<Rightarrow> ('e, 'r) client option \<Rightarrow> node option \<Rightarrow> 's \<Rightarrow> string \<Rightarrow>
   manifest option \<Rightarrow> graft_options \<Rightarrow> ('e, 's) graft" where
  "GraftLiveOverlayObserved put co rooto store img baseo opts =
     (case (co, rooto, baseo) of
        (Some c, Some root, Some base) \<Rightarrow>
          (case LiveOverlayRef img of
             None \<Rightarrow> GraftAbsent
           | Some r \<Rightarrow>
             (case graft_manifest c r opts of
                Inl None \<Rightarrow> GraftAbsent
              | Inl (Some e) \<Rightarrow> GraftBlocked e
              | Inr (m, digest) \<Rightarrow>
                  let expectedBase = trim_space (go_expectedBase opts) in
                  if expectedBase \<noteq> '''' \<and> expectedBase \<noteq> trim_space (go_baseDigest opts)
                  then GraftBlocked (OverlayBaseDigestMismatch (go_baseDigest opts) expectedBase)
                  else case VerifyLiveOverlayBase m (go_baseDigest opts) of
                    Some e \<Rightarrow> GraftBlocked e
                  | None \<Rightarrow>
                      (case UnpackOnto put (cl_skip c) (cl_decode c) (client_fetch c r m) (cl_close c)
                              (m_layers m) (\<lambda>dg. dg \<in> d_digest ` set (m_layers base)) (root, store) of
                         Inl e \<Rightarrow> GraftUnpack e
                       | Inr st \<Rightarrow> Grafted m \<lparr>oo_status = ''applied'', oo_manifestDigest = digest,
                           oo_layersApplied = True, oo_baseAnnotationMatched = True,
                           oo_baseDigest = liveOverlayBaseAnnotation m\<rparr> st)))
      | _ \<Rightarrow> GraftAbsent)"

section \<open>An applied overlay is the right one\<close>

lemma graft_manifest_Inr:
  assumes "graft_manifest c r opts = Inr (m, digest)"
  shows "(\<exists>body. cl_dec c body = Inr m \<and> digest = ''sha256:'' @ cl_sha c body) \<and>
    (trim_space (go_expectedOverlay opts) \<noteq> '''' \<longrightarrow> digest = trim_space (go_expectedOverlay opts))"
proof (cases "trim_space (go_expectedOverlay opts) = ''''")
  case True
  with assms have "\<exists>p. client_resolve c r p = Inr (m, digest)"
    by (auto simp: graft_manifest_def Let_def split: sum.splits resolve_error.splits)
  then obtain p where
    "ResolveManifestForPlatformWithDigest (cl_sha c) (cl_dec c) (cl_get c (ref_repo r)) (ref_tag r) p '''' = Inr (m, digest)"
    by (auto simp: client_resolve_def ResolveManifestForPlatform_def)
  from Resolve_Inr[OF this] True show ?thesis by blast
next
  case False
  with assms obtain p content where "digest = trim_space (go_expectedOverlay opts)"
      "client_pinned c r p digest = Inr (m, content)"
    by (auto simp: graft_manifest_def Let_def split: sum.splits)
  with FetchPinned_Inr[of "cl_sha c" "cl_dec c" "cl_tokdec c" "cl_http c" "cl_cfgdec c" "cl_config c r" "cl_base c" r p digest m content]
  show ?thesis by (auto simp: client_pinned_def)
qed

lemma Graft_Grafted:
  assumes "GraftLiveOverlayObserved put co rooto store img baseo opts = Grafted m obs st"
  obtains c root base r where "co = Some c" "rooto = Some root" "baseo = Some base" "LiveOverlayRef img = Some r"
    "graft_manifest c r opts = Inr (m, oo_manifestDigest obs)" "VerifyLiveOverlayBase m (go_baseDigest opts) = (None :: 'x overlay_error option)"
    "UnpackOnto put (cl_skip c) (cl_decode c) (client_fetch c r m) (cl_close c) (m_layers m)
       (\<lambda>dg. dg \<in> d_digest ` set (m_layers base)) (root, store) = Inr st"
proof -
  obtain c root base where 1: "co = Some c" "rooto = Some root" "baseo = Some base"
    using assms by (auto simp: GraftLiveOverlayObserved_def split: option.splits)
  note G = assms[unfolded GraftLiveOverlayObserved_def 1 prod.case option.case Let_def]
  obtain r where 2: "LiveOverlayRef img = Some r" using G by (cases "LiveOverlayRef img") auto
  note G2 = G[unfolded 2 option.case]
  obtain m' digest where 3: "graft_manifest c r opts = Inr (m', digest)"
    using G2 by (auto split: sum.splits option.splits)
  note G3 = G2[unfolded 3 sum.case prod.case]
  have "m' = m \<and> digest = oo_manifestDigest obs \<and> VerifyLiveOverlayBase m (go_baseDigest opts) = (None :: 'x overlay_error option) \<and>
    UnpackOnto put (cl_skip c) (cl_decode c) (client_fetch c r m) (cl_close c) (m_layers m)
       (\<lambda>dg. dg \<in> d_digest ` set (m_layers base)) (root, store) = Inr st"
    using G3 by (auto simp: VerifyLiveOverlayBase_def Let_def split: if_splits option.splits sum.splits)
  then show ?thesis using that 1 2 3 by metis
qed

text \<open>
  C18. An overlay is applied only to the base it was built for: when the graft reports success,
  the overlay's manifest hashes to the digest reported (the caller's pin, if it gave one), its
  annotation names the selected base's digest, which is also the digest the caller expected of
  the base, and the new tree is the old one with the overlay's layers, those of the base
  skipped, applied in order.
\<close>

theorem graft_is_bound:
  assumes "GraftLiveOverlayObserved put (Some c) (Some root) store img (Some base) opts = Grafted m obs st"
  shows "(\<exists>body. cl_dec c body = Inr m \<and> oo_manifestDigest obs = ''sha256:'' @ cl_sha c body) \<and>
    (trim_space (go_expectedOverlay opts) \<noteq> '''' \<longrightarrow> oo_manifestDigest obs = trim_space (go_expectedOverlay opts)) \<and>
    liveOverlayBaseAnnotation m = trim_space (go_baseDigest opts) \<and> trim_space (go_baseDigest opts) \<noteq> '''' \<and>
    (\<exists>r. UnpackOnto put (cl_skip c) (cl_decode c) (client_fetch c r m) (cl_close c) (m_layers m)
       (\<lambda>dg. dg \<in> d_digest ` set (m_layers base)) (root, store) = Inr st)"
proof -
  obtain r where g: "graft_manifest c r opts = Inr (m, oo_manifestDigest obs)"
      "VerifyLiveOverlayBase m (go_baseDigest opts) = (None :: 'x overlay_error option)"
      "UnpackOnto put (cl_skip c) (cl_decode c) (client_fetch c r m) (cl_close c) (m_layers m)
       (\<lambda>dg. dg \<in> d_digest ` set (m_layers base)) (root, store) = Inr st"
    by (rule Graft_Grafted[OF assms]) auto
  have "liveOverlayBaseAnnotation m = trim_space (go_baseDigest opts) \<and> trim_space (go_baseDigest opts) \<noteq> ''''"
    using g(2) by (auto simp: VerifyLiveOverlayBase_def Let_def split: if_splits)
  then show ?thesis using graft_manifest_Inr[OF g(1)] g(3) by blast
qed

text \<open>
  C19. Grafting gives the overlay image: when the tree grafted onto is the unpacked base image
  and the overlay's manifest lists the base's layers followed by new ones, the resulting tree
  and store are what unpacking the overlay image from nothing would have produced. The base's
  blobs are content-addressed: either repository serves them alike.
\<close>

theorem graft_is_full_unpack:
  assumes "GraftLiveOverlayObserved put (Some c) (Some root) store img (Some base) opts = Grafted m obs st"
    and "m_layers m = m_layers base @ delta" "delta \<noteq> []"
    and "\<forall>d \<in> set delta. d_digest d \<notin> d_digest ` set (m_layers base)"
    and "Unpack put (cl_skip c) None (cl_decode c) (client_fetch c r0 base) (cl_close c) (m_layers base) s = Inr (root, store)"
    and "\<forall>d \<in> set (m_layers base). \<forall>r. cl_blob c r d = cl_blob c r0 d"
  shows "\<exists>r. LiveOverlayRef img = Some r \<and>
    Unpack put (cl_skip c) None (cl_decode c) (client_fetch c r m) (cl_close c) (m_layers m) s = Inr st"
proof -
  obtain r where g: "LiveOverlayRef img = Some r"
      "UnpackOnto put (cl_skip c) (cl_decode c) (client_fetch c r m) (cl_close c) (m_layers m)
       (\<lambda>dg. dg \<in> d_digest ` set (m_layers base)) (root, store) = Inr st"
    by (rule Graft_Grafted[OF assms(1)]) auto
  have "UnpackOnto put (cl_skip c) (cl_decode c) (client_fetch c r m) (cl_close c) (m_layers base @ delta)
       (\<lambda>dg. dg \<in> d_digest ` set (m_layers base)) (root, store)
     = Unpack put (cl_skip c) None (cl_decode c) (client_fetch c r m) (cl_close c) (m_layers base @ delta) s"
  proof (rule UnpackOnto_skips_base)
    have "Unpack put (cl_skip c) None (cl_decode c) (client_fetch c r m) (cl_close c) (m_layers base) s
      = Unpack put (cl_skip c) None (cl_decode c) (client_fetch c r0 base) (cl_close c) (m_layers base) s"
    proof (rule Unpack_fetch_cong)
      fix i
      assume i: "i < length (m_layers base)"
      then have "m_layers m ! i = m_layers base ! i" by (simp add: assms(2) nth_append)
      then show "client_fetch c r m i = client_fetch c r0 base i"
        unfolding client_fetch_def using assms(6) nth_mem[OF i] by metis
    qed
    then show "Unpack put (cl_skip c) None (cl_decode c) (client_fetch c r m) (cl_close c) (m_layers base) s = Inr (root, store)"
      using assms(5) by simp
  qed (use assms(3,4) in auto)
  then show ?thesis using g assms(2) by metis
qed

section \<open>A graft\<close>

definition live_manifest :: "descriptor list \<Rightarrow> (string \<times> string) list \<Rightarrow> manifest" where
  "live_manifest ls ann = \<lparr>m_mediaType = '''', m_manifests = [], m_config = sample_desc ''c'', m_layers = ls,
     m_annotations = ann\<rparr>"

definition live_base :: manifest where
  "live_base = live_manifest [sample_desc ''a''] []"

definition live_overlay :: manifest where
  "live_overlay = live_manifest [sample_desc ''a'', sample_desc ''b'']
     [(''org.tunaos.live-overlay.base-digest'', ''sha256:base'')]"

definition live_client :: "(string, string layer_stream) client" where
  "live_client = \<lparr>cl_base = ''r'', cl_http = (\<lambda>_. Resp 404 []), cl_sha = (\<lambda>_. ''0''), cl_dec = (\<lambda>_. Inr live_overlay),
     cl_tokdec = (\<lambda>_. Inr ''''), cl_cfgdec = (\<lambda>_. None),
     cl_get = (\<lambda>repo p. if repo = ''tuna-os/live-overlay'' \<and> p = ''manifests/yellowfin-kde'' then Inr [1]
        else Inl (HTTPStatus p 404)),
     cl_config = (\<lambda>_ _. Inl ''''), cl_blob = (\<lambda>_ d. if d_digest d = ''a'' then sample_fetch 0 else sample_fetch 1),
     cl_close = (\<lambda>_. None), cl_decode = (\<lambda>_ x. x), cl_skip = None\<rparr>"

definition live_opts :: graft_options where
  "live_opts = \<lparr>go_platform = '''', go_expectedOverlay = '''', go_baseDigest = ''sha256:base'',
     go_expectedBase = ''sha256:base'', go_required = True\<rparr>"

definition live_obs :: overlay_observation where
  "live_obs = \<lparr>oo_status = ''applied'', oo_manifestDigest = ''sha256:0'', oo_layersApplied = True,
     oo_baseAnnotationMatched = True, oo_baseDigest = ''sha256:base''\<rparr>"

lemma live_graft:
  "GraftLiveOverlayObserved mem_put (Some live_client) (Some (fst sample_base)) (snd sample_base)
     ''tuna-os/yellowfin:kde'' (Some live_base) live_opts = Grafted live_overlay live_obs sample_image"
proof -
  let ?r = "\<lparr>ref_repo = ''tuna-os/live-overlay'', ref_tag = ''yellowfin-kde''\<rparr>"
  have r: "LiveOverlayRef ''tuna-os/yellowfin:kde'' = Some ?r" by code_simp
  have m: "graft_manifest live_client ?r live_opts = Inr (live_overlay, ''sha256:0'')" by code_simp
  have v: "VerifyLiveOverlayBase live_overlay (go_baseDigest live_opts) = (None :: string overlay_error option)"
    "liveOverlayBaseAnnotation live_overlay = ''sha256:base''"
    "trim_space (go_expectedBase live_opts) = trim_space (go_baseDigest live_opts)"
    by code_simp+
  have u: "UnpackOnto mem_put (cl_skip live_client) (cl_decode live_client) (client_fetch live_client ?r live_overlay)
     (cl_close live_client) (m_layers live_overlay) (\<lambda>dg. dg \<in> d_digest ` set (m_layers live_base)) sample_base
     = Inr sample_image"
    by code_simp
  show ?thesis
    by (simp add: GraftLiveOverlayObserved_def r m v u live_obs_def)
qed

theorem graft_is_bound_witness:
  "liveOverlayBaseAnnotation live_overlay = trim_space (go_baseDigest live_opts) \<and>
   (\<exists>body. cl_dec live_client body = Inr live_overlay \<and> oo_manifestDigest live_obs = ''sha256:'' @ cl_sha live_client body)"
  using graft_is_bound[OF live_graft] by blast

theorem graft_is_full_unpack_witness:
  "\<exists>r. LiveOverlayRef ''tuna-os/yellowfin:kde'' = Some r \<and>
    Unpack mem_put (cl_skip live_client) None (cl_decode live_client) (client_fetch live_client r live_overlay)
      (cl_close live_client) (m_layers live_overlay) empty_mem = Inr sample_image"
proof (rule graft_is_full_unpack[OF live_graft])
  show "m_layers live_overlay = m_layers live_base @ [sample_desc ''b'']" by code_simp
  show "\<forall>d \<in> set [sample_desc ''b'']. d_digest d \<notin> d_digest ` set (m_layers live_base)" by code_simp
  have "Unpack mem_put (cl_skip live_client) None (cl_decode live_client)
     (client_fetch live_client \<lparr>ref_repo = ''b'', ref_tag = ''''\<rparr> live_base)
     (cl_close live_client) (m_layers live_base) empty_mem = Inr sample_base"
    by code_simp
  then show "Unpack mem_put (cl_skip live_client) None (cl_decode live_client)
     (client_fetch live_client \<lparr>ref_repo = ''b'', ref_tag = ''''\<rparr> live_base)
     (cl_close live_client) (m_layers live_base) empty_mem = Inr (fst sample_base, snd sample_base)" by simp
qed (simp_all add: live_client_def)

end
