(* ===== verification/Kargs.thy ===== *)
theory Kargs
  imports Prelude
begin

text \<open>
  Kernel command lines: the image's declared arguments (\<^verbatim>\<open>internal/kargsd/kargsd.go\<close>), the
  options of boot entries (\<^verbatim>\<open>internal/kernelcmdline/kernelcmdline.go\<close>) and their combination
  (\<^verbatim>\<open>AppendKargs\<close> of \<^verbatim>\<open>internal/purefs/kernelboot.go\<close>). The TOML decoder is the parameter \<open>toml\<close>.
\<close>

section \<open>kargs.d\<close>

record kargs_config =
  kc_kargs :: "string list"
  kc_match :: "string list option"

text \<open>What decoding a file gives: an error, or the fields, the keys left over, and whether \<open>kargs\<close> is there.\<close>

datatype 'e toml_result = TomlErr 'e | Toml kargs_config "string list" bool

datatype 'e kargs_error =
    KDecode string 'e
  | KUnknownKeys string "string list"
  | KMissing string
  | KArchUnknown string

text \<open>\<^verbatim>\<open>path.Ext\<close>: from the last dot of the last path element.\<close>

definition path_ext :: "string \<Rightarrow> string" where
  "path_ext p =
     (let r = takeWhile (\<lambda>c. c \<noteq> CHR ''/'') (rev p) in
      if CHR ''.'' \<in> set r then rev (takeWhile (\<lambda>c. c \<noteq> CHR ''.'') r @ ''.'') else '''')"

definition IsConfigName :: "string \<Rightarrow> bool" where
  "IsConfigName name \<longleftrightarrow> path_ext name = ''.toml'' \<and> length name > length ''.toml''"

definition Arch :: "string \<Rightarrow> string" where
  "Arch a =
     (if a = ''amd64'' \<or> a = ''x86_64'' then ''x86_64''
      else if a = ''arm64'' \<or> a = ''aarch64'' then ''aarch64''
      else if a = ''ppc64le'' \<or> a = ''ppc64'' \<or> a = ''powerpc64'' then ''powerpc64''
      else if a = ''riscv64'' then ''riscv64''
      else if a = ''s390x'' then ''s390x''
      else a)"

abbreviation (input) dquote :: char where
  "dquote \<equiv> CHR 0x22"

definition cmd_space :: "char \<Rightarrow> bool" where
  "cmd_space c \<longleftrightarrow> c \<in> {CHR 0x20, CHR 0x09, CHR 0x0A, CHR 0x0D, CHR 0x0C}"

text \<open>The loop of \<^verbatim>\<open>split\<close>: the quote state, the argument being collected (reversed), the rest.\<close>

fun split_args :: "bool \<Rightarrow> string \<Rightarrow> string \<Rightarrow> string list" where
  "split_args quoted cur [] = (if cur \<noteq> [] then [rev cur] else [])"
| "split_args quoted cur (c # s) =
     (if c = dquote then split_args (\<not> quoted) (c # cur) s
      else if \<not> quoted \<and> cmd_space c then
        (if cur \<noteq> [] then rev cur # split_args quoted [] s else split_args quoted cur s)
      else split_args quoted (c # cur) s)"

definition split_cmdline :: "string \<Rightarrow> string list" where
  "split_cmdline s = split_args False [] s"

text \<open>\<^verbatim>\<open>strings.Cut\<close> at an equals sign: key, value, whether there was one.\<close>

definition cut_eq :: "string \<Rightarrow> string \<times> string \<times> bool" where
  "cut_eq p = (takeWhile (\<lambda>c. c \<noteq> CHR ''='') p, drop 1 (dropWhile (\<lambda>c. c \<noteq> CHR ''='') p), CHR ''='' \<in> set p)"

definition identity :: "string \<Rightarrow> string" where
  "identity p0 =
     (let p = trim_suffix (trim_prefix p0 [dquote]) [dquote];
          (key0, val, hasValue) = cut_eq p;
          key = map (\<lambda>c. if c = CHR ''-'' then CHR ''_'' else c) key0
      in if \<not> hasValue then key else key @ ''='' @ trim_prefix val [dquote])"

definition add_karg :: "string \<Rightarrow> string list \<times> string list \<Rightarrow> string list \<times> string list" where
  "add_karg p = (\<lambda>(seen, out).
     if identity p \<in> set seen then (seen, out) else (identity p # seen, out @ [p]))"

definition parse_file ::
  "(string \<Rightarrow> 'e toml_result) \<Rightarrow> (string \<Rightarrow> string option) \<Rightarrow> string \<Rightarrow> string \<Rightarrow>
   string list \<times> string list \<Rightarrow> 'e kargs_error + (string list \<times> string list)" where
  "parse_file toml files arch name st =
     (case toml (case files name of None \<Rightarrow> '''' | Some body \<Rightarrow> body) of
        TomlErr e \<Rightarrow> Inl (KDecode name e)
      | Toml c undecoded kargs_defined \<Rightarrow>
          if undecoded \<noteq> [] then Inl (KUnknownKeys name undecoded)
          else if \<not> kargs_defined then Inl (KMissing name)
          else case kc_match c of
            None \<Rightarrow> Inr (fold add_karg (split_cmdline (join_with '' '' (kc_kargs c))) st)
          | Some archs \<Rightarrow>
              if arch = '''' then Inl (KArchUnknown name)
              else if arch \<in> set archs then Inr (fold add_karg (split_cmdline (join_with '' '' (kc_kargs c))) st)
              else Inr st)"

definition Parse ::
  "(string \<Rightarrow> 'e toml_result) \<Rightarrow> (string \<times> string) list \<Rightarrow> string \<Rightarrow> 'e kargs_error + string list" where
  "Parse toml files arch0 =
     (let names = sort (filter IsConfigName (map fst files)); arch = Arch arch0 in
      bindR (foldR (parse_file toml (map_of files) arch) names ([], [])) (\<lambda>(seen, out). Inr out))"

definition AppendKargs :: "string \<Rightarrow> string list \<Rightarrow> string" where
  "AppendKargs cmdline kargs = (if kargs = [] then cmdline else cmdline @ '' '' @ join_with '' '' kargs)"

section \<open>Boot entry options\<close>

datatype boot_mode = ModeLive | ModePersistent
datatype backend = BackendOstree | BackendComposefs

definition Append :: "string \<Rightarrow> string list \<Rightarrow> string" where
  "Append options kargs = fold (\<lambda>karg opts. if trim_space karg \<noteq> '''' then opts @ '' '' @ trim_space karg else opts) kargs options"

definition escape_label :: "string \<Rightarrow> string" where
  "escape_label label = concat (map (\<lambda>c. if c = CHR '' '' then [CHR 0x5C] @ ''x20'' else [c]) label)"

definition live :: "string \<Rightarrow> string \<Rightarrow> string \<Rightarrow> string \<Rightarrow> string" where
  "live envID label squashimg extra =
     ''root=tbox:CDLABEL='' @ escape_label label @ '' tacklebox.live.squashimg='' @ squashimg @
     '' tacklebox.live.overlay.size=8192 enforcing=0'' @ '' tacklebox.env='' @ envID @ extra @ '' console=ttyS0,115200n8''"

definition CombinedSquashName :: string where "CombinedSquashName = ''combined.rootfs.sfs''"
definition BaseSquashName :: string where "BaseSquashName = ''base.rootfs.sfs''"

definition Live :: "string \<Rightarrow> string \<Rightarrow> string" where
  "Live envID label = live envID label (envID @ ''.rootfs.sfs'') ''''"

definition LiveCombined :: "string \<Rightarrow> string \<Rightarrow> string" where
  "LiveCombined envID label = live envID label CombinedSquashName ('' tacklebox.root='' @ envID)"

definition LiveDelta :: "string \<Rightarrow> string \<Rightarrow> bool \<Rightarrow> string" where
  "LiveDelta envID label isBase =
     live envID label BaseSquashName (if \<not> isBase then '' tacklebox.live.delta='' @ envID @ ''.delta.sfs'' else '''')"

definition Build :: "string \<Rightarrow> boot_mode \<Rightarrow> backend \<Rightarrow> bool \<Rightarrow> string \<Rightarrow> string" where
  "Build envID mode backend usbSafe ostreeBootcsum =
     (let c1 = ''root=LABEL=TBOX_STORE rw console=ttyS0 tacklebox.root=tbox-install/'' @ envID;
          c2 = c1 @ (if mode = ModeLive then '' rd.live.overlay=tmpfs'' else '' tacklebox.persist=LABEL=TBOX_PERSIST'');
          c3 = (if backend = BackendOstree
                then c2 @ '' ostree=/ostree/boot.1/'' @ envID @ ''/'' @ ostreeBootcsum @ ''/0'' else c2);
          rootflags = (if backend = BackendOstree then [] else [''subvol=containers/storage/overlay/default/diff'']) @
                      (if usbSafe then [''commit=1'', ''errors=remount-ro''] else [])
      in if rootflags \<noteq> [] then c3 @ '' rootflags='' @ join_with '','' rootflags else c3)"

text \<open>\<^verbatim>\<open>LiveBLSEntry\<close> and \<^verbatim>\<open>LiveGrubCfg\<close>: the boot entry for systemd-boot and for GRUB.\<close>

abbreviation (input) nl :: string where
  "nl \<equiv> [CHR 0x0A]"

definition LiveBLSEntry :: "string \<Rightarrow> string \<Rightarrow> string \<Rightarrow> string \<Rightarrow> string \<Rightarrow> string" where
  "LiveBLSEntry title kernelPath initrdPath devicetreePath kargs =
     (let devicetree = (if devicetreePath \<noteq> '''' then ''devicetree '' @ devicetreePath @ nl else '''') in
      ''title '' @ title @ nl @ ''linux '' @ kernelPath @ nl @ ''initrd '' @ initrdPath @ nl @
      devicetree @ ''options '' @ kargs @ nl)"

definition LiveGrubCfg :: "string \<Rightarrow> string \<Rightarrow> string \<Rightarrow> string \<Rightarrow> string \<Rightarrow> string" where
  "LiveGrubCfg title kernelPath initrdPath devicetreePath kargs =
     (let devicetree = (if devicetreePath \<noteq> '''' then ''    devicetree '' @ devicetreePath @ nl else '''') in
      ''set default=0'' @ nl @ ''set timeout=3'' @ nl @ nl @ ''menuentry '' @ [CHR 0x27] @ title @ [CHR 0x27] @ '' {'' @ nl @
      ''    linux '' @ kernelPath @ '' '' @ kargs @ nl @ ''    initrd '' @ initrdPath @ nl @ devicetree @ ''}'' @ nl)"

section \<open>Splitting command lines\<close>

fun quote_state :: "bool \<Rightarrow> string \<Rightarrow> bool" where
  "quote_state q [] = q"
| "quote_state q (c # s) = quote_state (if c = dquote then \<not> q else q) s"

text \<open>An argument: no white space outside quotes, every quote closed.\<close>

fun arg_ok :: "bool \<Rightarrow> string \<Rightarrow> bool" where
  "arg_ok q [] = (\<not> q)"
| "arg_ok q (c # s) = (if c = dquote then arg_ok (\<not> q) s else (q \<or> \<not> cmd_space c) \<and> arg_ok q s)"

lemma split_args_word:
  "arg_ok q t \<Longrightarrow> split_args q cur (t @ rest) = split_args False (rev t @ cur) rest"
  by (induction t arbitrary: q cur) (auto split: if_splits)

lemma split_args_append:
  "\<not> quote_state q s \<Longrightarrow> split_args q cur (s @ CHR '' '' # rest) = split_args q cur s @ split_args False [] rest"
proof (induction s arbitrary: q cur)
  case Nil
  then show ?case by (auto simp: cmd_space_def)
qed auto

lemma split_cmdline_join:
  "\<forall>t \<in> set ts. t \<noteq> [] \<and> arg_ok False t \<Longrightarrow> split_cmdline (join_with '' '' ts) = ts"
proof (induction ts)
  case Nil
  then show ?case by (simp add: split_cmdline_def)
next
  case (Cons t ts)
  then have t: "t \<noteq> []" "arg_ok False t" by auto
  show ?case
  proof (cases "ts = []")
    case True
    then show ?thesis using t split_args_word[of False t "[]" "[]"] by (simp add: split_cmdline_def)
  next
    case False
    then have "split_cmdline (join_with '' '' (t # ts)) = split_args False [] (t @ CHR '' '' # join_with '' '' ts)"
      by (simp add: split_cmdline_def join_with_Cons)
    also have "\<dots> = t # split_args False [] (join_with '' '' ts)"
      using t split_args_word[of False t "[]"] by (simp add: cmd_space_def)
    finally show ?thesis using Cons by (simp add: split_cmdline_def)
  qed
qed

text \<open>
  Arguments appended to a command line reach the kernel as they are: splitting the
  combined line gives the arguments of the original line followed by exactly the appended
  ones, when the quotes of the original line are closed and each appended argument is one.
\<close>

theorem AppendKargs_split:
  assumes "\<not> quote_state False cmdline" "\<forall>k \<in> set kargs. k \<noteq> '''' \<and> arg_ok False k"
  shows "split_cmdline (AppendKargs cmdline kargs) = split_cmdline cmdline @ kargs"
proof (cases "kargs = []")
  case False
  then show ?thesis
    using split_args_append[OF assms(1), of "[]"] split_cmdline_join[OF assms(2)]
    by (simp add: AppendKargs_def split_cmdline_def)
qed (simp add: AppendKargs_def)

theorem AppendKargs_split_witness:
  "split_cmdline (AppendKargs ''root=LABEL=x  rw'' [''quiet'', ''dyndbg='' @ [dquote] @ ''file a +p'' @ [dquote]])
     = [''root=LABEL=x'', ''rw'', ''quiet'', ''dyndbg='' @ [dquote] @ ''file a +p'' @ [dquote]]"
proof -
  have "\<not> quote_state False ''root=LABEL=x  rw''"
    "\<forall>k \<in> set [''quiet'', ''dyndbg='' @ [dquote] @ ''file a +p'' @ [dquote]]. k \<noteq> '''' \<and> arg_ok False k"
    "split_cmdline ''root=LABEL=x  rw'' = [''root=LABEL=x'', ''rw'']"
    by code_simp+
  from AppendKargs_split[OF this(1,2)] this(3) show ?thesis by simp
qed

section \<open>What an image's kargs.d comes to\<close>

fun keep_first :: "('a \<Rightarrow> 'b) \<Rightarrow> 'a list \<Rightarrow> 'a list" where
  "keep_first f [] = []"
| "keep_first f (x # xs) = x # filter (\<lambda>y. f y \<noteq> f x) (keep_first f xs)"

lemma fold_add_karg:
  "fold add_karg ps (seen, out) =
     (rev (map identity (filter (\<lambda>p. identity p \<notin> set seen) (keep_first identity ps))) @ seen,
      out @ filter (\<lambda>p. identity p \<notin> set seen) (keep_first identity ps))"
proof (induction ps arbitrary: seen out)
  case (Cons p ps)
  have g: "identity p \<in> set seen \<Longrightarrow> filter (\<lambda>q. identity q \<notin> set seen) (filter (\<lambda>y. identity y \<noteq> identity p) (keep_first identity ps))
     = filter (\<lambda>q. identity q \<notin> set seen) (keep_first identity ps)"
    by (auto intro: filter_cong)
  show ?case
  proof (cases "identity p \<in> set seen")
    case True
    then show ?thesis by (simp add: add_karg_def[of p] Cons.IH g del: filter_filter)
  next
    case False
    then show ?thesis by (simp add: add_karg_def[of p] Cons.IH)
  qed
qed simp

lemma keep_first_subset: "set (keep_first f xs) \<subseteq> set xs"
  by (induction xs) auto

lemma distinct_keep_first: "distinct (map f (keep_first f xs))"
  by (induction xs) (auto simp: distinct_map_filter)

text \<open>The arguments one file contributes on an architecture.\<close>

definition file_kargs ::
  "(string \<Rightarrow> 'e toml_result) \<Rightarrow> (string \<Rightarrow> string option) \<Rightarrow> string \<Rightarrow> string \<Rightarrow> string list" where
  "file_kargs toml files arch name =
     (case toml (case files name of None \<Rightarrow> '''' | Some body \<Rightarrow> body) of
        TomlErr e \<Rightarrow> []
      | Toml c _ _ \<Rightarrow>
          if (case kc_match c of None \<Rightarrow> True | Some archs \<Rightarrow> arch \<in> set archs)
          then split_cmdline (join_with '' '' (kc_kargs c)) else [])"

lemma parse_file_Inr:
  "parse_file toml files arch name st = Inr st' \<Longrightarrow> st' = fold add_karg (file_kargs toml files arch name) st"
  by (auto simp: parse_file_def file_kargs_def split: toml_result.splits if_splits option.splits)

lemma parse_files_Inr:
  "foldR (parse_file toml files arch) names st = Inr st' \<Longrightarrow>
   st' = fold add_karg (concat (map (file_kargs toml files arch) names)) st"
proof (induction names arbitrary: st)
  case (Cons name names)
  then obtain st1 where 1: "parse_file toml files arch name st = Inr st1"
      "foldR (parse_file toml files arch) names st1 = Inr st'"
    by (auto simp: bindR_Inr_iff simp del: split_paired_Ex)
  show ?case using Cons.IH[OF 1(2)] parse_file_Inr[OF 1(1)] by simp
qed simp

text \<open>
  C20. The arguments read from an image's kargs.d are those of its files that apply to the
  architecture, in file-name order and within a file in its order, each kept at its first
  occurrence only, where two spellings that bootc compares equal count as one; the order in
  which the directory's map is iterated does not matter.
\<close>

theorem Parse_spec:
  assumes "Parse toml files a = Inr out"
  shows "out = keep_first identity (concat (map (file_kargs toml (map_of files) (Arch a))
            (sort (filter IsConfigName (map fst files))))) \<and>
    distinct (map identity out) \<and>
    (\<forall>files'. distinct (map fst files) \<and> distinct (map fst files') \<and> set files' = set files \<longrightarrow>
       Parse toml files' a = Inr out)"
proof -
  let ?toks = "concat (map (file_kargs toml (map_of files) (Arch a)) (sort (filter IsConfigName (map fst files))))"
  from assms obtain seen where
    "foldR (parse_file toml (map_of files) (Arch a)) (sort (filter IsConfigName (map fst files))) ([], []) = Inr (seen, out)"
    by (auto simp: Parse_def Let_def bindR_Inr_iff)
  then have "(seen, out) = fold add_karg ?toks ([], [])" by (rule parse_files_Inr)
  then have out: "out = keep_first identity ?toks" by (simp add: fold_add_karg)
  have "Parse toml files' a = Inr out"
    if d: "distinct (map fst files)" "distinct (map fst files')" and s: "set files' = set files" for files'
  proof -
    have "map_of files' = map_of files" using d s map_of_inject_set by blast
    moreover have "sort (filter IsConfigName (map fst files')) = sort (filter IsConfigName (map fst files))"
      by (rule sorted_distinct_set_unique) (use d s in auto)
    ultimately show ?thesis using assms by (simp add: Parse_def)
  qed
  then show ?thesis using out distinct_keep_first by auto
qed

definition sample_toml :: "string \<Rightarrow> string toml_result" where
  "sample_toml s = (if s = ''A'' then Toml \<lparr>kc_kargs = [''quiet'', ''a-b=1 rw''], kc_match = None\<rparr> [] True
     else if s = ''B'' then Toml \<lparr>kc_kargs = [''a_b=1'', ''x''], kc_match = Some [''x86_64'']\<rparr> [] True
     else Toml \<lparr>kc_kargs = [''never''], kc_match = Some [''s390x'']\<rparr> [] True)"

theorem Parse_spec_witness:
  "Parse sample_toml [(''20.toml'', ''B''), (''.toml'', ''B''), (''30.toml'', ''C''), (''10.toml'', ''A'')] ''amd64''
     = Inr [''quiet'', ''a-b=1'', ''rw'', ''x''] \<and> distinct (map identity [''quiet'', ''a-b=1'', ''rw'', ''x''])"
proof -
  have run: "Parse sample_toml [(''20.toml'', ''B''), (''.toml'', ''B''), (''30.toml'', ''C''), (''10.toml'', ''A'')] ''amd64''
     = Inr [''quiet'', ''a-b=1'', ''rw'', ''x'']"
    by code_simp
  from Parse_spec[OF run] run show ?thesis by blast
qed

end
