(* ===== verification/Verify.thy ===== *)
theory Verify
  imports Kargs
begin

text \<open>
  The verifier of finished media, \<^verbatim>\<open>internal/verify\<close>: parsing boot entries (\<^verbatim>\<open>bls.go\<close>), the
  checks on sets of entries (\<^verbatim>\<open>policy.go\<close>), the ISO and block-image drivers (\<^verbatim>\<open>iso.go\<close>,
  \<^verbatim>\<open>block.go\<close>) over the interfaces \<^verbatim>\<open>ISOReader\<close> and \<^verbatim>\<open>BlockReader\<close>, and the mount life cycle of a
  block image. A reader is a record of what its methods return.
\<close>

section \<open>Boot entries\<close>

record bls_entry =
  be_name :: string
  be_linux :: string
  be_initrd :: string
  be_options :: string

definition parse_line :: "string \<Rightarrow> bls_entry \<Rightarrow> bls_entry" where
  "parse_line line e =
     (case Prelude.fields line of
        k # v # rest \<Rightarrow>
          if k = ''linux'' then e\<lparr>be_linux := v\<rparr>
          else if k = ''initrd'' then e\<lparr>be_initrd := v\<rparr>
          else if k = ''options'' then e\<lparr>be_options := join_with '' '' (v # rest)\<rparr>
          else e
      | _ \<Rightarrow> e)"

definition ParseBLSEntry :: "string \<Rightarrow> bls_entry" where
  "ParseBLSEntry body = fold parse_line (split_on (CHR 0x0A) body)
     \<lparr>be_name = '''', be_linux = '''', be_initrd = '''', be_options = ''''\<rparr>"

definition BLSOption :: "string \<Rightarrow> string \<Rightarrow> string" where
  "BLSOption options key =
     (case find (\<lambda>f. has_prefix f (key @ ''='')) (Prelude.fields options) of
        None \<Rightarrow> '''' | Some f \<Rightarrow> trim_prefix f (key @ ''=''))"

definition BLSSquashimg :: "string \<Rightarrow> string" where
  "BLSSquashimg options =
     (let v = BLSOption options ''tacklebox.live.squashimg'' in
      if v \<noteq> '''' then v else BLSOption options ''rd.live.squashimg'')"

section \<open>Checks\<close>

datatype 'e check_err =
    MissingLines
  | LinuxAbsent string
  | InitrdAbsent string
  | Indistinguishable "string list"
  | SharedDistinguisher nat string "string list"
  | SquashAbsent string string
  | DeltaAbsent string string
  | SharedHash nat string "string list"
  | NoEntries
  | Host 'e

type_synonym 'e check_result = "string \<times> 'e check_err option"

definition failed :: "'e check_result list \<Rightarrow> bool" where
  "failed rs \<longleftrightarrow> list_ex (\<lambda>r. snd r \<noteq> None) rs"

definition CheckBLSResolves :: "bls_entry \<Rightarrow> (string \<Rightarrow> bool) \<Rightarrow> string \<Rightarrow> 'e check_result" where
  "CheckBLSResolves e files label =
     (''entry '' @ be_name e @ '' linux/initrd resolve in '' @ label,
      if be_linux e = '''' \<or> be_initrd e = '''' then Some MissingLines
      else if \<not> files (trim_prefix (be_linux e) ''/'') then Some (LinuxAbsent (be_linux e))
      else if \<not> files (trim_prefix (be_initrd e) ''/'') then Some (InitrdAbsent (be_initrd e))
      else None)"

text \<open>What tells two entries on one squashfs apart: the pivot, or else the delta.\<close>

definition distinguisher :: "bls_entry \<Rightarrow> string" where
  "distinguisher e =
     (let d = BLSOption (be_options e) ''tacklebox.root'' in
      if d = '''' then BLSOption (be_options e) ''tacklebox.live.delta'' else d)"

definition CheckCombinedPivots :: "bls_entry list \<Rightarrow> 'e check_result list" where
  "CheckCombinedPivots entries =
     (let squashimgs = remdups (filter (\<lambda>v. v \<noteq> '''') (map (BLSSquashimg \<circ> be_options) entries)) in
      if length squashimgs \<noteq> 1 \<or> length entries < 2 then []
      else
        let deltaLayout = list_ex (\<lambda>e. BLSOption (be_options e) ''tacklebox.live.delta'' \<noteq> '''') entries;
            bare = map be_name (filter (\<lambda>e. distinguisher e = '''') entries);
            keys = sort (remdups (filter (\<lambda>d. d \<noteq> '''') (map distinguisher entries)));
            names = (\<lambda>d. map be_name (filter (\<lambda>e. distinguisher e = d) entries));
            maxBare = (if deltaLayout then 1 else 0);
            r1 = (if length bare > maxBare
                  then [(''shared squashfs entries distinguishable'', Some (Indistinguishable bare))] else []);
            r2 = map (\<lambda>d. (''shared squashfs per-env distinguisher distinct'',
                           Some (SharedDistinguisher (length (names d)) d (names d))))
                   (filter (\<lambda>d. length (names d) > 1) keys);
            r3 = (if r2 = [] \<and> length bare \<le> maxBare
                  then [(''combined squashfs: '' @ nat_dec (length entries) @ '' entries pivot to '' @
                         nat_dec (length keys + length bare) @ '' distinct env roots'', None)] else [])
        in r1 @ r2 @ r3)"

definition CheckSquashfsReferences :: "bls_entry list \<Rightarrow> (string \<Rightarrow> bool) \<Rightarrow> 'e check_result list" where
  "CheckSquashfsReferences entries sfsSet =
     concat (map (\<lambda>e.
        let img = BLSSquashimg (be_options e); delta = BLSOption (be_options e) ''tacklebox.live.delta'' in
        (if img \<noteq> '''' \<and> \<not> sfsSet img
         then [(''squashfs referenced by BLS entry'', Some (SquashAbsent (be_name e) img))] else []) @
        (if delta \<noteq> '''' \<and> \<not> sfsSet delta
         then [(''delta squashfs referenced by BLS entry'', Some (DeltaAbsent (be_name e) delta))] else [])) entries)"

definition CheckSquashfsDistinctness :: "(string \<times> string list) list \<Rightarrow> 'e check_result list" where
  "CheckSquashfsDistinctness hashes =
     (let keys = sort (map fst hashes);
          names = (\<lambda>h. case map_of hashes h of None \<Rightarrow> [] | Some ns \<Rightarrow> ns);
          r = map (\<lambda>h. (''per-env squashfs distinct'', Some (SharedHash (length (names h)) (take 12 h) (names h))))
                (filter (\<lambda>h. length (names h) > 1) keys)
      in r @ (if r = [] \<and> hashes \<noteq> []
              then [(''per-env squashfs distinct ('' @ nat_dec (length hashes) @ '' unique)'', None)] else []))"

definition go_list :: "string list \<Rightarrow> string" where
  "go_list ns = ''['' @ join_with '' '' ns @ '']''"

definition CheckOstreeDeploymentsDistinct :: "(string \<times> string list) list \<Rightarrow> nat \<Rightarrow> 'e check_result list" where
  "CheckOstreeDeploymentsDistinct envHashes totalEnvs =
     (let keys = sort (map fst envHashes);
          names = (\<lambda>h. case map_of envHashes h of None \<Rightarrow> [] | Some ns \<Rightarrow> ns);
          r = map (\<lambda>h. (''per-env ostree commit distinct (note: '' @ nat_dec (length (names h)) @ '' envs share commit '' @
                         take 12 h @ '': '' @ go_list (names h) @ '' expected for same-image adds)'', None))
                (filter (\<lambda>h. length (names h) > 1) keys)
      in r @ (if r = [] \<and> envHashes \<noteq> []
              then [(''per-env ostree commit distinct ('' @ nat_dec (length envHashes) @ '' unique across '' @
                     nat_dec totalEnvs @ '' envs)'', None)] else []))"

section \<open>The ISO driver\<close>

record 'e iso_reader =
  ir_extract :: "'e option"
  ir_entries :: "'e + bls_entry list"
  ir_espFiles :: "'e + string list"
  ir_liveOS :: "'e + string list"
  ir_hash :: "string \<Rightarrow> 'e + string"

definition hashed_name :: "string \<Rightarrow> bool" where
  "hashed_name name \<longleftrightarrow> (has_suffix name ''.rootfs.sfs'' \<or> has_suffix name ''.delta.sfs'') \<and>
     name \<noteq> ''combined.rootfs.sfs'' \<and> name \<noteq> ''base.rootfs.sfs''"

definition hash_step ::
  "(string \<Rightarrow> 'e + string) \<Rightarrow> string \<Rightarrow> bool \<times> (string \<times> string list) list \<times> 'e check_result list \<Rightarrow>
   bool \<times> (string \<times> string list) list \<times> 'e check_result list" where
  "hash_step hash name = (\<lambda>(store, hashes, rs).
     if name = ''store.squashfs.img'' then (True, hashes, rs)
     else if \<not> hashed_name name then (store, hashes, rs)
     else case hash (''/LiveOS/'' @ name) of
       Inl e \<Rightarrow> (store, hashes, rs @ [(''hash /LiveOS/'' @ name, Some (Host e))])
     | Inr h \<Rightarrow> (store, AList.update h ((case map_of hashes h of None \<Rightarrow> [] | Some ns \<Rightarrow> ns) @ [name]) hashes, rs))"

definition VerifyISOReader :: "'e iso_reader \<Rightarrow> 'e check_result list" where
  "VerifyISOReader rd =
     (case ir_extract rd of
        Some e \<Rightarrow> [(''ESP image extractable from ISO'', Some (Host e))]
      | None \<Rightarrow>
        let r0 = [(''ESP image extractable from ISO'', None)] in
        (case ir_entries rd of
           Inl e \<Rightarrow> r0 @ [(''read BLS entries from ESP'', Some (Host e))]
         | Inr [] \<Rightarrow> r0 @ [(''BLS entries present'', Some NoEntries)]
         | Inr entries \<Rightarrow>
           let r1 = r0 @ [(''BLS entries present ('' @ nat_dec (length entries) @ '')'', None)] in
           (case ir_espFiles rd of
              Inl e \<Rightarrow> r1 @ [(''enumerate ESP files'', Some (Host e))]
            | Inr fatFiles \<Rightarrow>
              let r2 = r1 @ map (\<lambda>e. CheckBLSResolves e (\<lambda>f. f \<in> set fatFiles) ''ESP'') entries
                          @ CheckCombinedPivots entries in
              (case ir_liveOS rd of
                 Inl e \<Rightarrow> r2 @ [(''list /LiveOS in ISO'', Some (Host e))]
               | Inr sfsList \<Rightarrow>
                 let r3 = r2 @ CheckSquashfsReferences entries (\<lambda>f. f \<in> set sfsList);
                     (store, hashes, r4) = fold (hash_step (ir_hash rd)) sfsList (False, [], r3)
                 in r4 @ CheckSquashfsDistinctness hashes @
                    (if store then [(''offline store present (LiveOS/store.squashfs.img)'', None)] else [])))))"

section \<open>The block driver\<close>

record 'e block_reader =
  br_entryFiles :: "'e + string list"
  br_readEntry :: "string \<Rightarrow> 'e + string"
  br_espFiles :: "string list option"
  br_environments :: "'e + string list"
  br_deployments :: "string \<Rightarrow> 'e + string list"
  br_offlineStore :: bool

text \<open>The commit part of a deployment name: everything before the last dot.\<close>

definition before_last_dot :: "string \<Rightarrow> string" where
  "before_last_dot h = (if CHR ''.'' \<in> set h then rev (drop 1 (dropWhile (\<lambda>c. c \<noteq> CHR ''.'') (rev h))) else h)"

definition env_hashes :: "(string \<Rightarrow> 'e + string list) \<Rightarrow> string list \<Rightarrow> (string \<times> string list) list" where
  "env_hashes deployments envs =
     fold (\<lambda>env hs. case deployments env of
        Inl _ \<Rightarrow> hs
      | Inr [] \<Rightarrow> hs
      | Inr (d # _) \<Rightarrow>
          let h = before_last_dot d in
          AList.update h ((case map_of hs h of None \<Rightarrow> [] | Some ns \<Rightarrow> ns) @ [env]) hs) envs []"

definition VerifyBlockReader :: "'e block_reader \<Rightarrow> 'e check_result list" where
  "VerifyBlockReader rd =
     (case br_entryFiles rd of
        Inl e \<Rightarrow> [(''BLS entries dir readable'', Some (Host e))]
      | Inr [] \<Rightarrow> [(''BLS entries present'', Some NoEntries)]
      | Inr entryFiles \<Rightarrow>
        let fatFiles = (case br_espFiles rd of None \<Rightarrow> [] | Some fs \<Rightarrow> fs);
            r1 = [(''BLS entries present ('' @ nat_dec (length entryFiles) @ '')'', None)] @
                 map (\<lambda>fname. case br_readEntry rd fname of
                        Inl e \<Rightarrow> (''read '' @ fname, Some (Host e))
                      | Inr body \<Rightarrow> CheckBLSResolves ((ParseBLSEntry body)\<lparr>be_name := fname\<rparr>)
                                     (\<lambda>f. f \<in> set fatFiles) ''ESP'') entryFiles;
            r2 = (case br_environments rd of
                    Inl _ \<Rightarrow> []
                  | Inr envs \<Rightarrow> if length envs > 1
                      then CheckOstreeDeploymentsDistinct (env_hashes (br_deployments rd) envs) (length envs) else [])
        in r1 @ r2 @ (if br_offlineStore rd then [(''offline store present (tbox-containers.squashfs)'', None)] else []))"

section \<open>Mounting a block image\<close>

text \<open>
  \<^verbatim>\<open>AttachAndMount\<close> performs host operations and stacks their undoing; \<open>mount_env\<close> holds the
  host's answers. Its \<^verbatim>\<open>cleanup\<close> runs the stack from the top.
\<close>

datatype host_act = Losetup string | MkdirTemp string | Mount string string
datatype undo_act = LosetupDetach string | RemoveAll string | Umount string

record 'e mount_env =
  me_losetup :: "'e + string"
  me_espDir :: "'e + string"
  me_storeDir :: "'e + string"
  me_mountESP :: "'e option"
  me_mountStore :: "'e option"

record 'e mounted =
  mt_done :: "host_act list"
  mt_cleanups :: "undo_act list"
  mt_results :: "'e check_result list"
  mt_ok :: bool

definition AttachAndMount :: "'e mount_env \<Rightarrow> 'e mounted" where
  "AttachAndMount env =
     (case me_losetup env of
        Inl e \<Rightarrow> \<lparr>mt_done = [], mt_cleanups = [], mt_results = [(''losetup --partscan --read-only'', Some (Host e))], mt_ok = False\<rparr>
      | Inr out \<Rightarrow>
        let loop = trim_space out; d1 = [Losetup loop]; c1 = [LosetupDetach loop];
            r1 = [(''losetup --partscan --read-only'', None)] in
        (case me_espDir env of
           Inl e \<Rightarrow> \<lparr>mt_done = d1, mt_cleanups = c1, mt_results = r1 @ [(''mkdtemp ESP'', Some (Host e))], mt_ok = False\<rparr>
         | Inr esp \<Rightarrow>
           let d2 = d1 @ [MkdirTemp esp]; c2 = c1 @ [RemoveAll esp] in
           (case me_storeDir env of
              Inl e \<Rightarrow> \<lparr>mt_done = d2, mt_cleanups = c2, mt_results = r1 @ [(''mkdtemp STORE'', Some (Host e))], mt_ok = False\<rparr>
            | Inr store \<Rightarrow>
              let d3 = d2 @ [MkdirTemp store]; c3 = c2 @ [RemoveAll store] in
              (case me_mountESP env of
                 Some e \<Rightarrow> \<lparr>mt_done = d3, mt_cleanups = c3, mt_results = r1 @ [(''mount ESP read-only'', Some (Host e))], mt_ok = False\<rparr>
               | None \<Rightarrow>
                 let d4 = d3 @ [Mount (loop @ ''p1'') esp]; c4 = c3 @ [Umount esp];
                     r4 = r1 @ [(''mount ESP read-only'', None)] in
                 (case me_mountStore env of
                    Some e \<Rightarrow> \<lparr>mt_done = d4, mt_cleanups = c4, mt_results = r4 @ [(''mount STORE read-only'', Some (Host e))], mt_ok = True\<rparr>
                  | None \<Rightarrow> \<lparr>mt_done = d4 @ [Mount (loop @ ''p2'') store], mt_cleanups = c4 @ [Umount store],
                            mt_results = r4 @ [(''mount STORE read-only'', None)], mt_ok = True\<rparr>)))))"

definition run_cleanup :: "'e mounted \<Rightarrow> undo_act list" where
  "run_cleanup m = rev (mt_cleanups m)"

definition VerifyBlockWithLifecycle :: "'e mount_env \<Rightarrow> 'e block_reader \<Rightarrow> 'e check_result list \<times> undo_act list" where
  "VerifyBlockWithLifecycle env rd =
     (let m = AttachAndMount env in
      (if \<not> mt_ok m then mt_results m else mt_results m @ VerifyBlockReader rd, run_cleanup m))"

definition undo_of :: "host_act \<Rightarrow> undo_act" where
  "undo_of a = (case a of Losetup l \<Rightarrow> LosetupDetach l | MkdirTemp d \<Rightarrow> RemoveAll d | Mount _ d \<Rightarrow> Umount d)"

text \<open>
  Verifying a block image leaves nothing attached: on every path, failing ones included,
  the operations run at the end undo exactly the operations performed, last one first (so a
  mount point is unmounted before it is removed, and both before the loop device is detached).
\<close>

lemma block_cleanup_undoes:
  "snd (VerifyBlockWithLifecycle env rd) = map undo_of (rev (mt_done (AttachAndMount env))) \<and>
   (\<not> failed (fst (VerifyBlockWithLifecycle env rd)) \<longrightarrow> length (mt_done (AttachAndMount env)) = 5)"
proof -
  have "mt_cleanups (AttachAndMount env) = map undo_of (mt_done (AttachAndMount env))"
    by (simp add: AttachAndMount_def Let_def undo_of_def split: sum.split option.split)
  moreover have "\<not> failed (mt_results (AttachAndMount env)) \<Longrightarrow> length (mt_done (AttachAndMount env)) = 5"
    by (simp add: AttachAndMount_def failed_def Let_def split: sum.splits option.splits)
  moreover have "failed (mt_results (AttachAndMount env)) \<Longrightarrow> failed (fst (VerifyBlockWithLifecycle env rd))"
    by (simp add: VerifyBlockWithLifecycle_def failed_def Let_def)
  moreover have "snd (VerifyBlockWithLifecycle env rd) = rev (mt_cleanups (AttachAndMount env))"
    by (simp add: VerifyBlockWithLifecycle_def run_cleanup_def Let_def)
  ultimately show ?thesis using rev_map by metis
qed

definition sample_env :: "string mount_env" where
  "sample_env = \<lparr>me_losetup = Inr ''/dev/loop7'', me_espDir = Inr ''/tmp/e'', me_storeDir = Inr ''/tmp/s'',
     me_mountESP = None, me_mountStore = None\<rparr>"

definition sample_block :: "string block_reader" where
  "sample_block = \<lparr>br_entryFiles = Inr [''a.conf''],
     br_readEntry = (\<lambda>_. Inr (LiveBLSEntry ''A'' ''/k'' ''/i'' '''' (Build ''a'' ModeLive BackendOstree True ''c''))),
     br_espFiles = Some [''k'', ''i''], br_environments = Inr [''a'', ''b''], br_deployments = (\<lambda>e. Inr [e @ ''1.0'']),
     br_offlineStore = False\<rparr>"

lemma block_cleanup_undoes_witness:
  "\<not> failed (fst (VerifyBlockWithLifecycle sample_env sample_block)) \<and>
   length (mt_done (AttachAndMount sample_env)) = 5 \<and>
   snd (VerifyBlockWithLifecycle sample_env sample_block)
     = [Umount ''/tmp/s'', Umount ''/tmp/e'', RemoveAll ''/tmp/s'', RemoveAll ''/tmp/e'', LosetupDetach ''/dev/loop7'']"
proof -
  have ok: "\<not> failed (fst (VerifyBlockWithLifecycle sample_env sample_block))"
    and undo: "map undo_of (rev (mt_done (AttachAndMount sample_env)))
     = [Umount ''/tmp/s'', Umount ''/tmp/e'', RemoveAll ''/tmp/s'', RemoveAll ''/tmp/e'', LosetupDetach ''/dev/loop7'']"
    by code_simp+
  from block_cleanup_undoes[of sample_env sample_block] ok undo show ?thesis by simp
qed

section \<open>Entries read back as written\<close>

definition wordp :: "string \<Rightarrow> bool" where
  "wordp w \<longleftrightarrow> w \<noteq> '''' \<and> list_all (\<lambda>c. \<not> is_space c) w"

lemma wordp_nl: "wordp w \<Longrightarrow> CHR 0x0A \<notin> set w"
  by (auto simp: wordp_def list_all_iff is_space_def)

lemma fields_key:
  assumes "wordp k"
  shows "Prelude.fields (k @ '' '' @ s) = k # Prelude.fields s"
  using assms fields_word_space[of k "CHR '' ''" s] by (simp add: wordp_def list_all_iff is_space_def)

lemma fields_word1: "wordp w \<Longrightarrow> Prelude.fields w = [w]"
  by (simp add: fields_word wordp_def list_all_iff)

lemma split_line:
  "CHR 0x0A \<notin> set a \<Longrightarrow> split_on (CHR 0x0A) (a @ CHR 0x0A # b) = a # split_on (CHR 0x0A) b"
  by (simp add: split_on_append split_on_no_sep)

text \<open>
  The entry a build writes is the entry the verifier reads: for a one-line title and
  paths without white space, parsing a rendered boot entry gives back the kernel, the initrd
  and the options, every option of the command line with its value.
\<close>

theorem ParseBLSEntry_LiveBLSEntry:
  assumes "CHR 0x0A \<notin> set title" "wordp k" "wordp i" "dt = '''' \<or> wordp dt" "CHR 0x0A \<notin> set kargs"
    "Prelude.fields kargs \<noteq> []"
  shows "ParseBLSEntry (LiveBLSEntry title k i dt kargs)
      = \<lparr>be_name = '''', be_linux = k, be_initrd = i, be_options = join_with '' '' (Prelude.fields kargs)\<rparr> \<and>
    BLSOption (join_with '' '' (Prelude.fields kargs)) key = BLSOption kargs key"
proof -
  have w: "wordp ''title''" "wordp ''linux''" "wordp ''initrd''" "wordp ''devicetree''" "wordp ''options''"
    by code_simp+
  have ps: "parse_line [] e = e" for e by (simp add: parse_line_def)
  have pt: "parse_line (''title '' @ title) e = e" for e
    using fields_key[OF w(1), of title] by (simp add: parse_line_def split: list.split)
  have pl: "parse_line (''linux '' @ k) e = e\<lparr>be_linux := k\<rparr>" for e
    using fields_key[OF w(2), of k] fields_word1[OF assms(2)] by (simp add: parse_line_def)
  have pi: "parse_line (''initrd '' @ i) e = e\<lparr>be_initrd := i\<rparr>" for e
    using fields_key[OF w(3), of i] fields_word1[OF assms(3)] by (simp add: parse_line_def)
  have pd: "wordp dt \<Longrightarrow> parse_line (''devicetree '' @ dt) e = e" for e
    using fields_key[OF w(4), of dt] fields_word1[of dt] by (simp add: parse_line_def)
  have po: "parse_line (''options '' @ kargs) e = e\<lparr>be_options := join_with '' '' (Prelude.fields kargs)\<rparr>" for e
    using fields_key[OF w(5), of kargs] assms(6) by (auto simp: parse_line_def split: list.split)
  let ?nl = "CHR 0x0A"
  have lines: "split_on ?nl (LiveBLSEntry title k i dt kargs)
      = [''title '' @ title, ''linux '' @ k, ''initrd '' @ i] @
        (if dt = '''' then [] else [''devicetree '' @ dt]) @ [''options '' @ kargs, []]"
  proof -
    have n: "?nl \<notin> set (''title '' @ title)" "?nl \<notin> set (''linux '' @ k)" "?nl \<notin> set (''initrd '' @ i)"
      "?nl \<notin> set (''options '' @ kargs)" "dt \<noteq> '''' \<Longrightarrow> ?nl \<notin> set (''devicetree '' @ dt)"
      using assms wordp_nl by auto
    show ?thesis
      using split_line[OF n(1)] split_line[OF n(2)] split_line[OF n(3)] split_line[OF n(4)] split_line[OF n(5)]
      by (simp add: LiveBLSEntry_def)
  qed
  have "ParseBLSEntry (LiveBLSEntry title k i dt kargs)
      = \<lparr>be_name = '''', be_linux = k, be_initrd = i, be_options = join_with '' '' (Prelude.fields kargs)\<rparr>"
    unfolding ParseBLSEntry_def lines using assms(4) by (auto simp: pt pl pi pd po ps simp del: append.simps)
  moreover have "Prelude.fields (join_with '' '' (Prelude.fields kargs)) = Prelude.fields kargs"
    by (rule fields_join_space) (use fields_words in blast)
  ultimately show ?thesis by (simp add: BLSOption_def)
qed

theorem ParseBLSEntry_LiveBLSEntry_witness:
  "ParseBLSEntry (LiveBLSEntry ''Yellowfin KDE'' ''/vmlinuz'' ''/initrd.img'' ''/a.dtb'' (Live ''kde'' ''MY DISK''))
     = \<lparr>be_name = '''', be_linux = ''/vmlinuz'', be_initrd = ''/initrd.img'',
        be_options = join_with '' '' (Prelude.fields (Live ''kde'' ''MY DISK''))\<rparr> \<and>
   BLSOption (join_with '' '' (Prelude.fields (Live ''kde'' ''MY DISK''))) ''tacklebox.env'' = ''kde''"
proof -
  have a: "wordp ''/vmlinuz''" "wordp ''/initrd.img''" "wordp ''/a.dtb''" "CHR 0x0A \<notin> set ''Yellowfin KDE''"
    "CHR 0x0A \<notin> set (Live ''kde'' ''MY DISK'')" "Prelude.fields (Live ''kde'' ''MY DISK'') \<noteq> []"
    "BLSOption (Live ''kde'' ''MY DISK'') ''tacklebox.env'' = ''kde''"
    by code_simp+
  from ParseBLSEntry_LiveBLSEntry[OF a(4,1,2) disjI2[OF a(3)] a(5,6), of "''tacklebox.env''"] a(7)
  show ?thesis by simp
qed

section \<open>Entries on one squashfs are told apart\<close>

lemma distinct_map_filter_le1:
  "distinct (map f xs) \<longleftrightarrow> (\<forall>x \<in> set xs. length (filter (\<lambda>y. f y = f x) xs) \<le> 1)"
proof (induction xs)
  case (Cons a xs)
  have "(\<forall>x \<in> set (a # xs). length (filter (\<lambda>y. f y = f x) (a # xs)) \<le> 1) \<longleftrightarrow>
      f a \<notin> f ` set xs \<and> (\<forall>x \<in> set xs. length (filter (\<lambda>y. f y = f x) xs) \<le> 1)"
  proof (intro iffI conjI)
    assume l: "\<forall>x \<in> set (a # xs). length (filter (\<lambda>y. f y = f x) (a # xs)) \<le> 1"
    then have "filter (\<lambda>y. f y = f a) xs = []" by simp
    then show "f a \<notin> f ` set xs" by (auto simp: filter_empty_conv)
    show "\<forall>x \<in> set xs. length (filter (\<lambda>y. f y = f x) xs) \<le> 1"
    proof
      fix x
      assume "x \<in> set xs"
      then have "length (filter (\<lambda>y. f y = f x) (a # xs)) \<le> 1" using l by (simp only: list.set_intros)
      then show "length (filter (\<lambda>y. f y = f x) xs) \<le> 1" by (cases "f a = f x") auto
    qed
  next
    assume r: "f a \<notin> f ` set xs \<and> (\<forall>x \<in> set xs. length (filter (\<lambda>y. f y = f x) xs) \<le> 1)"
    have ne: "f x \<noteq> f a" if "x \<in> set xs" for x using r imageI[OF that, of f] by metis
    then have "filter (\<lambda>y. f y = f a) xs = []" by (simp add: filter_empty_conv)
    moreover have "filter (\<lambda>y. f y = f x) (a # xs) = filter (\<lambda>y. f y = f x) xs" if "x \<in> set xs" for x
      using ne[OF that] by auto
    ultimately show "\<forall>x \<in> set (a # xs). length (filter (\<lambda>y. f y = f x) (a # xs)) \<le> 1"
      using r by simp
  qed
  then show ?case using Cons.IH by auto
qed simp

lemma failed_simps:
  "failed [] = False" "failed (a @ b) = (failed a \<or> failed b)"
  "failed (map (\<lambda>d. (n d, Some (x d))) ds) = (ds \<noteq> [])"
  "failed (if c then [(s, Some y)] else []) = c" "failed (if c then [(s, None)] else []) = False"
  by (auto simp: failed_def list_ex_iff simp flip: ex_in_conv set_empty)

definition shared_squash :: "bls_entry list \<Rightarrow> bool" where
  "shared_squash es \<longleftrightarrow> length es \<ge> 2 \<and>
     length (remdups (filter (\<lambda>v. v \<noteq> '''') (map (BLSSquashimg \<circ> be_options) es))) = 1"

lemma CheckCombinedPivots_iff:
  assumes "shared_squash es"
  shows "\<not> failed (CheckCombinedPivots es :: 'e check_result list) \<longleftrightarrow>
    distinct (map distinguisher es) \<and>
    ((\<forall>e. e \<in> set es \<longrightarrow> BLSOption (be_options e) ''tacklebox.live.delta'' = '''') \<longrightarrow>
     (\<forall>e. e \<in> set es \<longrightarrow> distinguisher e \<noteq> ''''))"
proof -
  let ?cnt = "\<lambda>d. length (filter (\<lambda>e. distinguisher e = d) es)"
  let ?delta = "list_ex (\<lambda>e. BLSOption (be_options e) ''tacklebox.live.delta'' \<noteq> '''') es"
  let ?max = "if ?delta then 1 else 0 :: nat"
  have "\<not> failed (CheckCombinedPivots es :: 'e check_result list) \<longleftrightarrow>
      ?cnt '''' \<le> ?max \<and> (\<forall>d \<in> distinguisher ` set es. d \<noteq> '''' \<longrightarrow> ?cnt d \<le> 1)"
  proof -
    let ?ks = "filter (\<lambda>d. 1 < length (map be_name (filter (\<lambda>e. distinguisher e = d) es)))
        (sort (remdups (filter (\<lambda>d. d \<noteq> '''') (map distinguisher es))))"
    have "\<not> failed (CheckCombinedPivots es :: 'e check_result list) \<longleftrightarrow>
        \<not> ?max < length (map be_name (filter (\<lambda>e. distinguisher e = '''') es)) \<and> ?ks = []"
      unfolding CheckCombinedPivots_def Let_def using assms
      by (simp only: shared_squash_def failed_simps if_not_P not_less simp_thms) (simp add: not_less)
    also have "?ks = [] \<longleftrightarrow> (\<forall>d \<in> distinguisher ` set es. d \<noteq> '''' \<longrightarrow> ?cnt d \<le> 1)"
      by (auto simp: filter_empty_conv not_less)
    finally show ?thesis by (simp add: not_less)
  qed
  also have "\<dots> \<longleftrightarrow> distinct (map distinguisher es) \<and> (\<not> ?delta \<longrightarrow> ?cnt '''' = 0)"
  proof -
    have "?cnt '''' \<le> 1" if "\<forall>x \<in> set es. ?cnt (distinguisher x) \<le> 1"
    proof (cases "\<exists>x \<in> set es. distinguisher x = ''''")
      case True
      then show ?thesis using that by fastforce
    next
      case False
      then have "filter (\<lambda>e. distinguisher e = '''') es = []" by (simp add: filter_empty_conv)
      then show ?thesis by simp
    qed
    then show ?thesis unfolding distinct_map_filter_le1 by (auto simp: filter_empty_conv)
  qed
  also have "\<not> ?delta \<longleftrightarrow> (\<forall>e. e \<in> set es \<longrightarrow> BLSOption (be_options e) ''tacklebox.live.delta'' = '''')"
    by (auto simp: list_ex_iff)
  also have "?cnt '''' = 0 \<longleftrightarrow> (\<forall>e. e \<in> set es \<longrightarrow> distinguisher e \<noteq> '''')"
    by (auto simp: filter_empty_conv)
  finally show ?thesis .
qed

text \<open>The options the builder writes, as words.\<close>

definition live_words :: "string \<Rightarrow> string \<Rightarrow> string \<Rightarrow> string list \<Rightarrow> string list" where
  "live_words envID label squashimg extra =
     [''root=tbox:CDLABEL='' @ escape_label label, ''tacklebox.live.squashimg='' @ squashimg,
      ''tacklebox.live.overlay.size=8192'', ''enforcing=0'', ''tacklebox.env='' @ envID] @ extra @ [''console=ttyS0,115200n8'']"

definition plain_label :: "string \<Rightarrow> bool" where
  "plain_label label \<longleftrightarrow> list_all (\<lambda>c. c = CHR '' '' \<or> \<not> is_space c) label"

lemma escape_label_no_space:
  assumes "plain_label label" "c \<in> set (escape_label label)"
  shows "\<not> is_space c"
proof -
  have x: "list_all (\<lambda>c. \<not> is_space c) ([CHR 0x5C] @ ''x20'')" by code_simp
  have "c \<in> (\<Union>d \<in> set label. set (if d = CHR '' '' then [CHR 0x5C] @ ''x20'' else [d]))"
    using assms(2) by (simp only: escape_label_def set_concat set_map image_image)
  then obtain d where d: "d \<in> set label" "c \<in> set (if d = CHR '' '' then [CHR 0x5C] @ ''x20'' else [d])"
    by (rule UN_E)
  show ?thesis
  proof (cases "d = CHR '' ''")
    case True
    then show ?thesis using d(2) x by (auto simp: list_all_iff)
  next
    case False
    then show ?thesis using d assms(1) by (auto simp: plain_label_def list_all_iff)
  qed
qed

lemma live_join:
  "live envID label sq (concat (map (\<lambda>w. '' '' @ w) extra)) = join_with '' '' (live_words envID label sq extra)"
proof -
  have j: "x @ concat (map (\<lambda>w. '' '' @ w) ws) = join_with '' '' (x # ws)" for x ws
  proof (induction ws arbitrary: x)
    case (Cons w ws)
    have "x @ concat (map (\<lambda>w. '' '' @ w) (w # ws)) = x @ '' '' @ (w @ concat (map (\<lambda>w. '' '' @ w) ws))" by simp
    also have "\<dots> = x @ '' '' @ join_with '' '' (w # ws)" by (simp only: Cons.IH)
    finally show ?case by (simp add: join_with_Cons)
  qed simp
  have sp: "((@) '' '') = (#) (CHR '' '')" by (rule ext) simp
  show ?thesis
    unfolding live_words_def live_def append.simps(2)[of "''root=tbox:CDLABEL='' @ escape_label label"]
    by (simp add: sp flip: j)
qed

lemma fields_live:
  assumes "wordp envID" "plain_label label" "wordp sq" "\<forall>w \<in> set extra. wordp w"
  shows "Prelude.fields (live envID label sq (concat (map (\<lambda>w. '' '' @ w) extra))) = live_words envID label sq extra"
proof -
  have const: "wordp ''root=tbox:CDLABEL=''" "wordp ''tacklebox.live.squashimg=''" "wordp ''tacklebox.env=''"
    "wordp ''tacklebox.live.overlay.size=8192''" "wordp ''enforcing=0''" "wordp ''console=ttyS0,115200n8''"
    by code_simp+
  have "\<forall>w \<in> set (live_words envID label sq extra). wordp w"
    using const assms escape_label_no_space[OF assms(2)]
    by (auto simp: live_words_def wordp_def list_all_iff)
  then have "\<forall>w \<in> set (live_words envID label sq extra). w \<noteq> [] \<and> (\<forall>c \<in> set w. \<not> is_space c)"
    by (simp add: wordp_def list_all_iff)
  from fields_join_space[OF this] show ?thesis by (simp only: live_join)
qed

lemma live_options:
  assumes "wordp eid" "plain_label label"
  shows "BLSSquashimg (LiveCombined eid label) = CombinedSquashName"
    "BLSOption (LiveCombined eid label) ''tacklebox.root'' = eid"
    "BLSOption (LiveCombined eid label) ''tacklebox.live.delta'' = ''''"
    "BLSSquashimg (LiveDelta eid label b) = BaseSquashName"
    "BLSOption (LiveDelta eid label b) ''tacklebox.root'' = ''''"
    "BLSOption (LiveDelta eid label b) ''tacklebox.live.delta'' = (if b then '''' else eid @ ''.delta.sfs'')"
    "BLSSquashimg (Live eid label) = eid @ ''.rootfs.sfs''"
proof -
  have c: "wordp CombinedSquashName" "wordp BaseSquashName" "CombinedSquashName \<noteq> ''''" "BaseSquashName \<noteq> ''''"
    by code_simp+
  have r: "wordp (''tacklebox.root='' @ eid)" "wordp (''tacklebox.live.delta='' @ eid @ ''.delta.sfs'')" "wordp (eid @ ''.rootfs.sfs'')"
    using assms(1) by (auto simp: wordp_def is_space_def)
  have f1: "Prelude.fields (LiveCombined eid label) = live_words eid label CombinedSquashName [''tacklebox.root='' @ eid]"
    using fields_live[OF assms c(1), of "[''tacklebox.root='' @ eid]"] r by (simp add: LiveCombined_def)
  have f2: "Prelude.fields (LiveDelta eid label b) = live_words eid label BaseSquashName
      (if b then [] else [''tacklebox.live.delta='' @ eid @ ''.delta.sfs''])"
    using fields_live[OF assms c(2), of "[]"] fields_live[OF assms c(2), of "[''tacklebox.live.delta='' @ eid @ ''.delta.sfs'']"] r
    by (simp add: LiveDelta_def)
  have f3: "Prelude.fields (Live eid label) = live_words eid label (eid @ ''.rootfs.sfs'') []"
    using fields_live[OF assms r(3), of "[]"] by (simp add: Live_def)
  show "BLSSquashimg (LiveCombined eid label) = CombinedSquashName"
    "BLSOption (LiveCombined eid label) ''tacklebox.root'' = eid"
    "BLSOption (LiveCombined eid label) ''tacklebox.live.delta'' = ''''"
    using c by (simp_all add: BLSSquashimg_def BLSOption_def f1 live_words_def trim_prefix_def)
  show "BLSSquashimg (LiveDelta eid label b) = BaseSquashName"
    "BLSOption (LiveDelta eid label b) ''tacklebox.root'' = ''''"
    "BLSOption (LiveDelta eid label b) ''tacklebox.live.delta'' = (if b then '''' else eid @ ''.delta.sfs'')"
    using c by (simp_all add: BLSSquashimg_def BLSOption_def f2 live_words_def trim_prefix_def)
  show "BLSSquashimg (Live eid label) = eid @ ''.rootfs.sfs''"
    by (simp add: BLSSquashimg_def BLSOption_def f3 live_words_def trim_prefix_def)
qed

definition entry_for :: "(string \<Rightarrow> string) \<Rightarrow> string \<Rightarrow> bls_entry" where
  "entry_for opts eid = \<lparr>be_name = eid @ ''.conf'', be_linux = ''/'' @ eid @ ''/vmlinuz'',
     be_initrd = ''/'' @ eid @ ''/initrd.img'', be_options = opts eid\<rparr>"

lemma shared_squash_const:
  assumes "\<And>e. e \<in> set es \<Longrightarrow> BLSSquashimg (be_options e) = sq" "sq \<noteq> ''''" "length es \<ge> 2"
  shows "shared_squash es"
proof -
  have "map (BLSSquashimg \<circ> be_options) es = replicate (length es) sq"
    using assms(1) by (intro replicate_eqI) auto
  moreover have "length (remdups (replicate n sq)) = (if n = 0 then 0 else 1)" for n
    by (induction n) auto
  moreover have "filter (\<lambda>v. v \<noteq> '''') (replicate (length es) sq) = replicate (length es) sq"
    using assms(2) by (simp add: filter_id_conv)
  moreover have "es \<noteq> []" using assms(3) by auto
  ultimately show ?thesis using assms(3) unfolding shared_squash_def by simp
qed

text \<open>
  C21. What the builder writes for several environments on one squashfs passes the verifier:
  with distinct environment names, entries made for the combined layout, and entries made for
  the delta layout around one base environment, fail neither the check that they can be told
  apart nor the check that the images they name are on the medium.
\<close>

theorem built_entries_verify:
  assumes "distinct ids" "length ids \<ge> 2" "\<forall>eid \<in> set ids. wordp eid" "plain_label label"
  shows "\<not> failed (CheckCombinedPivots (map (entry_for (\<lambda>eid. LiveCombined eid label)) ids) :: 'e check_result list) \<and>
    \<not> failed (CheckSquashfsReferences (map (entry_for (\<lambda>eid. LiveCombined eid label)) ids)
        (\<lambda>f. f = CombinedSquashName) :: 'e check_result list) \<and>
    (base \<in> set ids \<longrightarrow>
      \<not> failed (CheckCombinedPivots (map (entry_for (\<lambda>eid. LiveDelta eid label (eid = base))) ids) :: 'e check_result list) \<and>
      \<not> failed (CheckSquashfsReferences (map (entry_for (\<lambda>eid. LiveDelta eid label (eid = base))) ids)
        (\<lambda>f. f = BaseSquashName \<or> f \<in> (\<lambda>eid. eid @ ''.delta.sfs'') ` (set ids - {base})) :: 'e check_result list))"
proof -
  have ne: "CombinedSquashName \<noteq> ''''" "BaseSquashName \<noteq> ''''" by code_simp+
  note opt = live_options[OF bspec[OF assms(3)] assms(4)]
  let ?C = "map (entry_for (\<lambda>eid. LiveCombined eid label)) ids"
  let ?D = "map (entry_for (\<lambda>eid. LiveDelta eid label (eid = base))) ids"
  have dC: "map distinguisher ?C = ids"
    using assms(3) opt(2) by (auto simp: distinguisher_def entry_for_def wordp_def intro!: map_idI)
  have dD: "map distinguisher ?D = map (\<lambda>eid. if eid = base then '''' else eid @ ''.delta.sfs'') ids"
    using opt(5,6) by (auto simp: distinguisher_def entry_for_def)
  have "shared_squash ?C"
    by (rule shared_squash_const[OF _ ne(1)]) (use opt(1) assms(2) in \<open>auto simp: entry_for_def\<close>)
  moreover have "\<forall>e. e \<in> set ?C \<longrightarrow> distinguisher e \<noteq> ''''"
    using assms(3) opt(2) by (auto simp: distinguisher_def entry_for_def wordp_def)
  ultimately have C: "\<not> failed (CheckCombinedPivots ?C :: 'e check_result list)"
    using CheckCombinedPivots_iff[of ?C] dC assms(1) by simp
  have sh: "shared_squash ?D"
    by (rule shared_squash_const[OF _ ne(2)]) (use opt(4) assms(2) in \<open>auto simp: entry_for_def\<close>)
  have dl: "\<not> (\<forall>e. e \<in> set ?D \<longrightarrow> BLSOption (be_options e) ''tacklebox.live.delta'' = '''')" if "base \<in> set ids"
  proof -
    obtain x where "x \<in> set ids" "x \<noteq> base"
      using assms(1,2) that by (metis One_nat_def Suc_1 card_le_Suc0_iff_eq distinct_card finite_set not_less_eq_eq)
    then show ?thesis using opt(6)[of x False] by (auto simp: entry_for_def intro!: bexI[of _ x])
  qed
  have "distinct (map (\<lambda>eid. if eid = base then '''' else eid @ ''.delta.sfs'') ids)"
    using assms(1) by (auto simp: distinct_map inj_on_def)
  then have D: "base \<in> set ids \<Longrightarrow> \<not> failed (CheckCombinedPivots ?D :: 'e check_result list)"
    using CheckCombinedPivots_iff[OF sh, where 'e = 'e] dl unfolding dD by blast
  have rC: "CheckSquashfsReferences ?C (\<lambda>f. f = CombinedSquashName) = ([] :: 'e check_result list)"
    using opt(1,3) by (auto simp: CheckSquashfsReferences_def entry_for_def)
  have rD: "CheckSquashfsReferences ?D
      (\<lambda>f. f = BaseSquashName \<or> f \<in> (\<lambda>eid. eid @ ''.delta.sfs'') ` (set ids - {base})) = ([] :: 'e check_result list)"
    using opt(4,6) by (auto simp: CheckSquashfsReferences_def entry_for_def)
  show ?thesis using C D by (simp add: rC rD failed_simps)
qed

theorem built_entries_verify_witness:
  "\<not> failed (CheckCombinedPivots (map (entry_for (\<lambda>eid. LiveDelta eid ''MY DISK'' (eid = ''kde''))) [''kde'', ''gnome''])
      :: string check_result list)"
proof -
  have "distinct [''kde'', ''gnome'']" "\<forall>eid \<in> set [''kde'', ''gnome'']. wordp eid" "plain_label ''MY DISK''"
    "''kde'' \<in> set [''kde'', ''gnome'']"
    by code_simp+
  with built_entries_verify[of "[''kde'', ''gnome'']" "''MY DISK''" "''kde''", where 'e = string]
  show ?thesis by (simp only: list.size) simp
qed

section \<open>A verified ISO\<close>

definition group_of :: "(string \<times> string list) list \<Rightarrow> string \<Rightarrow> string list" where
  "group_of hs h = (case map_of hs h of None \<Rightarrow> [] | Some ns \<Rightarrow> ns)"

definition to_hash :: "string \<Rightarrow> bool" where
  "to_hash n \<longleftrightarrow> n \<noteq> ''store.squashfs.img'' \<and> hashed_name n"

lemma hash_fold:
  "fold (hash_step hash) ns (st, hs, rs) = (st', hs', rs') \<Longrightarrow> \<not> failed rs' \<Longrightarrow>
   \<not> failed rs \<and> (\<forall>n \<in> set (filter to_hash ns). \<exists>h. hash (''/LiveOS/'' @ n) = Inr h) \<and>
   (\<forall>h. group_of hs' h = group_of hs h @ filter (\<lambda>n. hash (''/LiveOS/'' @ n) = Inr h) (filter to_hash ns))"
proof (induction ns arbitrary: st hs rs)
  case (Cons n ns)
  obtain st1 hs1 rs1 where 1: "hash_step hash n (st, hs, rs) = (st1, hs1, rs1)" by (metis prod_cases3)
  have IH: "\<not> failed rs1 \<and> (\<forall>n \<in> set (filter to_hash ns). \<exists>h. hash (''/LiveOS/'' @ n) = Inr h) \<and>
     (\<forall>h. group_of hs' h = group_of hs1 h @ filter (\<lambda>n. hash (''/LiveOS/'' @ n) = Inr h) (filter to_hash ns))"
    using Cons.IH[of st1 hs1 rs1] Cons.prems 1 by simp
  show ?case
  proof (cases "to_hash n")
    case False
    then have "hs1 = hs \<and> rs1 = rs" using 1 by (auto simp: hash_step_def to_hash_def split: if_splits)
    then show ?thesis using IH False by simp
  next
    case True
    then obtain h where h: "hash (''/LiveOS/'' @ n) = Inr h" "rs1 = rs"
        "hs1 = AList.update h (group_of hs h @ [n]) hs"
      using 1 IH
      by (cases "hash (''/LiveOS/'' @ n)") (auto simp: hash_step_def to_hash_def group_of_def failed_def split: if_splits)
    have "group_of hs1 k = (if k = h then group_of hs h @ [n] else group_of hs k)" for k
      by (simp add: h(3) group_of_def)
    then show ?thesis using IH h(1,2) True by auto
  qed
qed simp

lemma References_ok:
  assumes "\<not> failed (CheckSquashfsReferences es S :: 'e check_result list)" "x \<in> set es"
  shows "(BLSSquashimg (be_options x) = '''' \<or> S (BLSSquashimg (be_options x))) \<and>
    (BLSOption (be_options x) ''tacklebox.live.delta'' = '''' \<or> S (BLSOption (be_options x) ''tacklebox.live.delta''))"
proof -
  have c: "failed (concat (map f ys)) \<longleftrightarrow> (\<exists>y \<in> set ys. failed (f y))" for f :: "bls_entry \<Rightarrow> 'e check_result list" and ys
    by (auto simp: failed_def list_ex_iff)
  show ?thesis
    using assms unfolding CheckSquashfsReferences_def Let_def c failed_simps by blast
qed

lemma Distinctness_groups:
  assumes "\<not> failed (CheckSquashfsDistinctness hs :: 'e check_result list)"
  shows "length (group_of hs h) \<le> 1"
proof -
  have "filter (\<lambda>h. length (group_of hs h) > 1) (sort (map fst hs)) = []"
    using assms unfolding CheckSquashfsDistinctness_def Let_def group_of_def failed_simps by simp
  then have "h \<in> fst ` set hs \<Longrightarrow> length (group_of hs h) \<le> 1"
    by (auto simp: filter_empty_conv not_less)
  moreover have "h \<notin> fst ` set hs \<Longrightarrow> group_of hs h = []"
    by (simp add: group_of_def map_of_eq_None_iff [symmetric])
  ultimately show ?thesis by (cases "h \<in> fst ` set hs") auto
qed

text \<open>
  C22. What a clean verification report of an ISO means: there is at least one boot entry;
  every entry's kernel and initrd are on the EFI partition; every squashfs image and delta an
  entry names is in LiveOS; entries sharing an image can be told apart; and the
  per-environment images have pairwise different contents as far as they are hashed.
\<close>

theorem VerifyISOReader_sound:
  assumes "\<not> failed (VerifyISOReader rd)"
  shows "\<exists>entries fat sfs. ir_entries rd = Inr entries \<and> entries \<noteq> [] \<and> ir_espFiles rd = Inr fat \<and> ir_liveOS rd = Inr sfs \<and>
    (\<forall>e \<in> set entries. trim_prefix (be_linux e) ''/'' \<in> set fat \<and> trim_prefix (be_initrd e) ''/'' \<in> set fat \<and>
       BLSSquashimg (be_options e) \<in> set ('''' # sfs) \<and>
       BLSOption (be_options e) ''tacklebox.live.delta'' \<in> set ('''' # sfs)) \<and>
    (shared_squash entries \<longrightarrow> distinct (map distinguisher entries)) \<and>
    distinct (map (\<lambda>n. ir_hash rd (''/LiveOS/'' @ n)) (filter to_hash sfs))"
proof -
  have ex: "ir_extract rd = None"
    using assms by (cases "ir_extract rd") (auto simp: VerifyISOReader_def failed_def)
  obtain b where b: "ir_entries rd = Inr b"
    using assms ex by (cases "ir_entries rd") (auto simp: VerifyISOReader_def failed_def)
  have "b \<noteq> []" using assms ex b by (auto simp: VerifyISOReader_def failed_def Let_def)
  then obtain e es where en: "ir_entries rd = Inr (e # es)" using b by (cases b) auto
  obtain fat where fat: "ir_espFiles rd = Inr fat"
    using assms ex en by (cases "ir_espFiles rd") (auto simp: VerifyISOReader_def failed_def Let_def)
  obtain sfs where sfs: "ir_liveOS rd = Inr sfs"
    using assms ex en fat by (cases "ir_liveOS rd") (auto simp: VerifyISOReader_def failed_def Let_def)
  let ?es = "e # es"
  define r3 :: "'a check_result list" where "r3 = [(''ESP image extractable from ISO'', None)] @
      [(''BLS entries present ('' @ nat_dec (length ?es) @ '')'', None)] @
      map (\<lambda>e. CheckBLSResolves e (\<lambda>f. f \<in> set fat) ''ESP'') ?es @ CheckCombinedPivots ?es @
      CheckSquashfsReferences ?es (\<lambda>f. f \<in> set sfs)"
  obtain store hashes r4 where f: "fold (hash_step (ir_hash rd)) sfs (False, [], r3) = (store, hashes, r4)"
    by (metis prod_cases3)
  have "VerifyISOReader rd = r4 @ CheckSquashfsDistinctness hashes @
      (if store then [(''offline store present (LiveOS/store.squashfs.img)'', None)] else [])"
    using f unfolding VerifyISOReader_def Let_def ex en fat sfs r3_def
    by (simp only: option.case sum.case list.case prod.case append_assoc)
  with assms have r4: "\<not> failed r4" and dist: "\<not> failed (CheckSquashfsDistinctness hashes :: 'a check_result list)"
    by (auto simp: failed_simps)
  note H = hash_fold[OF f r4]
  then have r3: "\<not> failed r3" by blast
  have res: "\<not> failed (map (\<lambda>e. CheckBLSResolves e (\<lambda>f. f \<in> set fat) ''ESP'') ?es :: 'a check_result list)"
    and piv: "\<not> failed (CheckCombinedPivots ?es :: 'a check_result list)"
    and refs: "\<not> failed (CheckSquashfsReferences ?es (\<lambda>f. f \<in> set sfs) :: 'a check_result list)"
    using r3 unfolding r3_def failed_simps by blast+
  have "trim_prefix (be_linux x) ''/'' \<in> set fat \<and> trim_prefix (be_initrd x) ''/'' \<in> set fat" if "x \<in> set ?es" for x
  proof -
    have "snd (CheckBLSResolves x (\<lambda>f. f \<in> set fat) ''ESP'' :: 'a check_result) = None"
      using res that unfolding failed_def list_ex_iff by auto
    then show ?thesis by (auto simp: CheckBLSResolves_def split: if_splits)
  qed
  moreover have "BLSSquashimg (be_options x) \<in> set ('''' # sfs) \<and>
      BLSOption (be_options x) ''tacklebox.live.delta'' \<in> set ('''' # sfs)" if "x \<in> set ?es" for x
    using References_ok[OF refs that] by auto
  moreover have "shared_squash ?es \<Longrightarrow> distinct (map distinguisher ?es)"
    using CheckCombinedPivots_iff[of ?es, where 'e = 'a] piv by blast
  moreover have "distinct (map (\<lambda>n. ir_hash rd (''/LiveOS/'' @ n)) (filter to_hash sfs))"
    unfolding distinct_map_filter_le1
  proof
    fix n
    assume n: "n \<in> set (filter to_hash sfs)"
    then obtain h where h: "ir_hash rd (''/LiveOS/'' @ n) = Inr h" using H by blast
    have "group_of hashes h = filter (\<lambda>n. ir_hash rd (''/LiveOS/'' @ n) = Inr h) (filter to_hash sfs)"
      using H by (simp add: group_of_def)
    then show "length (filter (\<lambda>m. ir_hash rd (''/LiveOS/'' @ m) = ir_hash rd (''/LiveOS/'' @ n)) (filter to_hash sfs)) \<le> 1"
      using Distinctness_groups[OF dist, of h] h by metis
  qed
  ultimately show ?thesis using en fat sfs by blast
qed

definition sample_iso :: "string iso_reader" where
  "sample_iso = \<lparr>ir_extract = None,
     ir_entries = Inr (map (entry_for (\<lambda>eid. Live eid ''D'')) [''a'', ''b'']),
     ir_espFiles = Inr [''a/vmlinuz'', ''a/initrd.img'', ''b/vmlinuz'', ''b/initrd.img''],
     ir_liveOS = Inr [''a.rootfs.sfs'', ''b.rootfs.sfs'', ''store.squashfs.img''], ir_hash = (\<lambda>p. Inr p)\<rparr>"

theorem VerifyISOReader_sound_witness:
  "\<not> failed (VerifyISOReader sample_iso) \<and>
   distinct (map (\<lambda>n. ir_hash sample_iso (''/LiveOS/'' @ n)) (filter to_hash [''a.rootfs.sfs'', ''b.rootfs.sfs'', ''store.squashfs.img'']))"
proof -
  have ok: "\<not> failed (VerifyISOReader sample_iso)" by code_simp
  from VerifyISOReader_sound[OF ok] ok show ?thesis by (auto simp: sample_iso_def)
qed

end
