(* ===== verification/Boot_Chain.thy ===== *)
theory Boot_Chain
  imports Oci_Walk Kargs
begin

text \<open>
  The EFI boot path of a live ISO (\<^verbatim>\<open>internal/purefs/bootloader.go\<close>) and the kernel inputs
  read from the image tree (\<^verbatim>\<open>internal/purefs/kernelboot.go\<close>): which loader the image ships
  for an architecture, through which links its bytes are found, the device tree and the
  declared kernel arguments.
\<close>

section \<open>Architectures\<close>

text \<open>\<^verbatim>\<open>strings.ToLower\<close> on ASCII letters; other bytes stay.\<close>

definition to_lower_char :: "char \<Rightarrow> char" where
  "to_lower_char c =
     (let n = of_char c :: nat in if 65 \<le> n \<and> n \<le> 90 then char_of (n + 32) else c)"

definition normalizeArch :: "string \<Rightarrow> string" where
  "normalizeArch arch =
     (let a = map to_lower_char (trim_space arch) in
      if a = ''x86_64'' \<or> a = ''amd64'' then ''amd64''
      else if a = ''aarch64'' \<or> a = ''arm64'' then ''arm64''
      else a)"

definition efiArchSuffix :: "string \<Rightarrow> string" where
  "efiArchSuffix arch = (if normalizeArch arch = ''arm64'' then ''aa64'' else ''x64'')"

datatype boot_error =
    UnsupportedArch string
  | NoLoader string
  | NoUEFIChain string string boot_error

definition UEFIBootNames :: "string \<Rightarrow> boot_error + string \<times> string" where
  "UEFIBootNames arch =
     (if normalizeArch arch = ''amd64'' then Inr (''BOOTX64.EFI'', ''grubx64.efi'')
      else if normalizeArch arch = ''arm64'' then Inr (''BOOTAA64.EFI'', ''grubaa64.efi'')
      else Inl (UnsupportedArch arch))"

definition UEFIMokName :: "string \<Rightarrow> boot_error + string" where
  "UEFIMokName arch =
     (if normalizeArch arch = ''amd64'' then Inr ''mmx64.efi''
      else if normalizeArch arch = ''arm64'' then Inr ''mmaa64.efi''
      else Inl (UnsupportedArch arch))"

section \<open>Resolving links\<close>

text \<open>
  Both resolvers are loops with a hop budget; \<open>None\<close> is the pair of the empty path and the
  nil node. A hop budget of eight serves the boot loaders, sixteen the kernel inputs.
\<close>

fun resolve_hops :: "nat \<Rightarrow> node \<Rightarrow> string \<Rightarrow> (string \<times> node) option" where
  "resolve_hops 0 root p = None"
| "resolve_hops (Suc hops) root p =
     (case Lookup root p of
        None \<Rightarrow> None
      | Some n \<Rightarrow>
          (case ntype_of n of
             TypeFile \<Rightarrow> Some (p, n)
           | TypeHardlink \<Rightarrow> resolve_hops hops root (n_target (attrs n))
           | _ \<Rightarrow> None))"

definition resolveFile :: "node \<Rightarrow> string \<Rightarrow> (string \<times> node) option" where
  "resolveFile root p = resolve_hops 8 root p"

definition symlink_step :: "string \<Rightarrow> string \<Rightarrow> string" where
  "symlink_step p t =
     (if has_prefix t ''/'' then trim_prefix (path_clean t) ''/''
      else trim_prefix (path_join [path_dir p, t]) ''/'')"

fun resolve_tree_hops :: "nat \<Rightarrow> node \<Rightarrow> string \<Rightarrow> (string \<times> node) option" where
  "resolve_tree_hops 0 root p = None"
| "resolve_tree_hops (Suc hops) root p =
     (case Lookup root p of
        None \<Rightarrow> None
      | Some n \<Rightarrow>
          (case ntype_of n of
             TypeFile \<Rightarrow> Some (p, n)
           | TypeHardlink \<Rightarrow> resolve_tree_hops hops root (n_target (attrs n))
           | TypeSymlink \<Rightarrow> resolve_tree_hops hops root (symlink_step p (n_target (attrs n)))
           | _ \<Rightarrow> None))"

definition resolveTreeFile :: "node \<Rightarrow> string \<Rightarrow> (string \<times> node) option" where
  "resolveTreeFile root p = resolve_tree_hops 16 root p"

text \<open>The path half of a resolver's result, as the code uses it.\<close>

definition res_path :: "(string \<times> node) option \<Rightarrow> string" where
  "res_path r = (case r of None \<Rightarrow> '''' | Some (p, n) \<Rightarrow> p)"

definition sortedNames :: "node \<Rightarrow> string list" where
  "sortedNames d = sort (map fst (children d))"

definition find_callback ::
  "node \<Rightarrow> string \<Rightarrow> string \<Rightarrow> string \<Rightarrow> string \<times> node \<Rightarrow> string \<Rightarrow> unit + string" where
  "find_callback root base name sfx = (\<lambda>(p, n) found.
     if found \<noteq> '''' then Inr found
     else if (ntype_of n = TypeFile \<or> ntype_of n = TypeHardlink) \<and> path_base p = name then
       (let full = base @ ''/'' @ p in
        if sfx \<noteq> '''' \<and> \<not> has_suffix full sfx then Inr found
        else if resolveFile root full \<noteq> None then Inr full else Inr found)
     else Inr found)"

definition findFirst :: "node \<Rightarrow> string \<Rightarrow> string \<Rightarrow> string \<Rightarrow> string" where
  "findFirst root base name sfx =
     (case Lookup root base of
        None \<Rightarrow> ''''
      | Some d \<Rightarrow>
          if \<not> is_dir d then ''''
          else (case Walk (find_callback root base name sfx) d '''' of
                  Inl e \<Rightarrow> '''' | Inr found \<Rightarrow> found))"

section \<open>The boot chain\<close>

record boot_chain =
  bc_kind :: string
  bc_sdboot :: string
  bc_shim :: string
  bc_grub :: string
  bc_mok :: string
  bc_vendor :: string

definition sdboot_chain :: "string \<Rightarrow> boot_chain" where
  "sdboot_chain p = \<lparr>bc_kind = ''sdboot'', bc_sdboot = p, bc_shim = '''', bc_grub = '''', bc_mok = '''', bc_vendor = ''''\<rparr>"

definition grub_chain :: "string \<Rightarrow> string \<Rightarrow> string \<Rightarrow> string \<Rightarrow> boot_chain" where
  "grub_chain shim grub mok vendor =
     \<lparr>bc_kind = ''grub2'', bc_sdboot = '''', bc_shim = shim, bc_grub = grub, bc_mok = mok, bc_vendor = vendor\<rparr>"

definition sdBootCandidatesFor :: "string \<Rightarrow> string list" where
  "sdBootCandidatesFor arch =
     (let pe = ''usr/lib/systemd/boot/efi/systemd-boot'' @ efiArchSuffix arch @ ''.efi'' in [pe, pe @ ''.signed''])"

text \<open>The first loop: the first candidate that resolves.\<close>

fun probe_sdboot :: "node \<Rightarrow> string list \<Rightarrow> boot_chain option" where
  "probe_sdboot root [] = None"
| "probe_sdboot root (p # ps) =
     (case resolveFile root p of
        Some (rp, n) \<Rightarrow> Some (sdboot_chain rp)
      | None \<Rightarrow> probe_sdboot root ps)"

text \<open>The second loop: one vendor directory that holds the whole signed set.\<close>

definition vendor_pair :: "node \<Rightarrow> string \<Rightarrow> string \<Rightarrow> node \<Rightarrow> string \<Rightarrow> boot_chain option" where
  "vendor_pair root suf base d vendor =
     (case child d vendor of
        None \<Rightarrow> None
      | Some vd \<Rightarrow>
          if \<not> is_dir vd then None
          else (case (resolveFile root (base @ ''/'' @ vendor @ ''/shim'' @ suf @ ''.efi''),
                      resolveFile root (base @ ''/'' @ vendor @ ''/grub'' @ suf @ ''.efi'')) of
                  (Some (shim, sn), Some (grub, gn)) \<Rightarrow>
                    Some (grub_chain shim grub
                      (res_path (resolveFile root (base @ ''/'' @ vendor @ ''/mm'' @ suf @ ''.efi''))) vendor)
                | _ \<Rightarrow> None))"

fun first_some :: "('a \<Rightarrow> 'b option) \<Rightarrow> 'a list \<Rightarrow> 'b option" where
  "first_some f [] = None"
| "first_some f (x # xs) = (case f x of Some y \<Rightarrow> Some y | None \<Rightarrow> first_some f xs)"

definition probe_base :: "node \<Rightarrow> string \<Rightarrow> string \<Rightarrow> boot_chain option" where
  "probe_base root suf base =
     (case Lookup root base of
        None \<Rightarrow> None
      | Some d \<Rightarrow> if \<not> is_dir d then None else first_some (vendor_pair root suf base d) (sortedNames d))"

definition bootupd_bases :: "string list" where
  "bootupd_bases = [''usr/lib/bootupd/updates/EFI'', ''usr/lib/ostree-boot/efi/EFI'']"

text \<open>The versioned layout: the first GRUB, and the shim of the same vendor.\<close>

definition probe_versioned :: "node \<Rightarrow> string \<Rightarrow> boot_chain option" where
  "probe_versioned root suf =
     (let shimName = ''shim'' @ suf @ ''.efi''; grubName = ''grub'' @ suf @ ''.efi''; mokName = ''mm'' @ suf @ ''.efi'';
          grub = findFirst root ''usr/lib/efi/grub2'' grubName '''' in
      if grub = '''' then None
      else
        let vendor = path_base (path_dir grub);
            shim = findFirst root ''usr/lib/efi/shim'' shimName (''EFI/'' @ vendor @ ''/'' @ shimName) in
        if shim = '''' then None
        else (case (resolveFile root grub, resolveFile root shim) of
                (Some (grubR, gn), Some (shimR, sn)) \<Rightarrow>
                  let mm = findFirst root ''usr/lib/efi/shim'' mokName (''EFI/'' @ vendor @ ''/'' @ mokName) in
                  Some (grub_chain shimR grubR (if mm \<noteq> '''' then res_path (resolveFile root mm) else '''') vendor)
              | _ \<Rightarrow> None))"

definition DetectBootChainForArch :: "node \<Rightarrow> string \<Rightarrow> boot_error + boot_chain" where
  "DetectBootChainForArch root arch =
     (case UEFIBootNames arch of
        Inl e \<Rightarrow> Inl e
      | Inr names \<Rightarrow>
          (let suf = efiArchSuffix arch in
           case probe_sdboot root (sdBootCandidatesFor arch) of
             Some bc \<Rightarrow> Inr bc
           | None \<Rightarrow>
               (case first_some (probe_base root suf) bootupd_bases of
                  Some bc \<Rightarrow> Inr bc
                | None \<Rightarrow>
                    (case probe_versioned root suf of
                       Some bc \<Rightarrow> Inr bc
                     | None \<Rightarrow> Inl (NoLoader arch)))))"

definition DetectBootChain :: "node \<Rightarrow> boot_error + boot_chain" where
  "DetectBootChain root =
     (case DetectBootChainForArch root ''amd64'' of
        Inr bc \<Rightarrow> Inr bc
      | Inl e \<Rightarrow> DetectBootChainForArch root ''arm64'')"

definition RequireUEFIBootChain :: "node \<Rightarrow> string \<Rightarrow> boot_error + boot_chain" where
  "RequireUEFIBootChain root arch =
     (case UEFIBootNames arch of
        Inl e \<Rightarrow> Inl e
      | Inr (bootName, grubName) \<Rightarrow>
          (case DetectBootChainForArch root arch of
             Inl e \<Rightarrow> Inl (NoUEFIChain arch bootName e)
           | Inr chain \<Rightarrow> Inr chain))"

section \<open>Kernel inputs\<close>

definition KernelDevicetree :: "node \<Rightarrow> string \<Rightarrow> string" where
  "KernelDevicetree root kver = res_path (resolveTreeFile root (''usr/lib/modules/'' @ kver @ ''/devicetree''))"

text \<open>
  \<^verbatim>\<open>readFile\<close> opens the node's body in the blob store and reads it all. Opening and reading
  fail alike for every caller, so \<open>None\<close> stands for both.
\<close>

definition readFile :: "(string \<Rightarrow> bytes option) \<Rightarrow> node \<Rightarrow> string option" where
  "readFile open n = map_option string_of_bytes (open (n_ref (attrs n)))"

definition kargs_dir :: string where
  "kargs_dir = ''usr/lib/bootc/kargs.d''"

datatype 'e image_kargs_error =
    NotRegular string
  | Unreadable string
  | KargsErr "'e kargs_error"

definition read_karg_file ::
  "node \<Rightarrow> (string \<Rightarrow> bytes option) \<Rightarrow> string \<Rightarrow> (string \<times> string) list \<Rightarrow> 'e image_kargs_error + (string \<times> string) list" where
  "read_karg_file root open name files =
     (if \<not> IsConfigName name then Inr files
      else case resolveTreeFile root (kargs_dir @ ''/'' @ name) of
        None \<Rightarrow> Inl (NotRegular name)
      | Some (p, n) \<Rightarrow>
          (case readFile open n of
             None \<Rightarrow> Inl (Unreadable name)
           | Some body \<Rightarrow> Inr (AList.update name body files)))"

definition ImageKargs ::
  "(string \<Rightarrow> 'e toml_result) \<Rightarrow> node \<Rightarrow> (string \<Rightarrow> bytes option) \<Rightarrow> string \<Rightarrow> 'e image_kargs_error + string list" where
  "ImageKargs toml root open arch =
     (case Lookup root kargs_dir of
        None \<Rightarrow> Inr []
      | Some dir \<Rightarrow>
          if \<not> is_dir dir then Inr []
          else bindR (foldR (read_karg_file root open) (sortedNames dir) [])
                 (\<lambda>files. case Parse toml files arch of Inl e \<Rightarrow> Inl (KargsErr e) | Inr ks \<Rightarrow> Inr ks))"

section \<open>What the resolvers return\<close>

definition regular_at :: "node \<Rightarrow> string \<Rightarrow> bool" where
  "regular_at root p \<longleftrightarrow> (case Lookup root p of None \<Rightarrow> False | Some n \<Rightarrow> ntype_of n = TypeFile)"

lemma resolve_hops_regular:
  "resolve_hops k root p = Some (q, n) \<Longrightarrow> Lookup root q = Some n \<and> ntype_of n = TypeFile"
  by (induction k root p rule: resolve_hops.induct) (auto split: option.splits ntype.splits)

lemma resolve_tree_hops_regular:
  "resolve_tree_hops k root p = Some (q, n) \<Longrightarrow> Lookup root q = Some n \<and> ntype_of n = TypeFile"
  by (induction k root p rule: resolve_tree_hops.induct) (auto split: option.splits ntype.splits)

lemma resolveFile_regular: "resolveFile root p = Some (q, n) \<Longrightarrow> regular_at root q"
  by (auto simp: resolveFile_def regular_at_def dest: resolve_hops_regular)

lemma resolveTreeFile_regular: "resolveTreeFile root p = Some (q, n) \<Longrightarrow> regular_at root q"
  by (auto simp: resolveTreeFile_def regular_at_def dest: resolve_tree_hops_regular)

lemma res_path_regular: "res_path (resolveFile root p) = '''' \<or> regular_at root (res_path (resolveFile root p))"
  by (auto simp: res_path_def dest: resolveFile_regular split: option.split)

text \<open>What a node of the walk must satisfy for \<^verbatim>\<open>findFirst\<close> to return its path.\<close>

definition find_match :: "node \<Rightarrow> string \<Rightarrow> string \<Rightarrow> string \<Rightarrow> string \<times> node \<Rightarrow> bool" where
  "find_match root base name sfx = (\<lambda>(p, n).
     (ntype_of n = TypeFile \<or> ntype_of n = TypeHardlink) \<and> path_base p = name \<and>
     (sfx \<noteq> '''' \<longrightarrow> has_suffix (base @ ''/'' @ p) sfx) \<and> resolveFile root (base @ ''/'' @ p) \<noteq> None)"

lemma find_callback_eq:
  "find_callback root base name sfx pn found =
     Inr (if found = '''' \<and> find_match root base name sfx pn then base @ ''/'' @ fst pn else found)"
  by (cases pn) (auto simp: find_callback_def find_match_def Let_def)

lemma foldR_find:
  "foldR (find_callback root base name sfx) xs found =
     Inr (if found \<noteq> '''' then found
          else case find (find_match root base name sfx) xs of None \<Rightarrow> '''' | Some pn \<Rightarrow> base @ ''/'' @ fst pn)"
  by (induction xs arbitrary: found) (auto simp: find_callback_eq)

lemma findFirst_eq:
  "findFirst root base name sfx =
     (case Lookup root base of
        None \<Rightarrow> ''''
      | Some d \<Rightarrow> if \<not> is_dir d then ''''
          else case find (find_match root base name sfx) (walk_seq [] d) of
                 None \<Rightarrow> '''' | Some pn \<Rightarrow> base @ ''/'' @ fst pn)"
  by (auto simp: findFirst_def Walk_def foldR_find split: option.split)

lemma findFirst_found:
  assumes "findFirst root base name sfx = f" "f \<noteq> ''''"
  obtains d p n where "Lookup root base = Some d" "is_dir d" "(p, n) \<in> set (walk_seq [] d)"
    "find_match root base name sfx (p, n)" "f = base @ ''/'' @ p"
proof -
  from assms obtain d pn where *: "Lookup root base = Some d" "is_dir d"
    "find (find_match root base name sfx) (walk_seq [] d) = Some pn" "f = base @ ''/'' @ fst pn"
    unfolding findFirst_eq by (auto split: option.splits if_splits)
  then have "pn \<in> set (walk_seq [] d)" "find_match root base name sfx pn"
    by (auto simp: find_Some_iff)
  with that[of d "fst pn" "snd pn"] * show thesis by simp
qed

lemma findFirst_none:
  "findFirst root base name sfx = '''' \<longleftrightarrow>
     (\<forall>d. Lookup root base = Some d \<longrightarrow> is_dir d \<longrightarrow> (\<forall>pn \<in> set (walk_seq [] d). \<not> find_match root base name sfx pn))"
  unfolding findFirst_eq
  by (auto simp: find_None_iff find_Some_iff split: option.splits)

lemma findFirst_resolves:
  assumes "findFirst root base name sfx \<noteq> ''''"
  shows "\<exists>q n. resolveFile root (findFirst root base name sfx) = Some (q, n)"
  by (rule findFirst_found[OF refl assms]) (auto simp: find_match_def)

section \<open>Paths of the walk\<close>

lemma join_snoc: "xs \<noteq> [] \<Longrightarrow> join_with sep (xs @ [b]) = join_with sep xs @ sep @ b"
  by (induction xs rule: induct_list012) auto

lemma path_split_join:
  assumes "xs \<noteq> []" "CHR ''/'' \<notin> set b"
  shows "path_split (join_with ''/'' (xs @ [b])) = (join_with ''/'' xs @ ''/'', b)"
proof -
  have "takeWhile (\<lambda>c. c \<noteq> CHR ''/'') (rev b @ CHR ''/'' # r) = rev b" for r
    using assms(2) by (subst takeWhile_append2) auto
  then show ?thesis using assms(1) by (simp add: path_split_def Let_def join_snoc)
qed

lemma join_names_hd:
  assumes "\<forall>p \<in> set ps. name_ok p" "ps \<noteq> []"
  shows "join_with ''/'' ps \<noteq> []" "hd (join_with ''/'' ps) \<noteq> CHR ''/''" "last (join_with ''/'' ps) \<noteq> CHR ''/''"
proof -
  show ne: "join_with ''/'' ps \<noteq> []"
    by (rule join_with_nonempty) (use assms in \<open>auto simp: name_ok_def\<close>)
  obtain p qs where p: "ps = p # qs" "p \<noteq> []" "CHR ''/'' \<notin> set p"
    using assms by (cases ps) (auto simp: name_ok_def)
  have "hd (join_with ''/'' ps) = hd p" using p by (cases qs) auto
  with p show "hd (join_with ''/'' ps) \<noteq> CHR ''/''" using hd_in_set by fastforce
  have l: "last ps \<noteq> []" "CHR ''/'' \<notin> set (last ps)"
    using assms by (auto simp: name_ok_def)
  have "last (join_with ''/'' ps) = last (last ps)"
    using l(1) assms(2) join_snoc[of "butlast ps" "''/''" "last ps"] append_butlast_last_id[OF assms(2)]
    by (cases "butlast ps = []") (metis append.left_neutral join_with.simps(2), metis append_is_Nil_conv last_appendR)
  with l show "last (join_with ''/'' ps) \<noteq> CHR ''/''" using last_in_set by fastforce
qed

lemma path_clean_names_slash:
  assumes "\<forall>p \<in> set ps. name_ok p" "ps \<noteq> []"
  shows "path_clean (join_with ''/'' ps @ ''/'') = join_with ''/'' ps"
proof -
  have sp: "split_on (CHR ''/'') (join_with ''/'' ps) = ps"
    by (rule split_on_join) (use assms in \<open>auto simp: name_ok_def\<close>)
  have "split_on (CHR ''/'') (join_with ''/'' ps @ ''/'') = ps @ [[]]"
    by (simp add: split_on_append sp)
  moreover have "clean_step r st [] = st" for r st by (simp add: clean_step_def)
  ultimately show ?thesis
    using join_names_hd[OF assms]
    by (simp add: path_clean_def Let_def clean_steps_names[OF assms(1)] hd_append)
qed

lemma path_dir_names:
  assumes "\<forall>p \<in> set ps. name_ok p" "ps \<noteq> []" "name_ok b"
  shows "path_dir (join_with ''/'' (ps @ [b])) = join_with ''/'' ps"
  using assms by (simp add: path_dir_def path_split_join path_clean_names_slash name_ok_def)

lemma trim_right_by_id: "s \<noteq> [] \<Longrightarrow> \<not> P (last s) \<Longrightarrow> trim_right_by P s = s"
  by (cases s rule: rev_cases) (auto simp: trim_right_by_def)

lemma path_base_names:
  assumes "\<forall>p \<in> set ps. name_ok p" "ps \<noteq> []"
  shows "path_base (join_with ''/'' ps) = last ps"
proof -
  have t: "trim_right_by (\<lambda>c. c = CHR ''/'') (join_with ''/'' ps) = join_with ''/'' ps"
    using join_names_hd[OF assms] by (simp add: trim_right_by_id)
  have n: "CHR ''/'' \<notin> set (last ps)" using assms by (auto simp: name_ok_def)
  have "snd (path_split (join_with ''/'' ps)) = last ps"
  proof (cases "butlast ps = []")
    case True
    then have "ps = [last ps]" using assms(2) by (metis append_butlast_last_id append_Nil)
    then have j: "join_with ''/'' ps = last ps" by (metis join_with.simps(2))
    have tw: "takeWhile (\<lambda>c. c \<noteq> CHR ''/'') (rev (last ps)) = rev (last ps)"
      unfolding takeWhile_eq_all_conv using n by auto
    show ?thesis by (simp only: path_split_def Let_def j tw rev_rev_ident snd_conv)
  next
    case False
    then show ?thesis
      using path_split_join[OF False n] append_butlast_last_id[OF assms(2)] by simp
  qed
  then show ?thesis using join_names_hd[OF assms] t by (simp add: path_base_def Let_def)
qed

lemma join_append_parts:
  "xs \<noteq> [] \<Longrightarrow> ys \<noteq> [] \<Longrightarrow> join_with sep (xs @ ys) = join_with sep xs @ sep @ join_with sep ys"
  by (induction xs rule: induct_list012) (auto simp: join_with_Cons)

section \<open>Soundness and completeness of the detection\<close>

lemma probe_sdboot_cases:
  "probe_sdboot root cs =
     (case find (\<lambda>c. resolveFile root c \<noteq> None) cs of
        None \<Rightarrow> None | Some c \<Rightarrow> Some (sdboot_chain (res_path (resolveFile root c))))"
  by (induction cs) (auto simp: res_path_def split: option.split)

lemma first_some_Some: "first_some f xs = Some y \<Longrightarrow> \<exists>x \<in> set xs. f x = Some y"
  by (induction xs) (auto split: option.splits)

lemma first_some_None: "first_some f xs = None \<longleftrightarrow> (\<forall>x \<in> set xs. f x = None)"
  by (induction xs) (auto split: option.splits)

text \<open>
  A pair of payloads for one vendor: both lead to regular files, and each payload's path
  ends in the vendor directory and the name of the architecture.
\<close>

definition vendor_match :: "node \<Rightarrow> string \<Rightarrow> string \<Rightarrow> string \<Rightarrow> string \<Rightarrow> bool" where
  "vendor_match root vendor fl p q \<longleftrightarrow>
     has_suffix p (''/'' @ vendor @ ''/'' @ fl) \<and> res_path (resolveFile root p) = q \<and> regular_at root q"

definition coherent_pair :: "node \<Rightarrow> string \<Rightarrow> boot_chain \<Rightarrow> bool" where
  "coherent_pair root suf bc \<longleftrightarrow>
     (\<exists>p. vendor_match root (bc_vendor bc) (''shim'' @ suf @ ''.efi'') p (bc_shim bc)) \<and>
     (\<exists>p. vendor_match root (bc_vendor bc) (''grub'' @ suf @ ''.efi'') p (bc_grub bc)) \<and>
     (bc_mok bc = '''' \<or> (\<exists>p. vendor_match root (bc_vendor bc) (''mm'' @ suf @ ''.efi'') p (bc_mok bc)))"

lemma vendor_matchI:
  "resolveFile root p = Some (q, n) \<Longrightarrow> has_suffix p (''/'' @ vendor @ ''/'' @ fl) \<Longrightarrow> vendor_match root vendor fl p q"
  by (auto simp: vendor_match_def res_path_def dest: resolveFile_regular)

lemma has_suffix_append [simp]: "has_suffix (r @ p) p"
  by (auto simp: has_suffix_iff)

lemma vendor_match_path:
  assumes "resolveFile root (base @ ''/'' @ vendor @ ''/'' @ fl) = r" "res_path r \<noteq> ''''"
  shows "vendor_match root vendor fl (base @ ''/'' @ vendor @ ''/'' @ fl) (res_path r)"
  using assms has_suffix_append[of base "''/'' @ vendor @ ''/'' @ fl"]
  by (cases r) (auto simp: res_path_def intro!: vendor_matchI)

lemma vendor_pair_sound:
  assumes "vendor_pair root suf base d vendor = Some bc"
  shows "bc_kind bc = ''grub2'' \<and> coherent_pair root suf bc"
proof -
  from assms obtain shim sn grub gn where
    s: "resolveFile root (base @ ''/'' @ vendor @ ''/'' @ ''shim'' @ suf @ ''.efi'') = Some (shim, sn)"
    and g: "resolveFile root (base @ ''/'' @ vendor @ ''/'' @ ''grub'' @ suf @ ''.efi'') = Some (grub, gn)"
    and bc: "bc = grub_chain shim grub
        (res_path (resolveFile root (base @ ''/'' @ vendor @ ''/'' @ ''mm'' @ suf @ ''.efi''))) vendor"
    by (auto simp: vendor_pair_def split: option.splits if_splits)
  have "vendor_match root vendor fl (base @ ''/'' @ vendor @ ''/'' @ fl) q"
    if "resolveFile root (base @ ''/'' @ vendor @ ''/'' @ fl) = Some (q, n)" for fl q n
    using vendor_matchI[OF that] has_suffix_append[of base "''/'' @ vendor @ ''/'' @ fl"] by simp
  from this[OF s] this[OF g] vendor_match_path[OF refl, of root base vendor "''mm'' @ suf @ ''.efi''"]
  show ?thesis unfolding coherent_pair_def bc by (auto simp: grub_chain_def)
qed

lemma probe_base_sound:
  "probe_base root suf base = Some bc \<Longrightarrow> bc_kind bc = ''grub2'' \<and> coherent_pair root suf bc"
  by (auto simp: probe_base_def dest!: first_some_Some dest: vendor_pair_sound split: option.splits if_splits)

text \<open>A path found under a base ends in its own vendor directory and the name asked for.\<close>

lemma findFirst_path:
  assumes "wf_node root" "\<forall>b \<in> set bs. name_ok b" "2 \<le> length bs" "name_ok name"
    and "findFirst root (join_with ''/'' bs) name sfx = f" "f \<noteq> ''''"
  shows "has_suffix f (''/'' @ path_base (path_dir f) @ ''/'' @ name)"
proof -
  have bs: "bs \<noteq> []" using assms(3) by auto
  from assms(5,6) obtain d p n where d: "Lookup root (join_with ''/'' bs) = Some d" "is_dir d"
    and p: "(p, n) \<in> set (walk_seq [] d)" "find_match root (join_with ''/'' bs) name sfx (p, n)"
    and f: "f = join_with ''/'' bs @ ''/'' @ p"
    by (rule findFirst_found)
  have wf: "wf_node d" using d(1) wf_lookup[OF assms(1)] by (auto simp: Lookup_def)
  obtain qs where qs: "qs \<noteq> []" "p = join_with ''/'' qs" "lookup d qs = Some n"
    using walk_seq_mem[OF wf, of "[]" p n] p(1) by auto
  have ok: "\<forall>q \<in> set qs. name_ok q" by (rule lookup_names[OF wf qs(3)])
  let ?ns = "bs @ butlast qs"
  have last: "last qs = name"
    using p(2) path_base_names[OF ok qs(1)] qs(2) by (simp add: find_match_def)
  have "bs @ qs = ?ns @ [name]" using qs(1) last by (metis append.assoc append_butlast_last_id)
  moreover have "f = join_with ''/'' (bs @ qs)"
    using join_append_parts[OF bs qs(1)] f qs(2) by simp
  ultimately have fj: "f = join_with ''/'' (?ns @ [name])" by simp
  have okn: "\<forall>q \<in> set ?ns. name_ok q" using assms(2) ok by (auto dest: in_set_butlastD)
  have v: "path_base (path_dir f) = last ?ns"
    unfolding fj using path_dir_names[OF okn _ assms(4)] path_base_names[OF okn] bs by simp
  have fn: "f = join_with ''/'' ?ns @ ''/'' @ name" using fj join_snoc[of ?ns] bs by simp
  have "length (butlast ?ns) \<noteq> 0" using assms(3) by simp
  then have ne: "butlast ?ns \<noteq> []" by (metis list.size(3))
  then have "join_with ''/'' ?ns = join_with ''/'' (butlast ?ns) @ ''/'' @ last ?ns"
    using join_snoc[OF ne, of "''/''" "last ?ns"] bs by (metis append_butlast_last_id append_is_Nil_conv)
  then show ?thesis using fn v by (auto simp: has_suffix_iff)
qed

lemma probe_versioned_sound:
  assumes "wf_node root" "suf \<in> {''x64'', ''aa64''}" "probe_versioned root suf = Some bc"
  shows "bc_kind bc = ''grub2'' \<and> coherent_pair root suf bc"
proof -
  let ?grub = "findFirst root ''usr/lib/efi/grub2'' (''grub'' @ suf @ ''.efi'') ''''"
  let ?v = "path_base (path_dir ?grub)"
  let ?find = "\<lambda>f. findFirst root ''usr/lib/efi/shim'' f (''EFI/'' @ ?v @ ''/'' @ f)"
  let ?shim = "?find (''shim'' @ suf @ ''.efi'')" and ?mm = "?find (''mm'' @ suf @ ''.efi'')"
  from assms(3) obtain g gn s sn where r: "?grub \<noteq> ''''" "?shim \<noteq> ''''"
    "resolveFile root ?grub = Some (g, gn)" "resolveFile root ?shim = Some (s, sn)"
    and bc: "bc = grub_chain s g (if ?mm \<noteq> '''' then res_path (resolveFile root ?mm) else '''') ?v"
    unfolding probe_versioned_def Let_def by (auto split: if_splits option.splits)
  have "\<forall>b \<in> set [''usr'', ''lib'', ''efi'', ''grub2'']. name_ok b" "name_ok (''grub'' @ suf @ ''.efi'')"
    using assms(2) by (auto simp: name_ok_def)
  from findFirst_path[OF assms(1) this(1) _ this(2), of "''''" ?grub]
  have gs: "has_suffix ?grub (''/'' @ ?v @ ''/'' @ ''grub'' @ suf @ ''.efi'')"
    using r(1) by simp
  have tail: "has_suffix (?find f) (''/'' @ ?v @ ''/'' @ f)" if "?find f \<noteq> ''''" for f
    by (rule findFirst_found[OF refl that]) (auto simp: find_match_def has_suffix_iff)
  have "bc_mok bc = '''' \<or> vendor_match root ?v (''mm'' @ suf @ ''.efi'') ?mm (bc_mok bc)"
  proof (cases "?mm = ''''")
    case False
    then obtain q n where "resolveFile root ?mm = Some (q, n)" using findFirst_resolves by blast
    with False tail[OF False] show ?thesis
      unfolding bc by (auto simp: grub_chain_def res_path_def intro!: vendor_matchI)
  qed (simp add: bc grub_chain_def)
  then show ?thesis
    unfolding coherent_pair_def using vendor_matchI[OF r(3) gs] vendor_matchI[OF r(4) tail[OF r(2)]]
    by (auto simp: bc grub_chain_def)
qed

lemma resolve_Lookup: "resolveFile root p \<noteq> None \<Longrightarrow> Lookup root p \<noteq> None"
  by (auto simp: resolveFile_def numeral_eq_Suc split: option.splits)

lemma lookup_dir_child:
  assumes "lookup root (bs @ [v, f]) \<noteq> None"
  obtains d vd where "lookup root bs = Some d" "is_dir d" "child d v = Some vd" "is_dir vd"
  using assms by (auto simp: lookup_append split: option.splits if_splits)

lemma probe_base_complete:
  assumes "probe_base root suf (join_with ''/'' bs) = None" "\<forall>b \<in> set bs. name_ok b" "bs \<noteq> []"
    and "name_ok vendor" "suf \<in> {''x64'', ''aa64''}"
  shows "resolveFile root (join_with ''/'' bs @ ''/'' @ vendor @ ''/shim'' @ suf @ ''.efi'') = None \<or>
         resolveFile root (join_with ''/'' bs @ ''/'' @ vendor @ ''/grub'' @ suf @ ''.efi'') = None"
proof (rule ccontr)
  let ?f = "''shim'' @ suf @ ''.efi''"
  assume n: "\<not> ?thesis"
  then have "resolveFile root (join_with ''/'' bs @ ''/'' @ vendor @ ''/shim'' @ suf @ ''.efi'') \<noteq> None"
    unfolding de_Morgan_disj by (rule conjunct1)
  from resolve_Lookup[OF this]
  have "Lookup root (join_with ''/'' bs @ ''/'' @ vendor @ ''/shim'' @ suf @ ''.efi'') \<noteq> None" .
  moreover have "join_with ''/'' bs @ ''/'' @ vendor @ ''/shim'' @ suf @ ''.efi'' = join_with ''/'' (bs @ [vendor, ?f])"
    using join_append_parts[OF assms(3), of "[vendor, ?f]" "''/''"] by simp
  moreover have "name_ok ?f" using assms(5) by (auto simp: name_ok_def)
  then have "splitClean (join_with ''/'' (bs @ [vendor, ?f])) = bs @ [vendor, ?f]"
    by (intro splitClean_names) (use assms(2,4) in simp)
  ultimately have "lookup root (bs @ [vendor, ?f]) \<noteq> None" by (simp only: Lookup_def) simp
  then obtain d vd where d: "lookup root bs = Some d" "is_dir d" "child d vendor = Some vd" "is_dir vd"
    by (rule lookup_dir_child)
  have "Lookup root (join_with ''/'' bs) = Some d"
    using d(1) splitClean_names[OF assms(2)] by (simp add: Lookup_def)
  moreover have "vendor \<in> set (sortedNames d)"
    using child_in_children[OF d(3)] by (force simp: sortedNames_def)
  ultimately have "vendor_pair root suf (join_with ''/'' bs) d vendor = None"
    using assms(1) d(2) by (simp add: probe_base_def first_some_None)
  with d n show False by (auto simp: vendor_pair_def split: option.splits)
qed

definition supported_arch :: "string \<Rightarrow> bool" where
  "supported_arch arch \<longleftrightarrow> normalizeArch arch = ''amd64'' \<or> normalizeArch arch = ''arm64''"

text \<open>No loader for the suffix: the condition under which the detection may give up.\<close>

definition no_pair :: "node \<Rightarrow> string \<Rightarrow> bool" where
  "no_pair root suf \<longleftrightarrow>
     (\<forall>base \<in> set bootupd_bases. \<forall>vendor. name_ok vendor \<longrightarrow>
        resolveFile root (base @ ''/'' @ vendor @ ''/shim'' @ suf @ ''.efi'') = None \<or>
        resolveFile root (base @ ''/'' @ vendor @ ''/grub'' @ suf @ ''.efi'') = None)"

definition no_versioned :: "node \<Rightarrow> string \<Rightarrow> bool" where
  "no_versioned root suf \<longleftrightarrow>
     (let grub = findFirst root ''usr/lib/efi/grub2'' (''grub'' @ suf @ ''.efi'') '''' in
      grub = '''' \<or>
      findFirst root ''usr/lib/efi/shim'' (''shim'' @ suf @ ''.efi'')
        (''EFI/'' @ path_base (path_dir grub) @ ''/shim'' @ suf @ ''.efi'') = '''')"

lemma efiArchSuffix_set: "efiArchSuffix arch \<in> {''x64'', ''aa64''}"
  by (simp add: efiArchSuffix_def)

lemma UEFIBootNames_cases:
  "(\<exists>n. UEFIBootNames arch = Inr n) \<longleftrightarrow> supported_arch arch"
  "UEFIBootNames arch = Inl e \<longleftrightarrow> \<not> supported_arch arch \<and> e = UnsupportedArch arch"
  by (auto simp: UEFIBootNames_def supported_arch_def)

definition bootupd_parts :: "string list list" where
  "bootupd_parts = [[''usr'', ''lib'', ''bootupd'', ''updates'', ''EFI''], [''usr'', ''lib'', ''ostree-boot'', ''efi'', ''EFI'']]"

lemma bootupd_bases_parts:
  "bootupd_bases = map (join_with ''/'') bootupd_parts"
  "bs \<in> set bootupd_parts \<Longrightarrow> (\<forall>b \<in> set bs. name_ok b) \<and> bs \<noteq> []"
  by (auto simp: bootupd_bases_def bootupd_parts_def name_ok_def)

lemma probe_bases_complete:
  assumes "first_some (probe_base root suf) bootupd_bases = None" "suf \<in> {''x64'', ''aa64''}"
  shows "no_pair root suf"
  unfolding no_pair_def
proof (intro ballI allI impI)
  fix base vendor
  assume b: "base \<in> set bootupd_bases" and v: "name_ok vendor"
  then obtain bs where bs: "bs \<in> set bootupd_parts" "base = join_with ''/'' bs"
    by (auto simp: bootupd_bases_parts(1))
  have "probe_base root suf (join_with ''/'' bs) = None"
    using assms(1) b unfolding first_some_None bs(2) by (rule bspec)
  from probe_base_complete[OF this _ _ v assms(2)] bootupd_bases_parts(2)[OF bs(1)]
  show "resolveFile root (base @ ''/'' @ vendor @ ''/shim'' @ suf @ ''.efi'') = None \<or>
        resolveFile root (base @ ''/'' @ vendor @ ''/grub'' @ suf @ ''.efi'') = None"
    unfolding bs(2) by metis
qed

lemma probe_versioned_complete: "probe_versioned root suf = None \<Longrightarrow> no_versioned root suf"
  using findFirst_resolves[of root "''usr/lib/efi/grub2''" "''grub'' @ suf @ ''.efi''" "''''"]
    findFirst_resolves[of root "''usr/lib/efi/shim''" "''shim'' @ suf @ ''.efi''"
      "''EFI/'' @ path_base (path_dir (findFirst root ''usr/lib/efi/grub2'' (''grub'' @ suf @ ''.efi'') '''')) @ ''/shim'' @ suf @ ''.efi''"]
  by (auto simp: probe_versioned_def no_versioned_def Let_def split: if_splits)


lemma DetectBootChainForArch_cases:
  assumes "wf_node root"
  shows "case DetectBootChainForArch root arch of
      Inr bc \<Rightarrow>
        supported_arch arch \<and>
        (if \<exists>c \<in> set (sdBootCandidatesFor arch). resolveFile root c \<noteq> None
         then bc = sdboot_chain (bc_sdboot bc) \<and> regular_at root (bc_sdboot bc)
         else bc_kind bc = ''grub2'' \<and> coherent_pair root (efiArchSuffix arch) bc)
    | Inl e \<Rightarrow>
        if \<not> supported_arch arch then e = UnsupportedArch arch
        else e = NoLoader arch \<and> (\<forall>c \<in> set (sdBootCandidatesFor arch). resolveFile root c = None) \<and>
             no_pair root (efiArchSuffix arch) \<and> no_versioned root (efiArchSuffix arch)"
proof (cases "supported_arch arch")
  case False
  then have "UEFIBootNames arch = Inl (UnsupportedArch arch)" by (simp add: UEFIBootNames_cases(2))
  with False show ?thesis by (simp add: DetectBootChainForArch_def)
next
  case True
  let ?cs = "sdBootCandidatesFor arch" and ?suf = "efiArchSuffix arch"
  obtain names where n: "UEFIBootNames arch = Inr names" using True UEFIBootNames_cases(1) by blast
  note D = DetectBootChainForArch_def[of root arch] n
  note suf = efiArchSuffix_set[of arch]
  show ?thesis
  proof (cases "find (\<lambda>c. resolveFile root c \<noteq> None) ?cs")
    case (Some c)
    then have c: "c \<in> set ?cs" "resolveFile root c \<noteq> None" by (auto simp: find_Some_iff)
    then obtain q m where q: "resolveFile root c = Some (q, m)" by auto
    have "DetectBootChainForArch root arch = Inr (sdboot_chain q)"
      using Some q by (simp add: D probe_sdboot_cases res_path_def)
    moreover have "\<exists>c \<in> set ?cs. resolveFile root c \<noteq> None" using c by blast
    ultimately show ?thesis using True resolveFile_regular[OF q] by (simp add: sdboot_chain_def)
  next
    case None
    then have nocand: "\<forall>c \<in> set ?cs. resolveFile root c = None"
      unfolding find_None_iff by blast
    then have nosd: "\<not> (\<exists>c \<in> set ?cs. resolveFile root c \<noteq> None)" by simp
    have sd: "probe_sdboot root ?cs = None" using None by (simp add: probe_sdboot_cases)
    show ?thesis
    proof (cases "first_some (probe_base root ?suf) bootupd_bases")
      case (Some bc)
      then have "DetectBootChainForArch root arch = Inr bc" using sd by (simp add: D)
      moreover have "bc_kind bc = ''grub2'' \<and> coherent_pair root ?suf bc"
        using first_some_Some[OF Some] probe_base_sound by blast
      ultimately show ?thesis using True nosd by simp
    next
      case N: None
      show ?thesis
      proof (cases "probe_versioned root ?suf")
        case (Some bc)
        then have "DetectBootChainForArch root arch = Inr bc" using sd N by (simp add: D)
        then show ?thesis using True nosd probe_versioned_sound[OF assms suf Some] by simp
      next
        case V: None
        then have "DetectBootChainForArch root arch = Inl (NoLoader arch)" using sd N by (simp add: D)
        then show ?thesis
          using True nocand probe_bases_complete[OF N suf] probe_versioned_complete[OF V] by simp
      qed
    qed
  qed
qed



definition plain_dir :: "(string \<times> node) list \<Rightarrow> node" where
  "plain_dir cs = Node (blank_attrs\<lparr>n_mode := 493\<rparr>) cs"

definition plain_file :: "string \<Rightarrow> int \<Rightarrow> node" where
  "plain_file ref sz = Node (blank_attrs\<lparr>n_type := TypeFile, n_ref := ref, n_size := sz\<rparr>) []"

definition plain_link :: "ntype \<Rightarrow> string \<Rightarrow> node" where
  "plain_link t target = Node (blank_attrs\<lparr>n_type := t, n_target := target\<rparr>) []"

definition boot_tree :: node where
  "boot_tree = plain_dir [(''usr'', plain_dir [(''lib'', plain_dir
     [(''efi'', plain_dir
        [(''grub2'', plain_dir [(''2.12'', plain_dir [(''EFI'', plain_dir [(''fedora'', plain_dir
            [(''grubaa64.efi'', plain_file ''m0'' 3)])])])]),
         (''shim'', plain_dir [(''15.8'', plain_dir [(''EFI'', plain_dir
            [(''BOOT'', plain_dir [(''BOOTAA64.EFI'', plain_file ''m1'' 4)]),
             (''fedora'', plain_dir
                [(''shimaa64.efi'', plain_link TypeHardlink ''usr/lib/efi/shim/15.8/EFI/BOOT/BOOTAA64.EFI'')])])])])])])])]"



end
