(* ===== verification/Live_Base.thy ===== *)
theory Live_Base
  imports Boot_Chain Oci_Store
begin

text \<open>
  The live session a build writes into the root file system
  (\<^verbatim>\<open>internal/purefs/livebase.go\<close>): the passwordless user, the autologin of the display
  manager, the screen lock, all as surgery on the \<^verbatim>\<open>Node\<close> tree and its blob store.

  The state is the tree and the store. The operations of the store are arguments, so the
  lemmas hold for every \<^verbatim>\<open>BlobStore\<close>; an error leaves the build, so it carries no state.
\<close>

datatype 'e live_error =
    NoEtcFile string
  | ReadEtc string
  | StoreEtc string 'e
  | StorePath string 'e

type_synonym ('e, 's) bput = "'s \<Rightarrow> 'e body \<Rightarrow> 'e + (string \<times> int \<times> 's)"
type_synonym 's bget = "'s \<Rightarrow> string \<Rightarrow> bytes option"

section \<open>Tree surgery\<close>

text \<open>
  \<^verbatim>\<open>ensureDir\<close> returns a directory its caller then assigns a child of: the assignment is the
  argument \<open>f\<close>.
\<close>

fun at_dir :: "node \<Rightarrow> string list \<Rightarrow> (node \<Rightarrow> node) \<Rightarrow> node" where
  "at_dir n [] f = f n"
| "at_dir n (p # ps) f = set_child n p (at_dir (dir_child n p) ps f)"

definition ensure_parts :: "string \<Rightarrow> string list" where
  "ensure_parts dir = filter (\<lambda>p. p \<noteq> '''') (split_on (CHR ''/'') (trim_by (\<lambda>c. c = CHR ''/'') dir))"

definition ensureDir :: "node \<Rightarrow> string \<Rightarrow> (node \<Rightarrow> node) \<Rightarrow> node" where
  "ensureDir root dir f = at_dir root (ensure_parts dir) f"

definition writeFileNode ::
  "('e, 's) bput \<Rightarrow> string \<Rightarrow> string \<Rightarrow> int \<Rightarrow> node \<times> 's \<Rightarrow> 'e live_error + (node \<times> 's)" where
  "writeFileNode put p content mode = (\<lambda>(root, s).
     case put s (bytes_of content, None) of
       Inl e \<Rightarrow> Inl (StorePath p e)
     | Inr (ref, sz, s') \<Rightarrow>
         Inr (ensureDir root (path_dir p)
                (\<lambda>d. set_child d (path_base p)
                   (Node (blank_attrs\<lparr>n_type := TypeFile, n_mode := mode, n_ref := ref, n_size := sz\<rparr>) [])), s'))"

definition symlink_to :: "string \<Rightarrow> node" where
  "symlink_to target = Node (blank_attrs\<lparr>n_type := TypeSymlink, n_mode := 511, n_target := target\<rparr>) []"

definition symlinkNode :: "node \<Rightarrow> string \<Rightarrow> string \<Rightarrow> node" where
  "symlinkNode root p target = ensureDir root (path_dir p) (\<lambda>d. set_child d (path_base p) (symlink_to target))"

text \<open>Assigning to a node found by \<^verbatim>\<open>Lookup\<close>.\<close>

fun modify_at :: "node \<Rightarrow> string list \<Rightarrow> (node \<Rightarrow> node) \<Rightarrow> node" where
  "modify_at n [] f = f n"
| "modify_at n (p # ps) f =
     (case child n p of None \<Rightarrow> n | Some c \<Rightarrow> set_child n p (modify_at c ps f))"

definition set_body :: "string \<Rightarrow> int \<Rightarrow> node \<Rightarrow> node" where
  "set_body ref sz n = Node ((attrs n)\<lparr>n_ref := ref, n_size := sz\<rparr>) (children n)"

definition etc_path :: "string \<Rightarrow> string list" where
  "etc_path f = splitClean (''etc/'' @ f)"

definition lookupEtc :: "node \<Rightarrow> string \<Rightarrow> node option" where
  "lookupEtc root name =
     (case Lookup root (''etc/'' @ name) of
        None \<Rightarrow> None
      | Some n \<Rightarrow> if ntype_of n \<noteq> TypeFile then None else Some n)"

section \<open>The live user\<close>

definition int_dec :: "int \<Rightarrow> string" where
  "int_dec i = (if i < 0 then CHR ''-'' # nat_dec (nat (- i)) else nat_dec (nat i))"

function copySkel :: "int \<Rightarrow> node \<Rightarrow> (string \<times> node) list" where
  "copySkel uid skel =
     concat (map (\<lambda>(name, c).
       case ntype_of c of
         TypeDir \<Rightarrow>
           [(name, Node (blank_attrs\<lparr>n_mode := n_mode (attrs c), n_uid := uid, n_gid := uid\<rparr>) (copySkel uid c))]
       | TypeFile \<Rightarrow>
           [(name, Node (blank_attrs\<lparr>n_type := TypeFile, n_mode := n_mode (attrs c), n_uid := uid, n_gid := uid,
               n_ref := n_ref (attrs c), n_size := n_size (attrs c)\<rparr>) [])]
       | TypeSymlink \<Rightarrow>
           [(name, Node (blank_attrs\<lparr>n_type := TypeSymlink, n_mode := n_mode (attrs c), n_uid := uid, n_gid := uid,
               n_target := n_target (attrs c)\<rparr>) [])]
       | _ \<Rightarrow> []) (children skel))"
  by pat_completeness auto
termination
  by (relation "measure (\<lambda>(u, d). size d)") (auto simp: size_children)

declare copySkel.simps [simp del]

definition live_home :: "node \<Rightarrow> string \<Rightarrow> string" where
  "live_home root name =
     (if Lookup root ''var/home'' = None \<and> Lookup root ''home'' \<noteq> None then ''/home/'' @ name
      else ''/var/home/'' @ name)"

definition user_lines :: "string \<Rightarrow> int \<Rightarrow> string \<Rightarrow> (string \<times> string) list" where
  "user_lines name uid home =
     [(''passwd'', name @ '':x:'' @ int_dec uid @ '':'' @ int_dec uid @ '':Live User:'' @ home @ '':/bin/bash''),
      (''shadow'', name @ ''::20000:0:99999:7:::''),
      (''group'', name @ '':x:'' @ int_dec uid @ '':''),
      (''gshadow'', name @ '':!::'')]"

definition append_line :: "string \<Rightarrow> string \<Rightarrow> string" where
  "append_line content line =
     (if \<not> has_suffix content nl \<and> content \<noteq> '''' then content @ nl else content) @ line @ nl"

definition etc_edit ::
  "('e, 's) bput \<Rightarrow> 's bget \<Rightarrow> string \<times> string \<Rightarrow> node \<times> 's \<Rightarrow> 'e live_error + (node \<times> 's)" where
  "etc_edit put get = (\<lambda>(f, line) (root, s).
     case lookupEtc root f of
       None \<Rightarrow> if f = ''gshadow'' then Inr (root, s) else Inl (NoEtcFile f)
     | Some n \<Rightarrow>
         (case readFile (get s) n of
            None \<Rightarrow> Inl (ReadEtc f)
          | Some content \<Rightarrow>
              (case put s (bytes_of (append_line content line), None) of
                 Inl e \<Rightarrow> Inl (StoreEtc f e)
               | Inr (ref, sz, s') \<Rightarrow>
                   Inr (modify_at root (etc_path f) (set_body ref sz), s'))))"

definition make_home :: "string \<Rightarrow> int \<Rightarrow> node \<Rightarrow> node" where
  "make_home home uid root =
     (let parts = split_on (CHR ''/'') (trim_prefix home ''/'');
          userHome = Node (blank_attrs\<lparr>n_mode := 448, n_uid := uid, n_gid := uid\<rparr>) [];
          root' = dirOf root parts (\<lambda>d n. set_child d n userHome)
      in case Lookup root' ''etc/skel'' of
           None \<Rightarrow> root'
         | Some skel \<Rightarrow>
             if is_dir skel then modify_at root' parts (\<lambda>h. Node (attrs h) (copySkel uid skel)) else root')"

definition user_present :: "'s bget \<Rightarrow> string \<Rightarrow> node \<times> 's \<Rightarrow> bool" where
  "user_present get name = (\<lambda>(root, s).
     case lookupEtc root ''passwd'' of
       None \<Rightarrow> False
     | Some n \<Rightarrow> (case readFile (get s) n of None \<Rightarrow> False | Some content \<Rightarrow> contains content (nl @ name @ '':'')))"

definition EnsureLiveUser ::
  "('e, 's) bput \<Rightarrow> 's bget \<Rightarrow> string \<Rightarrow> int \<Rightarrow> node \<times> 's \<Rightarrow> 'e live_error + (node \<times> 's)" where
  "EnsureLiveUser put get name uid st =
     (if user_present get name st then Inr st
      else
        let home = live_home (fst st) name in
        bindR (foldR (etc_edit put get) (user_lines name uid home) st)
          (\<lambda>(root, s). Inr (make_home home uid root, s)))"

section \<open>Units, binaries and groups\<close>

definition unit_bases :: "string list" where
  "unit_bases = [''usr/lib/systemd/system'', ''etc/systemd/system'', ''lib/systemd/system'']"

definition unitPath :: "node \<Rightarrow> string \<Rightarrow> string" where
  "unitPath root u =
     (case find (\<lambda>base. Lookup root (base @ ''/'' @ u) \<noteq> None) unit_bases of
        None \<Rightarrow> '''' | Some base \<Rightarrow> ''/'' @ base @ ''/'' @ u)"

definition binInTree :: "node \<Rightarrow> string \<Rightarrow> bool" where
  "binInTree root name = list_ex (\<lambda>dir. Lookup root (dir @ ''/'' @ name) \<noteq> None) [''usr/bin'', ''usr/sbin'', ''usr/local/bin'']"

text \<open>\<^verbatim>\<open>strconv.Atoi\<close>: an optional sign and at least one digit, within 64 bits.\<close>

definition atoi :: "string \<Rightarrow> int option" where
  "atoi s =
     (let neg = (s \<noteq> [] \<and> hd s = CHR ''-'');
          ds = (if s \<noteq> [] \<and> (hd s = CHR ''-'' \<or> hd s = CHR ''+'') then tl s else s);
          v = (if neg then - int (dec_val ds) else int (dec_val ds))
      in if ds = [] \<or> \<not> list_all is_digit ds \<or> v < - (2 ^ 63) \<or> v \<ge> 2 ^ 63 then None else Some v)"

definition pad_fields :: "string list \<Rightarrow> string list" where
  "pad_fields f = f @ replicate (4 - length f) ''''"

text \<open>
  The loop over the lines of \<^verbatim>\<open>/etc/group\<close>: whether the group was found, the largest group
  id below 65000, the lines so far; \<open>None\<close> is the early return, nothing to change.
\<close>

fun group_scan :: "string \<Rightarrow> string \<Rightarrow> string list \<Rightarrow> bool \<Rightarrow> int \<Rightarrow> (bool \<times> int \<times> string list) option" where
  "group_scan grp user [] found maxg = Some (found, maxg, [])"
| "group_scan grp user (line # ls) found maxg =
     (let f = split_on (CHR '':'') line in
      if line = '''' \<or> length f < 3 then
        map_option (\<lambda>(fd, m, out). (fd, m, line # out)) (group_scan grp user ls found maxg)
      else
        let maxg' = (case atoi (f ! 2) of Some g \<Rightarrow> if g < 65000 \<and> g > maxg then g else maxg | None \<Rightarrow> maxg) in
        if f ! 0 \<noteq> grp then
          map_option (\<lambda>(fd, m, out). (fd, m, line # out)) (group_scan grp user ls found maxg')
        else
          let members = (if length f \<ge> 4 \<and> f ! 3 \<noteq> '''' then split_on (CHR '','') (f ! 3) else []) in
          if user \<in> set members then None
          else
            let line' = join_with '':'' ((pad_fields f)[3 := join_with '','' (members @ [user])]) in
            map_option (\<lambda>(fd, m, out). (fd, m, line' # out)) (group_scan grp user ls True maxg'))"

definition group_content :: "string \<Rightarrow> string \<Rightarrow> string \<Rightarrow> string option" where
  "group_content grp user content =
     (let ls = split_on (CHR 0x0A) (trim_right_by (\<lambda>c. c = CHR 0x0A) content) in
      case group_scan grp user ls False 0 of
        None \<Rightarrow> None
      | Some (found, maxg, out) \<Rightarrow>
          let out' = (if found then out else out @ [grp @ '':x:'' @ int_dec (maxg + 1) @ '':'' @ user]) in
          Some (join_with nl out' @ (if has_suffix content nl then nl else '''')))"

definition addUserToGroup ::
  "('e, 's) bput \<Rightarrow> 's bget \<Rightarrow> string \<Rightarrow> string \<Rightarrow> node \<times> 's \<Rightarrow> 'e live_error + (node \<times> 's)" where
  "addUserToGroup put get grp user = (\<lambda>(root, s).
     case lookupEtc root ''group'' of
       None \<Rightarrow> Inr (root, s)
     | Some n \<Rightarrow>
         (case readFile (get s) n of
            None \<Rightarrow> Inl (ReadEtc ''group'')
          | Some content \<Rightarrow>
              (case group_content grp user content of
                 None \<Rightarrow> Inr (root, s)
               | Some out \<Rightarrow>
                   (case put s (bytes_of out, None) of
                      Inl e \<Rightarrow> Inl (StoreEtc ''group'' e)
                    | Inr (ref, sz, s') \<Rightarrow>
                        Inr (modify_at root (etc_path ''group'') (set_body ref sz), s')))))"

section \<open>Display managers\<close>

definition gdm_body :: "string \<Rightarrow> string" where
  "gdm_body user = ''[daemon]'' @ nl @ ''AutomaticLoginEnable=True'' @ nl @ ''AutomaticLogin='' @ user @ nl"

definition writeGDM :: "('e, 's) bput \<Rightarrow> string \<Rightarrow> node \<times> 's \<Rightarrow> 'e live_error + (node \<times> 's)" where
  "writeGDM put user st =
     (let body = gdm_body user in
      bindR (writeFileNode put ''/etc/gdm/custom.conf'' body 420 st)
        (\<lambda>(root, s). if Lookup root ''etc/gdm3'' \<noteq> None
                     then writeFileNode put ''/etc/gdm3/custom.conf'' body 420 (root, s) else Inr (root, s)))"

definition kdeDMUnit :: "node \<Rightarrow> string" where
  "kdeDMUnit root = (if unitPath root ''plasmalogin.service'' \<noteq> '''' then ''plasmalogin.service'' else ''sddm.service'')"

definition plasmalogin_conf :: string where
  "plasmalogin_conf = ''/etc/plasmalogin.conf.d/tbox-live-autologin.conf''"

definition sddm_conf :: string where
  "sddm_conf = ''/etc/sddm.conf.d/tbox-live-autologin.conf''"

definition sddm_autologin :: "node \<Rightarrow> string \<Rightarrow> string" where
  "sddm_autologin root user =
     (let session = (if Lookup root ''usr/share/wayland-sessions/plasmawayland.desktop'' \<noteq> None \<and>
                        Lookup root ''usr/share/wayland-sessions/plasma.desktop'' = None
                     then ''plasmawayland'' else ''plasma'')
      in ''[Autologin]'' @ nl @ ''User='' @ user @ nl @ ''Session='' @ session @ nl @ ''Relogin=false'' @ nl)"

definition sddm_general :: string where
  "sddm_general = ''[General]'' @ nl @ ''DisplayServer=wayland'' @ nl @ ''CompositorCommand=kwin_wayland --no-lockscreen'' @ nl @ nl"

definition writeSDDM :: "('e, 's) bput \<Rightarrow> string \<Rightarrow> node \<times> 's \<Rightarrow> 'e live_error + (node \<times> 's)" where
  "writeSDDM put user st =
     (let autologin = sddm_autologin (fst st) user;
          sddmBody = sddm_general @ autologin in
      bindR (if unitPath (fst st) ''plasmalogin.service'' \<noteq> ''''
             then bindR (writeFileNode put plasmalogin_conf autologin 420 st) (\<lambda>st'. Inr (True, st'))
             else Inr (False, st))
        (\<lambda>(wrote, st').
           bindR (if unitPath (fst st') ''sddm.service'' \<noteq> ''''
                  then bindR (writeFileNode put sddm_conf sddmBody 420 st') (\<lambda>st''. Inr (True, st''))
                  else Inr (wrote, st'))
             (\<lambda>(wrote', st''). if wrote' then Inr st'' else writeFileNode put sddm_conf sddmBody 420 st'')))"

definition greetd_body :: "string \<Rightarrow> string \<Rightarrow> string" where
  "greetd_body user cmd =
     (let session = ''user = '' @ [dquote] @ user @ [dquote] @ nl @ ''command = '' @ [dquote] @ cmd @ [dquote] @ nl
      in ''[terminal]'' @ nl @ ''vt = 1'' @ nl @ nl @
         ''[default_session]'' @ nl @ session @ nl @ ''[initial_session]'' @ nl @ session)"

definition writeGreetd :: "('e, 's) bput \<Rightarrow> string \<Rightarrow> string \<Rightarrow> node \<times> 's \<Rightarrow> 'e live_error + (node \<times> 's)" where
  "writeGreetd put user cmd st =
     writeFileNode put ''/etc/greetd/config.toml'' (greetd_body user cmd) 420 st"

definition writeLightDM :: "('e, 's) bput \<Rightarrow> 's bget \<Rightarrow> string \<Rightarrow> node \<times> 's \<Rightarrow> 'e live_error + (node \<times> 's)" where
  "writeLightDM put get user st =
     (let body = ''[Seat:*]'' @ nl @ ''autologin-user='' @ user @ nl @ ''autologin-user-timeout=0'' @ nl in
      bindR (writeFileNode put ''/etc/lightdm/lightdm.conf.d/50-tbox-live-autologin.conf'' body 420 st)
        (addUserToGroup put get ''autologin'' user))"

definition graphical_target :: "node \<Rightarrow> string" where
  "graphical_target root =
     (if unitPath root ''graphical.target'' = '''' then ''/usr/lib/systemd/system/graphical.target''
      else unitPath root ''graphical.target'')"

definition enableDM :: "node \<Rightarrow> string \<Rightarrow> node option" where
  "enableDM root u =
     (let up = unitPath root u in
      if up = '''' then None
      else
        let r1 = symlinkNode root ''/etc/systemd/system/display-manager.service'' up;
            r2 = symlinkNode r1 (''/etc/systemd/system/graphical.target.wants/'' @ u) up;
            r3 = symlinkNode r2 ''/etc/systemd/system/default.target'' (graphical_target r2)
        in Some r3)"

text \<open>The chain of alternatives: the first unit that is present.\<close>

fun enable_first :: "string list \<Rightarrow> node \<Rightarrow> node" where
  "enable_first [] root = root"
| "enable_first (u # us) root = (case enableDM root u of Some root' \<Rightarrow> root' | None \<Rightarrow> enable_first us root)"

text \<open>The files of each desktop, with their contents and modes, in the order they are written.\<close>

definition lock_files :: "string \<Rightarrow> (string \<times> string \<times> int) list" where
  "lock_files desktop =
     (if desktop = ''gnome'' then
        [(''/usr/lib/tunaos/live-nolock.sh'',
            ''#!/bin/sh'' @ nl @
             ''# TunaOS live: keep the passwordless session unlocked.'' @ nl @
             ''gsettings set org.gnome.desktop.screensaver lock-enabled false 2>/dev/null || true'' @ nl @
             ''gsettings set org.gnome.desktop.session idle-delay 0 2>/dev/null || true'' @ nl @
             ''gsettings set org.gnome.settings-daemon.plugins.power sleep-inactive-ac-type nothing 2>/dev/null || true'' @ nl @
             ''gsettings set org.gnome.settings-daemon.plugins.power sleep-inactive-battery-type nothing 2>/dev/null || true'' @ nl, 493),
         (''/etc/xdg/autostart/tunaos-live-nolock.desktop'',
            ''[Desktop Entry]'' @ nl @ ''Type=Application'' @ nl @ ''Name=TunaOS Live: disable screen lock'' @ nl @
             ''Exec=/usr/lib/tunaos/live-nolock.sh'' @ nl @ ''X-GNOME-Autostart-enabled=true'' @ nl @
             ''NoDisplay=true'' @ nl @ ''OnlyShowIn=GNOME;'' @ nl, 420)]
      else if desktop = ''kde'' then
        [(''/etc/xdg/kscreenlockerrc'',
            ''[Daemon]'' @ nl @ ''Autolock=false'' @ nl @ ''LockOnResume=false'' @ nl, 420),
         (''/etc/xdg/powermanagementprofilesrc'',
            ''[AC][SuspendSession]'' @ nl @ ''idleTime=0'' @ nl @ ''suspendType=0'' @ nl @ nl @
             ''[Battery][SuspendSession]'' @ nl @ ''idleTime=0'' @ nl @ ''suspendType=0'' @ nl @ nl @
             ''[LowBattery][SuspendSession]'' @ nl @ ''idleTime=0'' @ nl @ ''suspendType=0'' @ nl, 420)]
      else if desktop = ''cosmic'' then
        [(''/etc/xdg/cosmic-settings-daemon.override'',
          ''[power]'' @ nl @ ''auto_suspend = false'' @ nl @ ''auto_suspend_on_battery = false'' @ nl @
           ''screen_blank = 0'' @ nl @ ''screen_lock = false'' @ nl, 420)]
      else if desktop = ''xfce'' then
        [(''/etc/xdg/xfce4/xfconf/xfce-perchannel-xml/xfce4-screensaver.xml'',
          ''<?xml version='' @ [dquote] @ ''1.0'' @ [dquote] @ '' encoding='' @ [dquote] @ ''UTF-8'' @ [dquote] @ ''?>'' @ nl @
           ''<channel name='' @ [dquote] @ ''xfce4-screensaver'' @ [dquote] @ '' version='' @ [dquote] @ ''1.0'' @ [dquote] @ ''>'' @ nl @
           concat (map (\<lambda>prop. ''  <property name='' @ [dquote] @ prop @ [dquote] @ '' type='' @ [dquote] @ ''empty'' @ [dquote] @ ''>'' @ nl @
             ''    <property name='' @ [dquote] @ ''enabled'' @ [dquote] @ '' type='' @ [dquote] @ ''bool'' @ [dquote] @
             '' value='' @ [dquote] @ ''false'' @ [dquote] @ ''/>'' @ nl @ ''  </property>'' @ nl) [''saver'', ''lock'']) @
           ''</channel>'' @ nl, 420)]
      else if desktop = ''niri'' then
        [(''/etc/xdg/niri-session.override'',
          ''[idle]'' @ nl @ ''inhibit-when-fullscreen = false'' @ nl, 420)]
      else [])"

definition disableScreenLock :: "('e, 's) bput \<Rightarrow> string \<Rightarrow> node \<times> 's \<Rightarrow> 'e live_error + (node \<times> 's)" where
  "disableScreenLock put desktop st =
     foldR (\<lambda>(p, content, mode). writeFileNode put p content mode) (lock_files desktop) st"

section \<open>Autologin that is already there\<close>

definition readIfFile :: "'s bget \<Rightarrow> node \<times> 's \<Rightarrow> string \<Rightarrow> string" where
  "readIfFile get = (\<lambda>(root, s) p.
     case Lookup root p of
       None \<Rightarrow> ''''
     | Some n \<Rightarrow> if ntype_of n \<noteq> TypeFile then ''''
                 else (case readFile (get s) n of None \<Rightarrow> '''' | Some c \<Rightarrow> c))"

definition dirChildren :: "node \<Rightarrow> string \<Rightarrow> string list" where
  "dirChildren root p =
     (case Lookup root p of
        None \<Rightarrow> [] | Some d \<Rightarrow> if \<not> is_dir d then [] else map fst (children d))"

definition hasActiveLine :: "string \<Rightarrow> (string \<Rightarrow> bool) \<Rightarrow> bool" where
  "hasActiveLine content on =
     list_ex (\<lambda>ln. let t = trim_space ln in
        \<not> (t = '''' \<or> has_prefix t ''#'' \<or> has_prefix t '';'') \<and> on t) (split_on (CHR 0x0A) content)"

definition drop_blanks :: "string \<Rightarrow> string" where
  "drop_blanks l = filter (\<lambda>c. c \<noteq> CHR '' '') l"

definition kvWithValue :: "string \<Rightarrow> string \<Rightarrow> bool" where
  "kvWithValue key line \<longleftrightarrow>
     has_prefix (drop_blanks line) (key @ ''='') \<and> length (drop_blanks line) > length key + 1"

definition gdm_active :: "'s bget \<Rightarrow> node \<times> 's \<Rightarrow> bool" where
  "gdm_active get st =
     (let on = (\<lambda>l. drop_blanks l = ''AutomaticLoginEnable=True'') in
      hasActiveLine (readIfFile get st ''etc/gdm/custom.conf'') on \<or>
      hasActiveLine (readIfFile get st ''etc/gdm3/custom.conf'') on)"

definition sddm_active :: "'s bget \<Rightarrow> node \<times> 's \<Rightarrow> bool" where
  "sddm_active get st =
     (let on = kvWithValue ''User'';
          dirs = (if kdeDMUnit (fst st) = ''plasmalogin.service'' then [''etc/plasmalogin.conf.d'']
                  else [''etc/sddm.conf.d'', ''etc/plasmalogin.conf.d'']) in
      list_ex (\<lambda>dir. list_ex (\<lambda>name. hasActiveLine (readIfFile get st (dir @ ''/'' @ name)) on) (dirChildren (fst st) dir)) dirs \<or>
      (if kdeDMUnit (fst st) = ''plasmalogin.service'' then hasActiveLine (readIfFile get st ''etc/plasmalogin.conf'') on
       else hasActiveLine (readIfFile get st ''etc/sddm.conf'') on))"

definition greetd_active :: "'s bget \<Rightarrow> node \<times> 's \<Rightarrow> bool" where
  "greetd_active get st =
     hasActiveLine (readIfFile get st ''etc/greetd/config.toml'') (\<lambda>l. trim_space l = ''[initial_session]'')"

definition lightdm_active :: "'s bget \<Rightarrow> node \<times> 's \<Rightarrow> bool" where
  "lightdm_active get st =
     list_ex (\<lambda>name. hasActiveLine (readIfFile get st (''etc/lightdm/lightdm.conf.d/'' @ name)) (kvWithValue ''autologin-user''))
       (dirChildren (fst st) ''etc/lightdm/lightdm.conf.d'')"

definition dmAutologinActive :: "'s bget \<Rightarrow> node \<times> 's \<Rightarrow> string \<Rightarrow> bool" where
  "dmAutologinActive get st desktop =
     (if desktop = ''gnome'' then gdm_active get st
      else if desktop = ''kde'' then sddm_active get st
      else if desktop = ''niri'' \<or> desktop = ''cosmic'' then greetd_active get st
      else if desktop = ''xfce'' then gdm_active get st \<or> lightdm_active get st \<or> greetd_active get st
      else False)"

section \<open>EnsureAutologin\<close>

definition xfce_session :: "node \<Rightarrow> string" where
  "xfce_session root =
     (case find (binInTree root) [''xfwl4'', ''labwc'', ''wayfire''] of
        None \<Rightarrow> ''startxfce4'' | Some compositor \<Rightarrow> ''dbus-run-session startxfce4 --wayland '' @ compositor)"

definition configure_dm ::
  "('e, 's) bput \<Rightarrow> 's bget \<Rightarrow> string \<Rightarrow> string \<Rightarrow> node \<times> 's \<Rightarrow> 'e live_error + (node \<times> 's)" where
  "configure_dm put get desktop user st =
     (let enable = (\<lambda>us (root, s). Inr (enable_first us root, s)) in
      if desktop = ''gnome'' then bindR (writeGDM put user st) (enable [''gdm.service'', ''gdm3.service''])
      else if desktop = ''kde'' then
        bindR (writeSDDM put user st) (\<lambda>(root, s). enable [kdeDMUnit root, ''sddm.service''] (root, s))
      else if desktop = ''niri'' then bindR (writeGreetd put user ''niri-session'' st) (enable [''greetd.service''])
      else if desktop = ''cosmic'' then bindR (writeGreetd put user ''cosmic-session'' st) (enable [''greetd.service''])
      else
        bindR (writeLightDM put get user st) (\<lambda>st1.
          bindR (writeGreetd put user (xfce_session (fst st)) st1) (\<lambda>st2.
            bindR (writeGDM put user st2) (enable [''lightdm.service'', ''greetd.service'', ''gdm.service'']))))"

definition live_niceties :: "node \<Rightarrow> node" where
  "live_niceties root =
     (let p = unitPath root ''NetworkManager.service'';
          r1 = (if p \<noteq> '''' then symlinkNode root ''/etc/systemd/system/multi-user.target.wants/NetworkManager.service'' p
                else root)
      in fold (\<lambda>t r. symlinkNode r (''/etc/systemd/system/'' @ t) ''/dev/null'')
           [''sleep.target'', ''suspend.target'', ''hibernate.target'', ''hybrid-sleep.target''] r1)"

definition EnsureAutologin ::
  "('e, 's) bput \<Rightarrow> 's bget \<Rightarrow> string \<Rightarrow> string \<Rightarrow> node \<times> 's \<Rightarrow> 'e live_error + (node \<times> 's)" where
  "EnsureAutologin put get desktop user st =
     (if desktop = '''' \<or> desktop = ''none'' then Inr st
      else if dmAutologinActive get st desktop then Inr st
      else if desktop \<notin> {''gnome'', ''kde'', ''niri'', ''cosmic'', ''xfce''} then Inr st
      else
        bindR (configure_dm put get desktop user st) (\<lambda>st1.
          bindR (disableScreenLock put desktop st1) (\<lambda>(root, s). Inr (live_niceties root, s))))"

section \<open>What a write changes\<close>

text \<open>The tree path a file or link is written to.\<close>

definition wpath :: "string \<Rightarrow> string list" where
  "wpath p = ensure_parts (path_dir p) @ [path_base p]"

definition apart :: "string list \<Rightarrow> string list \<Rightarrow> bool" where
  "apart p q \<longleftrightarrow> \<not> prefix p q \<and> \<not> prefix q p"

definition same_but :: "string list list \<Rightarrow> node \<Rightarrow> node \<Rightarrow> bool" where
  "same_but W root root' \<longleftrightarrow> (\<forall>q. (\<forall>w \<in> set W. apart q w) \<longrightarrow> lookup root' q = lookup root q)"

lemma lookupEtc_eq:
  "lookupEtc root f =
     (case lookup root (etc_path f) of None \<Rightarrow> None | Some n \<Rightarrow> if ntype_of n \<noteq> TypeFile then None else Some n)"
  by (simp add: lookupEtc_def Lookup_def etc_path_def)

lemma same_but_refl [simp]: "same_but W r r"
  by (simp add: same_but_def)

lemma same_but_trans: "same_but V r s \<Longrightarrow> same_but W s t \<Longrightarrow> same_but (V @ W) r t"
  by (auto simp: same_but_def)

lemma same_but_mono: "same_but V r s \<Longrightarrow> set V \<subseteq> set W \<Longrightarrow> same_but W r s"
  unfolding same_but_def by blast

lemma at_dir_dirOf: "at_dir n ps (\<lambda>d. set_child d x v) = dirOf n (ps @ [x]) (\<lambda>d m. set_child d m v)"
proof (induction ps arbitrary: n)
  case (Cons p ps)
  then show ?case by (cases "ps @ [x]") auto
qed simp

lemma dirOf_set_child:
  assumes "is_dir n" "parts \<noteq> []"
  shows "lookup (dirOf n parts (\<lambda>d m. set_child d m v)) parts = Some v"
    and "same_but [parts] n (dirOf n parts (\<lambda>d m. set_child d m v))"
    and "is_dir (dirOf n parts (\<lambda>d m. set_child d m v))"
proof -
  let ?f = "\<lambda>d m. set_child d m v"
  have d: "is_dir (?f (parent_dir n parts) (last parts))" using parent_dir_dir[OF assms(1)] by simp
  show "lookup (dirOf n parts ?f) parts = Some v"
    using dirOf_child[OF assms, of ?f "last parts", OF d] assms(2) by (simp add: d)
  show "same_but [parts] n (dirOf n parts ?f)"
    unfolding same_but_def
  proof (intro allI impI)
    fix q
    assume q: "\<forall>w \<in> set [parts]. apart q w"
    have b: "butlast parts @ [last parts] = parts" using assms(2) by simp
    show "lookup (dirOf n parts ?f) q = lookup n q"
      by (rule dirOf_frame[OF assms, where t = "last parts"])
        (use q b in \<open>auto simp: apart_def\<close>)
  qed
  show "is_dir (dirOf n parts ?f)"
    using assms by (cases "(n, parts, ?f)" rule: dirOf.cases) auto
qed

lemma wf_dirOf_set_child:
  assumes "wf_node n" "is_dir n" "parts \<noteq> []" "\<forall>p \<in> set parts. name_ok p" "wf_node v"
  shows "wf_node (dirOf n parts (\<lambda>d m. set_child d m v))"
  using dirOf_wf[OF assms(1-4), of "\<lambda>d m. set_child d m v"] wf_set_child[OF _ _ _ assms(5)] assms(3,4)
  by simp

lemma modify_at_lookup:
  assumes "lookup n ps = Some m" "ntype_of (f m) = ntype_of m"
  shows "lookup (modify_at n ps f) ps = Some (f m)" "ntype_of (modify_at n ps f) = ntype_of n"
    and "same_but [ps] n (modify_at n ps f)"
proof -
  have "lookup (modify_at n ps f) ps = Some (f m) \<and> ntype_of (modify_at n ps f) = ntype_of n"
    using assms by (induction n ps f rule: modify_at.induct) (auto split: if_splits option.splits)
  then show "lookup (modify_at n ps f) ps = Some (f m)" "ntype_of (modify_at n ps f) = ntype_of n" by auto
  have "apart q ps \<Longrightarrow> lookup (modify_at n ps f) q = lookup n q" for q
    using assms(1)
  proof (induction n ps f arbitrary: q rule: modify_at.induct)
    case (2 n p ps f)
    then obtain c where c: "child n p = Some c" "lookup c ps = Some m"
      by (auto split: if_splits option.splits)
    show ?case
    proof (cases q)
      case (Cons x qs)
      then show ?thesis using 2(2) c 2(1)[OF c(1), of qs] by (auto simp: apart_def)
    qed (use 2(2) in \<open>auto simp: apart_def\<close>)
  qed (auto simp: apart_def)
  then show "same_but [ps] n (modify_at n ps f)" by (simp add: same_but_def)
qed

lemma modify_at_wf:
  assumes "wf_node n" "lookup n ps = Some m" "wf_node (f m)"
  shows "wf_node (modify_at n ps f)"
  using assms
proof (induction n ps f rule: modify_at.induct)
  case (2 n p ps f)
  then obtain c where c: "child n p = Some c" "lookup c ps = Some m" "is_dir n"
    by (auto split: if_splits option.splits)
  with 2 wf_child[OF 2(2) c(1)] show ?case by (auto intro: wf_set_child)
qed simp

lemma modify_at_all:
  assumes "all_nodes P n" "lookup n ps = Some m" "all_nodes P (f m)"
  shows "all_nodes P (modify_at n ps f)"
  using assms
proof (induction n ps f rule: modify_at.induct)
  case (2 n p ps f)
  then obtain c where c: "child n p = Some c" "lookup c ps = Some m"
    by (auto split: if_splits option.splits)
  with 2 show ?case by (auto intro: all_nodes_set_child dest: all_nodes_child)
qed simp

section \<open>Evolution of the state\<close>

text \<open>
  A state is good when its tree is a well-formed directory backed by its store. One state
  evolves to another at the paths \<open>W\<close> when goodness is kept, no stored body is lost and
  nothing else in the tree changes.
\<close>

definition good_state :: "'s bget \<Rightarrow> ('s \<Rightarrow> bool) \<Rightarrow> node \<times> 's \<Rightarrow> bool" where
  "good_state get invar st \<longleftrightarrow>
     invar (snd st) \<and> is_dir (fst st) \<and> wf_node (fst st) \<and> backed get (snd st) (fst st)"

definition evolves_at :: "'s bget \<Rightarrow> ('s \<Rightarrow> bool) \<Rightarrow> string list list \<Rightarrow> node \<times> 's \<Rightarrow> node \<times> 's \<Rightarrow> bool" where
  "evolves_at get invar W st st' \<longleftrightarrow>
     (good_state get invar st \<longrightarrow>
        good_state get invar st' \<and> (\<forall>q b. get (snd st) q = Some b \<longrightarrow> get (snd st') q = Some b) \<and>
        same_but W (fst st) (fst st'))"

text \<open>The file at a path has a body in the store, and what it says.\<close>

definition holds_file :: "'s bget \<Rightarrow> node \<times> 's \<Rightarrow> string list \<Rightarrow> string \<Rightarrow> bool" where
  "holds_file get st p content \<longleftrightarrow>
     (\<exists>n. lookup (fst st) p = Some n \<and> ntype_of n = TypeFile \<and> get (snd st) (n_ref (attrs n)) = Some (bytes_of content))"

context blob_store
begin

abbreviation good :: "node \<times> 's \<Rightarrow> bool" where
  "good \<equiv> good_state get invar"

abbreviation evolves :: "string list list \<Rightarrow> node \<times> 's \<Rightarrow> node \<times> 's \<Rightarrow> bool" where
  "evolves \<equiv> evolves_at get invar"

abbreviation holds :: "node \<times> 's \<Rightarrow> string list \<Rightarrow> string \<Rightarrow> bool" where
  "holds \<equiv> holds_file get"

lemma evolves_refl [simp]: "evolves W st st"
  by (simp add: evolves_at_def)

lemma evolves_trans: "evolves V a b \<Longrightarrow> evolves W b c \<Longrightarrow> evolves (V @ W) a c"
  unfolding evolves_at_def using same_but_trans by blast

lemma evolves_mono: "evolves V a b \<Longrightarrow> set V \<subseteq> set W \<Longrightarrow> evolves W a b"
  unfolding evolves_at_def using same_but_mono by blast

lemma evolves_good: "evolves W a b \<Longrightarrow> good a \<Longrightarrow> good b"
  by (simp add: evolves_at_def)

lemma evolves_lookup: "evolves W a b \<Longrightarrow> good a \<Longrightarrow> \<forall>w \<in> set W. apart q w \<Longrightarrow> lookup (fst b) q = lookup (fst a) q"
  by (simp add: evolves_at_def same_but_def)

lemma evolves_holds:
  "evolves W a b \<Longrightarrow> good a \<Longrightarrow> \<forall>w \<in> set W. apart p w \<Longrightarrow> holds a p c \<Longrightarrow> holds b p c"
  unfolding holds_file_def using evolves_lookup[of W a b p] by (auto simp: evolves_at_def)

lemma write_evolves:
  assumes "writeFileNode put p content mode st = Inr st'" "\<forall>x \<in> set (wpath p). name_ok x"
  shows "evolves [wpath p] st st'" "good st \<Longrightarrow> holds st' (wpath p) content"
proof -
  obtain root s where st: "st = (root, s)" by (cases st)
  from assms(1) obtain ref sz s' where put: "put s (bytes_of content, None) = Inr (ref, sz, s')"
    and st': "st' = (dirOf root (wpath p) (\<lambda>d m. set_child d m
        (Node (blank_attrs\<lparr>n_type := TypeFile, n_mode := mode, n_ref := ref, n_size := sz\<rparr>) [])), s')"
    by (auto simp: st writeFileNode_def ensureDir_def at_dir_dirOf wpath_def split: sum.splits)
  let ?n = "Node (blank_attrs\<lparr>n_type := TypeFile, n_mode := mode, n_ref := ref, n_size := sz\<rparr>) []"
  let ?r = "dirOf root (wpath p) (\<lambda>d m. set_child d m ?n)"
  have ne: "wpath p \<noteq> []" by (simp add: wpath_def)
  { assume g: "good st"
    then have i: "invar s" and dir: "is_dir root" and wf: "wf_node root" and bk: "backed get s root"
      by (auto simp: good_state_def st)
    have pg: "get s' ref = Some (bytes_of content)" "sz = int (length (bytes_of content))"
      using put_get[OF i put] by auto
    have "backed get s' ?n" using pg by (simp add: backed_def file_backed_def all_nodes_leaf)
    with backed_later[OF i put bk] have "backed get s' ?r"
      unfolding backed_def using ne
      by (intro all_nodes_dirOf all_nodes_set_child) (auto simp: file_backed_def)
    moreover have "wf_node ?r"
      by (rule wf_dirOf_set_child[OF wf dir ne assms(2)]) (simp add: wf_leaf)
    ultimately have "good st'"
      using dirOf_set_child(3)[OF dir ne] put_invar[OF i put] by (simp add: good_state_def st')
    moreover have "holds st' (wpath p) content"
      unfolding holds_file_def st' using dirOf_set_child(1)[OF dir ne] pg by simp
    ultimately have "good st' \<and> holds st' (wpath p) content \<and> same_but [wpath p] root ?r"
      using dirOf_set_child(2)[OF dir ne] by blast
    moreover have "\<forall>q b. get s q = Some b \<longrightarrow> get s' q = Some b" using put_keeps[OF i put] by blast
    ultimately have "good st' \<and> holds st' (wpath p) content \<and> same_but [wpath p] root ?r \<and>
        (\<forall>q b. get s q = Some b \<longrightarrow> get s' q = Some b)" by blast }
  note * = this
  show "evolves [wpath p] st st'" unfolding evolves_at_def using * by (simp add: st st')
  show "good st \<Longrightarrow> holds st' (wpath p) content" using * by blast
qed

lemma symlink_evolves:
  assumes "\<forall>x \<in> set (wpath p). name_ok x"
  shows "evolves [wpath p] (root, s) (symlinkNode root p t, s)"
proof -
  let ?r = "dirOf root (wpath p) (\<lambda>d m. set_child d m (symlink_to t))"
  have eq: "symlinkNode root p t = ?r" by (simp add: symlinkNode_def ensureDir_def at_dir_dirOf wpath_def)
  have ne: "wpath p \<noteq> []" by (simp add: wpath_def)
  have "good (?r, s) \<and> same_but [wpath p] root ?r" if g: "good (root, s)"
  proof -
    have dir: "is_dir root" and wf: "wf_node root" and bk: "backed get s root"
      using g by (auto simp: good_state_def)
    have "backed get s (symlink_to t)" by (rule backed_leaf) (auto simp: symlink_to_def)
    with bk have "backed get s ?r"
      unfolding backed_def using ne
      by (intro all_nodes_dirOf all_nodes_set_child) (auto simp: file_backed_def)
    moreover have "wf_node ?r"
      by (rule wf_dirOf_set_child[OF wf dir ne assms]) (simp add: wf_leaf symlink_to_def)
    ultimately show ?thesis using g dirOf_set_child[OF dir ne] by (simp add: good_state_def)
  qed
  then show ?thesis by (simp add: evolves_at_def eq)
qed

lemma body_evolves:
  assumes "lookup root ps = Some n" "ntype_of n = TypeFile" "put s (bytes_of c, None) = Inr (ref, sz, s')"
  shows "evolves [ps] (root, s) (modify_at root ps (set_body ref sz), s')"
    and "good (root, s) \<Longrightarrow> holds (modify_at root ps (set_body ref sz), s') ps c"
proof -
  let ?r = "modify_at root ps (set_body ref sz)"
  have at: "ntype_of (set_body ref sz n) = ntype_of n" by (simp add: set_body_def)
  note m = modify_at_lookup[where f = "set_body ref sz", OF assms(1) at]
  { assume g: "good (root, s)"
    then have i: "invar s" and dir: "is_dir root" and wf: "wf_node root" and bk: "backed get s root"
      by (auto simp: good_state_def)
    have wn: "wf_node n" "children n = []"
      using wf_lookup[OF wf assms(1)] wf_node_leaf[of n] assms(2) by auto
    have pg: "get s' ref = Some (bytes_of c)" "sz = int (length (bytes_of c))"
      using put_get[OF i assms(3)] by auto
    have "wf_node ?r" by (rule modify_at_wf[OF wf assms(1)]) (simp add: set_body_def wn wf_leaf)
    moreover have "backed get s' ?r"
      unfolding backed_def
      by (rule modify_at_all[OF backed_later[OF i assms(3) bk, unfolded backed_def] assms(1)])
        (simp add: set_body_def wn all_nodes_leaf file_backed_def pg assms(2))
    ultimately have "good (?r, s')" using put_invar[OF i assms(3)] dir m(2) by (simp add: good_state_def)
    moreover have "holds (?r, s') ps c" unfolding holds_file_def using m(1) pg by (simp add: set_body_def assms(2))
    moreover have "\<forall>q b. get s q = Some b \<longrightarrow> get s' q = Some b" using put_keeps[OF i assms(3)] by blast
    ultimately have "good (?r, s') \<and> holds (?r, s') ps c \<and> (\<forall>q b. get s q = Some b \<longrightarrow> get s' q = Some b)" by blast }
  note * = this
  show "evolves [ps] (root, s) (?r, s')" unfolding evolves_at_def using * m(3) by simp
  show "good (root, s) \<Longrightarrow> holds (?r, s') ps c" using * by blast
qed


end

section \<open>The session as a whole\<close>

text \<open>The configuration files of the display managers, and everything else a session writes.\<close>

definition dm_files :: "string list" where
  "dm_files = [''/etc/gdm/custom.conf'', ''/etc/gdm3/custom.conf'', plasmalogin_conf, sddm_conf,
     ''/etc/greetd/config.toml'', ''/etc/lightdm/lightdm.conf.d/50-tbox-live-autologin.conf'', ''/etc/group'']"

definition dm_units :: "string list" where
  "dm_units = [''gdm.service'', ''gdm3.service'', ''plasmalogin.service'', ''sddm.service'', ''greetd.service'', ''lightdm.service'']"

definition session_files :: "string list" where
  "session_files =
     map (\<lambda>u. ''/etc/systemd/system/graphical.target.wants/'' @ u) dm_units @
     map (\<lambda>t. ''/etc/systemd/system/'' @ t)
       [''display-manager.service'', ''default.target'', ''multi-user.target.wants/NetworkManager.service'',
        ''sleep.target'', ''suspend.target'', ''hibernate.target'', ''hybrid-sleep.target''] @
     [''/usr/lib/tunaos/live-nolock.sh'', ''/etc/xdg/autostart/tunaos-live-nolock.desktop'', ''/etc/xdg/kscreenlockerrc'',
      ''/etc/xdg/powermanagementprofilesrc'', ''/etc/xdg/cosmic-settings-daemon.override'',
      ''/etc/xdg/xfce4/xfconf/xfce-perchannel-xml/xfce4-screensaver.xml'', ''/etc/xdg/niri-session.override'']"

definition autologin_paths :: "string list list" where
  "autologin_paths = map wpath (dm_files @ session_files)"

lemma session_names_ok: "list_all (\<lambda>p. list_all name_ok (wpath p)) (dm_files @ session_files)"
  by code_simp

lemma wpath_ok: "p \<in> set (dm_files @ session_files) \<Longrightarrow> x \<in> set (wpath p) \<Longrightarrow> name_ok x"
  using session_names_ok by (auto simp: list_all_iff)

lemma wpath_group: "wpath ''/etc/group'' = etc_path ''group''"
  by code_simp

lemma in_session_files:
  "u \<in> set dm_units \<Longrightarrow> ''/etc/systemd/system/graphical.target.wants/'' @ u \<in> set session_files"
  "''/etc/systemd/system/display-manager.service'' \<in> set session_files"
  "''/etc/systemd/system/default.target'' \<in> set session_files"
  "''/etc/systemd/system/multi-user.target.wants/NetworkManager.service'' \<in> set session_files"
  "t \<in> {''sleep.target'', ''suspend.target'', ''hibernate.target'', ''hybrid-sleep.target''} \<Longrightarrow>
     ''/etc/systemd/system/'' @ t \<in> set session_files"
  by (auto simp: session_files_def)

lemma lock_files_in: "x \<in> set (lock_files desktop) \<Longrightarrow> fst x \<in> set session_files"
proof -
  have "set (map fst (lock_files desktop)) \<subseteq> {''/usr/lib/tunaos/live-nolock.sh'', ''/etc/xdg/autostart/tunaos-live-nolock.desktop'',
      ''/etc/xdg/kscreenlockerrc'', ''/etc/xdg/powermanagementprofilesrc'', ''/etc/xdg/cosmic-settings-daemon.override'',
      ''/etc/xdg/xfce4/xfconf/xfce-perchannel-xml/xfce4-screensaver.xml'', ''/etc/xdg/niri-session.override''}"
    unfolding lock_files_def by (simp only: split: if_split) (simp only: list.map fst_conv list.set, simp)
  also have "\<dots> \<subseteq> set session_files" by (simp add: session_files_def)
  finally show "x \<in> set (lock_files desktop) \<Longrightarrow> fst x \<in> set session_files" by auto
qed

context blob_store
begin

lemma write_in:
  assumes "writeFileNode put p content mode st = Inr st'" "p \<in> set fs" "set fs \<subseteq> set (dm_files @ session_files)"
  shows "evolves (map wpath fs) st st'"
  by (rule evolves_mono[OF write_evolves(1)[OF assms(1)]]) (use assms(2,3) wpath_ok in auto)

lemma symlink_in:
  assumes "p \<in> set session_files"
  shows "evolves (map wpath session_files) (root, s) (symlinkNode root p t, s)"
  by (rule evolves_mono[OF symlink_evolves]) (use assms wpath_ok in auto)

lemma evolves_step: "evolves W a b \<Longrightarrow> evolves W b c \<Longrightarrow> evolves W a c"
  by (rule evolves_mono[OF evolves_trans]) auto

lemma enableDM_evolves:
  assumes "enableDM root u = Some root'" "u \<in> set dm_units"
  shows "evolves (map wpath session_files) (root, s) (root', s)"
proof -
  let ?r1 = "symlinkNode root ''/etc/systemd/system/display-manager.service'' (unitPath root u)"
  let ?r2 = "symlinkNode ?r1 (''/etc/systemd/system/graphical.target.wants/'' @ u) (unitPath root u)"
  let ?r3 = "symlinkNode ?r2 ''/etc/systemd/system/default.target'' (graphical_target ?r2)"
  have "evolves (map wpath session_files) (root, s) (?r3, s)"
    by (rule evolves_step[OF evolves_step[OF symlink_in symlink_in] symlink_in])
      (rule in_session_files(1)[OF assms(2)] in_session_files(2,3))+
  moreover have "root' = ?r3"
    using assms(1) unfolding enableDM_def Let_def by (metis option.distinct(1) option.inject)
  ultimately show ?thesis by simp
qed

lemma enable_first_evolves:
  "set us \<subseteq> set dm_units \<Longrightarrow> evolves (map wpath session_files) (root, s) (enable_first us root, s)"
  by (induction us root rule: enable_first.induct) (auto split: option.split intro: enableDM_evolves)

lemma live_niceties_evolves: "evolves (map wpath session_files) (root, s) (live_niceties root, s)"
proof -
  have f: "evolves (map wpath session_files) (root, s) (fold (\<lambda>t r. symlinkNode r (''/etc/systemd/system/'' @ t) ''/dev/null'') ts root, s)"
    if "set ts \<subseteq> {''sleep.target'', ''suspend.target'', ''hibernate.target'', ''hybrid-sleep.target''}" for ts root
    using that
  proof (induction ts arbitrary: root)
    case (Cons t ts)
    then show ?case
      using symlink_in[OF in_session_files(5)[of t], of root s "''/dev/null''"] evolves_step by (auto intro: evolves_step)
  qed simp
  show ?thesis
  proof (cases "unitPath root ''NetworkManager.service'' = ''''")
    case True
    then have n: "\<not> unitPath root ''NetworkManager.service'' \<noteq> ''''" by simp
    show ?thesis unfolding live_niceties_def Let_def if_not_P[OF n] by (rule f) simp
  next
    case False
    show ?thesis
      unfolding live_niceties_def Let_def if_P[OF False]
      by (rule evolves_step[OF symlink_in[OF in_session_files(4)] f]) simp
  qed
qed

lemma disableScreenLock_evolves:
  assumes "disableScreenLock put desktop st = Inr st'"
  shows "evolves (map wpath session_files) st st'"
proof (rule foldR_invariant[OF assms[unfolded disableScreenLock_def], where P = "evolves (map wpath session_files) st"])
  fix x a b
  assume x: "x \<in> set (lock_files desktop)" and a: "evolves (map wpath session_files) st a"
    and b: "(case x of (p, content, mode) \<Rightarrow> writeFileNode put p content mode) a = Inr b"
  obtain p c m where p: "x = (p, c, m)" by (cases x)
  have "evolves (map wpath session_files) a b"
    by (rule write_in[of p c m]) (use b lock_files_in[OF x] in \<open>auto simp: p\<close>)
  then show "evolves (map wpath session_files) st b" by (rule evolves_step[OF a])
qed simp

end

subsection \<open>The autologin that was written is found again\<close>

lemma hasActiveLine_line:
  assumes "CHR 0x0A \<notin> set l" "trim_space l = l" "l \<noteq> ''''" "\<not> has_prefix l ''#''" "\<not> has_prefix l '';''" "on l"
  shows "hasActiveLine (a @ nl @ l @ nl @ b) on"
proof -
  have "l \<in> set (split_on (CHR 0x0A) (a @ nl @ l @ nl @ b))"
    using assms(1) by (simp add: split_on_append split_on_no_sep)
  with assms(2-) show ?thesis
    unfolding hasActiveLine_def list_ex_iff by (metis (no_types, lifting))
qed

lemma gdm_body_active: "hasActiveLine (gdm_body user) (\<lambda>l. drop_blanks l = ''AutomaticLoginEnable=True'')"
  unfolding gdm_body_def by (rule hasActiveLine_line) code_simp+

lemma greetd_body_active: "hasActiveLine (greetd_body user cmd) (\<lambda>l. trim_space l = ''[initial_session]'')"
proof -
  have "\<exists>a b. greetd_body user cmd = a @ nl @ ''[initial_session]'' @ nl @ b"
    unfolding greetd_body_def Let_def
    by (rule exI[of _ "''[terminal]'' @ nl @ ''vt = 1'' @ nl @ nl @ ''[default_session]'' @ nl @ ''user = '' @ [dquote] @ user @ [dquote] @
          nl @ ''command = '' @ [dquote] @ cmd @ [dquote] @ nl"]) simp
  then obtain a b where "greetd_body user cmd = a @ nl @ ''[initial_session]'' @ nl @ b" by blast
  then show ?thesis by (simp only:) (rule hasActiveLine_line; code_simp)
qed

definition plain_user :: "string \<Rightarrow> bool" where
  "plain_user user \<longleftrightarrow> user \<noteq> '''' \<and> list_all (\<lambda>c. \<not> is_space c) user"

lemma trim_space_plain: "list_all (\<lambda>c. \<not> is_space c) l \<Longrightarrow> trim_space l = l"
proof -
  assume l: "list_all (\<lambda>c. \<not> is_space c) l"
  then have "dropWhile is_space (rev l) = rev l" "dropWhile is_space l = l"
    unfolding dropWhile_eq_self_iff by (auto simp: list_all_iff hd_rev)
  then show "trim_space l = l" by (simp add: trim_space_def trim_by_def trim_right_by_def)
qed

lemma kv_line_active:
  assumes "plain_user user" "list_all (\<lambda>c. \<not> is_space c) key" "key \<noteq> ''''" "hd key \<noteq> CHR ''#''" "hd key \<noteq> CHR '';''"
  shows "hasActiveLine (a @ nl @ (key @ ''='' @ user) @ nl @ b) (kvWithValue key)"
proof (rule hasActiveLine_line)
  have sp: "list_all (\<lambda>c. \<not> is_space c) (key @ ''='' @ user)"
    using assms(1,2) by (simp add: plain_user_def is_space_def)
  then show "trim_space (key @ ''='' @ user) = key @ ''='' @ user" by (rule trim_space_plain)
  show "CHR 0x0A \<notin> set (key @ ''='' @ user)" using sp by (auto simp: list_all_iff is_space_def)
  have db: "drop_blanks (key @ ''='' @ user) = key @ ''='' @ user"
    unfolding drop_blanks_def filter_id_conv using sp by (auto simp: list_all_iff is_space_def)
  show "kvWithValue key (key @ ''='' @ user)"
    using assms(1) unfolding kvWithValue_def db has_prefix_iff by (auto simp: plain_user_def)
  show "\<not> has_prefix (key @ ''='' @ user) ''#''" "\<not> has_prefix (key @ ''='' @ user) '';''"
    using assms(3-5) by (cases key; simp)+
qed (use assms(3) in simp)

lemma sddm_body_active:
  assumes "plain_user user"
  shows "hasActiveLine (sddm_autologin root user) (kvWithValue ''User'')"
    and "hasActiveLine (sddm_general @ sddm_autologin root user) (kvWithValue ''User'')"
proof -
  have k: "hasActiveLine (a @ nl @ (''User'' @ ''='' @ user) @ nl @ b) (kvWithValue ''User'')" for a b
    by (rule kv_line_active[OF assms]) (simp_all add: is_space_def)
  have "\<exists>b. sddm_autologin root user = ''[Autologin]'' @ nl @ (''User'' @ ''='' @ user) @ nl @ b"
    by (simp add: sddm_autologin_def Let_def)
  then obtain b where b: "sddm_autologin root user = ''[Autologin]'' @ nl @ (''User'' @ ''='' @ user) @ nl @ b" by blast
  show "hasActiveLine (sddm_autologin root user) (kvWithValue ''User'')" unfolding b by (rule k)
  show "hasActiveLine (sddm_general @ sddm_autologin root user) (kvWithValue ''User'')"
    using k[of "sddm_general @ ''[Autologin]''" b] by (simp add: b)
qed


context blob_store
begin

lemma readIfFile_holds:
  assumes "holds st (splitClean p) c"
  shows "readIfFile get st p = c"
  using assms by (cases st) (auto simp: readIfFile_def holds_file_def Lookup_def readFile_def)

lemma holds_dirChildren:
  assumes "holds st (ps @ [x]) c" "splitClean d = ps"
  shows "x \<in> set (dirChildren (fst st) d)"
proof -
  from assms(1) obtain n where "lookup (fst st) (ps @ [x]) = Some n" by (auto simp: holds_file_def)
  then obtain m where m: "lookup (fst st) ps = Some m" "is_dir m" "child m x = Some n"
    by (auto simp: lookup_append split: option.splits if_splits)
  then have "x \<in> set (map fst (children m))" using child_in_children[OF m(3)] by force
  then show ?thesis using m by (simp add: dirChildren_def Lookup_def assms(2))
qed

lemma dm_write:
  assumes "writeFileNode put p content mode st = Inr st'" "p \<in> set dm_files"
  shows "evolves (map wpath dm_files) st st'" "good st \<Longrightarrow> holds st' (wpath p) content"
  using write_in[OF assms] write_evolves(2)[OF assms(1)] wpath_ok assms(2) by auto

lemma writeGDM_spec:
  assumes "writeGDM put user st = Inr st'"
  shows "evolves (map wpath dm_files) st st'" "good st \<Longrightarrow> holds st' (wpath ''/etc/gdm/custom.conf'') (gdm_body user)"
proof -
  from assms obtain st1 where 1: "writeFileNode put ''/etc/gdm/custom.conf'' (gdm_body user) 420 st = Inr st1"
    and 2: "st' = st1 \<or> writeFileNode put ''/etc/gdm3/custom.conf'' (gdm_body user) 420 st1 = Inr st'"
    by (auto simp: writeGDM_def Let_def bindR_Inr_iff split: if_splits)
  have m: "''/etc/gdm/custom.conf'' \<in> set dm_files" "''/etc/gdm3/custom.conf'' \<in> set dm_files"
    by (simp_all add: dm_files_def)
  have e: "evolves [wpath ''/etc/gdm3/custom.conf''] st1 st'"
    using 2 write_in[of "''/etc/gdm3/custom.conf''" "gdm_body user" 420 st1 st' "[''/etc/gdm3/custom.conf'']"] m by auto
  have e': "evolves (map wpath dm_files) st1 st'" by (rule evolves_mono[OF e]) (use m in simp)
  show "evolves (map wpath dm_files) st st'" by (rule evolves_step[OF dm_write(1)[OF 1 m(1)] e'])
  have a: "apart (wpath ''/etc/gdm/custom.conf'') (wpath ''/etc/gdm3/custom.conf'')" by code_simp
  assume g: "good st"
  show "holds st' (wpath ''/etc/gdm/custom.conf'') (gdm_body user)"
    by (rule evolves_holds[OF e evolves_good[OF dm_write(1)[OF 1 m(1)] g] _ dm_write(2)[OF 1 m(1) g]]) (simp add: a)
qed

lemma unit_kept:
  assumes "evolves W st st'" "good st"
    and "\<forall>b \<in> set unit_bases. \<forall>w \<in> set W. apart (splitClean (b @ ''/'' @ u)) w"
  shows "unitPath (fst st') u = unitPath (fst st) u"
proof -
  have "Lookup (fst st') (b @ ''/'' @ u) = Lookup (fst st) (b @ ''/'' @ u)" if "b \<in> set unit_bases" for b
    unfolding Lookup_def by (rule evolves_lookup[OF assms(1,2)]) (use assms(3) that in blast)
  then have "find (\<lambda>b. Lookup (fst st') (b @ ''/'' @ u) \<noteq> None) unit_bases =
      find (\<lambda>b. Lookup (fst st) (b @ ''/'' @ u) \<noteq> None) unit_bases"
    by (intro find_cong) auto
  then show ?thesis by (simp add: unitPath_def)
qed

lemma kde_units_kept:
  assumes "evolves autologin_paths st st'" "good st"
  shows "kdeDMUnit (fst st') = kdeDMUnit (fst st)"
proof -
  have "\<forall>b \<in> set unit_bases. \<forall>w \<in> set autologin_paths. apart (splitClean (b @ ''/'' @ ''plasmalogin.service'')) w"
    by code_simp
  from unit_kept[OF assms this] show ?thesis by (simp add: kdeDMUnit_def)
qed

lemma dm_in: "evolves (map wpath dm_files) a b \<Longrightarrow> evolves autologin_paths a b"
  "evolves (map wpath session_files) a b \<Longrightarrow> evolves autologin_paths a b"
  by (auto elim!: evolves_mono simp: autologin_paths_def)

lemma writeSDDM_spec:
  assumes "writeSDDM put user st = Inr st'" "good st"
  shows "evolves (map wpath dm_files) st st'"
    and "if kdeDMUnit (fst st) = ''plasmalogin.service''
         then holds st' (wpath plasmalogin_conf) (sddm_autologin (fst st) user)
         else holds st' (wpath sddm_conf) (sddm_general @ sddm_autologin (fst st) user)"
proof -
  let ?a = "sddm_autologin (fst st) user"
  have m: "plasmalogin_conf \<in> set dm_files" "sddm_conf \<in> set dm_files" by (simp_all add: dm_files_def)
  have ap: "apart (wpath plasmalogin_conf) (wpath sddm_conf)" by code_simp
  have s: "evolves [wpath sddm_conf] a b" "good a \<Longrightarrow> holds b (wpath sddm_conf) c"
    if "writeFileNode put sddm_conf c 420 a = Inr b" for a b c
    using write_in[OF that, of "[sddm_conf]"] dm_write(2)[OF that m(2)] m by auto
  have "evolves (map wpath dm_files) st st' \<and>
       (if kdeDMUnit (fst st) = ''plasmalogin.service'' then holds st' (wpath plasmalogin_conf) ?a
        else holds st' (wpath sddm_conf) (sddm_general @ ?a))"
  proof (cases "unitPath (fst st) ''plasmalogin.service'' = ''''")
    case True
    then have w: "writeFileNode put sddm_conf (sddm_general @ ?a) 420 st = Inr st'"
      using assms(1) unfolding writeSDDM_def Let_def by (auto simp: bindR_Inr_iff split: if_splits)
    then show ?thesis using True s(2)[OF w assms(2)] dm_write(1)[OF w m(2)] by (simp add: kdeDMUnit_def)
  next
    case False
    then obtain st1 where 1: "writeFileNode put plasmalogin_conf ?a 420 st = Inr st1"
      and 2: "st' = st1 \<or> writeFileNode put sddm_conf (sddm_general @ ?a) 420 st1 = Inr st'"
      using assms(1) unfolding writeSDDM_def Let_def by (auto simp: bindR_Inr_iff split: if_splits)
    have e: "evolves [wpath sddm_conf] st1 st'" using 2 by (elim disjE) (simp, rule s(1))
    have e': "evolves (map wpath dm_files) st1 st'" by (rule evolves_mono[OF e]) (use m in simp)
    from evolves_holds[OF e evolves_good[OF dm_write(1)[OF 1 m(1)] assms(2)] _ dm_write(2)[OF 1 m(1) assms(2)]]
    show ?thesis using False ap evolves_step[OF dm_write(1)[OF 1 m(1)] e'] by (simp add: kdeDMUnit_def)
  qed
  then show "evolves (map wpath dm_files) st st'"
    and "if kdeDMUnit (fst st) = ''plasmalogin.service'' then holds st' (wpath plasmalogin_conf) ?a
         else holds st' (wpath sddm_conf) (sddm_general @ ?a)" by blast+
qed

lemma addUserToGroup_evolves:
  assumes "addUserToGroup put get grp user st = Inr st'"
  shows "evolves (map wpath dm_files) st st'"
proof -
  obtain root s where st: "st = (root, s)" by (cases st)
  show ?thesis
  proof (cases "st' = st")
    case False
    obtain n out ref sz s' where n: "lookupEtc root ''group'' = Some n"
      and p: "put s (bytes_of out, None) = Inr (ref, sz, s')"
      and st': "st' = (modify_at root (etc_path ''group'') (set_body ref sz), s')"
      using assms False unfolding st addUserToGroup_def by (force split: option.splits sum.splits)
    have "lookup root (etc_path ''group'') = Some n" "ntype_of n = TypeFile"
      using n by (auto simp: lookupEtc_eq split: option.splits if_splits)
    from body_evolves(1)[OF this p] have "evolves [etc_path ''group''] st st'" by (simp add: st st')
    then show ?thesis
      by (rule evolves_mono) (simp add: dm_files_def flip: wpath_group)
  qed simp
qed

lemma writeLightDM_evolves: "writeLightDM put get user st = Inr st' \<Longrightarrow> evolves (map wpath dm_files) st st'"
proof -
  let ?p = "''/etc/lightdm/lightdm.conf.d/50-tbox-live-autologin.conf''"
  assume "writeLightDM put get user st = Inr st'"
  then obtain c st1 where 1: "writeFileNode put ?p c 420 st = Inr st1" "addUserToGroup put get ''autologin'' user st1 = Inr st'"
    unfolding writeLightDM_def Let_def bindR_Inr_iff by blast
  have "?p \<in> set dm_files" by (simp add: dm_files_def)
  from evolves_step[OF dm_write(1)[OF 1(1) this] addUserToGroup_evolves[OF 1(2)]]
  show "evolves (map wpath dm_files) st st'" .
qed

lemma writeGreetd_spec:
  assumes "writeGreetd put user cmd st = Inr st'"
  shows "evolves (map wpath dm_files) st st'"
    and "good st \<Longrightarrow> holds st' (wpath ''/etc/greetd/config.toml'') (greetd_body user cmd)"
  using dm_write[OF assms[unfolded writeGreetd_def]] by (simp_all add: dm_files_def)

text \<open>Whatever is written after the display manager's files leaves them alone.\<close>

lemma session_apart:
  assumes "p \<in> {''/etc/gdm/custom.conf'', plasmalogin_conf, sddm_conf, ''/etc/greetd/config.toml''}"
  shows "\<forall>w \<in> set (map wpath session_files). apart (wpath p) w"
proof -
  have "list_all (\<lambda>p. list_all (apart (wpath p)) (map wpath session_files))
      [''/etc/gdm/custom.conf'', plasmalogin_conf, sddm_conf, ''/etc/greetd/config.toml'']"
    by code_simp
  then show ?thesis using assms by (auto simp: list_all_iff)
qed

text \<open>What \<^verbatim>\<open>configure_dm\<close> leaves behind: the file the activity check of the desktop reads.\<close>

definition dm_written :: "string \<Rightarrow> string \<Rightarrow> node \<Rightarrow> node \<times> 's \<Rightarrow> bool" where
  "dm_written desktop user root0 st \<longleftrightarrow>
     (if desktop = ''gnome'' \<or> desktop = ''xfce'' then holds st (wpath ''/etc/gdm/custom.conf'') (gdm_body user)
      else if desktop = ''kde'' then
        (if kdeDMUnit root0 = ''plasmalogin.service''
         then holds st (wpath plasmalogin_conf) (sddm_autologin root0 user)
         else holds st (wpath sddm_conf) (sddm_general @ sddm_autologin root0 user))
      else (\<exists>cmd. holds st (wpath ''/etc/greetd/config.toml'') (greetd_body user cmd)))"

lemma dm_written_kept:
  assumes "evolves (map wpath session_files) st st'" "good st" "dm_written desktop user root0 st"
  shows "dm_written desktop user root0 st'"
  using assms(3) evolves_holds[OF assms(1,2) session_apart] unfolding dm_written_def
  by (auto split: if_splits)

lemma configure_dm_spec:
  assumes "configure_dm put get desktop user st = Inr st'" "good st"
    and "desktop \<in> {''gnome'', ''kde'', ''niri'', ''cosmic'', ''xfce''}"
  shows "evolves autologin_paths st st' \<and> dm_written desktop user (fst st) st'"
proof -
  have en: "evolves autologin_paths st st' \<and> dm_written desktop user (fst st) st'"
    if "evolves autologin_paths st st1" "dm_written desktop user (fst st) st1"
      "st' = (enable_first us (fst st1), snd st1)" "set us \<subseteq> set dm_units" for st1 us
  proof -
    have e: "evolves (map wpath session_files) st1 st'"
      using enable_first_evolves[OF that(4), of "fst st1" "snd st1"] that(3) by simp
    with dm_written_kept[OF e evolves_good[OF that(1) assms(2)] that(2)] show ?thesis
      using evolves_step[OF that(1) dm_in(2)[OF e]] by blast
  qed
  have us: "set [''gdm.service'', ''gdm3.service''] \<subseteq> set dm_units" "set [''greetd.service''] \<subseteq> set dm_units"
    "set [kdeDMUnit r, ''sddm.service''] \<subseteq> set dm_units"
    "set [''lightdm.service'', ''greetd.service'', ''gdm.service''] \<subseteq> set dm_units" for r
    by (auto simp: dm_units_def kdeDMUnit_def)
  consider (gnome) "desktop = ''gnome''" | (kde) "desktop = ''kde''" | (xfce) "desktop = ''xfce''"
    | (greetd) "desktop = ''niri'' \<or> desktop = ''cosmic''"
    using assms(3) by auto
  then show ?thesis
  proof cases
    case gnome
    then obtain st1 where 1: "writeGDM put user st = Inr st1"
      "st' = (enable_first [''gdm.service'', ''gdm3.service''] (fst st1), snd st1)"
      using assms(1) by (auto simp: configure_dm_def Let_def bindR_Inr_iff simp del: enable_first.simps)
    show ?thesis
      by (rule en[OF dm_in(1)[OF writeGDM_spec(1)[OF 1(1)]] _ 1(2) us(1)])
        (use writeGDM_spec(2)[OF 1(1) assms(2)] gnome in \<open>simp add: dm_written_def\<close>)
  next
    case kde
    then obtain st1 where 1: "writeSDDM put user st = Inr st1"
      "st' = (enable_first [kdeDMUnit (fst st1), ''sddm.service''] (fst st1), snd st1)"
      using assms(1) by (auto simp: configure_dm_def Let_def bindR_Inr_iff simp del: enable_first.simps)
    show ?thesis
      by (rule en[OF dm_in(1)[OF writeSDDM_spec(1)[OF 1(1) assms(2)]] _ 1(2) us(3)])
        (use writeSDDM_spec(2)[OF 1(1) assms(2)] kde in \<open>simp add: dm_written_def\<close>)
  next
    case xfce
    then obtain st1 st2 st3 where 1: "writeLightDM put get user st = Inr st1"
      "writeGreetd put user (xfce_session (fst st)) st1 = Inr st2" "writeGDM put user st2 = Inr st3"
      "st' = (enable_first [''lightdm.service'', ''greetd.service'', ''gdm.service''] (fst st3), snd st3)"
      using assms(1) by (auto simp: configure_dm_def Let_def bindR_Inr_iff simp del: enable_first.simps)
    have e: "evolves (map wpath dm_files) st st2"
      by (rule evolves_step[OF writeLightDM_evolves[OF 1(1)] writeGreetd_spec(1)[OF 1(2)]])
    show ?thesis
      by (rule en[OF dm_in(1)[OF evolves_step[OF e writeGDM_spec(1)[OF 1(3)]]] _ 1(4) us(4)])
        (use writeGDM_spec(2)[OF 1(3) evolves_good[OF e assms(2)]] xfce in \<open>simp add: dm_written_def\<close>)
  next
    case greetd
    define cmd where "cmd = (if desktop = ''niri'' then ''niri-session'' else ''cosmic-session'')"
    have "configure_dm put get desktop user st =
        bindR (writeGreetd put user cmd st) (\<lambda>(root, s). Inr (enable_first [''greetd.service''] root, s))"
      using greetd by (auto simp: configure_dm_def Let_def cmd_def simp del: enable_first.simps)
    from assms(1)[unfolded this] obtain st1 where 1: "writeGreetd put user cmd st = Inr st1"
      "st' = (enable_first [''greetd.service''] (fst st1), snd st1)"
      by (auto simp: bindR_Inr_iff simp del: enable_first.simps)
    show ?thesis
    proof (rule en[OF dm_in(1)[OF writeGreetd_spec(1)[OF 1(1)]] _ 1(2) us(2)])
      have "\<exists>cmd. holds st1 (wpath ''/etc/greetd/config.toml'') (greetd_body user cmd)"
        using writeGreetd_spec(2)[OF 1(1) assms(2)] by blast
      then show "dm_written desktop user (fst st) st1"
        using greetd by (elim disjE) (simp_all add: dm_written_def)
    qed
  qed
qed

lemma dm_written_active:
  assumes "dm_written desktop user root0 st" "desktop \<in> {''gnome'', ''kde'', ''niri'', ''cosmic'', ''xfce''}"
    and "plain_user user" "kdeDMUnit (fst st) = kdeDMUnit root0"
  shows "dmAutologinActive get st desktop"
proof -
  have w: "wpath ''/etc/gdm/custom.conf'' = splitClean ''etc/gdm/custom.conf''"
    "wpath ''/etc/greetd/config.toml'' = splitClean ''etc/greetd/config.toml''"
    "wpath plasmalogin_conf = splitClean (''etc/plasmalogin.conf.d'' @ ''/'' @ ''tbox-live-autologin.conf'')"
    "wpath sddm_conf = splitClean (''etc/sddm.conf.d'' @ ''/'' @ ''tbox-live-autologin.conf'')"
    "wpath plasmalogin_conf = splitClean ''etc/plasmalogin.conf.d'' @ [''tbox-live-autologin.conf'']"
    "wpath sddm_conf = splitClean ''etc/sddm.conf.d'' @ [''tbox-live-autologin.conf'']"
    by code_simp+
  have gdm: "gdm_active get st" if "holds st (wpath ''/etc/gdm/custom.conf'') (gdm_body user)"
    using readIfFile_holds[OF that[unfolded w(1)]] gdm_body_active by (simp add: gdm_active_def Let_def)
  have greetd: "greetd_active get st" if "holds st (wpath ''/etc/greetd/config.toml'') (greetd_body user cmd)" for cmd
    using readIfFile_holds[OF that[unfolded w(2)]] greetd_body_active by (simp add: greetd_active_def)
  have pl: "sddm_active get st" if "holds st (wpath plasmalogin_conf) c" "hasActiveLine c (kvWithValue ''User'')" for c
    using readIfFile_holds[OF that(1)[unfolded w(3)]] holds_dirChildren[OF that(1)[unfolded w(5)] refl] that(2)
    unfolding sddm_active_def Let_def list_ex_iff
    by (intro disjI1 bexI[of _ "''etc/plasmalogin.conf.d''"] bexI[of _ "''tbox-live-autologin.conf''"]) auto
  have sd: "sddm_active get st" if "holds st (wpath sddm_conf) c" "hasActiveLine c (kvWithValue ''User'')"
      "kdeDMUnit (fst st) \<noteq> ''plasmalogin.service''" for c
    using readIfFile_holds[OF that(1)[unfolded w(4)]] holds_dirChildren[OF that(1)[unfolded w(6)] refl] that(2,3)
    unfolding sddm_active_def Let_def list_ex_iff
    by (intro disjI1 bexI[of _ "''etc/sddm.conf.d''"] bexI[of _ "''tbox-live-autologin.conf''"]) auto
  consider (gdm) "desktop = ''gnome'' \<or> desktop = ''xfce''" | (kde) "desktop = ''kde''"
    | (greetd) "desktop = ''niri'' \<or> desktop = ''cosmic''"
    using assms(2) by auto
  then show ?thesis
  proof cases
    case g: gdm
    with assms(1) have "holds st (wpath ''/etc/gdm/custom.conf'') (gdm_body user)"
      by (elim disjE) (simp_all add: dm_written_def)
    from gdm[OF this] g show ?thesis by (elim disjE) (simp_all add: dmAutologinActive_def)
  next
    case kde
    with assms(1,4) have "sddm_active get st"
      using pl[OF _ sddm_body_active(1)[OF assms(3)]] sd[OF _ sddm_body_active(2)[OF assms(3)]]
      by (simp add: dm_written_def split: if_splits)
    with kde show ?thesis by (simp add: dmAutologinActive_def)
  next
    case g: greetd
    then obtain cmd where "holds st (wpath ''/etc/greetd/config.toml'') (greetd_body user cmd)"
      using assms(1) by (elim disjE) (auto simp: dm_written_def)
    from greetd[OF this] g show ?thesis by (elim disjE) (simp_all add: dmAutologinActive_def)
  qed
qed

lemma EnsureAutologin_spec:
  assumes "EnsureAutologin put get desktop user st = Inr st'" "good st" "plain_user user"
  shows "good st' \<and> same_but autologin_paths (fst st) (fst st') \<and> EnsureAutologin put get desktop user st' = Inr st' \<and>
    (desktop \<in> {''gnome'', ''kde'', ''niri'', ''cosmic'', ''xfce''} \<longrightarrow> dmAutologinActive get st' desktop)"
proof (cases "desktop \<in> {''gnome'', ''kde'', ''niri'', ''cosmic'', ''xfce''} \<and> \<not> dmAutologinActive get st desktop")
  case False
  then have "st' = st"
    using assms(1) by (auto simp: EnsureAutologin_def dmAutologinActive_def split: if_splits)
  with assms False show ?thesis by auto
next
  case True
  then have d: "desktop \<in> {''gnome'', ''kde'', ''niri'', ''cosmic'', ''xfce''}" by blast
  have ne: "desktop \<noteq> ''''" "desktop \<noteq> ''none''" using d by auto
  from assms(1) ne True obtain st1 root s where 1: "configure_dm put get desktop user st = Inr st1"
    "disableScreenLock put desktop st1 = Inr (root, s)" "st' = (live_niceties root, s)"
    unfolding EnsureAutologin_def by (auto simp: bindR_Inr_iff split: if_splits)
  have c: "evolves autologin_paths st st1" "dm_written desktop user (fst st) st1"
    using configure_dm_spec[OF 1(1) assms(2) d] by blast+
  have e: "evolves (map wpath session_files) st1 st'"
    unfolding 1(3) by (rule evolves_step[OF disableScreenLock_evolves[OF 1(2)] live_niceties_evolves])
  have all: "evolves autologin_paths st st'" by (rule evolves_step[OF c(1) dm_in(2)[OF e]])
  have "dmAutologinActive get st' desktop"
    by (rule dm_written_active[OF dm_written_kept[OF e evolves_good[OF c(1) assms(2)] c(2)] d assms(3)
          kde_units_kept[OF all assms(2)]])
  then show ?thesis using all assms(2) ne unfolding EnsureAutologin_def by (auto simp: evolves_at_def)
qed

end

section \<open>The live user that was written\<close>

abbreviation skel_entry :: "int \<Rightarrow> string \<times> node \<Rightarrow> (string \<times> node) list" where
  "skel_entry uid \<equiv> (\<lambda>(name, c).
       case ntype_of c of
         TypeDir \<Rightarrow>
           [(name, Node (blank_attrs\<lparr>n_mode := n_mode (attrs c), n_uid := uid, n_gid := uid\<rparr>) (copySkel uid c))]
       | TypeFile \<Rightarrow>
           [(name, Node (blank_attrs\<lparr>n_type := TypeFile, n_mode := n_mode (attrs c), n_uid := uid, n_gid := uid,
               n_ref := n_ref (attrs c), n_size := n_size (attrs c)\<rparr>) [])]
       | TypeSymlink \<Rightarrow>
           [(name, Node (blank_attrs\<lparr>n_type := TypeSymlink, n_mode := n_mode (attrs c), n_uid := uid, n_gid := uid,
               n_target := n_target (attrs c)\<rparr>) [])]
       | _ \<Rightarrow> [])"

lemma skel_entry_names: "map fst (skel_entry uid kc) = (if ntype_of (snd kc) \<in> {TypeDir, TypeFile, TypeSymlink} then [fst kc] else [])"
  by (cases kc) (simp split: ntype.split)

lemma copySkel_names:
  "map fst (copySkel uid skel) = map fst (filter (\<lambda>kc. ntype_of (snd kc) \<in> {TypeDir, TypeFile, TypeSymlink}) (children skel))"
proof -
  have "map fst (concat (map (skel_entry uid) kcs)) =
      map fst (filter (\<lambda>kc. ntype_of (snd kc) \<in> {TypeDir, TypeFile, TypeSymlink}) kcs)" for kcs
    by (induction kcs) (simp_all add: skel_entry_names del: insert_iff)
  then show ?thesis by (subst copySkel.simps)
qed

lemma copySkel_mem:
  assumes "(k, c') \<in> set (copySkel uid skel)"
  obtains c where "(k, c) \<in> set (children skel)" "(k, c') \<in> set (skel_entry uid (k, c))"
proof -
  have "set (copySkel uid skel) = \<Union> (set ` skel_entry uid ` set (children skel))"
    by (subst copySkel.simps) simp
  with assms obtain kc where kc: "kc \<in> set (children skel)" "(k, c') \<in> set (skel_entry uid kc)" by auto
  then have "k \<in> set (map fst (skel_entry uid kc))" by force
  then have "kc = (k, snd kc)" unfolding skel_entry_names by (cases kc) (auto split: if_splits)
  with kc that[of "snd kc"] show thesis by metis
qed

lemma copySkel_wf:
  assumes "wf_node skel" "n_type a = TypeDir"
  shows "wf_node (Node a (copySkel uid skel))"
  using assms
proof (induction skel arbitrary: a rule: measure_induct_rule[where f = size])
  case (less skel)
  show ?case
  proof (rule wf_nodeI)
    have "distinct (map fst (filter P (children skel)))" for P
      using wf_node_distinct[OF less.prems(1)] by (metis distinct_map_filter)
    then show "distinct (map fst (children (Node a (copySkel uid skel))))" by (simp only: node.sel copySkel_names)
  next
    fix k c'
    assume "(k, c') \<in> set (children (Node a (copySkel uid skel)))"
    then obtain c where c: "(k, c) \<in> set (children skel)" "(k, c') \<in> set (skel_entry uid (k, c))"
      by (auto elim: copySkel_mem)
    have ok: "name_ok k" "wf_node c" using wf_node_child[OF less.prems(1) c(1)] by auto
    have "wf_node (Node a (copySkel uid c))" if "n_type a = TypeDir" for a
      by (rule less.IH[OF size_children[OF c(1)] ok(2) that])
    then show "name_ok k \<and> wf_node c'" using c(2) ok(1) by (auto intro: wf_leaf split: ntype.splits)
  qed (use less.prems in simp)
qed

lemma copySkel_backed:
  assumes "backed get s skel" "n_type a = TypeDir"
  shows "backed get s (Node a (copySkel uid skel))"
  using assms
proof (induction skel arbitrary: a rule: measure_induct_rule[where f = size])
  case (less skel)
  show ?case
    unfolding backed_def
  proof (rule all_nodesI)
    fix k c'
    assume "(k, c') \<in> set (children (Node a (copySkel uid skel)))"
    then obtain c where c: "(k, c) \<in> set (children skel)" "(k, c') \<in> set (skel_entry uid (k, c))"
      by (auto elim: copySkel_mem)
    have b: "backed get s c" using less.prems(1) c(1) by (auto simp: backed_def dest: all_nodes_children)
    have d: "all_nodes (file_backed get s) (Node a (copySkel uid c))" if "n_type a = TypeDir" for a
      using less.IH[OF size_children[OF c(1)] b that] by (simp add: backed_def)
    have "file_backed get s (attrs c)" using b by (simp add: backed_def all_nodes_attrs)
    then show "all_nodes (file_backed get s) c'"
      using c(2) d by (auto simp: file_backed_def intro!: all_nodes_leaf split: ntype.splits option.splits)
  qed (use less.prems in \<open>simp add: file_backed_def\<close>)
qed

text \<open>What the home directory is to contain.\<close>

definition skel_children :: "int \<Rightarrow> node \<Rightarrow> (string \<times> node) list" where
  "skel_children uid root =
     (case Lookup root ''etc/skel'' of None \<Rightarrow> [] | Some skel \<Rightarrow> if is_dir skel then copySkel uid skel else [])"

definition home_node :: "int \<Rightarrow> node \<Rightarrow> node" where
  "home_node uid root = Node (blank_attrs\<lparr>n_mode := 448, n_uid := uid, n_gid := uid\<rparr>) (skel_children uid root)"

definition home_parts :: "node \<Rightarrow> string \<Rightarrow> string list" where
  "home_parts root name = split_on (CHR ''/'') (trim_prefix (live_home root name) ''/'')"

lemma home_parts_eq:
  "name_ok name \<Longrightarrow> home_parts root name = [''var'', ''home'', name] \<or> home_parts root name = [''home'', name]"
proof -
  assume n: "name_ok name"
  have s: "split_on (CHR ''/'') (''var'' @ CHR ''/'' # ''home'' @ CHR ''/'' # name) = [''var'', ''home'', name]"
    "split_on (CHR ''/'') (''home'' @ CHR ''/'' # name) = [''home'', name]"
    using n unfolding split_on_append by (simp_all add: split_on_no_sep name_ok_def)
  have "trim_prefix (''/var/home/'' @ name) ''/'' = ''var'' @ CHR ''/'' # ''home'' @ CHR ''/'' # name"
    "trim_prefix (''/home/'' @ name) ''/'' = ''home'' @ CHR ''/'' # name"
    by (simp_all add: trim_prefix_def)
  then show ?thesis unfolding home_parts_def live_home_def using s by simp
qed

definition user_paths :: "node \<Rightarrow> string \<Rightarrow> string list list" where
  "user_paths root name = [etc_path ''passwd'', etc_path ''shadow'', etc_path ''group'', etc_path ''gshadow'', home_parts root name]"

text \<open>What a run that adds the user promises.\<close>

definition live_user_written :: "'s bget \<Rightarrow> ('s \<Rightarrow> bool) \<Rightarrow> string \<Rightarrow> int \<Rightarrow> node \<times> 's \<Rightarrow> node \<times> 's \<Rightarrow> bool" where
  "live_user_written get invar name uid st st' \<longleftrightarrow>
     good_state get invar st' \<and> same_but (user_paths (fst st) name) (fst st) (fst st') \<and>
     (\<forall>(f, line) \<in> set (user_lines name uid (live_home (fst st) name)).
        (\<forall>c. holds_file get st (etc_path f) c \<longrightarrow> holds_file get st' (etc_path f) (append_line c line)) \<and>
        (f \<noteq> ''gshadow'' \<longrightarrow> (\<exists>c. holds_file get st (etc_path f) c))) \<and>
     lookup (fst st') (home_parts (fst st) name) = Some (home_node uid (fst st))"

context blob_store
begin

lemma make_home_spec:
  assumes "good (root, s)" "name_ok name"
  shows "evolves [home_parts root0 name] (root, s) (make_home (live_home root0 name) uid root, s)"
    and "lookup (make_home (live_home root0 name) uid root) (home_parts root0 name) = Some (home_node uid root)"
proof -
  let ?ps = "home_parts root0 name" and ?h = "Node (blank_attrs\<lparr>n_mode := 448, n_uid := uid, n_gid := uid\<rparr>) []"
  let ?r1 = "dirOf root ?ps (\<lambda>d m. set_child d m ?h)"
  have dir: "is_dir root" and wf: "wf_node root" and bk: "backed get s root"
    using assms(1) by (auto simp: good_state_def)
  have ne: "?ps \<noteq> []" and ok: "\<forall>p \<in> set ?ps. name_ok p" and ap: "apart (splitClean ''etc/skel'') ?ps"
  proof -
    have "splitClean ''etc/skel'' = [''etc'', ''skel'']" by code_simp
    then show "?ps \<noteq> []" "\<forall>p \<in> set ?ps. name_ok p" "apart (splitClean ''etc/skel'') ?ps"
      using home_parts_eq[OF assms(2), of root0] assms(2) by (auto simp: name_ok_def apart_def)
  qed
  note s1 = dirOf_set_child[OF dir ne, of ?h]
  have skel: "Lookup ?r1 ''etc/skel'' = Lookup root ''etc/skel''"
    using s1(2) ap by (simp add: same_but_def Lookup_def)
  have wf1: "wf_node ?r1" by (rule wf_dirOf_set_child[OF wf dir ne ok]) (simp add: wf_leaf)
  have bk1: "backed get s ?r1"
    using bk ne unfolding backed_def
    by (intro all_nodes_dirOf all_nodes_set_child) (auto simp: file_backed_def intro!: all_nodes_leaf)
  have "good (make_home (live_home root0 name) uid root, s) \<and>
      same_but [?ps] root (make_home (live_home root0 name) uid root) \<and>
      lookup (make_home (live_home root0 name) uid root) ?ps = Some (home_node uid root)"
  proof (cases "\<exists>skel. Lookup root ''etc/skel'' = Some skel \<and> is_dir skel")
    case True
    then obtain sk where sk: "Lookup root ''etc/skel'' = Some sk" "is_dir sk" by blast
    define f where "f = (\<lambda>h. Node (attrs h) (copySkel uid sk))"
    have sw: "wf_node sk" and sb: "backed get s sk"
      using sk(1) wf_lookup[OF wf] bk by (auto simp: Lookup_def backed_def dest: all_nodes_lookup)
    have at: "ntype_of (f ?h) = ntype_of ?h" by (simp add: f_def)
    note m = modify_at_lookup[where f = f, OF s1(1) at]
    have eq: "make_home (live_home root0 name) uid root = modify_at ?r1 ?ps f"
      unfolding make_home_def Let_def home_parts_def[symmetric] skel sk by (simp add: sk f_def)
    have h: "f ?h = home_node uid root" by (simp add: f_def home_node_def skel_children_def sk)
    have "wf_node (modify_at ?r1 ?ps f)"
      by (rule modify_at_wf[OF wf1 s1(1)]) (simp add: f_def copySkel_wf[OF sw])
    moreover have "backed get s (modify_at ?r1 ?ps f)"
      unfolding backed_def
      by (rule modify_at_all[OF bk1[unfolded backed_def] s1(1)])
        (use copySkel_backed[OF sb] in \<open>simp add: f_def backed_def\<close>)
    moreover have "same_but [?ps] root (modify_at ?r1 ?ps f)"
      by (rule same_but_mono[OF same_but_trans[OF s1(2) m(3)]]) simp
    ultimately show ?thesis
      using m(1,2) s1(3) assms(1) by (simp add: good_state_def eq h)
  next
    case False
    then have nosk: "skel_children uid root = []" by (auto simp: skel_children_def split: option.split)
    have "make_home (live_home root0 name) uid root = ?r1"
      unfolding make_home_def Let_def home_parts_def[symmetric] skel using False by (auto split: option.split)
    then show ?thesis
      using wf1 bk1 s1 assms(1) by (simp add: good_state_def home_node_def nosk)
  qed
  then show "evolves [?ps] (root, s) (make_home (live_home root0 name) uid root, s)"
    and "lookup (make_home (live_home root0 name) uid root) ?ps = Some (home_node uid root)"
    by (auto simp: evolves_at_def)
qed


lemma etc_edit_spec:
  assumes "etc_edit put get (f, line) st = Inr st'" "good st"
  shows "evolves [etc_path f] st st'"
    and "holds st (etc_path f) c \<Longrightarrow> holds st' (etc_path f) (append_line c line)"
    and "f \<noteq> ''gshadow'' \<Longrightarrow> \<exists>c. holds st (etc_path f) c"
proof -
  obtain root s where st: "st = (root, s)" by (cases st)
  have "evolves [etc_path f] st st' \<and> (holds st (etc_path f) c \<longrightarrow> holds st' (etc_path f) (append_line c line)) \<and>
      (f \<noteq> ''gshadow'' \<longrightarrow> (\<exists>c. holds st (etc_path f) c))"
  proof (cases "lookupEtc root f")
    case None
    then have "\<not> holds st (etc_path f) c" by (auto simp: lookupEtc_eq holds_file_def st split: option.splits if_splits)
    with None assms(1) show ?thesis by (auto simp: etc_edit_def st split: if_splits)
  next
    case (Some n)
    then have n: "lookup root (etc_path f) = Some n" "ntype_of n = TypeFile"
      by (auto simp: lookupEtc_eq split: option.splits if_splits)
    from Some assms(1) obtain b ref sz s' where b: "get s (n_ref (attrs n)) = Some b"
      "put s (bytes_of (append_line (string_of_bytes b) line), None) = Inr (ref, sz, s')"
      "st' = (modify_at root (etc_path f) (set_body ref sz), s')"
      by (auto simp: etc_edit_def st readFile_def split: option.splits sum.splits)
    have be: "b = bytes_of c" if "holds st (etc_path f) c" for c using that n b(1) by (auto simp: holds_file_def st)
    have ex: "holds st (etc_path f) (string_of_bytes b)" using n b(1) by (simp add: holds_file_def st bytes_of_string)
    have 1: "evolves [etc_path f] st st'" using body_evolves(1)[OF n b(2)] by (simp only: st b(3))
    have 2: "holds st' (etc_path f) (append_line (string_of_bytes b) line)"
      using body_evolves(2)[OF n b(2)] assms(2) by (simp only: st b(3))
    have 3: "string_of_bytes b = c" if "holds st (etc_path f) c" using be[OF that] by simp
    show ?thesis using 1 2 3 ex by metis
  qed
  then show "evolves [etc_path f] st st'" "holds st (etc_path f) c \<Longrightarrow> holds st' (etc_path f) (append_line c line)"
    "f \<noteq> ''gshadow'' \<Longrightarrow> \<exists>c. holds st (etc_path f) c" by blast+
qed

lemma good_file_holds:
  assumes "good st" "lookup (fst st) p = Some n" "ntype_of n = TypeFile"
  shows "\<exists>c. holds st p c"
proof -
  have "file_backed get (snd st) (attrs n)"
    by (rule all_nodes_attrs[OF all_nodes_lookup[OF _ assms(2)]]) (use assms(1) in \<open>simp add: good_state_def backed_def\<close>)
  then obtain b where "get (snd st) (n_ref (attrs n)) = Some b"
    using assms(3) by (auto simp: file_backed_def split: option.splits)
  then have "holds st p (string_of_bytes b)" using assms(2,3) by (simp add: holds_file_def)
  then show ?thesis by blast
qed

lemma holds_before:
  assumes "evolves W st st'" "good st" "\<forall>w \<in> set W. apart p w" "\<exists>c. holds st' p c"
  shows "\<exists>c. holds st p c"
  using assms(4) evolves_lookup[OF assms(1-3)] good_file_holds[OF assms(2)] by (auto simp: holds_file_def)

lemma etc_edits_spec:
  assumes "foldR (etc_edit put get) es st = Inr st'" "good st" "sorted_wrt apart (map (etc_path \<circ> fst) es)"
  shows "evolves (map (etc_path \<circ> fst) es) st st' \<and>
    (\<forall>(f, l) \<in> set es. (\<forall>c. holds st (etc_path f) c \<longrightarrow> holds st' (etc_path f) (append_line c l)) \<and>
       (f \<noteq> ''gshadow'' \<longrightarrow> (\<exists>c. holds st (etc_path f) c)))"
  using assms
proof (induction es arbitrary: st)
  case (Cons e es)
  obtain f l where e: "e = (f, l)" by (cases e)
  from Cons.prems(1) obtain st1 where 1: "etc_edit put get (f, l) st = Inr st1" "foldR (etc_edit put get) es st1 = Inr st'"
    by (auto simp: e bindR_Inr_iff)
  note s = etc_edit_spec[OF 1(1) Cons.prems(2)]
  have g1: "good st1" by (rule evolves_good[OF s(1) Cons.prems(2)])
  have ap: "\<forall>w \<in> set (map (etc_path \<circ> fst) es). apart (etc_path f) w" using Cons.prems(3) by (simp add: e)
  have IH: "evolves (map (etc_path \<circ> fst) es) st1 st'"
    "\<forall>(f, l) \<in> set es. (\<forall>c. holds st1 (etc_path f) c \<longrightarrow> holds st' (etc_path f) (append_line c l)) \<and>
       (f \<noteq> ''gshadow'' \<longrightarrow> (\<exists>c. holds st1 (etc_path f) c))"
    using Cons.IH[OF 1(2) g1] Cons.prems(3) unfolding list.map sorted_wrt.simps by blast+
  have sym: "apart (etc_path g) (etc_path f)" if "(g, m) \<in> set es" for g m
    using ap that by (force simp: apart_def)
  have h1: "holds st1 (etc_path g) c" if "(g, m) \<in> set es" "holds st (etc_path g) c" for g m c
    by (rule evolves_holds[OF s(1) Cons.prems(2) _ that(2)]) (simp add: sym[OF that(1)])
  have h2: "\<exists>c. holds st (etc_path g) c" if "(g, m) \<in> set es" "\<exists>c. holds st1 (etc_path g) c" for g m
    by (rule holds_before[OF s(1) Cons.prems(2) _ that(2)]) (simp add: sym[OF that(1)])
  have h3: "holds st' (etc_path f) (append_line c l)" if "holds st (etc_path f) c" for c
    by (rule evolves_holds[OF IH(1) g1 ap s(2)[OF that]])
  have ev: "evolves (map (etc_path \<circ> fst) (e # es)) st st'"
    using evolves_trans[OF s(1) IH(1)] by (simp add: e)
  have "(\<forall>c. holds st (etc_path g) c \<longrightarrow> holds st' (etc_path g) (append_line c m)) \<and>
      (g \<noteq> ''gshadow'' \<longrightarrow> (\<exists>c. holds st (etc_path g) c))" if "(g, m) \<in> set (e # es)" for g m
  proof (cases "(g, m) = e")
    case True
    then show ?thesis using h3 s(3) by (simp add: e)
  next
    case False
    then have gm: "(g, m) \<in> set es" using that by simp
    show ?thesis using bspec[OF IH(2) gm] h1[OF gm] h2[OF gm] by (simp only: prod.case) blast
  qed
  then show ?case using ev by blast
qed simp

lemma user_present_holds:
  assumes "holds st (etc_path ''passwd'') c"
  shows "user_present get name st \<longleftrightarrow> contains c (nl @ name @ '':'')"
  using assms by (cases st) (auto simp: user_present_def holds_file_def lookupEtc_eq readFile_def)

lemma append_line_present: "c \<noteq> '''' \<Longrightarrow> contains (append_line c (name @ '':'' @ r)) (nl @ name @ '':'')"
proof -
  assume "c \<noteq> ''''"
  then have "\<exists>a. append_line c (name @ '':'' @ r) = a @ nl @ name @ '':'' @ r @ nl"
    by (auto simp: append_line_def has_suffix_iff)
  then obtain a where "append_line c (name @ '':'' @ r) = a @ (nl @ name @ '':'') @ r @ nl" by auto
  then show ?thesis unfolding contains_iff by blast
qed


lemma EnsureLiveUser_spec:
  assumes "EnsureLiveUser put get name uid st = Inr st'" "good st" "name_ok name" "\<not> user_present get name st"
  shows "good st' \<and> same_but (user_paths (fst st) name) (fst st) (fst st') \<and>
    (\<forall>(f, line) \<in> set (user_lines name uid (live_home (fst st) name)).
       (\<forall>c. holds st (etc_path f) c \<longrightarrow> holds st' (etc_path f) (append_line c line)) \<and> (f \<noteq> ''gshadow'' \<longrightarrow> (\<exists>c. holds st (etc_path f) c))) \<and>
    lookup (fst st') (home_parts (fst st) name) = Some (home_node uid (fst st))"
proof -
  let ?home = "live_home (fst st) name" and ?hp = "home_parts (fst st) name"
  let ?es = "user_lines name uid ?home"
  from assms(1,4) obtain st1 where 1: "foldR (etc_edit put get) ?es st = Inr st1"
    and st': "st' = (make_home ?home uid (fst st1), snd st1)"
    unfolding EnsureLiveUser_def Let_def by (auto simp: bindR_Inr_iff)
  have paths: "map (etc_path \<circ> fst) ?es = [etc_path ''passwd'', etc_path ''shadow'', etc_path ''group'', etc_path ''gshadow'']"
    by (simp add: user_lines_def)
  have names: "etc_path f = [''etc'', f]" if "f \<in> {''passwd'', ''shadow'', ''group'', ''gshadow'', ''skel''}" for f
  proof -
    have "list_all (\<lambda>f. etc_path f = [''etc'', f]) [''passwd'', ''shadow'', ''group'', ''gshadow'', ''skel'']" by code_simp
    with that show ?thesis by auto
  qed
  have "sorted_wrt apart (map (etc_path \<circ> fst) ?es)" unfolding paths by (simp add: names apart_def)
  from etc_edits_spec[OF 1 assms(2) this] have E: "evolves (map (etc_path \<circ> fst) ?es) st st1"
    "\<forall>(f, l) \<in> set ?es. (\<forall>c. holds st (etc_path f) c \<longrightarrow> holds st1 (etc_path f) (append_line c l)) \<and>
       (f \<noteq> ''gshadow'' \<longrightarrow> (\<exists>c. holds st (etc_path f) c))" by blast+
  have g1: "good st1" by (rule evolves_good[OF E(1) assms(2)])
  have "good (fst st1, snd st1)" using g1 by simp
  note H = make_home_spec[OF this assms(3), of "fst st" uid, unfolded st'[symmetric] prod.collapse]
  have ap: "apart (etc_path f) ?hp" if "f \<in> {''passwd'', ''shadow'', ''group'', ''gshadow''}" for f
    using home_parts_eq[OF assms(3), of "fst st"] that names[of f] by (auto simp: apart_def)
  have sk: "Lookup (fst st1) ''etc/skel'' = Lookup (fst st) ''etc/skel''"
    unfolding Lookup_def
  proof -
    have s: "splitClean ''etc/skel'' = [''etc'', ''skel'']" by code_simp
    show "lookup (fst st1) (splitClean ''etc/skel'') = lookup (fst st) (splitClean ''etc/skel'')"
      by (rule evolves_lookup[OF E(1) assms(2)]) (simp add: paths names apart_def s)
  qed
  have "evolves (user_paths (fst st) name) st st'"
    using evolves_trans[OF E(1) H(1)] by (simp add: paths user_paths_def)
  then have "good st' \<and> same_but (user_paths (fst st) name) (fst st) (fst st')"
    using assms(2) by (simp add: evolves_at_def)
  moreover have "lookup (fst st') ?hp = Some (home_node uid (fst st))"
    using H(2) sk by (simp add: st' home_node_def skel_children_def)
  moreover have "holds st' (etc_path f) c" if "holds st1 (etc_path f) c" "(f, l) \<in> set ?es" for f l c
    by (rule evolves_holds[OF H(1) g1 _ that(1)]) (use ap[of f] that(2) in \<open>auto simp: user_lines_def\<close>)
  ultimately show ?thesis using E(2) by blast
qed

lemma EnsureLiveUser_final:
  assumes "EnsureLiveUser put get name uid st = Inr st'" "good st" "name_ok name"
  shows "if user_present get name st then st' = st
    else live_user_written get invar name uid st st' \<and>
      (\<forall>c. holds st (etc_path ''passwd'') c \<longrightarrow> c \<noteq> '''' \<longrightarrow> EnsureLiveUser put get name uid st' = Inr st')"
proof (cases "user_present get name st")
  case True
  with assms(1) show ?thesis by (simp add: EnsureLiveUser_def)
next
  case False
  note s = EnsureLiveUser_spec[OF assms False]
  have "EnsureLiveUser put get name uid st' = Inr st'" if "holds st (etc_path ''passwd'') c" "c \<noteq> ''''" for c
  proof -
    let ?line = "name @ '':'' @ ''x:'' @ int_dec uid @ '':'' @ int_dec uid @ '':Live User:'' @ live_home (fst st) name @ '':/bin/bash''"
    have "(''passwd'', ?line) \<in> set (user_lines name uid (live_home (fst st) name))" by (simp add: user_lines_def)
    with s that(1) have "holds st' (etc_path ''passwd'') (append_line c ?line)" by blast
    then have "user_present get name st'"
      using user_present_holds append_line_present[OF that(2)] by blast
    then show ?thesis by (simp add: EnsureLiveUser_def)
  qed
  with s False show ?thesis unfolding live_user_written_def by auto
qed

end


text \<open>
  C25. Autologin. A run that succeeds keeps the tree well formed and backed, touches only the
  files of the display managers and of the session, leaves the autologin of a known desktop
  active, and is idempotent: a second run changes nothing. For both stores, with a user name
  that is not empty and has no white space.
\<close>

theorem EnsureAutologin_idempotent:
  "plain_user user \<longrightarrow>
   (EnsureAutologin mem_put mem_open desktop user st = (Inr st' :: 'e live_error + _) \<longrightarrow> good_state mem_open (\<lambda>_. True) st \<longrightarrow>
     good_state mem_open (\<lambda>_. True) st' \<and> same_but autologin_paths (fst st) (fst st') \<and>
     EnsureAutologin mem_put mem_open desktop user st' = (Inr st' :: 'e live_error + _) \<and>
     (desktop \<in> {''gnome'', ''kde'', ''niri'', ''cosmic'', ''xfce''} \<longrightarrow> dmAutologinActive mem_open st' desktop)) \<and>
   (EnsureAutologin (dir_put os_err) dir_open desktop user dt = (Inr dt' :: 'e live_error + _) \<longrightarrow> good_state dir_open ds_inv dt \<longrightarrow>
     good_state dir_open ds_inv dt' \<and> same_but autologin_paths (fst dt) (fst dt') \<and>
     EnsureAutologin (dir_put os_err) dir_open desktop user dt' = (Inr dt' :: 'e live_error + _) \<and>
     (desktop \<in> {''gnome'', ''kde'', ''niri'', ''cosmic'', ''xfce''} \<longrightarrow> dmAutologinActive dir_open dt' desktop))"
  by (intro conjI[of "_ \<longrightarrow> _" "_ \<longrightarrow> _"] impI, rule mem.EnsureAutologin_spec, assumption+,
      rule dir.EnsureAutologin_spec, assumption+)

definition live_tree :: node where
  "live_tree = plain_dir
     [(''etc'', plain_dir [(''passwd'', plain_file ''m0'' 5), (''shadow'', plain_file ''m1'' 0), (''group'', plain_file ''m1'' 0),
        (''skel'', plain_dir [(''.profile'', plain_file ''m1'' 0)])]),
      (''usr'', plain_dir [(''lib'', plain_dir [(''systemd'', plain_dir [(''system'', plain_dir
        [(''plasmalogin.service'', plain_file ''m1'' 0)])])])]),
      (''home'', plain_dir [])]"

definition live_start :: "node \<times> memstore" where
  "live_start = (live_tree, \<lparr>blobs = [bytes_of ''root:'', []]\<rparr>)"

definition live_user_result :: "node \<times> memstore" where
  "live_user_result = projr (EnsureLiveUser mem_put mem_open ''tuna'' 1000 live_start :: string live_error + _)"

lemma live_start_good: "good_state mem_open (\<lambda>_. True) live_start"
proof -
  have "is_dir live_tree" "wf_node live_tree" "backed mem_open (snd live_start) live_tree" by code_simp+
  then show ?thesis by (simp add: good_state_def live_start_def)
qed


lemma mem_write_ok: "\<exists>st'. writeFileNode mem_put p c m st = (Inr st' :: string live_error + _)"
  by (cases st) (simp add: writeFileNode_def mem_put_def)

lemma mem_lock_ok: "\<exists>r s. disableScreenLock mem_put desktop st = (Inr (r, s) :: string live_error + _)"
proof -
  have "\<exists>st'. foldR (\<lambda>(p, content, mode). writeFileNode mem_put p content mode) xs st = (Inr st' :: string live_error + _)" for xs
  proof (induction xs arbitrary: st)
    case (Cons x xs)
    obtain p c m where x: "x = (p, c, m)" by (cases x)
    obtain st1 where "writeFileNode mem_put p c m st = (Inr st1 :: string live_error + _)" using mem_write_ok by blast
    with Cons.IH[of st1] show ?case by (simp add: x)
  qed simp
  then show ?thesis unfolding disableScreenLock_def by (metis surj_pair)
qed

lemma mem_niri_ok:
  "\<exists>st'. EnsureAutologin mem_put mem_open ''niri'' user st = (Inr st' :: string live_error + _)"
proof (cases "dmAutologinActive mem_open st ''niri''")
  case False
  obtain r1 s1 where w: "writeGreetd mem_put user ''niri-session'' st = (Inr (r1, s1) :: string live_error + _)"
    using mem_write_ok unfolding writeGreetd_def by (metis surj_pair)
  obtain r2 s2 where "disableScreenLock mem_put ''niri'' (enable_first [''greetd.service''] r1, s1) = (Inr (r2, s2) :: string live_error + _)"
    using mem_lock_ok by blast
  with w False show ?thesis
    by (simp add: EnsureAutologin_def configure_dm_def Let_def del: enable_first.simps)
qed (simp add: EnsureAutologin_def)

theorem EnsureAutologin_idempotent_witness:
  "\<exists>st'. EnsureAutologin mem_put mem_open ''niri'' ''tuna'' live_start = (Inr st' :: string live_error + _) \<and>
     EnsureAutologin mem_put mem_open ''niri'' ''tuna'' st' = (Inr st' :: string live_error + _) \<and>
     dmAutologinActive mem_open st' ''niri''"
proof -
  obtain st' where r: "EnsureAutologin mem_put mem_open ''niri'' ''tuna'' live_start = (Inr st' :: string live_error + _)"
    using mem_niri_ok by blast
  have u: "plain_user ''tuna''" by code_simp
  show ?thesis
    using EnsureAutologin_idempotent[of "''tuna''" "''niri''" live_start st', THEN mp, OF u, THEN conjunct1,
        rule_format, OF r live_start_good] r by auto
qed

text \<open>
  The search for an existing account needs a line break before the name, so an account on
  the first line of passwd is not seen, and a second entry of that name is appended.
\<close>

lemma first_line_user_repeated:
  "user_present mem_open ''tuna'' (live_tree, \<lparr>blobs = [bytes_of ''tuna:x:1:1::/:/bin/sh'', []]\<rparr>) = False"
  by code_simp

end
