(* ===== verification/Iso9660.thy ===== *)
theory Iso9660
  imports Prelude "HOL-Library.Multiset"
begin

unbundle bit_operations_syntax

text \<open>
  The ISO 9660 writer (\<^verbatim>\<open>internal/purefs/iso9660.go\<close>): the layout computed from the declared
  sizes, the encoding of directory records, path tables, volume descriptors and the boot
  catalog, and the single sequential pass that writes them.

  Sizes, sectors and positions are \<open>int\<close>; where the code narrows them to 32, 16 or 8 bits the
  model does too. The clock and the case table of \<^verbatim>\<open>strings.ToUpper\<close> are fields of an
  environment record. A source is the result of opening it: an error, or the bytes it yields
  and the error it ends with.
\<close>

section \<open>Inputs and tree\<close>

abbreviation sectorSize :: int where
  "sectorSize \<equiv> 2048"

type_synonym 'e source = "'e + (bytes \<times> 'e option)"

record 'e iso_input =
  in_path :: string
  in_size :: int
  in_src :: "'e source"

record 'e iso_entry =
  e_name :: string
  e_size :: int
  e_src :: "'e source"
  e_id :: nat

datatype 'e iso_dir = IsoDir (d_name: string) (d_subdirs: "'e iso_dir list") (d_files: "'e iso_entry list")

text \<open>
  \<^verbatim>\<open>getDir\<close> finds the directory of a path, making what is missing; \<^verbatim>\<open>dirByPath\<close> is only the
  index of that tree, so the walk goes by name. The caller appends one file.
\<close>

fun add_file :: "string list \<Rightarrow> 'e iso_entry \<Rightarrow> 'e iso_dir \<Rightarrow> 'e iso_dir"
  and add_below :: "string \<Rightarrow> string list \<Rightarrow> 'e iso_entry \<Rightarrow> 'e iso_dir list \<Rightarrow> 'e iso_dir list" where
  "add_file [] e (IsoDir n ds fs) = IsoDir n ds (fs @ [e])"
| "add_file (p # ps) e (IsoDir n ds fs) = IsoDir n (add_below p ps e ds) fs"
| "add_below p ps e [] = [add_file ps e (IsoDir p [] [])]"
| "add_below p ps e (d # ds) =
     (if d_name d = p then add_file ps e d # ds else d # add_below p ps e ds)"

definition dir_parts :: "string \<Rightarrow> string list" where
  "dir_parts p = (if p = ''/'' then [] else split_on (CHR ''/'') (trim_by (\<lambda>c. c = CHR ''/'') p))"

definition iso_clean :: "string \<Rightarrow> string" where
  "iso_clean p = path_clean (CHR ''/'' # p)"

definition entry_of :: "nat \<Rightarrow> 'e iso_input \<Rightarrow> 'e iso_entry" where
  "entry_of i f = \<lparr>e_name = path_base (iso_clean (in_path f)), e_size = in_size f, e_src = in_src f, e_id = i\<rparr>"

definition add_input :: "nat \<times> 'e iso_input \<Rightarrow> 'e iso_dir \<Rightarrow> 'e iso_dir" where
  "add_input = (\<lambda>(i, f). add_file (dir_parts (path_dir (iso_clean (in_path f)))) (entry_of i f))"

definition iso_tree :: "'e iso_input list \<Rightarrow> 'e iso_dir" where
  "iso_tree fs = fold add_input (enumerate 0 fs) (IsoDir '''' [] [])"

text \<open>The boot entry is the last input at the boot path.\<close>

definition boot_entry :: "'e iso_input list \<Rightarrow> string \<Rightarrow> 'e iso_entry option" where
  "boot_entry fs bootImage =
     map_option (\<lambda>(i, f). entry_of i f)
       (find (\<lambda>(i, f). iso_clean (in_path f) = iso_clean bootImage) (rev (enumerate 0 fs)))"

definition sort_dir :: "'e iso_dir \<Rightarrow> 'e iso_dir" where
  "sort_dir d = IsoDir (d_name d) (sort_key d_name (d_subdirs d)) (sort_key e_name (d_files d))"

text \<open>The breadth-first list of the directories, each with its path.\<close>

lemma size_subdirs: "size_list size (d_subdirs d) < size d"
  by (cases d) simp

lemma size_list_sum: "size_list f xs = sum_list (map f xs) + length xs"
  by (induction xs) auto

lemma sum_list_sort: "sum_list (map f (sort_key g xs)) = (sum_list (map f xs) :: nat)"
  by (metis mset_map mset_sort sum_mset_sum_list)

function bfs :: "(string list \<times> 'e iso_dir) list \<Rightarrow> (string list \<times> 'e iso_dir) list" where
  "bfs [] = []"
| "bfs ((p, d) # q) =
     (let d' = sort_dir d in (p, d') # bfs (q @ map (\<lambda>s. (p @ [d_name s], s)) (d_subdirs d')))"
  by pat_completeness auto
termination
proof (relation "measure (\<lambda>q. sum_list (map (size \<circ> snd) q))")
  fix p q d and d' :: "'e iso_dir"
  assume d': "d' = sort_dir d"
  have "sum_list (map (size \<circ> snd \<circ> (\<lambda>s. (p @ [d_name s], s))) (d_subdirs d')) = sum_list (map size (d_subdirs d))"
    by (simp add: d' sort_dir_def sum_list_sort comp_def)
  then show "(q @ map (\<lambda>s. (p @ [d_name s], s)) (d_subdirs d'), (p, d) # q) \<in> measure (\<lambda>q. sum_list (map (size \<circ> snd) q))"
    using size_subdirs[of d] by (simp add: size_list_sum comp_def)
qed simp

declare bfs.simps(2) [simp del]

section \<open>Record encoding\<close>

definition ceilSector :: "int \<Rightarrow> int" where
  "ceilSector n = (n + sectorSize - 1) div sectorSize * sectorSize"

record iso_time =
  t_year :: int
  t_month :: nat
  t_day :: nat
  t_hour :: nat
  t_minute :: nat
  t_second :: nat

record iso_env =
  env_upper :: "string \<Rightarrow> nat list"
  env_now :: iso_time

text \<open>\<open>env_upper\<close> gives the code points of the upper-cased name, over which the loop runs.\<close>

definition iso_rune :: "nat \<Rightarrow> char" where
  "iso_rune r =
     (if (65 \<le> r \<and> r \<le> 90) \<or> (48 \<le> r \<and> r \<le> 57) \<or> r = 95 \<or> r = 46 then char_of r else CHR ''_'')"

definition isoName :: "iso_env \<Rightarrow> string \<Rightarrow> bool \<Rightarrow> string" where
  "isoName env name isDir =
     (let s0 = map iso_rune (env_upper env name);
          s1 = (if \<not> isDir \<and> \<not> contains s0 ''.'' then s0 @ ''.'' else s0);
          s2 = (if \<not> isDir then s1 @ '';1'' else s1)
      in if length s2 > 30 then drop (length s2 - 30) s2 else s2)"

definition both32 :: "u32 \<Rightarrow> bytes" where
  "both32 v = le32 v @ be32 v"

definition both16 :: "u16 \<Rightarrow> bytes" where
  "both16 v = le16 v @ rev (le16 v)"

definition recTime :: "iso_time \<Rightarrow> bytes" where
  "recTime t = [word_of_int (t_year t - 1900), word_of_nat (t_month t), word_of_nat (t_day t),
     word_of_nat (t_hour t), word_of_nat (t_minute t), word_of_nat (t_second t), 0]"

definition maxExtent :: int where
  "maxExtent = 4294965248"

function span_loop :: "int \<Rightarrow> int \<Rightarrow> (int \<times> int) list" where
  "span_loop sz off =
     (if off < sz then (off, min (sz - off) maxExtent) # span_loop sz (off + maxExtent) else [])"
  by pat_completeness auto
termination by (relation "measure (\<lambda>(sz, off). nat (sz - off))") (auto simp: maxExtent_def)

declare span_loop.simps [simp del]

definition extentSpans :: "int \<Rightarrow> (int \<times> int) list" where
  "extentSpans sz = (if sz \<le> maxExtent then [(0, sz)] else span_loop sz 0)"

text \<open>The system use area of a record: SP and ER on the root's own record, RR, PX, and NM with the real name.\<close>

definition susp_root :: bytes where
  "susp_root = bytes_of ''SP'' @ [7, 1, 0xBE, 0xEF, 0] @ bytes_of ''ER'' @ [18, 1, 10, 0, 0, 1] @ bytes_of ''RRIP_1991A''"

definition susp_px :: "bool \<Rightarrow> bytes" where
  "susp_px isDir =
     bytes_of ''PX'' @ [36, 1] @ both32 (if isDir then 0x416D else 0x8124) @ both32 (if isDir then 2 else 1) @ both32 0 @ both32 0"

definition systemUse :: "string \<Rightarrow> bool \<Rightarrow> nat \<Rightarrow> bytes" where
  "systemUse name isDir dot =
     (if dot = 1 \<and> name = ''SP'' then susp_root else []) @
     bytes_of ''RR'' @ [5, 1, if dot \<noteq> 0 then 1 else 9] @
     susp_px isDir @
     (if dot = 0 then bytes_of ''NM'' @ [word_of_nat (5 + length name), 1, 0] @ bytes_of name else [])"

definition rec_id :: "iso_env \<Rightarrow> string \<Rightarrow> bool \<Rightarrow> nat \<Rightarrow> bytes" where
  "rec_id env name isDir dot =
     (if dot = 1 then [0] else if dot = 2 then [1] else bytes_of (isoName env name isDir))"

text \<open>
  The record is a zeroed buffer of its length into which the fields are copied; the fields
  are adjacent, so it is their concatenation.
\<close>

definition dirRecord :: "iso_env \<Rightarrow> string \<Rightarrow> int \<Rightarrow> int \<Rightarrow> bool \<Rightarrow> nat \<Rightarrow> bool \<Rightarrow> bytes" where
  "dirRecord env name extent sz isDir dot multi =
     (let ident = rec_id env name isDir dot;
          base = 33 + length ident;
          pad = (if base mod 2 = 1 then 1 else 0);
          su0 = systemUse name isDir dot;
          su = (if (base + pad + length su0) mod 2 = 1 then su0 @ [0] else su0);
          rl = base + pad + length su;
          flags = (if isDir then 0x02 else 0) OR (if multi then 0x80 else 0)
      in [word_of_nat rl, 0] @ both32 (word_of_int extent) @ both32 (word_of_int sz) @
         recTime (env_now env) @ [flags, 0, 0] @ both16 1 @ [word_of_nat (length ident)] @
         ident @ replicate pad 0 @ su)"

section \<open>Directories and path tables\<close>

text \<open>Sizing: the loop variables are the bytes used and the position in the sector.\<close>

definition add_len :: "bytes \<Rightarrow> int \<times> int \<Rightarrow> int \<times> int" where
  "add_len rec = (\<lambda>(used, inSector).
     let rl = int (length rec);
         (used, inSector) = (if inSector + rl > sectorSize then (used + (sectorSize - inSector), 0) else (used, inSector))
     in (used + rl, (inSector + rl) mod sectorSize))"

definition add_rec :: "bytes \<Rightarrow> bytes \<times> int \<Rightarrow> bytes \<times> int" where
  "add_rec rec = (\<lambda>(buf, inSector).
     let rl = int (length rec);
         (buf, inSector) = (if inSector + rl > sectorSize then (buf @ replicate (nat (sectorSize - inSector)) 0, 0) else (buf, inSector))
     in (buf @ rec, (inSector + rl) mod sectorSize))"

definition dot_name :: "string list \<Rightarrow> string" where
  "dot_name p = (if p = [] then ''SP'' else '''')"

definition size_records :: "iso_env \<Rightarrow> string list \<times> 'e iso_dir \<Rightarrow> bytes list" where
  "size_records env = (\<lambda>(p, d).
     dirRecord env (dot_name p) 0 0 True 1 False #
     dirRecord env '''' 0 0 True 2 False #
     map (\<lambda>s. dirRecord env (d_name s) 0 0 True 0 False) (d_subdirs d) @
     concat (map (\<lambda>f. map (\<lambda>_. dirRecord env (e_name f) 0 0 False 0 False) (extentSpans (e_size f))) (d_files d)))"

definition dirContentLen :: "iso_env \<Rightarrow> string list \<times> 'e iso_dir \<Rightarrow> int" where
  "dirContentLen env pd = fst (fold add_len (size_records env pd) (0, 0))"

definition path_id :: "iso_env \<Rightarrow> string list \<times> 'e iso_dir \<Rightarrow> bytes" where
  "path_id env = (\<lambda>(p, d). if p = [] then [0] else bytes_of (isoName env (d_name d) True))"

definition pathTableRecordLen :: "iso_env \<Rightarrow> string list \<times> 'e iso_dir \<Rightarrow> nat" where
  "pathTableRecordLen env pd =
     (let l = 8 + length (path_id env pd) in if l mod 2 = 1 then l + 1 else l)"

section \<open>Layout\<close>

record 'e iso_layout =
  ly_volume :: string
  ly_dirs :: "(string list \<times> 'e iso_dir) list"
  ly_dir_sizes :: "int list"
  ly_dir_extents :: "int list"
  ly_boot :: "'e iso_entry"
  ly_bootCatalog :: int
  ly_pathTableL :: int
  ly_pathTableM :: int
  ly_pathTableLen :: nat
  ly_totalSectors :: int
  ly_files :: "('e iso_entry \<times> int) list"

text \<open>Consecutive placement: the first sector of each, and the sector after the last.\<close>

fun place :: "int \<Rightarrow> int list \<Rightarrow> int list" where
  "place sec [] = []"
| "place sec (n # ns) = sec # place (sec + n div sectorSize) ns"

definition place_end :: "int \<Rightarrow> int list \<Rightarrow> int" where
  "place_end sec ns = sec + sum_list (map (\<lambda>n. n div sectorSize) ns)"

datatype 'e iso_error =
    NoBootImage string
  | Overrun int int
  | ShortWrite
  | OpenErr string 'e
  | CopyErr string
  | ReadErr string 'e
  | SizeMismatch string int int

definition layoutIso :: "iso_env \<Rightarrow> string \<Rightarrow> 'e iso_input list \<Rightarrow> string \<Rightarrow> 'e iso_error + 'e iso_layout" where
  "layoutIso env volumeID fs bootImage =
     (case boot_entry fs bootImage of
        None \<Rightarrow> Inl (NoBootImage bootImage)
      | Some be \<Rightarrow>
          (let dirs = bfs [([], iso_tree fs)];
               sizes = map (\<lambda>pd. ceilSector (dirContentLen env pd)) dirs;
               ptLen = sum_list (map (pathTableRecordLen env) dirs);
               ptL = 16 + 3;
               ptM = ptL + ceilSector (int ptLen) div sectorSize;
               d0 = ptM + ceilSector (int ptLen) div sectorSize;
               cat = place_end d0 sizes;
               es = concat (map (\<lambda>(p, d). d_files d) dirs);
               fsizes = map (\<lambda>e. ceilSector (e_size e)) es
           in Inr \<lparr>ly_volume = volumeID, ly_dirs = dirs, ly_dir_sizes = sizes, ly_dir_extents = place d0 sizes,
                ly_boot = be, ly_bootCatalog = cat, ly_pathTableL = ptL, ly_pathTableM = ptM, ly_pathTableLen = ptLen,
                ly_totalSectors = place_end (cat + 1) fsizes, ly_files = zip es (place (cat + 1) fsizes)\<rparr>))"

section \<open>Writing\<close>

definition padStr :: "string \<Rightarrow> nat \<Rightarrow> bytes" where
  "padStr s n = take n (bytes_of s) @ replicate (n - length s) 0x20"

definition decDatetime :: "iso_time \<Rightarrow> bytes" where
  "decDatetime t =
     (let s = pad_dec 4 (nat (t_year t)) @ pad_dec 2 (t_month t) @ pad_dec 2 (t_day t) @
              pad_dec 2 (t_hour t) @ pad_dec 2 (t_minute t) @ pad_dec 2 (t_second t) @ ''00''
      in take 17 (bytes_of s @ zeros 17))"

text \<open>The position of a directory in the path table, its extent and size.\<close>

definition dir_index :: "'e iso_layout \<Rightarrow> string list \<Rightarrow> nat" where
  "dir_index ly p = length (takeWhile (\<lambda>pd. fst pd \<noteq> p) (ly_dirs ly))"

definition dir_extent :: "'e iso_layout \<Rightarrow> string list \<Rightarrow> int" where
  "dir_extent ly p = ly_dir_extents ly ! dir_index ly p"

definition dir_size :: "'e iso_layout \<Rightarrow> string list \<Rightarrow> int" where
  "dir_size ly p = ly_dir_sizes ly ! dir_index ly p"

definition rootRecordForPVD :: "iso_env \<Rightarrow> 'e iso_layout \<Rightarrow> bytes" where
  "rootRecordForPVD env ly =
     [34, 0] @ both32 (word_of_int (dir_extent ly [])) @ both32 (word_of_int (dir_size ly [])) @
     recTime (env_now env) @ [2, 0, 0] @ both16 1 @ [1, 0]"

definition primary_descriptor :: "iso_env \<Rightarrow> 'e iso_layout \<Rightarrow> bytes" where
  "primary_descriptor env ly = fold patch
     [(0, [1]), (1, bytes_of ''CD001''), (6, [1]), (8, padStr ''TACKLEBOX'' 32), (40, padStr (ly_volume ly) 32),
      (80, both32 (word_of_int (ly_totalSectors ly))), (120, both16 1), (124, both16 1), (128, both16 2048),
      (132, both32 (word_of_nat (ly_pathTableLen ly))), (140, le32 (word_of_int (ly_pathTableL ly))),
      (148, be32 (word_of_int (ly_pathTableM ly))), (156, rootRecordForPVD env ly),
      (190, padStr '''' 128), (318, padStr ''TACKLEBOX'' 128), (446, padStr '''' 128), (574, padStr ''TACKLEBOX PUREFS'' 128),
      (813, decDatetime (env_now env)), (830, decDatetime (env_now env)), (847, padStr '''' 16), (864, padStr '''' 16),
      (881, [1])] (zeros 2048)"

definition boot_descriptor :: "'e iso_layout \<Rightarrow> bytes" where
  "boot_descriptor ly = fold patch
     [(0, [0]), (1, bytes_of ''CD001''), (6, [1]), (7, padStr ''EL TORITO SPECIFICATION'' 32),
      (71, le32 (word_of_int (ly_bootCatalog ly)))] (zeros 2048)"

definition terminator :: bytes where
  "terminator = fold patch [(0, [255]), (1, bytes_of ''CD001''), (6, [1])] (zeros 2048)"

definition pt_record :: "iso_env \<Rightarrow> 'e iso_layout \<Rightarrow> bool \<Rightarrow> string list \<times> 'e iso_dir \<Rightarrow> bytes" where
  "pt_record env ly le pd =
     (let ident = path_id env pd; ext = word_of_int (dir_extent ly (fst pd));
          parentIdx = (if fst pd \<noteq> [] then word_of_nat (dir_index ly (butlast (fst pd)) + 1) else 1) :: u16;
          rec = [word_of_nat (length ident), 0] @
            (if le then le32 ext @ le16 parentIdx else be32 ext @ rev (le16 parentIdx)) @ ident
      in rec @ (if length rec mod 2 = 1 then [0] else []))"

definition path_table :: "iso_env \<Rightarrow> 'e iso_layout \<Rightarrow> bool \<Rightarrow> bytes" where
  "path_table env ly le = concat (map (pt_record env ly le) (ly_dirs ly))"

definition file_extent :: "'e iso_layout \<Rightarrow> nat \<Rightarrow> int" where
  "file_extent ly i = (case find (\<lambda>(e, x). e_id e = i) (ly_files ly) of None \<Rightarrow> 0 | Some (e, x) \<Rightarrow> x)"

definition span_records :: "iso_env \<Rightarrow> 'e iso_layout \<Rightarrow> 'e iso_entry \<Rightarrow> bytes list" where
  "span_records env ly f =
     (let spans = extentSpans (e_size f) in
      map (\<lambda>(i, off, len). dirRecord env (e_name f) (file_extent ly (e_id f) + off div sectorSize) len
             False 0 (i < length spans - 1)) (enumerate 0 spans))"

definition dir_records :: "iso_env \<Rightarrow> 'e iso_layout \<Rightarrow> string list \<times> 'e iso_dir \<Rightarrow> bytes list" where
  "dir_records env ly = (\<lambda>(p, d).
     let parent = (if p = [] then p else butlast p) in
     dirRecord env (dot_name p) (dir_extent ly p) (dir_size ly p) True 1 False #
     dirRecord env '''' (dir_extent ly parent) (dir_size ly parent) True 2 False #
     map (\<lambda>s. dirRecord env (d_name s) (dir_extent ly (p @ [d_name s])) (dir_size ly (p @ [d_name s])) True 0 False) (d_subdirs d) @
     concat (map (span_records env ly) (d_files d)))"

definition dir_bytes :: "iso_env \<Rightarrow> 'e iso_layout \<Rightarrow> string list \<times> 'e iso_dir \<Rightarrow> bytes" where
  "dir_bytes env ly pd = fst (fold add_rec (dir_records env ly pd) ([], 0))"

text \<open>The validation entry's checksum makes its sixteen words sum to zero.\<close>

fun word_sum :: "bytes \<Rightarrow> u16" where
  "word_sum (a # b # r) = (ucast a OR push_bit 8 (ucast b)) + word_sum r"
| "word_sum _ = 0"

definition validation_entry :: bytes where
  "validation_entry = fold patch [(0, [1, 0xEF]), (4, padStr ''TACKLEBOX'' 24), (30, [0x55, 0xAA])] (zeros 2048)"

definition boot_catalog :: "'e iso_layout \<Rightarrow> bytes" where
  "boot_catalog ly =
     (let c1 = validation_entry;
          csum = 65536 - uint (word_sum (take 32 c1));
          cnt0 = e_size (ly_boot ly) div 512;
          cnt = (if cnt0 > 65535 then 0 else cnt0)
      in fold patch [(28, [word_of_int csum, word_of_int (csum div 256)]), (32, [0x88]),
           (38, [word_of_int cnt, word_of_int (cnt div 256)]),
           (40, le32 (word_of_int (file_extent ly (e_id (ly_boot ly)))))] c1)"

text \<open>
  The sector writer over a device that takes at most \<open>lim\<close> bytes, or any number: what went
  out, the position it believes to be at, and the first error, after which it writes nothing.
\<close>

record 'e sector_writer =
  sw_out :: bytes
  sw_pos :: int
  sw_err :: "'e iso_error option"

definition device_takes :: "nat option \<Rightarrow> bytes \<Rightarrow> bytes \<Rightarrow> nat" where
  "device_takes lim out b = (case lim of None \<Rightarrow> length b | Some l \<Rightarrow> min (length b) (l - length out))"

definition sw_write :: "nat option \<Rightarrow> bytes \<Rightarrow> 'e sector_writer \<Rightarrow> 'e sector_writer" where
  "sw_write lim b sw =
     (if sw_err sw \<noteq> None then sw
      else let n = device_takes lim (sw_out sw) b in
        sw\<lparr>sw_out := sw_out sw @ take n b, sw_pos := sw_pos sw + int n,
           sw_err := (if n < length b then Some ShortWrite else None)\<rparr>)"

function pad_loop :: "nat option \<Rightarrow> int \<Rightarrow> 'e sector_writer \<Rightarrow> 'e sector_writer" where
  "pad_loop lim want sw =
     (if sw_pos sw < want \<and> sw_err sw = None
      then pad_loop lim want (sw_write lim (zeros (nat (min (want - sw_pos sw) 32768))) sw)
      else sw)"
  by pat_completeness auto
termination
proof (relation "measure (\<lambda>(lim, want, sw). nat (want - sw_pos sw) + (if sw_err sw = None then 1 else 0))")
  fix lim want and sw :: "'e sector_writer"
  assume a: "sw_pos sw < want \<and> sw_err sw = None"
  let ?b = "zeros (nat (min (want - sw_pos sw) 32768))"
  let ?n = "device_takes lim (sw_out sw) ?b"
  have l0: "0 < length ?b" using a by (simp add: zeros_def)
  then have l: "\<not> ?n < length ?b \<Longrightarrow> 0 < ?n" by linarith
  show "((lim, want, sw_write lim ?b sw), lim, want, sw) \<in>
      measure (\<lambda>(lim, want, sw). nat (want - sw_pos sw) + (if sw_err sw = None then 1 else 0))"
    using a l by (cases "?n < length ?b") (auto simp: sw_write_def Let_def)
qed simp

declare pad_loop.simps [simp del]

definition padTo :: "nat option \<Rightarrow> int \<Rightarrow> 'e sector_writer \<Rightarrow> 'e sector_writer" where
  "padTo lim sector sw =
     (if sw_err sw \<noteq> None then sw
      else if sw_pos sw > sector * sectorSize then sw\<lparr>sw_err := Some (Overrun (sw_pos sw) sector)\<rparr>
      else pad_loop lim (sector * sectorSize) sw)"

text \<open>
  The copy of one file goes past the sector writer: \<^verbatim>\<open>io.Copy\<close> writes to the device, whatever
  the sticky error, and the position is advanced by hand.
\<close>

definition write_file :: "nat option \<Rightarrow> 'e iso_entry \<times> int \<Rightarrow> 'e sector_writer \<Rightarrow> 'e iso_error + 'e sector_writer" where
  "write_file lim = (\<lambda>(f, extent) sw0.
     let sw = padTo lim extent sw0 in
     case e_src f of
       Inl e \<Rightarrow> Inl (OpenErr (e_name f) e)
     | Inr (b, rerr) \<Rightarrow>
         (let n = device_takes lim (sw_out sw) b;
              sw' = sw\<lparr>sw_out := sw_out sw @ take n b, sw_pos := sw_pos sw + int n\<rparr> in
          if n < length b then Inl (CopyErr (e_name f))
          else case rerr of
            Some e \<Rightarrow> Inl (ReadErr (e_name f) e)
          | None \<Rightarrow> if int n \<noteq> e_size f then Inl (SizeMismatch (e_name f) (e_size f) (int n)) else Inr sw'))"

definition write_dir :: "iso_env \<Rightarrow> nat option \<Rightarrow> 'e iso_layout \<Rightarrow> string list \<times> 'e iso_dir \<Rightarrow> 'e sector_writer \<Rightarrow> 'e sector_writer" where
  "write_dir env lim ly pd sw = sw_write lim (dir_bytes env ly pd) (padTo lim (dir_extent ly (fst pd)) sw)"

definition iso_write :: "iso_env \<Rightarrow> nat option \<Rightarrow> 'e iso_layout \<Rightarrow> 'e iso_error + bytes" where
  "iso_write env lim ly =
     (let sw0 = \<lparr>sw_out = [], sw_pos = 0, sw_err = None\<rparr>;
          sw1 = sw_write lim terminator (sw_write lim (boot_descriptor ly)
                  (sw_write lim (primary_descriptor env ly) (padTo lim 16 sw0)));
          sw2 = sw_write lim (path_table env ly True) (padTo lim (ly_pathTableL ly) sw1);
          sw3 = sw_write lim (path_table env ly False) (padTo lim (ly_pathTableM ly) sw2);
          sw4 = fold (write_dir env lim ly) (ly_dirs ly) sw3;
          sw5 = sw_write lim (boot_catalog ly) (padTo lim (ly_bootCatalog ly) sw4)
      in bindR (foldR (write_file lim) (ly_files ly) sw5)
           (\<lambda>sw6. let sw7 = padTo lim (ly_totalSectors ly) sw6 in
              case sw_err sw7 of Some e \<Rightarrow> Inl e | None \<Rightarrow> Inr (sw_out sw7)))"

definition WriteIso9660 :: "iso_env \<Rightarrow> nat option \<Rightarrow> string \<Rightarrow> 'e iso_input list \<Rightarrow> string \<Rightarrow> 'e iso_error + bytes" where
  "WriteIso9660 env lim volumeID fs bootImage =
     bindR (layoutIso env volumeID fs bootImage) (iso_write env lim)"

section \<open>Spans of a file\<close>

text \<open>The spans follow one another from the first position to the last.\<close>

fun tiles :: "int \<Rightarrow> (int \<times> int) list \<Rightarrow> int \<Rightarrow> bool" where
  "tiles a [] b \<longleftrightarrow> a = b"
| "tiles a ((x, n) # r) b \<longleftrightarrow> x = a \<and> tiles (a + n) r b"

lemma span_loop_tiles: "off \<le> sz \<Longrightarrow> tiles off (span_loop sz off) sz"
proof (induction sz off rule: span_loop.induct)
  case (1 sz off)
  show ?case
  proof (cases "off + maxExtent \<le> sz")
    case True
    have "maxExtent > 0" by (simp add: maxExtent_def)
    moreover have "min (sz - off) maxExtent = maxExtent" using True by simp
    ultimately show ?thesis using True 1 by (subst span_loop.simps) auto
  next
    case False
    then have "span_loop sz (off + maxExtent) = []" by (subst span_loop.simps) simp
    with False 1(2) show ?thesis by (subst span_loop.simps) (auto simp: min_def)
  qed
qed

lemma span_loop_bounds:
  "(x, n) \<in> set (span_loop sz off) \<Longrightarrow>
     off \<le> x \<and> (x - off) mod maxExtent = 0 \<and> 0 < n \<and> n \<le> maxExtent \<and> x + n \<le> sz \<and> (n = maxExtent \<or> x + n = sz)"
proof (induction sz off rule: span_loop.induct)
  case (1 sz off)
  then consider "off < sz" "(x, n) = (off, min (sz - off) maxExtent)"
    | "off < sz" "(x, n) \<in> set (span_loop sz (off + maxExtent))"
    by (subst (asm) (2) span_loop.simps) (auto split: if_splits)
  then show ?case
  proof cases
    case 1
    then show ?thesis by (auto simp: maxExtent_def min_def)
  next
    case 2
    with "1.IH" have "off + maxExtent \<le> x \<and> (x - (off + maxExtent)) mod maxExtent = 0 \<and> 0 < n \<and> n \<le> maxExtent \<and>
        x + n \<le> sz \<and> (n = maxExtent \<or> x + n = sz)" by blast
    moreover have "(x - off) mod maxExtent = (x - (off + maxExtent)) mod maxExtent"
      by (metis add_diff_eq diff_add_eq_diff_diff_swap minus_mod_self2 add.commute diff_diff_eq)
    moreover have "maxExtent > 0" by (simp add: maxExtent_def)
    ultimately show ?thesis by linarith
  qed
qed

lemma extentSpans_tiles: "0 \<le> sz \<Longrightarrow> tiles 0 (extentSpans sz) sz"
  by (auto simp: extentSpans_def span_loop_tiles)

lemma extentSpans_nonempty [simp]: "extentSpans sz \<noteq> []"
proof (cases "sz \<le> maxExtent")
  case False
  moreover have "maxExtent > 0" by (simp add: maxExtent_def)
  ultimately show ?thesis unfolding extentSpans_def by (subst span_loop.simps) auto
qed (simp add: extentSpans_def)

lemma extentSpans_bounds:
  assumes "0 \<le> sz" "(x, n) \<in> set (extentSpans sz)"
  shows "0 \<le> x \<and> x mod sectorSize = 0 \<and> 0 \<le> n \<and> n < 2 ^ 32 \<and> x + n \<le> sz \<and> (n = maxExtent \<or> x + n = sz)"
proof (cases "sz \<le> maxExtent")
  case True
  with assms show ?thesis by (auto simp: extentSpans_def maxExtent_def)
next
  case False
  with assms(2) have b: "0 \<le> x \<and> (x - 0) mod maxExtent = 0 \<and> 0 < n \<and> n \<le> maxExtent \<and> x + n \<le> sz \<and> (n = maxExtent \<or> x + n = sz)"
    by (intro span_loop_bounds) (simp add: extentSpans_def)
  then have "maxExtent dvd x" by auto
  moreover have "sectorSize dvd maxExtent" by (simp add: maxExtent_def)
  ultimately have "sectorSize dvd x" using dvd_trans by blast
  then have "x mod sectorSize = 0" by auto
  with b show ?thesis by (auto simp: maxExtent_def)
qed

section \<open>Records\<close>

lemma length_both [simp]: "length (both32 v) = 8" "length (both16 w) = 4" "length (recTime t) = 7"
  by (simp_all add: both32_def both16_def recTime_def)

lemma length_susp [simp]: "length susp_root = 25" "length (susp_px d) = 36"
  by (simp_all add: susp_root_def susp_px_def)

lemma length_systemUse:
  "length (systemUse name isDir dot) = (if dot = 1 \<and> name = ''SP'' then 25 else 0) + 41 + (if dot = 0 then 5 + length name else 0)"
  by (auto simp: systemUse_def)

definition pad_even :: "nat \<Rightarrow> nat" where
  "pad_even n = n + n mod 2"

definition record_length :: "iso_env \<Rightarrow> string \<Rightarrow> bool \<Rightarrow> nat \<Rightarrow> nat" where
  "record_length env name isDir dot =
     pad_even (pad_even (33 + length (rec_id env name isDir dot)) + length (systemUse name isDir dot))"

lemma mod2_cases: "(n :: nat) mod 2 = 0 \<or> n mod 2 = 1"
  by auto

lemma length_dirRecord: "length (dirRecord env name extent sz isDir dot multi) = record_length env name isDir dot"
  using mod2_cases[of "33 + length (rec_id env name isDir dot)"]
    mod2_cases[of "pad_even (33 + length (rec_id env name isDir dot)) + length (systemUse name isDir dot)"]
  by (auto simp: dirRecord_def record_length_def pad_even_def Let_def)

lemma even_record_length: "even (record_length env name isDir dot)"
  by (simp add: record_length_def pad_even_def)

lemma length_isoName: "length (isoName env name isDir) \<le> 30"
  by (simp add: isoName_def Let_def)

lemma length_rec_id: "length (rec_id env name isDir dot) \<le> 30"
  using length_isoName[of env name isDir] by (simp add: rec_id_def)

lemma record_length_bound:
  assumes "dot = 0 \<longrightarrow> length name \<le> 144" "dot \<noteq> 0 \<longrightarrow> name = ''SP'' \<or> name = ''''"
  shows "record_length env name isDir dot \<le> 254"
proof -
  have "length (rec_id env name isDir dot) \<le> 30" by (rule length_rec_id)
  then have "pad_even (33 + length (rec_id env name isDir dot)) \<le> 64" by (simp add: pad_even_def)
  moreover have "length (systemUse name isDir dot) \<le> 190" using assms by (auto simp: length_systemUse)
  ultimately have "pad_even (33 + length (rec_id env name isDir dot)) + length (systemUse name isDir dot) \<le> 254" by linarith
  moreover have "n \<le> 254 \<Longrightarrow> n + n mod 2 \<le> 254" for n :: nat by presburger
  ultimately show ?thesis unfolding record_length_def pad_even_def by blast
qed


text \<open>A reader of records: the fields at their offsets, both byte orders, and the name of the NM entry.\<close>

definition rec_len :: "bytes \<Rightarrow> nat" where
  "rec_len r = unat (r ! 0)"

definition rec_field :: "nat \<Rightarrow> bytes \<Rightarrow> nat" where
  "rec_field off r = le_val (take 4 (drop off r))"

definition rec_field_be :: "nat \<Rightarrow> bytes \<Rightarrow> nat" where
  "rec_field_be off r = le_val (rev (take 4 (drop (off + 4) r)))"

definition rec_name :: "bytes \<Rightarrow> string" where
  "rec_name r =
     (let su = pad_even (33 + unat (r ! 32)) in
      string_of_bytes (take (unat (r ! (su + 43)) - 5) (drop (su + 46) r)))"

lemma dirRecord_eq:
  "\<exists>z. dirRecord env name extent sz isDir dot multi =
     [word_of_nat (record_length env name isDir dot), 0] @ both32 (word_of_int extent) @ both32 (word_of_int sz) @
     recTime (env_now env) @ [(if isDir then 0x02 else 0) OR (if multi then 0x80 else 0), 0, 0] @ both16 1 @
     [word_of_nat (length (rec_id env name isDir dot))] @ rec_id env name isDir dot @
     replicate ((33 + length (rec_id env name isDir dot)) mod 2) 0 @ systemUse name isDir dot @ z"
proof -
  have p: "(if n mod 2 = 1 then 1 else 0) = n mod 2" for n :: nat by auto
  let ?b = "33 + length (rec_id env name isDir dot)" and ?su = "systemUse name isDir dot"
  have l: "?b + ?b mod 2 + length (if (?b + ?b mod 2 + length ?su) mod 2 = 1 then ?su @ [0] else ?su)
      = record_length env name isDir dot"
    using mod2_cases[of "?b + ?b mod 2 + length ?su"] by (auto simp: record_length_def pad_even_def)
  show ?thesis
    unfolding dirRecord_def Let_def p l
    by (rule exI[of _ "if (?b + ?b mod 2 + length ?su) mod 2 = 1 then [0] else []"]) simp
qed

lemma take_drop_mid: "length a = n \<Longrightarrow> length b = m \<Longrightarrow> take m (drop n (a @ b @ c)) = b"
  by simp

lemma uint_of_int_small: "0 \<le> i \<Longrightarrow> i < 2 ^ 32 \<Longrightarrow> uint (word_of_int i :: u32) = i"
  by (simp add: uint_word_of_int_eq take_bit_int_eq_self)

lemma dirRecord_fields:
  assumes "0 \<le> extent" "extent < 2 ^ 32" "0 \<le> sz" "sz < 2 ^ 32"
    and r_def: "r = dirRecord env name extent sz isDir dot multi"
  shows "int (rec_field 2 r) = extent" "int (rec_field_be 2 r) = extent"
    "int (rec_field 10 r) = sz" "int (rec_field_be 10 r) = sz"
    "bit (r ! 25) 1 = isDir" "bit (r ! 25) 7 = multi"
proof -
  obtain z where r: "r = [word_of_nat (record_length env name isDir dot), 0] @ both32 (word_of_int extent) @ both32 (word_of_int sz) @
     recTime (env_now env) @ [(if isDir then 0x02 else 0) OR (if multi then 0x80 else 0), 0, 0] @ z"
    using dirRecord_eq[of env name extent sz isDir dot multi] unfolding r_def by (auto simp del: append.simps)

  have "take 4 (drop 2 r) = le32 (word_of_int extent)" "take 4 (drop 6 r) = be32 (word_of_int extent)"
    "take 4 (drop 10 r) = le32 (word_of_int sz)" "take 4 (drop 14 r) = be32 (word_of_int sz)"
    unfolding r both32_def by (simp_all add: le32_def be32_def)
  then show "int (rec_field 2 r) = extent" "int (rec_field_be 2 r) = extent"
    "int (rec_field 10 r) = sz" "int (rec_field_be 10 r) = sz"
    using assms(1-4) by (simp_all add: rec_field_def rec_field_be_def uint_of_int_small)
  have "r ! 25 = (if isDir then 0x02 else 0) OR (if multi then 0x80 else 0)"
    unfolding r both32_def le32_def be32_def recTime_def by simp
  then show "bit (r ! 25) 1 = isDir" "bit (r ! 25) 7 = multi" by (auto simp: bit_or_iff)
qed

lemma dirRecord_length_field:
  "rec_len (dirRecord env name extent sz isDir dot multi) = record_length env name isDir dot mod 256"
  using dirRecord_eq[of env name extent sz isDir dot multi]
  by (auto simp: rec_len_def unat_of_nat take_bit_eq_mod)

lemma dirRecord_name:
  assumes "length name \<le> 144"
  shows "rec_name (dirRecord env name extent sz isDir 0 multi) = name"
proof -
  let ?r = "dirRecord env name extent sz isDir 0 multi" and ?id = "rec_id env name isDir 0"
  obtain z where r: "?r = [word_of_nat (record_length env name isDir 0), 0] @ both32 (word_of_int extent) @ both32 (word_of_int sz) @
     recTime (env_now env) @ [(if isDir then 0x02 else 0) OR (if multi then 0x80 else 0), 0, 0] @ both16 1 @
     [word_of_nat (length ?id)] @ ?id @ replicate ((33 + length ?id) mod 2) 0 @ systemUse name isDir 0 @ z"
    using dirRecord_eq[of env name extent sz isDir 0 multi] by blast
  define h :: bytes where "h = [word_of_nat (record_length env name isDir 0), 0] @ both32 (word_of_int extent) @ both32 (word_of_int sz) @
     recTime (env_now env) @ [(if isDir then 0x02 else 0) OR (if multi then 0x80 else 0), 0, 0] @ both16 1"
  have h: "length h = 32" by (simp add: h_def)
  let ?pre = "h @ [word_of_nat (length ?id)] @ ?id @ replicate ((33 + length ?id) mod 2) 0"
  have r2: "?r = ?pre @ systemUse name isDir 0 @ z" by (simp add: r h_def)
  have id: "length ?id < 256" using length_rec_id[of env name isDir 0] by simp
  have r32: "?r ! 32 = word_of_nat (length ?id)" unfolding r2 by (simp add: nth_append h)
  have su: "pad_even (33 + unat (?r ! 32)) = length ?pre"
    using id by (simp add: r32 h pad_even_def unat_of_nat take_bit_eq_mod)
  define s :: bytes where "s = bytes_of ''RR'' @ [5, 1, 9] @ susp_px isDir"
  have s: "length s = 41" by (simp add: s_def)
  have sys: "systemUse name isDir 0 = s @ bytes_of ''NM'' @ [word_of_nat (5 + length name), 1, 0] @ bytes_of name"
    by (simp add: systemUse_def s_def)
  have nm: "?r = ?pre @ s @ (bytes_of ''NM'' @ [word_of_nat (5 + length name), 1, 0]) @ bytes_of name @ z"
    unfolding r2 sys by simp
  have "?r ! (length ?pre + 43) = word_of_nat (5 + length name)"
    unfolding nm by (subst nth_append_length_plus) (simp add: nth_append s bytes_of_def)
  then have l: "unat (?r ! (length ?pre + 43)) - 5 = length name"
    using assms unat_of_nat[of "5 + length name", where 'a = 8] by (simp only: take_bit_eq_mod) simp
  have "drop (length p + 46) (p @ s @ (bytes_of ''NM'' @ [word_of_nat (5 + length name), 1, 0]) @ bytes_of name @ z) = bytes_of name @ z" for p
    using s by (simp add: bytes_of_def)
  then have "drop (length ?pre + 46) ?r = bytes_of name @ z" unfolding nm .
  then show ?thesis unfolding rec_name_def Let_def su l by simp
qed

section \<open>Directory contents\<close>

lemma add_rec_len:
  assumes "0 \<le> i" "i < sectorSize"
  shows "add_len r (int (length buf), i) = (int (length (fst (add_rec r (buf, i)))), snd (add_rec r (buf, i)))"
    and "0 \<le> snd (add_rec r (buf, i))" "snd (add_rec r (buf, i)) < sectorSize"
  using assms by (auto simp: add_len_def add_rec_def Let_def)

lemma fold_add_rec_len:
  assumes "0 \<le> i" "i < sectorSize"
  shows "fold add_len rs (int (length buf), i) =
    (int (length (fst (fold add_rec rs (buf, i)))), snd (fold add_rec rs (buf, i)))"
  using assms
proof (induction rs arbitrary: buf i)
  case (Cons r rs)
  obtain b j where b: "add_rec r (buf, i) = (b, j)" by (cases "add_rec r (buf, i)")
  with add_rec_len[OF Cons.prems, of r buf] Cons.IH[of j b] show ?case by simp
qed simp

lemma fold_add_len_cong: "map length rs = map length qs \<Longrightarrow> fold add_len rs a = fold add_len qs a"
proof (induction rs arbitrary: qs a)
  case (Cons r rs)
  then obtain q ps where q: "qs = q # ps" "length q = length r" "map length rs = map length ps"
    by (cases qs) auto
  then have "add_len r a = add_len q a" by (simp add: add_len_def)
  with q Cons.IH[OF q(3)] show ?case by simp
qed simp

lemma length_span_records: "map length (span_records env ly f) =
    map (\<lambda>_. record_length env (e_name f) False 0) (extentSpans (e_size f))"
proof -
  have "map (\<lambda>x. c) (enumerate n xs) = map (\<lambda>_. c) xs" for c :: nat and n and xs :: "(int \<times> int) list"
    by (simp add: map_replicate_const)
  then show ?thesis by (simp add: span_records_def Let_def comp_def length_dirRecord case_prod_unfold)
qed

lemma dir_records_lengths: "map length (dir_records env ly pd) = map length (size_records env pd)"
  by (cases pd) (simp add: dir_records_def size_records_def Let_def length_dirRecord map_concat comp_def length_span_records)

text \<open>What the sizing pass computes is what the writing pass emits.\<close>

lemma length_dir_bytes: "int (length (dir_bytes env ly pd)) = dirContentLen env pd"
  using fold_add_rec_len[of 0 "dir_records env ly pd" "[]"]
    fold_add_len_cong[OF dir_records_lengths, of env ly pd "(0, 0)"]
  by (simp add: dir_bytes_def dirContentLen_def)

lemma length_pt_record: "length (pt_record env ly le pd) = pathTableRecordLen env pd"
  by (auto simp: pt_record_def pathTableRecordLen_def Let_def) presburger+

lemma length_path_table: "length (path_table env ly le) = sum_list (map (pathTableRecordLen env) (ly_dirs ly))"
  by (simp add: path_table_def length_concat comp_def length_pt_record)

section \<open>The directory tree\<close>

text \<open>
  A sum over the directories of a tree, given what one directory contributes by its path and
  its files; the breadth-first list has the same sum.
\<close>

fun tree_sum :: "(string list \<Rightarrow> 'e iso_entry multiset \<Rightarrow> 'x multiset) \<Rightarrow> string list \<Rightarrow> 'e iso_dir \<Rightarrow> 'x multiset" where
  "tree_sum g p (IsoDir n ds fs) = g p (mset fs) + sum_list (map (\<lambda>s. tree_sum g (p @ [d_name s]) s) ds)"

lemma sum_list_sort_key: "sum_list (map h (sort_key k xs)) = (sum_list (map h xs) :: 'b multiset)"
  by (metis mset_map mset_sort sum_mset_sum_list)

lemma tree_sum_sort: "tree_sum g p d = g p (mset (d_files d)) +
    sum_list (map (\<lambda>s. tree_sum g (p @ [d_name s]) s) (d_subdirs (sort_dir d)))"
  by (cases d) (simp add: sort_dir_def sum_list_sort_key)

lemma bfs_sum:
  "sum_list (map (\<lambda>(p, d). g p (mset (d_files d))) (bfs q)) = sum_list (map (\<lambda>(p, d). tree_sum g p d) q)"
proof (induction q rule: bfs.induct)
  case (2 p d q)
  have "sum_list (map (\<lambda>(p, d). g p (mset (d_files d))) (bfs ((p, d) # q))) =
      g p (mset (d_files d)) + sum_list (map (\<lambda>(p, d). tree_sum g p d)
        (q @ map (\<lambda>s. (p @ [d_name s], s)) (d_subdirs (sort_dir d))))"
    using "2.IH"[OF refl] by (simp add: bfs.simps(2) Let_def sort_dir_def)
  also have "\<dots> = tree_sum g p d + sum_list (map (\<lambda>(p, d). tree_sum g p d) q)"
    by (simp add: tree_sum_sort[of g p d] comp_def ac_simps)
  finally show ?case by simp
qed simp

lemma bfs_files:
  "mset (concat (map (\<lambda>(p, d). d_files d) (bfs q))) = sum_list (map (\<lambda>(p, d). tree_sum (\<lambda>_ fs. fs) p d) q)"
proof -
  have "mset (concat (map (\<lambda>(p, d). d_files d) xs)) = sum_list (map (\<lambda>(p, d). mset (d_files d)) xs)"
    for xs :: "(string list \<times> 'a iso_dir) list"
    by (induction xs) auto
  then show ?thesis using bfs_sum[of "\<lambda>_ fs. fs" q] by simp
qed

lemma bfs_paths:
  "mset (map fst (bfs q)) = sum_list (map (\<lambda>(p, d). tree_sum (\<lambda>p _. {#p#}) p d) q)"
proof -
  have "mset (map fst xs) = sum_list (map (\<lambda>(p, d). {#p#}) xs)" for xs :: "(string list \<times> 'a iso_dir) list"
    by (induction xs) auto
  then show ?thesis using bfs_sum[of "\<lambda>p _. {#p#}" q] by simp
qed

text \<open>Adding a file adds that file, and siblings keep distinct names.\<close>

lemma tree_files_add:
  "tree_sum (\<lambda>_ fs. fs) q (add_file ps e d) = tree_sum (\<lambda>_ fs. fs) q d + {#e#}"
  "sum_list (map (\<lambda>s. tree_sum (\<lambda>_ fs. fs) (q @ [d_name s]) s) (add_below p ps e ds)) =
     sum_list (map (\<lambda>s. tree_sum (\<lambda>_ fs. fs) (q @ [d_name s]) s) ds) + {#e#}"
proof (induction ps e d and p ps e ds arbitrary: q and q rule: add_file_add_below.induct)
  case (3 p ps e)
  then show ?case by simp
next
  case (4 p ps e d ds)
  have "d_name (add_file ps e d) = d_name d" by (cases ps; cases d) auto
  with 4 show ?case by simp
qed (simp_all add: ac_simps)

fun names_distinct :: "'e iso_dir \<Rightarrow> bool" where
  "names_distinct (IsoDir n ds fs) \<longleftrightarrow> distinct (map d_name ds) \<and> list_all names_distinct ds"

lemma d_name_add_file [simp]: "d_name (add_file ps e d) = d_name d"
  by (cases ps; cases d) auto

lemma add_below_names:
  "map d_name (add_below p ps e ds) = (if p \<in> d_name ` set ds then map d_name ds else map d_name ds @ [p])"
  by (induction ds) auto

lemma names_distinct_add:
  "names_distinct d \<Longrightarrow> names_distinct (add_file ps e d)"
  "list_all names_distinct ds \<Longrightarrow> list_all names_distinct (add_below p ps e ds)"
proof (induction ps e d and p ps e ds rule: add_file_add_below.induct)
  case (2 p ps e n ds fs)
  then show ?case by (auto simp: add_below_names)
qed auto

fun dpaths :: "string list \<Rightarrow> 'e iso_dir \<Rightarrow> string list list" where
  "dpaths p (IsoDir n ds fs) = p # concat (map (\<lambda>s. dpaths (p @ [d_name s]) s) ds)"

lemma mset_dpaths: "mset (dpaths p d) = tree_sum (\<lambda>p _. {#p#}) p d"
proof (induction p d rule: dpaths.induct)
  case (1 p n ds fs)
  have "mset (concat (map (\<lambda>s. dpaths (p @ [d_name s]) s) xs)) = sum_list (map (\<lambda>s. tree_sum (\<lambda>p _. {#p#}) (p @ [d_name s]) s) xs)"
    if "set xs \<subseteq> set ds" for xs
    using that 1 by (induction xs) auto
  from this[OF subset_refl] show ?case by simp
qed

lemma dpaths_prefix: "q \<in> set (dpaths p d) \<Longrightarrow> prefix p q"
proof (induction p d rule: dpaths.induct)
  case (1 p n ds fs)
  then show ?case by (auto dest: append_prefixD)
qed

lemma distinct_dpaths: "names_distinct d \<Longrightarrow> distinct (dpaths p d)"
proof (induction p d rule: dpaths.induct)
  case (1 p n ds fs)
  have d: "distinct (map d_name ds)" "\<forall>s \<in> set ds. names_distinct s" using 1(2) by (auto simp: list_all_iff)
  have "distinct (concat (map (\<lambda>s. dpaths (p @ [d_name s]) s) xs))" if "set xs \<subseteq> set ds" "distinct (map d_name xs)" for xs
    using that
  proof (induction xs)
    case (Cons s xs)
    have "q \<notin> set (dpaths (p @ [d_name t]) t)" if "q \<in> set (dpaths (p @ [d_name s]) s)" "t \<in> set xs" for q t
    proof
      assume "q \<in> set (dpaths (p @ [d_name t]) t)"
      then have "prefix (p @ [d_name t]) q" "prefix (p @ [d_name s]) q" using dpaths_prefix that(1) by auto
      then have "d_name t = d_name s" by (auto simp: prefix_def)
      with Cons.prems(2) that(2) show False by (auto simp: rev_image_eqI)
    qed
    with Cons 1(1)[of s] d(2) show ?case by auto
  qed simp
  from this[OF subset_refl d(1)] have "distinct (concat (map (\<lambda>s. dpaths (p @ [d_name s]) s) ds))" .
  moreover have "p \<notin> set (dpaths (p @ [d_name s]) s)" for s
    using dpaths_prefix[of p "p @ [d_name s]" s] by (auto simp: prefix_def)
  ultimately show ?case by auto
qed

lemma iso_tree_fold:
  "names_distinct d \<Longrightarrow> names_distinct (fold add_input xs d) \<and>
   tree_sum (\<lambda>_ fs. fs) p (fold add_input xs d) = tree_sum (\<lambda>_ fs. fs) p d + mset (map (\<lambda>(i, f). entry_of i f) xs)"
proof (induction xs arbitrary: d)
  case (Cons x xs)
  obtain i f where x: "x = (i, f)" by (cases x)
  have "names_distinct (add_input x d)" using Cons.prems by (simp add: x add_input_def names_distinct_add)
  from Cons.IH[OF this] show ?case by (simp add: x add_input_def tree_files_add)
qed simp

definition input_entries :: "'e iso_input list \<Rightarrow> 'e iso_entry list" where
  "input_entries fs = map (\<lambda>(i, f). entry_of i f) (enumerate 0 fs)"

lemma iso_tree_facts:
  "distinct (map fst (bfs [([], iso_tree fs)]))"
  "mset (concat (map (\<lambda>(p, d). d_files d) (bfs [([], iso_tree fs)]))) = mset (input_entries fs)"
proof -
  have t: "names_distinct (iso_tree fs)" "tree_sum (\<lambda>_ fs. fs) [] (iso_tree fs) = mset (input_entries fs)"
    using iso_tree_fold[of "IsoDir '''' [] []" "enumerate 0 fs" "[]"] by (simp_all add: iso_tree_def input_entries_def)
  have "mset (map fst (bfs [([], iso_tree fs)])) = mset (dpaths [] (iso_tree fs))"
    unfolding bfs_paths mset_dpaths by simp
  then show "distinct (map fst (bfs [([], iso_tree fs)]))"
    using distinct_dpaths[OF t(1), of "[]"] mset_eq_imp_distinct_iff by blast
  show "mset (concat (map (\<lambda>(p, d). d_files d) (bfs [([], iso_tree fs)]))) = mset (input_entries fs)"
    using t(2) by (simp add: bfs_files)
qed

section \<open>Placement\<close>

lemma ceilSector_facts:
  assumes "0 \<le> n"
  shows "n \<le> ceilSector n" "ceilSector n mod sectorSize = 0" "0 \<le> ceilSector n" "ceilSector n < n + sectorSize"
    "ceilSector n div sectorSize * sectorSize = ceilSector n"
  using assms by (auto simp: ceilSector_def) (presburger+)?

text \<open>
  A run of writes, each at its sector, fits when no write reaches into the next; the image
  then holds each at its place.
\<close>

fun fits :: "int \<Rightarrow> (int \<times> bytes) list \<Rightarrow> int \<Rightarrow> bool" where
  "fits pos [] fin \<longleftrightarrow> pos \<le> fin * sectorSize"
| "fits pos ((s, b) # r) fin \<longleftrightarrow> pos \<le> s * sectorSize \<and> fits (s * sectorSize + int (length b)) r fin"

definition fill :: "int \<Rightarrow> bytes \<Rightarrow> bytes" where
  "fill s buf = buf @ zeros (nat (s * sectorSize) - length buf)"

fun emit :: "(int \<times> bytes) list \<Rightarrow> bytes \<Rightarrow> bytes" where
  "emit [] buf = buf"
| "emit ((s, b) # r) buf = emit r (fill s buf @ b)"

lemma fits_mono: "fits pos segs fin \<Longrightarrow> pos' \<le> pos \<Longrightarrow> fits pos' segs fin"
  by (cases segs) auto

lemma length_fill: "int (length buf) \<le> s * sectorSize \<Longrightarrow> int (length (fill s buf)) = s * sectorSize"
  by (simp add: fill_def zeros_def)

lemma emit_prefix: "\<exists>r. emit segs buf = buf @ r"
proof (induction segs arbitrary: buf)
  case (Cons sb segs)
  obtain s b where sb: "sb = (s, b)" by (cases sb)
  from Cons.IH[of "fill s buf @ b"] show ?case by (auto simp: sb fill_def)
qed simp

lemma emit_length: "fits (int (length buf)) segs fin \<Longrightarrow> int (length (emit segs buf)) \<le> fin * sectorSize"
proof (induction segs arbitrary: buf)
  case (Cons sb segs)
  obtain s b where sb: "sb = (s, b)" by (cases sb)
  with Cons show ?case using length_fill[of buf s] by simp
qed simp

lemma emit_places:
  assumes "fits (int (length buf)) segs fin" "(s, b) \<in> set segs"
  shows "0 \<le> s \<and> take (length b) (drop (nat (s * sectorSize)) (emit segs buf)) = b"
  using assms
proof (induction segs arbitrary: buf)
  case (Cons tc segs)
  obtain t c where tc: "tc = (t, c)" by (cases tc)
  have l: "int (length (fill t buf)) = t * sectorSize" using Cons.prems(1) by (intro length_fill) (simp add: tc)
  show ?case
  proof (cases "(s, b) = tc")
    case True
    obtain r where "emit segs (fill t buf @ c) = (fill t buf @ c) @ r" using emit_prefix by blast
    moreover have "nat (s * sectorSize) = length (fill t buf)" "0 \<le> s" using l True tc by auto
    ultimately show ?thesis using True tc by simp
  next
    case False
    then have mem: "(s, b) \<in> set segs" using Cons.prems(2) by simp
    have "fits (int (length (fill t buf @ c))) segs fin" using Cons.prems(1) l by (simp add: tc)
    from Cons.IH[OF this mem] show ?thesis by (simp add: tc)
  qed
qed simp

lemma fits_place:
  assumes "\<forall>n \<in> set ns. 0 \<le> n \<and> n mod sectorSize = 0" "list_all2 (\<lambda>n b. int (length b) \<le> n) ns bs"
    and "pos \<le> sec * sectorSize" "fits (place_end sec ns * sectorSize) rest fin"
  shows "fits pos (zip (place sec ns) bs @ rest) fin"
  using assms
proof (induction ns arbitrary: bs sec pos)
  case Nil
  then show ?case by (auto simp: place_end_def intro: fits_mono)
next
  case (Cons n ns)
  then obtain b bs' where b: "bs = b # bs'" "int (length b) \<le> n" "list_all2 (\<lambda>n b. int (length b) \<le> n) ns bs'"
    by (auto simp: list_all2_Cons1)
  have "n div sectorSize * sectorSize = n" using Cons.prems(1) by auto
  then have "sec * sectorSize + int (length b) \<le> (sec + n div sectorSize) * sectorSize" using b(2) by (simp add: algebra_simps)
  moreover have "place_end sec (n # ns) = place_end (sec + n div sectorSize) ns" by (simp add: place_end_def)
  ultimately show ?case
    using Cons.IH[of bs' "sec * sectorSize + int (length b)" "sec + n div sectorSize"] Cons.prems b by simp
qed

lemma length_place [simp]: "length (place sec ns) = length ns"
  by (induction sec ns rule: place.induct) auto

section \<open>The writer on a device without a limit\<close>

definition at_pos :: "bytes \<Rightarrow> 'e sector_writer" where
  "at_pos buf = \<lparr>sw_out = buf, sw_pos = int (length buf), sw_err = None\<rparr>"

lemma sw_write_at: "sw_write None b (at_pos buf) = at_pos (buf @ b)"
  by (simp add: sw_write_def at_pos_def device_takes_def)

lemma pad_loop_at:
  "int (length buf) \<le> want \<Longrightarrow>
     pad_loop None want (at_pos buf :: 'e sector_writer) = at_pos (buf @ zeros (nat want - length buf))"
proof (induction "nat want - length buf" arbitrary: buf rule: less_induct)
  case less
  show ?case
  proof (cases "int (length buf) < want")
    case True
    define k where "k = nat (min (want - int (length buf)) 32768)"
    have k: "0 < k" "int (length buf) + int k \<le> want" using True by (auto simp: k_def)
    have "pad_loop None want (at_pos buf :: 'e sector_writer) = pad_loop None want (at_pos (buf @ zeros k))"
      using True by (subst pad_loop.simps) (simp add: sw_write_at[symmetric] k_def, simp add: at_pos_def)
    also have "\<dots> = at_pos ((buf @ zeros k) @ zeros (nat want - length (buf @ zeros k)))"
      by (rule less.hyps) (use k in \<open>auto simp: zeros_def\<close>)
    also have "(buf @ zeros k) @ zeros (nat want - length (buf @ zeros k)) = buf @ zeros (nat want - length buf)"
      using k by (simp add: zeros_def replicate_add[symmetric])
    finally show ?thesis .
  next
    case False
    then have "nat want - length buf = 0" using less.prems by simp
    with False show ?thesis by (subst pad_loop.simps) (simp add: at_pos_def zeros_def)
  qed
qed

lemma padTo_at: "int (length buf) \<le> s * sectorSize \<Longrightarrow> padTo None s (at_pos buf) = at_pos (fill s buf)"
  using pad_loop_at[of buf "s * sectorSize"] by (simp add: padTo_def fill_def) (simp add: at_pos_def)

definition honest :: "'e iso_entry \<Rightarrow> bool" where
  "honest f \<longleftrightarrow> (case e_src f of Inr (b, None) \<Rightarrow> int (length b) = e_size f | _ \<Rightarrow> False)"

definition content :: "'e iso_entry \<Rightarrow> bytes" where
  "content f = (case e_src f of Inr (b, r) \<Rightarrow> b | Inl e \<Rightarrow> [])"

lemma write_file_at:
  assumes "honest f" "int (length buf) \<le> s * sectorSize"
  shows "write_file None (f, s) (at_pos buf) = Inr (at_pos (fill s buf @ content f))"
  using assms
  by (auto simp: write_file_def Let_def honest_def content_def device_takes_def padTo_at split: sum.splits option.splits)
    (simp add: at_pos_def)

lemma write_files_at:
  assumes "\<forall>(f, s) \<in> set fs. honest f" "fits (int (length buf)) (map (\<lambda>(f, s). (s, content f)) fs) fin"
  shows "foldR (write_file None) fs (at_pos buf) = Inr (at_pos (emit (map (\<lambda>(f, s). (s, content f)) fs) buf))"
  using assms
proof (induction fs arbitrary: buf)
  case (Cons x fs)
  obtain f s where x: "x = (f, s)" by (cases x)
  have b: "int (length buf) \<le> s * sectorSize" using Cons.prems(2) by (simp add: x)
  have "write_file None (f, s) (at_pos buf) = Inr (at_pos (fill s buf @ content f))"
    by (rule write_file_at[OF _ b]) (use Cons.prems(1) in \<open>simp add: x\<close>)
  then show ?case
    using Cons.IH[of "fill s buf @ content f"] Cons.prems length_fill[OF b] by (simp add: x)
qed simp

lemma write_dirs_at:
  assumes "fits (int (length buf)) (map (\<lambda>pd. (dir_extent ly (fst pd), dir_bytes env ly pd)) ds) fin"
  shows "fold (write_dir env None ly) ds (at_pos buf) =
    at_pos (emit (map (\<lambda>pd. (dir_extent ly (fst pd), dir_bytes env ly pd)) ds) buf)"
  using assms
proof (induction ds arbitrary: buf)
  case (Cons pd ds)
  have b: "int (length buf) \<le> dir_extent ly (fst pd) * sectorSize" using Cons.prems by simp
  show ?case
    using Cons.IH[of "fill (dir_extent ly (fst pd)) buf @ dir_bytes env ly pd"] Cons.prems length_fill[OF b]
    by (simp add: write_dir_def padTo_at[OF b] sw_write_at)
qed simp

lemma emit_append: "emit (xs @ ys) buf = emit ys (emit xs buf)"
  by (induction xs arbitrary: buf) auto

lemma fits_append:
  "fits (int (length buf)) (xs @ ys) fin \<Longrightarrow> fits (int (length (emit xs buf))) ys fin"
proof (induction xs arbitrary: buf)
  case (Cons x xs)
  obtain s b where x: "x = (s, b)" by (cases x)
  with Cons show ?case using length_fill[of buf s] by simp
qed simp

lemma fits_prefix: "fits pos (xs @ ys) fin \<Longrightarrow> \<exists>e. fits pos xs e"
proof (induction xs arbitrary: pos)
  case Nil
  then show ?case by (auto intro!: exI[of _ "\<bar>pos\<bar>"] simp: abs_if)
next
  case (Cons x xs)
  then show ?case by (cases x) auto
qed

text \<open>Everything the writer puts down, in its order.\<close>

definition header_segs :: "iso_env \<Rightarrow> 'e iso_layout \<Rightarrow> (int \<times> bytes) list" where
  "header_segs env ly =
     [(16, primary_descriptor env ly @ boot_descriptor ly @ terminator),
      (ly_pathTableL ly, path_table env ly True), (ly_pathTableM ly, path_table env ly False)]"

definition dir_segs :: "iso_env \<Rightarrow> 'e iso_layout \<Rightarrow> (int \<times> bytes) list" where
  "dir_segs env ly = map (\<lambda>pd. (dir_extent ly (fst pd), dir_bytes env ly pd)) (ly_dirs ly)"

definition file_segs :: "'e iso_layout \<Rightarrow> (int \<times> bytes) list" where
  "file_segs ly = map (\<lambda>(f, s). (s, content f)) (ly_files ly)"

definition iso_segs :: "iso_env \<Rightarrow> 'e iso_layout \<Rightarrow> (int \<times> bytes) list" where
  "iso_segs env ly = header_segs env ly @ dir_segs env ly @ [(ly_bootCatalog ly, boot_catalog ly)] @ file_segs ly"

lemma iso_write_emits:
  fixes ly :: "'e iso_layout"
  assumes "fits 0 (iso_segs env ly) (ly_totalSectors ly)" "\<forall>(f, s) \<in> set (ly_files ly). honest f"
  shows "iso_write env None ly = Inr (fill (ly_totalSectors ly) (emit (iso_segs env ly) []))"
proof -
  let ?h = "header_segs env ly" and ?d = "dir_segs env ly" and ?c = "[(ly_bootCatalog ly, boot_catalog ly)]"
  have f0: "fits (int (length ([] :: bytes))) (?h @ ?d @ ?c @ file_segs ly) (ly_totalSectors ly)"
    using assms(1) by (simp add: iso_segs_def)
  let ?b1 = "emit ?h []"
  have f1: "fits (int (length ?b1)) (?d @ ?c @ file_segs ly) (ly_totalSectors ly)" by (rule fits_append[OF f0])
  let ?b2 = "emit ?d ?b1"
  have f2: "fits (int (length ?b2)) (?c @ file_segs ly) (ly_totalSectors ly)" by (rule fits_append[OF f1])
  let ?b3 = "emit ?c ?b2"
  have f3: "fits (int (length ?b3)) (file_segs ly) (ly_totalSectors ly)" by (rule fits_append[OF f2])
  let ?b4 = "emit (file_segs ly) ?b3"
  have f4: "int (length ?b4) \<le> ly_totalSectors ly * sectorSize" by (rule emit_length[OF f3])
  let ?v = "fill 16 [] @ primary_descriptor env ly @ boot_descriptor ly @ terminator"
  have p: "int (length ?v) \<le> ly_pathTableL ly * sectorSize"
    "int (length (fill (ly_pathTableL ly) ?v @ path_table env ly True)) \<le> ly_pathTableM ly * sectorSize"
    using f0 length_fill[of "[]" 16] length_fill[of ?v "ly_pathTableL ly"] by (simp_all add: header_segs_def)
  have h: "sw_write None (path_table env ly False) (padTo None (ly_pathTableM ly)
      (sw_write None (path_table env ly True) (padTo None (ly_pathTableL ly)
        (sw_write None terminator (sw_write None (boot_descriptor ly)
          (sw_write None (primary_descriptor env ly) (padTo None 16 (at_pos [] :: 'e sector_writer)))))))) = at_pos ?b1"
    using padTo_at[of "[]" 16, where 'a = 'e] padTo_at[OF p(1), where 'a = 'e] padTo_at[OF p(2), where 'a = 'e]
    by (simp add: sw_write_at header_segs_def)
  obtain e where e: "fits (int (length ?b1)) ?d e" using fits_prefix[OF f1] by blast
  have d: "fold (write_dir env None ly) (ly_dirs ly) (at_pos ?b1 :: 'e sector_writer) = at_pos ?b2"
    using write_dirs_at[OF e[unfolded dir_segs_def]] by (simp add: dir_segs_def)
  have "int (length ?b2) \<le> ly_bootCatalog ly * sectorSize" using f2 by simp
  then have c: "sw_write None (boot_catalog ly) (padTo None (ly_bootCatalog ly) (at_pos ?b2 :: 'e sector_writer)) = at_pos ?b3"
    by (simp add: padTo_at sw_write_at)
  have fl: "foldR (write_file None) (ly_files ly) (at_pos ?b3) = Inr (at_pos ?b4)"
    using write_files_at[OF assms(2) f3[unfolded file_segs_def]] by (simp add: file_segs_def)
  have "\<lparr>sw_out = [], sw_pos = 0, sw_err = None\<rparr> = (at_pos [] :: 'e sector_writer)" by (simp add: at_pos_def)
  then have "iso_write env None ly = (let sw7 = (at_pos (fill (ly_totalSectors ly) ?b4) :: 'e sector_writer) in
      case sw_err sw7 of Some e \<Rightarrow> Inl e | None \<Rightarrow> Inr (sw_out sw7))"
    unfolding iso_write_def Let_def by (simp only: h d c fl bindR_simps padTo_at[OF f4])
  then show ?thesis by (simp add: iso_segs_def emit_append at_pos_def)
qed

section \<open>The layout fits\<close>

lemma length_padStr [simp]: "length (padStr s n) = n"
  by (simp add: padStr_def)

lemma length_decDatetime [simp]: "length (decDatetime t) = 17"
  by (simp add: decDatetime_def Let_def zeros_def)

lemma length_root_record: "length (rootRecordForPVD env ly) = 34"
  by (simp add: rootRecordForPVD_def)

lemma length_validation_entry [simp]: "length validation_entry = 2048"
  unfolding validation_entry_def by (subst length_patches) (simp_all add: zeros_def)

lemma length_descriptors [simp]:
  "length (primary_descriptor env ly) = 2048" "length (boot_descriptor ly) = 2048" "length terminator = 2048"
  "length (boot_catalog ly) = 2048"
  unfolding primary_descriptor_def boot_descriptor_def terminator_def boot_catalog_def Let_def
  by (subst length_patches; simp add: zeros_def length_root_record length_patches)+

lemma add_len_mono: "0 \<le> snd a \<Longrightarrow> snd a < sectorSize \<Longrightarrow> fst a \<le> fst (add_len r a) \<and> 0 \<le> snd (add_len r a) \<and> snd (add_len r a) < sectorSize"
  by (cases a) (auto simp: add_len_def Let_def)

lemma dirContentLen_nonneg: "0 \<le> dirContentLen env pd"
proof -
  have "int (length (dir_bytes env undefined pd)) = dirContentLen env pd" by (rule length_dir_bytes)
  then show ?thesis by linarith
qed

lemma takeWhile_index:
  "distinct (map fst ds) \<Longrightarrow> i < length ds \<Longrightarrow> length (takeWhile (\<lambda>x. fst x \<noteq> fst (ds ! i)) ds) = i"
proof (induction ds arbitrary: i)
  case (Cons d ds)
  then show ?case by (cases i) (auto simp: image_iff)
qed simp

lemma dir_index_nth:
  assumes "distinct (map fst (ly_dirs ly))" "i < length (ly_dirs ly)"
  shows "dir_index ly (fst (ly_dirs ly ! i)) = i"
  unfolding dir_index_def by (rule takeWhile_index[OF assms])

lemma layout_fields:
  assumes "layoutIso env vol fs boot = Inr ly"
  shows "ly_dirs ly = bfs [([], iso_tree fs)]" "distinct (map fst (ly_dirs ly))"
    "ly_dir_sizes ly = map (\<lambda>pd. ceilSector (dirContentLen env pd)) (ly_dirs ly)"
    "ly_pathTableLen ly = sum_list (map (pathTableRecordLen env) (ly_dirs ly))"
    "ly_pathTableL ly = 19" "ly_pathTableM ly = 19 + ceilSector (int (ly_pathTableLen ly)) div sectorSize"
    "ly_dir_extents ly = place (ly_pathTableM ly + ceilSector (int (ly_pathTableLen ly)) div sectorSize) (ly_dir_sizes ly)"
    "ly_bootCatalog ly = place_end (ly_pathTableM ly + ceilSector (int (ly_pathTableLen ly)) div sectorSize) (ly_dir_sizes ly)"
    "\<exists>es. mset es = mset (input_entries fs) \<and>
       ly_files ly = zip es (place (ly_bootCatalog ly + 1) (map (\<lambda>e. ceilSector (e_size e)) es)) \<and>
       ly_totalSectors ly = place_end (ly_bootCatalog ly + 1) (map (\<lambda>e. ceilSector (e_size e)) es)"
proof -
  from assms obtain be where be: "boot_entry fs boot = Some be" by (auto simp: layoutIso_def split: option.splits)
  let ?dirs = "bfs [([], iso_tree fs)]"
  note L = assms[unfolded layoutIso_def be option.case Let_def, simplified, symmetric]
  show d: "ly_dirs ly = ?dirs" unfolding L by simp
  show "distinct (map fst (ly_dirs ly))" unfolding d by (rule iso_tree_facts(1))
  show "ly_dir_sizes ly = map (\<lambda>pd. ceilSector (dirContentLen env pd)) (ly_dirs ly)"
    "ly_pathTableLen ly = sum_list (map (pathTableRecordLen env) (ly_dirs ly))"
    "ly_pathTableL ly = 19" "ly_pathTableM ly = 19 + ceilSector (int (ly_pathTableLen ly)) div sectorSize"
    "ly_dir_extents ly = place (ly_pathTableM ly + ceilSector (int (ly_pathTableLen ly)) div sectorSize) (ly_dir_sizes ly)"
    "ly_bootCatalog ly = place_end (ly_pathTableM ly + ceilSector (int (ly_pathTableLen ly)) div sectorSize) (ly_dir_sizes ly)"
    unfolding L by simp_all
  show "\<exists>es. mset es = mset (input_entries fs) \<and>
       ly_files ly = zip es (place (ly_bootCatalog ly + 1) (map (\<lambda>e. ceilSector (e_size e)) es)) \<and>
       ly_totalSectors ly = place_end (ly_bootCatalog ly + 1) (map (\<lambda>e. ceilSector (e_size e)) es)"
    by (rule exI[of _ "concat (map (\<lambda>(p, d). d_files d) ?dirs)"]) (unfold L, simp add: iso_tree_facts(2))
qed

lemma honestE:
  assumes "honest e"
  obtains b where "e_src e = Inr (b, None)" "e_size e = int (length b)"
  using assms by (auto simp: honest_def split: sum.splits option.splits)

lemma dir_segs_zip:
  assumes "layoutIso env vol fs boot = Inr ly"
  shows "dir_segs env ly = zip (ly_dir_extents ly) (map (dir_bytes env ly) (ly_dirs ly))"
proof (rule nth_equalityI)
  note L = layout_fields[OF assms]
  show "length (dir_segs env ly) = length (zip (ly_dir_extents ly) (map (dir_bytes env ly) (ly_dirs ly)))"
    using L(3,7) by (simp add: dir_segs_def)
  fix i
  assume "i < length (dir_segs env ly)"
  then have "i < length (ly_dirs ly)" by (simp add: dir_segs_def)
  then show "dir_segs env ly ! i = zip (ly_dir_extents ly) (map (dir_bytes env ly) (ly_dirs ly)) ! i"
    using dir_index_nth[OF L(2)] L(3,7) by (simp add: dir_segs_def dir_extent_def)
qed

lemma layout_fits:
  assumes "layoutIso env vol fs boot = Inr ly" "\<forall>e \<in> set (input_entries fs). honest e"
  shows "fits 0 (iso_segs env ly) (ly_totalSectors ly) \<and> (\<forall>(f, s) \<in> set (ly_files ly). honest f)"
proof -
  note L = layout_fields[OF assms(1)]
  let ?pt = "int (ly_pathTableLen ly)"
  let ?d0 = "ly_pathTableM ly + ceilSector ?pt div sectorSize"
  from L(9) obtain es where es: "mset es = mset (input_entries fs)"
    "ly_files ly = zip es (place (ly_bootCatalog ly + 1) (map (\<lambda>e. ceilSector (e_size e)) es))"
    "ly_totalSectors ly = place_end (ly_bootCatalog ly + 1) (map (\<lambda>e. ceilSector (e_size e)) es)" by blast
  have hon: "\<forall>e \<in> set es. honest e" using assms(2) mset_eq_setD[OF es(1)] by simp
  have sz: "0 \<le> e_size e \<and> int (length (content e)) = e_size e" if "e \<in> set es" for e
    by (rule honestE[of e]) (use hon that in \<open>auto simp: content_def\<close>)
  let ?ns = "map (\<lambda>e. ceilSector (e_size e)) es"
  have "zip (place s ns) (map content es) = map (\<lambda>(f, s). (s, content f)) (zip es (place s ns))" for s ns
    by (simp add: zip_map2 zip_commute[of "place s ns"] case_prod_unfold comp_def)
  then have fsegs: "file_segs ly = zip (place (ly_bootCatalog ly + 1) ?ns) (map content es)"
    by (simp add: file_segs_def es(2))
  have "fits ((ly_bootCatalog ly + 1) * sectorSize) (zip (place (ly_bootCatalog ly + 1) ?ns) (map content es) @ []) (ly_totalSectors ly)"
    by (rule fits_place) (use sz ceilSector_facts in \<open>auto simp: es(3) list_all2_conv_all_nth\<close>)
  then have f: "fits ((ly_bootCatalog ly + 1) * sectorSize) (file_segs ly) (ly_totalSectors ly)" by (simp add: fsegs)
  have "fits (place_end ?d0 (ly_dir_sizes ly) * sectorSize) ([(ly_bootCatalog ly, boot_catalog ly)] @ file_segs ly) (ly_totalSectors ly)"
    using f by (simp add: L(8) algebra_simps)
  then have d: "fits (?d0 * sectorSize) (dir_segs env ly @ [(ly_bootCatalog ly, boot_catalog ly)] @ file_segs ly) (ly_totalSectors ly)"
    unfolding dir_segs_zip[OF assms(1)] L(7)
    by (intro fits_place)
      (auto simp: L(3) list_all2_conv_all_nth ceilSector_facts(1-3)[OF dirContentLen_nonneg] length_dir_bytes)
  have c: "?pt \<le> ceilSector ?pt div sectorSize * sectorSize" using ceilSector_facts(1,5)[of ?pt] by simp
  have "fits 0 (header_segs env ly @ dir_segs env ly @ [(ly_bootCatalog ly, boot_catalog ly)] @ file_segs ly) (ly_totalSectors ly)"
    using c fits_mono[OF d] by (simp add: header_segs_def L(5) L(6) length_path_table L(4)[symmetric] algebra_simps)
  then show ?thesis using hon by (auto simp: iso_segs_def es(2) dest: set_zip_leftD)
qed

text \<open>Sources that do not deliver what was declared are refused, whatever the device.\<close>

lemma write_file_honest: "write_file lim (f, s) sw = Inr sw' \<Longrightarrow> honest f"
proof -
  have "device_takes lim out b \<le> length b" for out b by (auto simp: device_takes_def split: option.split)
  then have "\<not> device_takes lim out b < length b \<Longrightarrow> device_takes lim out b = length b" for out b
    by (simp add: le_antisym)
  then show "write_file lim (f, s) sw = Inr sw' \<Longrightarrow> honest f"
    by (auto simp: write_file_def honest_def Let_def split: sum.splits option.splits if_splits) metis
qed

lemma iso_write_honest: "iso_write env lim ly = Inr img \<Longrightarrow> (f, s) \<in> set (ly_files ly) \<Longrightarrow> honest f"
  unfolding iso_write_def Let_def bindR_Inr_iff by (elim exE conjE) (drule (1) foldR_each, auto dest: write_file_honest)

lemma boot_entry_iff: "boot_entry fs boot \<noteq> None \<longleftrightarrow> (\<exists>f \<in> set fs. iso_clean (in_path f) = iso_clean boot)"
proof -
  have "boot_entry fs boot = None \<longleftrightarrow> \<not> (\<exists>x \<in> set (enumerate 0 fs). iso_clean (in_path (snd x)) = iso_clean boot)"
    by (auto simp: boot_entry_def find_None_iff case_prod_unfold)
  also have "(\<exists>x \<in> set (enumerate 0 fs). iso_clean (in_path (snd x)) = iso_clean boot) \<longleftrightarrow>
      (\<exists>f \<in> snd ` set (enumerate 0 fs). iso_clean (in_path f) = iso_clean boot)" by blast
  also have "snd ` set (enumerate 0 fs) = set fs" by (metis map_snd_enumerate set_map)
  finally show ?thesis by simp
qed

section \<open>Properties\<close>

text \<open>The image holds a segment: its bytes stand at its sector.\<close>

definition holds_at :: "bytes \<Rightarrow> int \<Rightarrow> bytes \<Rightarrow> bool" where
  "holds_at img s b \<longleftrightarrow> 0 \<le> s \<and> take (length b) (drop (nat (s * sectorSize)) img) = b"

lemma image_holds:
  assumes "fits 0 segs fin" "(s, b) \<in> set segs"
  shows "holds_at (fill fin (emit segs [])) s b"
proof -
  have f: "fits (int (length ([] :: bytes))) segs fin" using assms(1) by simp
  note e = emit_places[OF f assms(2)]
  have "length b = length (take (length b) (drop (nat (s * sectorSize)) (emit segs [])))" using e by simp
  then have "length b \<le> length (emit segs []) - nat (s * sectorSize)" by simp
  then have l: "b = [] \<or> nat (s * sectorSize) + length b \<le> length (emit segs [])"
    by (cases "length b = 0") (simp, linarith)
  then show ?thesis
    using e unfolding holds_at_def fill_def by auto
qed

definition input_honest :: "'e iso_input \<Rightarrow> bool" where
  "input_honest f \<longleftrightarrow> (case in_src f of Inr (b, None) \<Rightarrow> int (length b) = in_size f | _ \<Rightarrow> False)"

lemma honest_entries: "(\<forall>e \<in> set (input_entries fs). honest e) \<longleftrightarrow> (\<forall>f \<in> set fs. input_honest f)"
proof -
  have h: "honest (entry_of i f) = input_honest f" for i f
    by (auto simp: honest_def input_honest_def entry_of_def split: sum.split option.split)
  have "(\<forall>e \<in> set (input_entries fs). honest e) \<longleftrightarrow> (\<forall>x \<in> set (enumerate 0 fs). input_honest (snd x))"
    by (auto simp: input_entries_def h)
  also have "\<dots> \<longleftrightarrow> (\<forall>f \<in> snd ` set (enumerate 0 fs). input_honest f)" by blast
  also have "snd ` set (enumerate 0 fs) = set fs" by (metis map_snd_enumerate set_map)
  finally show ?thesis .
qed

lemma layoutIso_ok: "(\<exists>ly. layoutIso env vol fs boot = Inr ly) \<longleftrightarrow> (\<exists>f \<in> set fs. iso_clean (in_path f) = iso_clean boot)"
  using boot_entry_iff[of fs boot] by (auto simp: layoutIso_def Let_def split: option.splits)

lemma layout_files: "layoutIso env vol fs boot = Inr ly \<Longrightarrow> mset (map fst (ly_files ly)) = mset (input_entries fs)"
  using layout_fields(9) by fastforce

lemma iso_written:
  assumes "layoutIso env vol fs boot = Inr ly" "\<forall>f \<in> set fs. input_honest f"
  shows "\<exists>img. iso_write env None ly = Inr img \<and> int (length img) = ly_totalSectors ly * sectorSize \<and>
    (\<forall>(s, b) \<in> set (iso_segs env ly). holds_at img s b)"
proof -
  have f: "fits 0 (iso_segs env ly) (ly_totalSectors ly)" "\<forall>(f, s) \<in> set (ly_files ly). honest f"
    using layout_fits[OF assms(1)] assms(2) honest_entries by blast+
  have f': "fits (int (length ([] :: bytes))) (iso_segs env ly) (ly_totalSectors ly)" using f(1) by simp
  show ?thesis
    using iso_write_emits[OF f] image_holds[OF f(1)] length_fill[OF emit_length[OF f']] by auto
qed

lemma WriteIso9660_iff:
  "(\<exists>img. WriteIso9660 env None vol fs boot = Inr img) \<longleftrightarrow>
     (\<exists>f \<in> set fs. iso_clean (in_path f) = iso_clean boot) \<and> (\<forall>f \<in> set fs. input_honest f)"
proof
  assume "\<exists>img. WriteIso9660 env None vol fs boot = Inr img"
  then obtain ly img where l: "layoutIso env vol fs boot = Inr ly" "iso_write env None ly = Inr img"
    by (auto simp: WriteIso9660_def bindR_Inr_iff)
  have "\<forall>e \<in> set (map fst (ly_files ly)). honest e" using iso_write_honest[OF l(2)] by auto
  then have "\<forall>e \<in> set (input_entries fs). honest e" unfolding mset_eq_setD[OF layout_files[OF l(1)]] .
  then show "(\<exists>f \<in> set fs. iso_clean (in_path f) = iso_clean boot) \<and> (\<forall>f \<in> set fs. input_honest f)"
    using l(1) layoutIso_ok[of env vol fs boot] honest_entries by blast
next
  assume "(\<exists>f \<in> set fs. iso_clean (in_path f) = iso_clean boot) \<and> (\<forall>f \<in> set fs. input_honest f)"
  then show "\<exists>img. WriteIso9660 env None vol fs boot = Inr img"
    using layoutIso_ok[of env vol fs boot] iso_written by (fastforce simp: WriteIso9660_def)
qed

text \<open>
  C26. The image is what its layout says. Writing to a device that takes everything succeeds
  exactly when the boot image is among the inputs and every source yields its declared size.
  The layout then places every input once; the image is a whole number of sectors, as many as
  declared; and the volume descriptors, both path tables, every directory, the boot catalog
  and the contents of every file stand at the sectors the layout gives them, no one reaching
  into the next.
\<close>

theorem iso_image_layout:
  "((\<exists>img. WriteIso9660 env None vol fs boot = Inr img) \<longleftrightarrow>
      (\<exists>f \<in> set fs. iso_clean (in_path f) = iso_clean boot) \<and> (\<forall>f \<in> set fs. input_honest f)) \<and>
   (WriteIso9660 env None vol fs boot = Inr img \<longrightarrow>
      (\<exists>ly. layoutIso env vol fs boot = Inr ly \<and>
         mset (map fst (ly_files ly)) = mset (input_entries fs) \<and>
         int (length img) = ly_totalSectors ly * sectorSize \<and>
         (\<forall>(s, b) \<in> set (iso_segs env ly). holds_at img s b) \<and> fits 0 (iso_segs env ly) (ly_totalSectors ly)))"
proof (intro conjI impI)
  assume w: "WriteIso9660 env None vol fs boot = Inr img"
  then obtain ly where l: "layoutIso env vol fs boot = Inr ly" "iso_write env None ly = Inr img"
    by (auto simp: WriteIso9660_def bindR_Inr_iff)
  have h: "\<forall>f \<in> set fs. input_honest f" using w WriteIso9660_iff[of env vol fs boot] by blast
  then have "fits 0 (iso_segs env ly) (ly_totalSectors ly)" using layout_fits[OF l(1)] honest_entries by blast
  then show "\<exists>ly. layoutIso env vol fs boot = Inr ly \<and>
         mset (map fst (ly_files ly)) = mset (input_entries fs) \<and>
         int (length img) = ly_totalSectors ly * sectorSize \<and>
         (\<forall>(s, b) \<in> set (iso_segs env ly). holds_at img s b) \<and> fits 0 (iso_segs env ly) (ly_totalSectors ly)"
    using l iso_written[OF l(1) h] layout_files[OF l(1)] by auto
qed (rule WriteIso9660_iff)

definition sample_up :: "string \<Rightarrow> nat list" where
  "sample_up s = map (\<lambda>c. let n = of_char c in if 97 \<le> n \<and> n \<le> 122 then n - 32 else n) s"

definition sample_iso_env :: iso_env where
  "sample_iso_env = \<lparr>env_upper = sample_up,
     env_now = \<lparr>t_year = 2026, t_month = 1, t_day = 2, t_hour = 3, t_minute = 4, t_second = 5\<rparr>\<rparr>"

definition sample_files :: "string iso_input list" where
  "sample_files =
     [\<lparr>in_path = ''/images/efi.img'', in_size = 3, in_src = Inr ([1, 2, 3], None)\<rparr>,
      \<lparr>in_path = ''LiveOS/root.sfs'', in_size = 2, in_src = Inr ([4, 5], None)\<rparr>]"

theorem iso_image_layout_witness:
  "\<exists>ly img. layoutIso sample_iso_env ''LIVE'' sample_files ''images/efi.img'' = Inr ly \<and>
     WriteIso9660 sample_iso_env None ''LIVE'' sample_files ''images/efi.img'' = Inr img \<and>
     int (length img) = ly_totalSectors ly * sectorSize \<and> length (ly_files ly) = 2"
proof -
  let ?W = "WriteIso9660 sample_iso_env None ''LIVE'' sample_files ''images/efi.img''"
  have "iso_clean (in_path (hd sample_files)) = iso_clean ''images/efi.img''" by code_simp
  moreover have "hd sample_files \<in> set sample_files" "\<forall>f \<in> set sample_files. input_honest f"
    by (simp_all add: sample_files_def input_honest_def)
  ultimately obtain img where img: "?W = Inr img"
    using iso_image_layout[of sample_iso_env "''LIVE''" sample_files "''images/efi.img''"] by blast
  then obtain ly where ly: "layoutIso sample_iso_env ''LIVE'' sample_files ''images/efi.img'' = Inr ly"
    "mset (map fst (ly_files ly)) = mset (input_entries sample_files)" "int (length img) = ly_totalSectors ly * sectorSize"
    using iso_image_layout[of sample_iso_env "''LIVE''" sample_files "''images/efi.img''" img] by blast
  have "length (ly_files ly) = 2"
    using mset_eq_length[OF ly(2)] by (simp add: input_entries_def sample_files_def)
  then show ?thesis using img ly by blast
qed

text \<open>
  C27. The fields of a directory record. A reader gets back, in both byte orders, the extent
  and the size that were to be written whenever they are below 2 to the 32, and the directory
  and multi-extent flags; names of up to 144 bytes come back from the NM entry and such
  records, like the two dot records, state their own length, which is even and at most 254.
\<close>

theorem dirRecord_bounds:
  assumes "0 \<le> extent" "extent < 2 ^ 32" "0 \<le> sz" "sz < 2 ^ 32"
    and "r = dirRecord env name extent sz isDir dot multi"
  shows "int (rec_field 2 r) = extent \<and> int (rec_field_be 2 r) = extent \<and>
    int (rec_field 10 r) = sz \<and> int (rec_field_be 10 r) = sz \<and> bit (r ! 25) 1 = isDir \<and> bit (r ! 25) 7 = multi \<and>
    (dot = 0 \<and> length name \<le> 144 \<longrightarrow> rec_name r = name) \<and>
    (dot = 0 \<and> length name \<le> 144 \<or> dot \<noteq> 0 \<and> name \<in> {''SP'', ''''} \<longrightarrow>
       rec_len r = length r \<and> length r \<le> 254 \<and> even (length r))"
proof -
  have "rec_len r = length r \<and> length r \<le> 254 \<and> even (length r)"
    if "dot = 0 \<and> length name \<le> 144 \<or> dot \<noteq> 0 \<and> name \<in> {''SP'', ''''}"
  proof -
    have "record_length env name isDir dot \<le> 254" by (rule record_length_bound) (use that in auto)
    then show ?thesis
      using even_record_length[of env name isDir dot] by (simp add: assms(5) dirRecord_length_field length_dirRecord)
  qed
  then show ?thesis using dirRecord_fields[OF assms] dirRecord_name by (simp add: assms(5))
qed

theorem dirRecord_bounds_witness:
  "rec_name (dirRecord sample_iso_env ''root.sfs'' 4294967295 4294965248 False 0 True) = ''root.sfs'' \<and>
   rec_field 2 (dirRecord sample_iso_env ''root.sfs'' 4294967295 4294965248 False 0 True) = 4294967295"
  using dirRecord_bounds[of 4294967295 4294965248 _ sample_iso_env "''root.sfs''" False 0 True, OF _ _ _ _ refl] by simp

text \<open>
  The spans of a file: they tile it from the first byte to the last, each below 2 to the 32
  and starting at a sector, and all but the last are of the maximal length.
\<close>

lemma extentSpans_correct:
  assumes "0 \<le> sz"
  shows "tiles 0 (extentSpans sz) sz \<and> extentSpans sz \<noteq> [] \<and>
    (\<forall>(x, n) \<in> set (extentSpans sz). x mod sectorSize = 0 \<and> 0 \<le> n \<and> n < 2 ^ 32 \<and> (n = maxExtent \<or> x + n = sz))"
  using extentSpans_tiles[OF assms] extentSpans_bounds[OF assms] by auto

text \<open>
  Nothing guards the one-byte length: a name of 177 bytes or more makes a record longer than
  its length field can say.
\<close>

lemma dirRecord_long_name:
  assumes "177 \<le> length name"
  shows "rec_len (dirRecord env name extent sz isDir 0 multi) < length (dirRecord env name extent sz isDir 0 multi)"
proof -
  have "256 \<le> record_length env name isDir 0"
    using assms by (simp add: record_length_def pad_even_def length_systemUse)
  moreover have "record_length env name isDir 0 mod 256 < 256" by simp
  ultimately show ?thesis unfolding dirRecord_length_field length_dirRecord by linarith
qed

text \<open>The sixteen words of the boot catalog's validation entry sum to zero.\<close>

lemma boot_catalog_checksum: "word_sum (take 32 (boot_catalog ly)) = 0"
proof -
  let ?csum = "65536 - uint (word_sum (take 32 validation_entry))"
  let ?c = "patch (28, [word_of_int ?csum, word_of_int (?csum div 256)]) validation_entry"
  have l: "length ?c = 2048" by (simp add: patch_def)
  have "take 32 (boot_catalog ly) = take 32 ?c"
    unfolding boot_catalog_def Let_def by (simp add: take_patch l patch_def)
  moreover have "word_sum (take 32 ?c) = 0" by code_simp
  ultimately show ?thesis by simp
qed

end
