(* ===== verification/Tree_Diff.thy ===== *)
theory Tree_Diff
  imports Prelude
begin

text \<open>
  The delta of a live environment over the shared base (\<^verbatim>\<open>internal/install/treediff.go\<close>):
  \<^verbatim>\<open>TreeDiff\<close> walks two file trees and materialises the difference as an overlayfs layer.

  The two inputs are trees, whose directories list their children in the order \<^verbatim>\<open>os.ReadDir\<close>
  returns them. The delta under construction is an association list from paths to entries, the
  directories among them explicit, changed by the system calls the code makes; a host record
  says which calls fail and who owns what is created. Times are not modelled: the comparison
  ignores them. A removal of what can be removed does not fail.
\<close>

section \<open>Files\<close>

record meta =
  m_perm :: int
  m_special :: int
  m_uid :: int
  m_gid :: int

datatype devkind = Blk | Chr | Fifo | Sock

text \<open>\<open>m_special\<close> holds the setuid, setgid and sticky bits, which Go keeps outside \<^verbatim>\<open>Perm\<close>.\<close>

datatype fent =
    EDir meta
  | EFile meta bytes
  | ELink int int string
  | EDev devkind meta int

datatype ftree = FT (ent: fent) (kids: "(string \<times> ftree) list")

fun is_edir :: "fent \<Rightarrow> bool" where
  "is_edir (EDir m) = True"
| "is_edir _ = False"

abbreviation tree_dir :: "ftree \<Rightarrow> bool" where
  "tree_dir t \<equiv> is_edir (ent t)"

text \<open>An overlayfs whiteout is a character device with number zero.\<close>

fun is_whiteout :: "fent \<Rightarrow> bool" where
  "is_whiteout (EDev Chr m r) \<longleftrightarrow> r = 0"
| "is_whiteout _ \<longleftrightarrow> False"

fun at :: "ftree \<Rightarrow> string list \<Rightarrow> ftree option" where
  "at t [] = Some t"
| "at t (p # ps) = (case map_of (kids t) p of None \<Rightarrow> None | Some c \<Rightarrow> at c ps)"

section \<open>The host\<close>

text \<open>The calls that read name the tree they read: the base, the live environment or the delta.\<close>

datatype tree_side = Base | Env | Out

datatype syscall =
    ReadDir tree_side "string list" | Lstat tree_side "string list" | Readlink tree_side "string list"
  | OpenRead tree_side "string list" | MkdirAll
  | Mkdir "string list" | Symlink "string list" | WriteFile "string list" | Mknod "string list"
  | Chmod "string list" | Lchown "string list" | Chtimes "string list"

record 'e host =
  h_fail :: "syscall \<Rightarrow> 'e option"
  h_uid :: int
  h_gid :: int

datatype 'e tree_error =
    SysErr syscall 'e
  | NoParent "string list"
  | FileExists "string list"
  | IsDirectory "string list"
  | Vanished "string list"

text \<open>The delta: each path once, newest first.\<close>

type_synonym delta = "(string list \<times> fent) list"

abbreviation has :: "delta \<Rightarrow> string list \<Rightarrow> fent option" where
  "has out p \<equiv> map_of out p"

definition sys :: "'e host \<Rightarrow> syscall \<Rightarrow> 'a \<Rightarrow> 'e tree_error + 'a" where
  "sys h c x = (case h_fail h c of Some e \<Rightarrow> Inl (SysErr c e) | None \<Rightarrow> Inr x)"

text \<open>Creating an entry needs the directory above it in the delta; the root is there.\<close>

definition create :: "'e host \<Rightarrow> syscall \<Rightarrow> string list \<Rightarrow> fent \<Rightarrow> delta \<Rightarrow> 'e tree_error + delta" where
  "create h c rel e out =
     (if butlast rel \<noteq> [] \<and> (case has out (butlast rel) of None \<Rightarrow> True | Some d \<Rightarrow> \<not> is_edir d) then Inl (NoParent rel)
      else if has out rel \<noteq> None then Inl (FileExists rel)
      else sys h c (AList.update rel e out))"

text \<open>\<^verbatim>\<open>os.Mkdir\<close> with \<^verbatim>\<open>IsExist\<close> tolerated.\<close>

definition mkdir :: "'e host \<Rightarrow> string list \<Rightarrow> delta \<Rightarrow> 'e tree_error + delta" where
  "mkdir h rel out =
     (if has out rel \<noteq> None then Inr out
      else create h (Mkdir rel) rel (EDir \<lparr>m_perm = 448, m_special = 0, m_uid = h_uid h, m_gid = h_gid h\<rparr>) out)"

text \<open>\<^verbatim>\<open>os.Remove\<close>, its error ignored: a directory with entries stays, anything else goes.\<close>

definition remove_entry :: "string list \<Rightarrow> delta \<Rightarrow> delta" where
  "remove_entry rel out =
     (case has out rel of
        None \<Rightarrow> out
      | Some e \<Rightarrow>
          if is_edir e \<and> (\<exists>(q, f) \<in> set out. strict_prefix rel q) then out else AList.delete rel out)"

fun set_mode :: "int \<Rightarrow> int \<Rightarrow> fent \<Rightarrow> fent" where
  "set_mode p s (EDir m) = EDir (m\<lparr>m_perm := p, m_special := s\<rparr>)"
| "set_mode p s (EFile m b) = EFile (m\<lparr>m_perm := p, m_special := s\<rparr>) b"
| "set_mode p s (EDev k m r) = EDev k (m\<lparr>m_perm := p, m_special := s\<rparr>) r"
| "set_mode p s (ELink u g t) = ELink u g t"

fun set_owner :: "int \<Rightarrow> int \<Rightarrow> fent \<Rightarrow> fent" where
  "set_owner u g (EDir m) = EDir (m\<lparr>m_uid := u, m_gid := g\<rparr>)"
| "set_owner u g (EFile m b) = EFile (m\<lparr>m_uid := u, m_gid := g\<rparr>) b"
| "set_owner u g (EDev k m r) = EDev k (m\<lparr>m_uid := u, m_gid := g\<rparr>) r"
| "set_owner u g (ELink u' g' t) = ELink u g t"

fun owner :: "fent \<Rightarrow> int \<times> int" where
  "owner (EDir m) = (m_uid m, m_gid m)"
| "owner (EFile m b) = (m_uid m, m_gid m)"
| "owner (EDev k m r) = (m_uid m, m_gid m)"
| "owner (ELink u g t) = (u, g)"

text \<open>\<^verbatim>\<open>Mode\<close> apart from the type: a link's mode is of no consequence.\<close>

fun mode_of :: "fent \<Rightarrow> int \<times> int" where
  "mode_of (EDir m) = (m_perm m, m_special m)"
| "mode_of (EFile m b) = (m_perm m, m_special m)"
| "mode_of (EDev k m r) = (m_perm m, m_special m)"
| "mode_of (ELink u g t) = (511, 0)"

definition change :: "(fent \<Rightarrow> fent) \<Rightarrow> string list \<Rightarrow> delta \<Rightarrow> delta" where
  "change f rel out = (case has out rel of None \<Rightarrow> out | Some e \<Rightarrow> AList.update rel (f e) out)"

text \<open>A refused \<^verbatim>\<open>chown\<close> is tolerated when the entry already has that owner.\<close>

definition lchown :: "'e host \<Rightarrow> string list \<Rightarrow> int \<times> int \<Rightarrow> delta \<Rightarrow> 'e tree_error + delta" where
  "lchown h rel ow out =
     (case h_fail h (Lchown rel) of
        None \<Rightarrow> Inr (change (set_owner (fst ow) (snd ow)) rel out)
      | Some e \<Rightarrow>
          (case (h_fail h (Lstat Out rel), has out rel) of
             (None, Some cur) \<Rightarrow> if owner cur = ow then Inr out else Inl (SysErr (Lchown rel) e)
           | _ \<Rightarrow> Inl (SysErr (Lchown rel) e)))"

definition applyMeta :: "'e host \<Rightarrow> string list \<Rightarrow> fent \<Rightarrow> delta \<Rightarrow> 'e tree_error + delta" where
  "applyMeta h rel info out =
     bindR (sys h (Chmod rel) (change (set_mode (fst (mode_of info)) 0) rel out)) (\<lambda>out1.
       bindR (lchown h rel (owner info) out1) (sys h (Chtimes rel)))"

section \<open>Writing the delta\<close>

text \<open>\<^verbatim>\<open>ensureParents\<close>, over the strict prefixes of the path, from the top.\<close>

definition parents :: "string list \<Rightarrow> string list list" where
  "parents rel = map (\<lambda>i. take i rel) [1..<length rel]"

definition ensure_parent :: "'e host \<Rightarrow> ftree \<Rightarrow> string list \<Rightarrow> delta \<Rightarrow> 'e tree_error + delta" where
  "ensure_parent h env cur out =
     (if has out cur \<noteq> None \<and> h_fail h (Lstat Out cur) = None then Inr out
      else case at env cur of
        None \<Rightarrow> Inl (Vanished cur)
      | Some info \<Rightarrow>
          bindR (sys h (Lstat Env cur) out) (\<lambda>out. bindR (mkdir h cur out) (applyMeta h cur (ent info))))"

definition ensureParents :: "'e host \<Rightarrow> ftree \<Rightarrow> string list \<Rightarrow> delta \<Rightarrow> 'e tree_error + delta" where
  "ensureParents h env rel out = foldR (ensure_parent h env) (parents rel) out"

definition whiteout_entry :: "'e host \<Rightarrow> fent" where
  "whiteout_entry h = EDev Chr \<lparr>m_perm = 0, m_special = 0, m_uid = h_uid h, m_gid = h_gid h\<rparr> 0"

definition tree_whiteout :: "'e host \<Rightarrow> ftree \<Rightarrow> string list \<Rightarrow> delta \<Rightarrow> 'e tree_error + delta" where
  "tree_whiteout h env rel out =
     bindR (ensureParents h env rel out) (create h (Mknod rel) rel (whiteout_entry h))"

definition is_excluded :: "string list \<Rightarrow> string list \<Rightarrow> bool" where
  "is_excluded ex rel \<longleftrightarrow> join_with ''/'' rel \<in> set (map path_clean ex)"

text \<open>\<^verbatim>\<open>copyFileContents\<close>: the old entry goes; opening a directory for writing fails.\<close>

definition copyFileContents :: "'e host \<Rightarrow> string list \<Rightarrow> bytes \<Rightarrow> delta \<Rightarrow> 'e tree_error + delta" where
  "copyFileContents h rel b out =
     bindR (sys h (OpenRead Env rel) (remove_entry rel out)) (\<lambda>out1.
       if has out1 rel \<noteq> None then Inl (IsDirectory rel)
       else create h (WriteFile rel) rel (EFile \<lparr>m_perm = 384, m_special = 0, m_uid = h_uid h, m_gid = h_gid h\<rparr> b) out1)"

fun copyEntry :: "'e host \<Rightarrow> string list \<Rightarrow> ftree \<Rightarrow> string list \<Rightarrow> ftree \<Rightarrow> delta \<Rightarrow> 'e tree_error + delta"
  and copyKids :: "'e host \<Rightarrow> string list \<Rightarrow> ftree \<Rightarrow> string list \<Rightarrow> (string \<times> ftree) list \<Rightarrow> delta \<Rightarrow> 'e tree_error + delta" where
  "copyEntry h ex env rel (FT e ks) out0 =
     bindR (ensureParents h env rel out0) (\<lambda>out.
       case e of
         EDir m \<Rightarrow>
           bindR (mkdir h rel out) (\<lambda>out.
             bindR (sys h (ReadDir Env rel) out) (\<lambda>out.
               bindR (copyKids h ex env rel ks out) (applyMeta h rel e)))
       | ELink u g t \<Rightarrow>
           bindR (sys h (Readlink Env rel) (remove_entry rel out)) (\<lambda>out.
             bindR (create h (Symlink rel) rel (ELink (h_uid h) (h_gid h) t) out) (lchown h rel (u, g)))
       | EFile m b \<Rightarrow> bindR (copyFileContents h rel b out) (applyMeta h rel e)
       | EDev k m r \<Rightarrow>
           (let out = remove_entry rel out in
            if k = Sock then Inr out
            else bindR (create h (Mknod rel) rel
                   (EDev k \<lparr>m_perm = m_perm m, m_special = 0, m_uid = h_uid h, m_gid = h_gid h\<rparr> r) out) (applyMeta h rel e)))"
| "copyKids h ex env rel [] out = Inr out"
| "copyKids h ex env rel ((name, c) # ks) out =
     (if is_excluded ex (rel @ [name]) then copyKids h ex env rel ks out
      else bindR (sys h (Lstat Env (rel @ [name])) out) (\<lambda>out.
             bindR (copyEntry h ex env (rel @ [name]) c out) (copyKids h ex env rel ks)))"

section \<open>Comparing\<close>

definition sameOwner :: "fent \<Rightarrow> fent \<Rightarrow> bool" where
  "sameOwner a b \<longleftrightarrow> owner a = owner b"

fun same_type :: "fent \<Rightarrow> fent \<Rightarrow> bool" where
  "same_type (EDir _) (EDir _) \<longleftrightarrow> True"
| "same_type (EFile _ _) (EFile _ _) \<longleftrightarrow> True"
| "same_type (ELink _ _ _) (ELink _ _ _) \<longleftrightarrow> True"
| "same_type (EDev k _ _) (EDev l _ _) \<longleftrightarrow> k = l"
| "same_type _ _ \<longleftrightarrow> False"

definition sameMeta :: "fent \<Rightarrow> fent \<Rightarrow> bool" where
  "sameMeta a b \<longleftrightarrow> same_type a b \<and> mode_of a = mode_of b \<and> sameOwner a b"

text \<open>The byte comparison reads both files in chunks.\<close>

function same_chunks :: "nat \<Rightarrow> bytes \<Rightarrow> bytes \<Rightarrow> bool" where
  "same_chunks k a b =
     (let ca = take k a; cb = take k b in
      if length ca \<noteq> length cb \<or> ca \<noteq> cb then False
      else if length ca < k \<or> k = 0 then length cb < k \<or> k = 0
      else same_chunks k (drop k a) (drop k b))"
  by pat_completeness auto
termination by (relation "measure (\<lambda>(k, a, b). length a)") (auto simp: min_def split: if_splits)

declare same_chunks.simps [simp del]

definition sameContent :: "'e host \<Rightarrow> string list \<Rightarrow> bytes \<Rightarrow> bytes \<Rightarrow> 'e tree_error + bool" where
  "sameContent h rel a b =
     bindR (sys h (OpenRead Base rel) ()) (\<lambda>u. sys h (OpenRead Env rel) (same_chunks 262144 a b))"

lemma same_chunks_eq: "0 < k \<Longrightarrow> same_chunks k a b \<longleftrightarrow> a = b"
proof (induction k a b rule: same_chunks.induct)
  case (1 k a b)
  show ?case
  proof (cases "take k a = take k b")
    case True
    show ?thesis
    proof (cases "length (take k a) < k")
      case False
      then have "same_chunks k a b = same_chunks k (drop k a) (drop k b)"
        using True 1(2) by (subst same_chunks.simps) (simp add: Let_def)
      also have "\<dots> \<longleftrightarrow> drop k a = drop k b"
        using 1(1)[OF refl refl] True False 1(2) by simp
      finally show ?thesis using True by (metis append_take_drop_id)
    next
      case short: True
      then have "length a < k" "length b < k" using True by (auto simp: min_def split: if_splits)
      then show ?thesis using True by (subst same_chunks.simps) (simp add: Let_def)
    qed
  next
    case False
    then show ?thesis by (subst same_chunks.simps) (auto simp: Let_def)
  qed
qed


text \<open>Comparing chunk by chunk is comparing the contents, which is how witnesses evaluate it.\<close>

lemma sameContent_eq [code]:
  "sameContent h rel a b = bindR (sys h (OpenRead Base rel) ()) (\<lambda>u. sys h (OpenRead Env rel) (a = b))"
  by (simp add: sameContent_def same_chunks_eq)

section \<open>The walk over both trees\<close>

text \<open>An entry whose \<^verbatim>\<open>Lstat\<close> fails, for whatever reason, counts as absent.\<close>

definition lstat :: "'e host \<Rightarrow> tree_side \<Rightarrow> string list \<Rightarrow> ftree option \<Rightarrow> ftree option" where
  "lstat h sd rel t = (if h_fail h (Lstat sd rel) = None then t else None)"

fun is_link :: "fent \<Rightarrow> bool" where
  "is_link (ELink _ _ _) = True"
| "is_link _ = False"

fun link_target :: "fent \<Rightarrow> string" where
  "link_target (ELink _ _ t) = t"
| "link_target _ = []"

text \<open>\<^verbatim>\<open>rdev\<close>, zero for what is no device.\<close>

fun rdev :: "fent \<Rightarrow> int" where
  "rdev (EDev k m r) = r"
| "rdev _ = 0"

text \<open>The merged names, sorted and each once.\<close>

definition merged_names :: "ftree \<Rightarrow> ftree \<Rightarrow> string list" where
  "merged_names b e = sort (remdups (map fst (kids b) @ map fst (kids e)))"

text \<open>\<^verbatim>\<open>diffEntry\<close> for what is no directory on both sides.\<close>

definition diffLeaf :: "'e host \<Rightarrow> string list \<Rightarrow> ftree \<Rightarrow> string list \<Rightarrow> ftree \<Rightarrow> ftree \<Rightarrow> delta \<Rightarrow> 'e tree_error + delta" where
  "diffLeaf h ex env rel b e out =
     (case (ent b, ent e) of
        (ELink bu bg bt, ELink eu eg et) \<Rightarrow>
          bindR (sys h (Readlink Base rel) out) (\<lambda>out. bindR (sys h (Readlink Env rel) out) (\<lambda>out.
            if bt = et \<and> sameOwner (ent b) (ent e) then Inr out else copyEntry h ex env rel e out))
      | (EFile bm bb, EFile em eb) \<Rightarrow>
          if length bb = length eb \<and> sameMeta (ent b) (ent e)
          then bindR (sameContent h rel bb eb) (\<lambda>same. if same then Inr out else copyEntry h ex env rel e out)
          else copyEntry h ex env rel e out
      | _ \<Rightarrow>
          if sameMeta (ent b) (ent e) \<and> rdev (ent b) = rdev (ent e) then Inr out
          else copyEntry h ex env rel e out)"

lemma size_kid: "Some c = map_of (kids t) name \<Longrightarrow> size c < size t"
  by (cases t) (auto dest!: map_of_SomeD[OF sym] split_list)

function diffEntry :: "'e host \<Rightarrow> string list \<Rightarrow> ftree \<Rightarrow> string list \<Rightarrow> ftree \<Rightarrow> ftree \<Rightarrow> delta \<Rightarrow> 'e tree_error + delta"
  and diffDir :: "'e host \<Rightarrow> string list \<Rightarrow> ftree \<Rightarrow> string list \<Rightarrow> ftree \<Rightarrow> ftree \<Rightarrow> delta \<Rightarrow> 'e tree_error + delta"
  and diffNames :: "'e host \<Rightarrow> string list \<Rightarrow> ftree \<Rightarrow> string list \<Rightarrow> ftree \<Rightarrow> ftree \<Rightarrow> string list \<Rightarrow> delta \<Rightarrow> 'e tree_error + delta" where
  "diffEntry h ex env rel b e out =
     (if \<not> same_type (ent b) (ent e) then copyEntry h ex env rel e out
      else if tree_dir e then
        bindR (if sameMeta (ent b) (ent e) then Inr out else copyEntry h ex env rel e out) (diffDir h ex env rel b e)
      else diffLeaf h ex env rel b e out)"
| "diffDir h ex env rel b e out =
     bindR (sys h (ReadDir Base rel) out) (\<lambda>out. bindR (sys h (ReadDir Env rel) out)
       (diffNames h ex env rel b e (merged_names b e)))"
| "diffNames h ex env rel b e [] out = Inr out"
| "diffNames h ex env rel b e (name # ns) out =
     (let child = rel @ [name] in
      if is_excluded ex child then diffNames h ex env rel b e ns out
      else bindR
        (case (lstat h Base child (map_of (kids b) name), lstat h Env child (map_of (kids e) name)) of
           (Some bc, None) \<Rightarrow> tree_whiteout h env child out
         | (None, Some ec) \<Rightarrow> copyEntry h ex env child ec out
         | (Some bc, Some ec) \<Rightarrow> diffEntry h ex env child bc ec out
         | (None, None) \<Rightarrow> Inl (Vanished child))
        (diffNames h ex env rel b e ns))"
  by pat_completeness auto
termination
proof (relation "inv_image (less_than <*lex*> less_than <*lex*> less_than) (\<lambda>x. case x of
      Inl (h, ex, env, rel, b, e, out) \<Rightarrow> (size e, 2::nat, 0::nat)
    | Inr (Inl (h, ex, env, rel, b, e, out)) \<Rightarrow> (size e, 1, 0)
    | Inr (Inr (h, ex, env, rel, b, e, ns, out)) \<Rightarrow> (size e, 0, length ns))", goal_cases)
qed (auto simp: lstat_def split: if_splits intro: size_kid)

declare diffEntry.simps [simp del] diffDir.simps [simp del] diffNames.simps [simp del]

definition TreeDiff :: "'e host \<Rightarrow> ftree \<Rightarrow> ftree \<Rightarrow> string list \<Rightarrow> 'e tree_error + delta" where
  "TreeDiff h base env ex = bindR (sys h MkdirAll []) (diffDir h ex env [] base env)"



section \<open>The mounted view\<close>

text \<open>
  What overlayfs shows at a path with the delta stacked on the base: the entry of the delta,
  nothing at a whiteout or below anything in the delta that is no directory, the base elsewhere.
\<close>

definition overlay_at :: "delta \<Rightarrow> ftree \<Rightarrow> string list \<Rightarrow> fent option" where
  "overlay_at out base p =
     (case has out p of
        Some e \<Rightarrow> if is_whiteout e then None else Some e
      | None \<Rightarrow>
          if list_ex (\<lambda>q. case has out q of None \<Rightarrow> False | Some e \<Rightarrow> \<not> is_edir e) (parents p) then None
          else map_option ent (at base p))"

definition entry :: "ftree \<Rightarrow> string list \<Rightarrow> fent option" where
  "entry t p = map_option ent (at t p)"

text \<open>Names are distinct and only directories have children.\<close>

fun wf_ftree :: "ftree \<Rightarrow> bool" where
  "wf_ftree (FT e ks) \<longleftrightarrow> (is_edir e \<or> ks = []) \<and> distinct (map fst ks) \<and> (\<forall>(n, t) \<in> set ks. wf_ftree t)"

text \<open>What the walk can reproduce: no socket, no whiteout of its own, no setuid, setgid or sticky bit.\<close>

definition plain_ent :: "fent \<Rightarrow> bool" where
  "plain_ent e \<longleftrightarrow> \<not> is_whiteout e \<and> snd (mode_of e) = 0 \<and> (case e of EDev k m r \<Rightarrow> k \<noteq> Sock | _ \<Rightarrow> True)"

fun plain_tree :: "ftree \<Rightarrow> bool" where
  "plain_tree (FT e ks) \<longleftrightarrow> plain_ent e \<and> (\<forall>(n, t) \<in> set ks. plain_tree t)"

definition pruned :: "string list \<Rightarrow> string list \<Rightarrow> bool" where
  "pruned ex p \<longleftrightarrow> list_ex (\<lambda>i. is_excluded ex (take i p)) [1..<Suc (length p)]"

lemma at_append: "at t (p @ q) = (case at t p of None \<Rightarrow> None | Some u \<Rightarrow> at u q)"
  by (induction p arbitrary: t) (auto split: option.splits)

lemma wf_at: "wf_ftree t \<Longrightarrow> at t p = Some u \<Longrightarrow> wf_ftree u"
proof (induction p arbitrary: t)
  case (Cons n p)
  then obtain c where "map_of (kids t) n = Some c" "at c p = Some u" by (auto split: option.splits)
  with Cons.IH[of c] Cons.prems(1) show ?case by (cases t) (auto dest!: map_of_SomeD)
qed simp

lemma at_below_file:
  assumes "at t p = Some u" "wf_ftree t" "\<not> tree_dir u" "q \<noteq> []"
  shows "at t (p @ q) = None"
proof -
  have "wf_ftree u" by (rule wf_at[OF assms(2,1)])
  then have "kids u = []" using assms(3) by (cases u) auto
  then show ?thesis using assms(1,4) by (cases q) (auto simp: at_append)
qed

lemma plain_at: "plain_tree t \<Longrightarrow> at t p = Some u \<Longrightarrow> plain_ent (ent u)"
proof (induction p arbitrary: t)
  case Nil
  then show ?case by (cases t) auto
next
  case (Cons n p)
  then obtain c where "map_of (kids t) n = Some c" "at c p = Some u" by (auto split: option.splits)
  with Cons.IH[of c] Cons.prems(1) show ?case by (cases t) (auto dest!: map_of_SomeD)
qed

lemma parents_iff: "q \<in> set (parents p) \<longleftrightarrow> q \<noteq> [] \<and> strict_prefix q p"
proof
  assume "q \<in> set (parents p)"
  then obtain i where "1 \<le> i" "i < length p" "q = take i p" by (auto simp: parents_def)
  then show "q \<noteq> [] \<and> strict_prefix q p"
    by (auto simp: strict_prefix_def take_is_prefix)
next
  assume a: "q \<noteq> [] \<and> strict_prefix q p"
  then have "q = take (length q) p" "length q < length p" "1 \<le> length q"
    by (auto simp: strict_prefix_def prefix_def Suc_le_eq)
  then show "q \<in> set (parents p)" unfolding parents_def by (auto intro!: image_eqI[of _ _ "length q"])
qed

lemma pruned_iff: "pruned ex p \<longleftrightarrow> (\<exists>q. q \<noteq> [] \<and> prefix q p \<and> is_excluded ex q)"
proof -
  have "pruned ex p \<longleftrightarrow> (\<exists>i \<in> {1..<Suc (length p)}. is_excluded ex (take i p))"
    by (simp only: pruned_def list_ex_iff set_upt)
  also have "\<dots> \<longleftrightarrow> (\<exists>q. q \<noteq> [] \<and> prefix q p \<and> is_excluded ex q)" (is "?l \<longleftrightarrow> ?r")
  proof
    assume ?l
    then obtain i where "1 \<le> i" "i \<le> length p" "is_excluded ex (take i p)" by auto
    then show ?r by (intro exI[of _ "take i p"]) (auto simp: take_is_prefix)
  next
    assume ?r
    then obtain q where q: "q \<noteq> []" "prefix q p" "is_excluded ex q" by blast
    then have "q = take (length q) p" "length q \<le> length p" "1 \<le> length q"
      by (auto simp: prefix_def Suc_le_eq)
    with q(3) show ?l by (intro bexI[of _ "length q"]) auto
  qed
  finally show ?thesis .
qed



section \<open>What the calls leave in the delta\<close>

lemma sys_Inr: "sys h c x = Inr y \<longleftrightarrow> h_fail h c = None \<and> x = y"
  by (auto simp: sys_def split: option.splits)

lemma create_Inr: "create h c rel e D = Inr D' \<Longrightarrow> has D rel = None \<and> has D' = (has D)(rel \<mapsto> e)"
  by (auto simp: create_def sys_Inr split: if_splits)

lemma mkdir_new:
  "mkdir h rel D = Inr D' \<Longrightarrow> has D rel = None \<Longrightarrow>
    has D' = (has D)(rel \<mapsto> EDir \<lparr>m_perm = 448, m_special = 0, m_uid = h_uid h, m_gid = h_gid h\<rparr>)"
  by (rule conjunct2[OF create_Inr[of h "Mkdir rel"]]) (simp add: mkdir_def)

lemma has_remove: "has D rel = Some e \<Longrightarrow> \<not> is_edir e \<Longrightarrow> has (remove_entry rel D) = (has D)(rel := None)"
  by (simp add: remove_entry_def fun_upd_def)

lemma remove_None: "has D rel = None \<Longrightarrow> remove_entry rel D = D"
  by (simp add: remove_entry_def)

lemma set_owner_owner: "set_owner (fst (owner e)) (snd (owner e)) e = e"
  by (cases e) auto

lemma lchown_Inr:
  assumes "lchown h rel ow D = Inr D'" "has D rel = Some e"
  shows "has D' = (has D)(rel \<mapsto> set_owner (fst ow) (snd ow) e)"
proof (cases "h_fail h (Lchown rel)")
  case None
  then show ?thesis using assms by (auto simp: lchown_def change_def)
next
  case (Some x)
  then have "D' = D \<and> owner e = ow"
    using assms by (auto simp: lchown_def split: option.splits if_splits)
  then show ?thesis using assms(2) set_owner_owner[of e] by auto
qed

lemma applyMeta_Inr:
  assumes "applyMeta h rel info D = Inr D'" "has D rel = Some e"
  shows "has D' = (has D)(rel \<mapsto> set_owner (fst (owner info)) (snd (owner info)) (set_mode (fst (mode_of info)) 0 e))"
proof -
  obtain D1 D2 where d: "D1 = change (set_mode (fst (mode_of info)) 0) rel D" "lchown h rel (owner info) D1 = Inr D2" "D' = D2"
    using assms(1) by (auto simp: applyMeta_def bindR_Inr_iff sys_Inr)
  have d1: "has D1 = (has D)(rel \<mapsto> set_mode (fst (mode_of info)) 0 e)"
    using assms(2) by (simp add: d(1) change_def fun_upd_def)
  show ?thesis
    unfolding d(3) lchown_Inr[OF d(2) fun_cong[OF d1, of rel, unfolded fun_upd_same]]
    by (simp only: d1 fun_upd_upd)
qed

lemma stamp_dir: "m_special m = 0 \<Longrightarrow>
    set_owner (fst (owner (EDir m))) (snd (owner (EDir m))) (set_mode (fst (mode_of (EDir m))) 0 (EDir m0)) = EDir m"
  by (cases m) simp

lemma stamp_file: "m_special m = 0 \<Longrightarrow>
    set_owner (fst (owner (EFile m b))) (snd (owner (EFile m b))) (set_mode (fst (mode_of (EFile m b))) 0 (EFile m0 b)) = EFile m b"
  by (cases m) simp

lemma stamp_dev: "m_special m = 0 \<Longrightarrow>
    set_owner (fst (owner (EDev k m r))) (snd (owner (EDev k m r))) (set_mode (fst (mode_of (EDev k m r))) 0 (EDev k m0 r)) = EDev k m r"
  by (cases m) simp

section \<open>The invariant of the delta\<close>

text \<open>
  What is in the delta is what the live environment has there, or a whiteout where it has nothing; the
  directories in \<open>X\<close> are still to receive their metadata.
\<close>

definition sound :: "ftree \<Rightarrow> string list set \<Rightarrow> delta \<Rightarrow> bool" where
  "sound env X D \<longleftrightarrow> (\<forall>p e. has D p = Some e \<longrightarrow>
     entry env p = Some e \<or> entry env p = None \<and> is_whiteout e \<or>
     p \<in> X \<and> is_edir e \<and> (\<exists>m. entry env p = Some (EDir m)))"

lemma is_edir_iff: "is_edir e \<longleftrightarrow> (\<exists>m. e = EDir m)"
  by (cases e) auto

lemma whiteout_not_dir: "is_whiteout e \<Longrightarrow> \<not> is_edir e"
  by (cases e) auto

lemma soundD: "sound env X D \<Longrightarrow> has D p = Some e \<Longrightarrow>
    entry env p = Some e \<or> entry env p = None \<and> is_whiteout e \<or> p \<in> X \<and> is_edir e \<and> (\<exists>m. entry env p = Some (EDir m))"
  by (simp add: sound_def)

lemma sound_upd:
  assumes "sound env X D" "has D' = (has D)(p \<mapsto> e)"
    "entry env p = Some e \<or> entry env p = None \<and> is_whiteout e \<or> p \<in> X \<and> is_edir e \<and> (\<exists>m. entry env p = Some (EDir m))"
  shows "sound env X D'"
  using assms by (auto simp: sound_def)

lemma sound_del: "sound env X D \<Longrightarrow> has D' = (has D)(p := None) \<Longrightarrow> sound env X D'"
  by (auto simp: sound_def)

lemma sound_mono: "sound env X D \<Longrightarrow> X \<subseteq> Y \<Longrightarrow> sound env Y D"
  unfolding sound_def by blast

lemma sound_shrink:
  assumes "sound env (insert p X) D" "has D p = entry env p"
  shows "sound env X D"
  unfolding sound_def using assms by (metis insert_iff soundD)

lemma sound_dir:
  assumes "sound env X D" "has D p = Some e" "entry env p = Some f"
  shows "is_edir e \<longleftrightarrow> is_edir f"
  using soundD[OF assms(1,2)] assms(3) by auto

lemma ensure_parent_sound:
  assumes "ensure_parent h env cur D = Inr D'" "sound env X D" "entry env cur = Some (EDir m)" "m_special m = 0"
  shows "sound env X D' \<and> dom (has D') = insert cur (dom (has D))"
proof (cases "has D cur \<noteq> None \<and> h_fail h (Lstat Out cur) = None")
  case True
  then show ?thesis using assms(1,2) by (auto simp: ensure_parent_def)
next
  case False
  then obtain D1 where d: "mkdir h cur D = Inr D1" "applyMeta h cur (EDir m) D1 = Inr D'"
    using assms(1,3) by (auto simp: ensure_parent_def entry_def bindR_Inr_iff sys_Inr split: option.splits)
  obtain m0 where m0: "has D1 cur = Some (EDir m0)" "has D1 = (has D)(cur \<mapsto> EDir m0)"
  proof (cases "has D cur")
    case None
    from that[OF _ mkdir_new[OF d(1) None]] show ?thesis by (simp add: mkdir_new[OF d(1) None])
  next
    case (Some e)
    then have "D1 = D" "is_edir e" using d(1) sound_dir[OF assms(2) Some assms(3)] by (auto simp: mkdir_def)
    then obtain m' where "D1 = D" "e = EDir m'" by (auto simp: is_edir_iff)
    with that[of m'] Some show ?thesis by (simp add: map_upd_triv)
  qed
  have "has D' = (has D)(cur \<mapsto> EDir m)"
    using applyMeta_Inr[OF d(2) m0(1)] unfolding stamp_dir[OF assms(4)] m0(2) fun_upd_upd .
  then show ?thesis using sound_upd[OF assms(2)] assms(3) by auto
qed

lemma strict_prefix_dir:
  assumes "at env p = Some t" "wf_ftree env" "strict_prefix q p"
  obtains u where "at env q = Some u" "tree_dir u"
proof -
  obtain r where r: "p = q @ r" "r \<noteq> []" using assms(3) by (auto simp: strict_prefix_def prefix_def)
  then obtain u where u: "at env q = Some u" using assms(1) by (auto simp: at_append split: option.splits)
  moreover have "tree_dir u" using at_below_file[OF u assms(2) _ r(2)] assms(1) r(1) by auto
  ultimately show ?thesis using that by blast
qed

lemma ensureParents_sound:
  assumes "ensureParents h env rel D = Inr D'" "sound env X D" "plain_tree env"
    "\<forall>q. q \<noteq> [] \<longrightarrow> strict_prefix q rel \<longrightarrow> (\<exists>u. at env q = Some u \<and> tree_dir u)"
  shows "sound env X D' \<and> dom (has D) \<subseteq> dom (has D')"
proof (rule foldR_invariant[where P = "\<lambda>D'. sound env X D' \<and> dom (has D) \<subseteq> dom (has D')", OF assms(1)[unfolded ensureParents_def]])
  fix q s t
  assume q: "q \<in> set (parents rel)" and s: "sound env X s \<and> dom (has D) \<subseteq> dom (has s)" and t: "ensure_parent h env q s = Inr t"
  obtain u m where u: "at env q = Some u" "ent u = EDir m"
    using q assms(4) by (auto simp: parents_iff is_edir_iff)
  have "m_special m = 0" using plain_at[OF assms(3) u(1)] u(2) by (simp add: plain_ent_def)
  then show "sound env X t \<and> dom (has D) \<subseteq> dom (has t)"
    using ensure_parent_sound[OF t, of X m] s u by (auto simp: entry_def)
qed (use assms(2) in simp)



section \<open>Copying\<close>

text \<open>No path from below \<open>rel\<close> down to \<open>rel @ q\<close> is excluded.\<close>

definition clear :: "string list \<Rightarrow> string list \<Rightarrow> string list \<Rightarrow> bool" where
  "clear ex rel q \<longleftrightarrow> (\<forall>r. r \<noteq> [] \<longrightarrow> prefix r q \<longrightarrow> \<not> is_excluded ex (rel @ r))"

lemma clear_Nil [simp]: "clear ex rel []"
  by (simp add: clear_def)

lemma clear_Cons [simp]: "clear ex rel (n # q) \<longleftrightarrow> \<not> is_excluded ex (rel @ [n]) \<and> clear ex (rel @ [n]) q"
proof
  assume a: "clear ex rel (n # q)"
  have "\<not> is_excluded ex (rel @ [n])" using a[unfolded clear_def, rule_format, of "[n]"] by simp
  moreover have "\<not> is_excluded ex ((rel @ [n]) @ r)" if "prefix r q" for r
    using a[unfolded clear_def, rule_format, of "n # r"] that by simp
  ultimately show "\<not> is_excluded ex (rel @ [n]) \<and> clear ex (rel @ [n]) q" by (simp add: clear_def)
next
  assume a: "\<not> is_excluded ex (rel @ [n]) \<and> clear ex (rel @ [n]) q"
  show "clear ex rel (n # q)"
    unfolding clear_def
  proof (intro allI impI)
    fix r assume "r \<noteq> []" "prefix r (n # q)"
    then obtain r' where "r = n # r'" "prefix r' q" by (cases r) auto
    then show "\<not> is_excluded ex (rel @ r)"
      using a by (cases "r' = []") (auto simp: clear_def)
  qed
qed

lemma kid_at: "at env rel = Some t \<Longrightarrow> (n, c) \<in> set (kids t) \<Longrightarrow> wf_ftree env \<Longrightarrow> at env (rel @ [n]) = Some c"
  using wf_at[of env rel t] by (cases t) (auto simp: at_append)

text \<open>Whatever is at a non-directory's place goes, and the new entry is put there.\<close>

lemma replace_sound:
  assumes "sound env X D" "entry env rel = Some f" "\<not> is_edir f"
    and "create h c rel e0 (remove_entry rel D) = Inr D1" "has D2 = (has D1)(rel \<mapsto> f)"
  shows "sound env X D2 \<and> insert rel (dom (has D)) \<subseteq> dom (has D2)"
proof -
  have r: "has (remove_entry rel D) = (has D)(rel := None)"
  proof (cases "has D rel")
    case None
    then show ?thesis by (simp add: remove_None fun_upd_idem)
  next
    case (Some e)
    then show ?thesis using has_remove[OF Some] sound_dir[OF assms(1) Some assms(2)] assms(3) by blast
  qed
  have "has D2 = (has D)(rel \<mapsto> f)"
    unfolding assms(5) conjunct2[OF create_Inr[OF assms(4)]] r by (simp only: fun_upd_upd)
  then show ?thesis using sound_upd[OF assms(1)] assms(2) by auto
qed

lemma copy_link_sound:
  assumes "copyEntry h ex env rel (FT (ELink u g tt) ks) D0 = Inr D'" "sound env X D0" "plain_tree env"
    "wf_ftree env" "at env rel = Some (FT (ELink u g tt) ks)"
  shows "sound env X D' \<and> insert rel (dom (has D0)) \<subseteq> dom (has D')"
proof -
  obtain D D1 where d: "ensureParents h env rel D0 = Inr D"
    "create h (Symlink rel) rel (ELink (h_uid h) (h_gid h) tt) (remove_entry rel D) = Inr D1"
    "lchown h rel (u, g) D1 = Inr D'"
    using assms(1) by (auto simp: bindR_Inr_iff sys_Inr)
  have p: "sound env X D \<and> dom (has D0) \<subseteq> dom (has D)"
    using ensureParents_sound[OF d(1) assms(2,3)] strict_prefix_dir[OF assms(5,4)] by metis
  have "has D1 rel = Some (ELink (h_uid h) (h_gid h) tt)" using create_Inr[OF d(2)] by simp
  from lchown_Inr[OF d(3) this] have "has D' = (has D1)(rel \<mapsto> ELink u g tt)"
    by (simp only: set_owner.simps fst_conv snd_conv)
  from replace_sound[OF conjunct1[OF p] _ _ d(2) this] show ?thesis
    using p assms(5) by (auto simp: entry_def)
qed

lemma copy_file_sound:
  assumes "copyEntry h ex env rel (FT (EFile m b) ks) D0 = Inr D'" "sound env X D0" "plain_tree env"
    "wf_ftree env" "at env rel = Some (FT (EFile m b) ks)"
  shows "sound env X D' \<and> insert rel (dom (has D0)) \<subseteq> dom (has D')"
proof -
  let ?e = "EFile \<lparr>m_perm = 384, m_special = 0, m_uid = h_uid h, m_gid = h_gid h\<rparr> b"
  obtain D D1 where d: "ensureParents h env rel D0 = Inr D"
    "create h (WriteFile rel) rel ?e (remove_entry rel D) = Inr D1"
    "applyMeta h rel (EFile m b) D1 = Inr D'"
    using assms(1) by (auto simp: bindR_Inr_iff sys_Inr copyFileContents_def split: if_splits)
  have p: "sound env X D \<and> dom (has D0) \<subseteq> dom (has D)"
    using ensureParents_sound[OF d(1) assms(2,3)] strict_prefix_dir[OF assms(5,4)] by metis
  have "m_special m = 0" using plain_at[OF assms(3,5)] by (simp add: plain_ent_def)
  moreover have "has D1 rel = Some ?e" using create_Inr[OF d(2)] by simp
  ultimately have "has D' = (has D1)(rel \<mapsto> EFile m b)"
    using applyMeta_Inr[OF d(3)] stamp_file by metis
  from replace_sound[OF conjunct1[OF p] _ _ d(2) this] show ?thesis
    using p assms(5) by (auto simp: entry_def)
qed

lemma copy_dev_sound:
  assumes "copyEntry h ex env rel (FT (EDev k m r) ks) D0 = Inr D'" "sound env X D0" "plain_tree env"
    "wf_ftree env" "at env rel = Some (FT (EDev k m r) ks)"
  shows "sound env X D' \<and> insert rel (dom (has D0)) \<subseteq> dom (has D')"
proof -
  let ?e = "EDev k \<lparr>m_perm = m_perm m, m_special = 0, m_uid = h_uid h, m_gid = h_gid h\<rparr> r"
  have k: "k \<noteq> Sock" "m_special m = 0" using plain_at[OF assms(3,5)] by (simp_all add: plain_ent_def)
  then obtain D D1 where d: "ensureParents h env rel D0 = Inr D"
    "create h (Mknod rel) rel ?e (remove_entry rel D) = Inr D1"
    "applyMeta h rel (EDev k m r) D1 = Inr D'"
    using assms(1) by (auto simp: bindR_Inr_iff Let_def)
  have p: "sound env X D \<and> dom (has D0) \<subseteq> dom (has D)"
    using ensureParents_sound[OF d(1) assms(2,3)] strict_prefix_dir[OF assms(5,4)] by metis
  have "has D1 rel = Some ?e" using create_Inr[OF d(2)] by simp
  then have "has D' = (has D1)(rel \<mapsto> EDev k m r)"
    using applyMeta_Inr[OF d(3)] stamp_dev[OF k(2)] by metis
  from replace_sound[OF conjunct1[OF p] _ _ d(2) this] show ?thesis
    using p assms(5) by (auto simp: entry_def)
qed

lemma mkdir_sound:
  assumes "mkdir h rel D = Inr D1" "sound env X D" "entry env rel = Some (EDir m)"
  shows "sound env (insert rel X) D1 \<and> insert rel (dom (has D)) \<subseteq> dom (has D1)"
proof (cases "has D rel")
  case None
  note n = mkdir_new[OF assms(1) None]
  from sound_upd[OF sound_mono[OF assms(2) subset_insertI[of X rel]] n] assms(3) n show ?thesis by auto
next
  case (Some e)
  then show ?thesis using assms sound_mono[OF assms(2) subset_insertI[of X rel]] by (auto simp: mkdir_def)
qed


text \<open>Both directions at once: an entry with all that is below it.\<close>

lemma copy_sound:
  fixes D D' :: delta
  shows "copyEntry h ex env rel t D = Inr D' \<Longrightarrow> at env rel = Some t \<Longrightarrow> sound env X D \<Longrightarrow>
      (\<forall>x \<in> X. length x < length rel) \<Longrightarrow> wf_ftree env \<Longrightarrow> plain_tree env \<Longrightarrow>
      sound env X D' \<and> dom (has D) \<subseteq> dom (has D') \<and>
      (\<forall>q. at t q \<noteq> None \<longrightarrow> clear ex rel q \<longrightarrow> rel @ q \<in> dom (has D'))"
    and "copyKids h ex env rel ks D = Inr D' \<Longrightarrow> at env rel = Some t' \<Longrightarrow> set ks \<subseteq> set (kids t') \<Longrightarrow> sound env X D \<Longrightarrow>
      (\<forall>x \<in> X. length x \<le> length rel) \<Longrightarrow> wf_ftree env \<Longrightarrow> plain_tree env \<Longrightarrow>
      sound env X D' \<and> dom (has D) \<subseteq> dom (has D') \<and>
      (\<forall>(n, c) \<in> set ks. \<forall>q. at c q \<noteq> None \<longrightarrow> clear ex rel (n # q) \<longrightarrow> rel @ n # q \<in> dom (has D'))"
proof (induction h ex env rel t D and h ex env rel ks D arbitrary: X D' and X D' t' rule: copyEntry_copyKids.induct)
  case (1 h ex env rel e ks D0)
  show ?case
  proof (cases "is_edir e")
    case True
    then obtain m where e: "e = EDir m" by (auto simp: is_edir_iff)
    obtain D D1 D2 where d: "ensureParents h env rel D0 = Inr D" "mkdir h rel D = Inr D1"
      "copyKids h ex env rel ks D1 = Inr D2" "applyMeta h rel (EDir m) D2 = Inr D'"
      and q: "sys h (ReadDir Env rel) D1 = Inr D1"
      using 1(2) by (auto simp: e bindR_Inr_iff sys_Inr)
    have m: "m_special m = 0" using plain_at[OF 1(7) 1(3)] by (simp add: plain_ent_def e)
    have p: "sound env X D \<and> dom (has D0) \<subseteq> dom (has D)"
      using ensureParents_sound[OF d(1) 1(4,7)] strict_prefix_dir[OF 1(3,6)] by metis
    have en: "entry env rel = Some (EDir m)" using 1(3) by (simp add: entry_def e)
    have p1: "sound env (insert rel X) D1 \<and> insert rel (dom (has D)) \<subseteq> dom (has D1)"
      by (rule mkdir_sound[OF d(2) conjunct1[OF p] en])
    have p2: "sound env (insert rel X) D2 \<and> dom (has D1) \<subseteq> dom (has D2) \<and>
        (\<forall>(n, c) \<in> set ks. \<forall>q. at c q \<noteq> None \<longrightarrow> clear ex rel (n # q) \<longrightarrow> rel @ n # q \<in> dom (has D2))"
      by (rule 1(1)[OF e d(3) 1(3) _ conjunct1[OF p1] _ 1(6,7)]) (use 1(5) in \<open>auto simp: less_imp_le\<close>)
    obtain m0 where m0: "has D2 rel = Some (EDir m0)"
    proof -
      obtain e2 where "has D2 rel = Some e2" using p1 p2 by auto
      moreover from this have "is_edir e2" using sound_dir[OF conjunct1[OF p2] _ en] by simp
      ultimately show ?thesis using that by (auto simp: is_edir_iff)
    qed
    have d': "has D' = (has D2)(rel \<mapsto> EDir m)"
      using applyMeta_Inr[OF d(4) m0] unfolding stamp_dir[OF m] .
    have "sound env X D'"
      by (rule sound_shrink[OF sound_upd[OF conjunct1[OF p2] d']]) (simp_all add: en d')
    moreover have dm: "dom (has D2) \<subseteq> dom (has D')" "rel \<in> dom (has D')" by (auto simp: d')
    moreover have "rel @ q \<in> dom (has D')" if w: "at (FT e ks) q \<noteq> None" "clear ex rel q" for q
    proof (cases q)
      case Nil
      then show ?thesis using dm(2) by simp
    next
      case (Cons n q')
      then obtain c where c: "map_of ks n = Some c" "at c q' \<noteq> None" using w(1) Cons by (auto split: option.splits)
      note k = bspec[OF p2[THEN conjunct2, THEN conjunct2] map_of_SomeD[OF c(1)], unfolded prod.case]
      have "rel @ n # q' \<in> dom (has D2)" by (rule k[rule_format, OF c(2)]) (use w(2) Cons in simp)
      then show ?thesis using dm(1) Cons by blast
    qed
    moreover have "dom (has D0) \<subseteq> dom (has D')"
      by (rule subset_trans[OF conjunct2[OF p]])
        (rule subset_trans[OF _ subset_trans[OF conjunct1[OF conjunct2[OF p2]] dm(1)]], use p1 in simp)
    ultimately show ?thesis by simp
  next
    case False
    have "sound env X D' \<and> insert rel (dom (has D0)) \<subseteq> dom (has D')"
      using 1(2,3) copy_link_sound[OF _ 1(4,7,6)] copy_file_sound[OF _ 1(4,7,6)] copy_dev_sound[OF _ 1(4,7,6)] False
      by (cases e) (simp_all del: copyEntry.simps, blast+)
    moreover have "q = []" if "at (FT e ks) q \<noteq> None" for q
      using at_below_file[OF 1(3,6), of q] False that 1(3) by (auto simp: at_append)
    ultimately show ?thesis by (metis append_Nil2 insert_subset)
  qed
next
  case (2 h ex env rel D)
  then show ?case by auto
next
  case (3 h ex env rel name c ks D)
  show ?case
  proof (cases "is_excluded ex (rel @ [name])")
    case True
    have "copyKids h ex env rel ks D = Inr D'" "set ks \<subseteq> set (kids t')" using 3(4,6) True by auto
    from 3(1)[OF True this(1) 3(5) this(2) 3(7-10)] True show ?thesis by auto
  next
    case False
    obtain D1 where d: "copyEntry h ex env (rel @ [name]) c D = Inr D1" "copyKids h ex env rel ks D1 = Inr D'"
      and s: "sys h (Lstat Env (rel @ [name])) D = Inr D"
      using 3(4) False by (auto simp: bindR_Inr_iff sys_Inr)
    have c: "at env (rel @ [name]) = Some c" by (rule kid_at[OF 3(5) _ 3(9)]) (use 3(6) in auto)
    have p1: "sound env X D1 \<and> dom (has D) \<subseteq> dom (has D1) \<and>
        (\<forall>q. at c q \<noteq> None \<longrightarrow> clear ex (rel @ [name]) q \<longrightarrow> (rel @ [name]) @ q \<in> dom (has D1))"
      by (rule 3(2)[OF False d(1) c 3(7) _ 3(9,10)]) (use 3(8) in \<open>auto simp: le_imp_less_Suc\<close>)
    have p2: "sound env X D' \<and> dom (has D1) \<subseteq> dom (has D') \<and>
        (\<forall>(n, c) \<in> set ks. \<forall>q. at c q \<noteq> None \<longrightarrow> clear ex rel (n # q) \<longrightarrow> rel @ n # q \<in> dom (has D'))"
      by (rule 3(3)[OF False d(2) 3(5) _ conjunct1[OF p1] 3(8-10)]) (use 3(6) in auto)
    have "rel @ name # q \<in> dom (has D')" if w: "at c q \<noteq> None" "clear ex rel (name # q)" for q
      by (rule subsetD[OF conjunct1[OF conjunct2[OF p2]]]) (use p1 w in simp)
    moreover have "dom (has D) \<subseteq> dom (has D')"
      by (rule subset_trans[OF conjunct1[OF conjunct2[OF p1]] conjunct1[OF conjunct2[OF p2]]])
    ultimately show ?thesis using p2 by simp
  qed
qed

section \<open>Diffing\<close>

text \<open>A path the finished delta shows right: it is in the delta, it is below a non-directory of the delta, or both trees agree.\<close>

definition settled :: "ftree \<Rightarrow> ftree \<Rightarrow> delta \<Rightarrow> string list \<Rightarrow> bool" where
  "settled base env D p \<longleftrightarrow> p \<in> dom (has D) \<or>
     (\<exists>q. q \<noteq> [] \<and> strict_prefix q p \<and> q \<in> dom (has D) \<and> \<not> (\<exists>m. entry env q = Some (EDir m))) \<or>
     entry base p = entry env p"

lemma settled_mono: "settled base env D p \<Longrightarrow> dom (has D) \<subseteq> dom (has D') \<Longrightarrow> settled base env D' p"
  unfolding settled_def by blast

lemma settled_in: "p \<in> dom (has D) \<Longrightarrow> settled base env D p"
  by (simp add: settled_def)

lemma settled_agree: "entry base p = entry env p \<Longrightarrow> settled base env D p"
  by (simp add: settled_def)

lemma settled_below:
  "rel \<noteq> [] \<Longrightarrow> rel \<in> dom (has D) \<Longrightarrow> \<not> (\<exists>m. entry env rel = Some (EDir m)) \<Longrightarrow> q \<noteq> [] \<Longrightarrow> settled base env D (rel @ q)"
  unfolding settled_def by (rule disjI2, rule disjI1, rule exI[of _ rel]) (simp add: strict_prefix_def)

text \<open>The three results of a step below \<open>rel\<close>, together.\<close>

definition step_ok :: "string list \<Rightarrow> ftree \<Rightarrow> ftree \<Rightarrow> string list \<Rightarrow> delta \<Rightarrow> delta \<Rightarrow> (string list \<Rightarrow> bool) \<Rightarrow> bool" where
  "step_ok ex base env rel D D' P \<longleftrightarrow> sound env {} D' \<and> dom (has D) \<subseteq> dom (has D') \<and>
     (\<forall>q. P q \<longrightarrow> clear ex rel q \<longrightarrow> settled base env D' (rel @ q))"

lemma copy_step:
  assumes "copyEntry h ex env rel t D = Inr D'" "sound env {} D" "wf_ftree env" "plain_tree env"
    and "at env rel = Some t" "rel \<noteq> []" "tree_dir t \<longrightarrow> (\<forall>q. q \<noteq> [] \<longrightarrow> at base (rel @ q) = None)"
  shows "step_ok ex base env rel D D' (\<lambda>q. True)"
proof -
  have p: "sound env {} D' \<and> dom (has D) \<subseteq> dom (has D') \<and>
      (\<forall>q. at t q \<noteq> None \<longrightarrow> clear ex rel q \<longrightarrow> rel @ q \<in> dom (has D'))"
    by (rule copy_sound(1)[OF assms(1,5,2) _ assms(3,4)]) simp
  have "settled base env D' (rel @ q)" if q: "clear ex rel q" for q
  proof (cases "at t q")
    case Some
    then show ?thesis using p q by (simp add: settled_in)
  next
    case None
    then have n: "q \<noteq> []" "entry env (rel @ q) = None" using assms(5) by (auto simp: entry_def at_append)
    show ?thesis
    proof (cases "tree_dir t")
      case True
      then show ?thesis using n assms(7) by (simp add: settled_agree entry_def)
    next
      case False
      have "rel \<in> dom (has D')" using p[THEN conjunct2, THEN conjunct2, rule_format, of "[]"] by simp
      moreover have "\<not> (\<exists>m. entry env rel = Some (EDir m))" using assms(5) False by (auto simp: entry_def)
      ultimately show ?thesis using n assms(6) by (simp add: settled_below)
    qed
  qed
  then show ?thesis using p by (simp add: step_ok_def)
qed

lemma whiteout_step:
  assumes "tree_whiteout h env rel D = Inr D'" "sound env {} D" "plain_tree env" "rel \<noteq> []" "at env rel = None"
    and "\<forall>q. q \<noteq> [] \<longrightarrow> strict_prefix q rel \<longrightarrow> (\<exists>u. at env q = Some u \<and> tree_dir u)"
  shows "step_ok ex base env rel D D' (\<lambda>q. True)"
proof -
  obtain D1 where d: "ensureParents h env rel D = Inr D1" "create h (Mknod rel) rel (whiteout_entry h) D1 = Inr D'"
    using assms(1) by (auto simp: tree_whiteout_def bindR_Inr_iff)
  have p: "sound env {} D1 \<and> dom (has D) \<subseteq> dom (has D1)" by (rule ensureParents_sound[OF d(1) assms(2,3,6)])
  note d' = conjunct2[OF create_Inr[OF d(2)]]
  have e: "entry env rel = None" using assms(5) by (simp add: entry_def)
  have s: "sound env {} D'"
    by (rule sound_upd[OF conjunct1[OF p] d']) (simp add: e whiteout_entry_def)
  have "rel \<in> dom (has D')" using fun_cong[OF d', of rel] by (simp add: domIff)
  then have "settled base env D' (rel @ q)" for q
    using assms(4) e by (cases "q = []") (simp_all add: settled_in settled_below)
  then show ?thesis using s p by (auto simp: step_ok_def d')
qed

lemma diffLeaf_step:
  assumes "diffLeaf h ex env rel b e D = Inr D'" "sound env {} D" "wf_ftree env" "plain_tree env" "wf_ftree base"
    and "at env rel = Some e" "at base rel = Some b" "rel \<noteq> []" "same_type (ent b) (ent e)" "\<not> tree_dir e"
  shows "step_ok ex base env rel D D' (\<lambda>q. True)"
proof -
  have "D' = D \<and> ent b = ent e \<or> copyEntry h ex env rel e D = Inr D'"
  proof (cases "ent e")
    case (ELink u g t)
    then show ?thesis using assms(1,9)
      by (cases "ent b") (auto simp: diffLeaf_def bindR_Inr_iff sys_Inr sameOwner_def split: if_splits)
  next
    case (EFile m c)
    then show ?thesis using assms(1,9)
      by (cases "ent b")
        (auto simp: diffLeaf_def bindR_Inr_iff sys_Inr sameContent_def same_chunks_eq sameMeta_def sameOwner_def
          split: if_splits)
  next
    case (EDev k m r)
    then show ?thesis using assms(1,9)
      by (cases "ent b") (auto simp: diffLeaf_def sameMeta_def sameOwner_def split: if_splits)
  qed (use assms(10) in simp)
  then show ?thesis
  proof
    assume c: "copyEntry h ex env rel e D = Inr D'"
    show ?thesis by (rule copy_step[OF c assms(2,3,4,6,8)]) (simp add: assms(10))
  next
    assume a: "D' = D \<and> ent b = ent e"
    have "entry base (rel @ q) = entry env (rel @ q)" for q
    proof (cases "q = []")
      case False
      then show ?thesis
        using at_below_file[OF assms(6,3,10)] at_below_file[OF assms(7,5)] assms(10) a by (simp add: entry_def)
    qed (use assms(6,7) a in \<open>simp add: entry_def\<close>)
    then show ?thesis using a assms(2) by (simp add: step_ok_def settled_agree)
  qed
qed


lemma dir_above:
  assumes "at env rel = Some e" "tree_dir e" "wf_ftree env" "strict_prefix q (rel @ [n])"
  shows "\<exists>u. at env q = Some u \<and> tree_dir u"
proof (cases "q = rel")
  case False
  then have "strict_prefix q rel" using assms(4) by (auto simp: strict_prefix_def)
  from strict_prefix_dir[OF assms(1,3) this] show ?thesis by metis
qed (use assms in auto)

lemma dir_same: "tree_dir b \<Longrightarrow> tree_dir e \<Longrightarrow> sameMeta (ent b) (ent e) \<Longrightarrow> ent b = ent e"
  by (cases "ent b"; cases "ent e") (auto simp: sameMeta_def sameOwner_def)

lemma diff_sound:
  fixes D D' :: delta
  shows "diffEntry h ex env rel b e D = Inr D' \<Longrightarrow> sound env {} D \<Longrightarrow> wf_ftree env \<Longrightarrow> plain_tree env \<Longrightarrow> wf_ftree base \<Longrightarrow>
      at env rel = Some e \<Longrightarrow> at base rel = Some b \<Longrightarrow> rel \<noteq> [] \<Longrightarrow> (\<forall>sd p. h_fail h (Lstat sd p) = None) \<Longrightarrow>
      step_ok ex base env rel D D' (\<lambda>q. True)"
    and "diffDir h ex env rel b e D = Inr D' \<Longrightarrow> sound env {} D \<Longrightarrow> wf_ftree env \<Longrightarrow> plain_tree env \<Longrightarrow> wf_ftree base \<Longrightarrow>
      at env rel = Some e \<Longrightarrow> at base rel = Some b \<Longrightarrow> tree_dir e \<Longrightarrow> (\<forall>sd p. h_fail h (Lstat sd p) = None) \<Longrightarrow>
      step_ok ex base env rel D D' (\<lambda>q. q \<noteq> [])"
    and "diffNames h ex env rel b e ns D = Inr D' \<Longrightarrow> sound env {} D \<Longrightarrow> wf_ftree env \<Longrightarrow> plain_tree env \<Longrightarrow> wf_ftree base \<Longrightarrow>
      at env rel = Some e \<Longrightarrow> at base rel = Some b \<Longrightarrow> tree_dir e \<Longrightarrow> (\<forall>sd p. h_fail h (Lstat sd p) = None) \<Longrightarrow>
      step_ok ex base env rel D D' (\<lambda>q. q \<noteq> [] \<and> hd q \<in> set ns)"
proof (induction h ex env rel b e D and h ex env rel b e D and h ex env rel b e ns D arbitrary: D' and D' and D'
    rule: diffEntry_diffDir_diffNames.induct)
  case (1 h ex env rel b e D)
  note run = 1(2)[unfolded diffEntry.simps[of h ex env rel b e D]]
  show ?case
  proof (cases "same_type (ent b) (ent e)")
    case False
    have c: "copyEntry h ex env rel e D = Inr D'" using run False by simp
    have "at base (rel @ q) = None" if "tree_dir e" "q \<noteq> []" for q
      by (rule at_below_file[OF 1(8,6) _ that(2)]) (use that(1) False in \<open>cases "ent b"; cases "ent e"; simp\<close>)
    then show ?thesis by (intro copy_step[OF c 1(3-5,7,9)]) simp
  next
    case same: True
    show ?thesis
    proof (cases "tree_dir e")
      case False
      have "diffLeaf h ex env rel b e D = Inr D'" using run same False by simp
      then show ?thesis by (rule diffLeaf_step[OF _ 1(3-9) same False])
    next
      case True
      then obtain D1 where d: "(if sameMeta (ent b) (ent e) then Inr D else copyEntry h ex env rel e D) = Inr D1"
        "diffDir h ex env rel b e D1 = Inr D'"
        using run same by (auto simp: bindR_Inr_iff)
      have b: "tree_dir b" using same True by (cases "ent b"; cases "ent e"; simp)
      have p: "sound env {} D1 \<and> dom (has D) \<subseteq> dom (has D1) \<and> settled base env D1 rel"
      proof (cases "sameMeta (ent b) (ent e)")
        case sm: True
        then have "entry base rel = entry env rel" using dir_same[OF b True sm] 1(7,8) by (simp add: entry_def)
        then show ?thesis using d(1) sm 1(3) by (simp add: settled_agree)
      next
        case False
        then have "copyEntry h ex env rel e D = Inr D1" using d(1) by simp
        from copy_sound(1)[OF this 1(7,3) _ 1(4,5)] have
          "sound env {} D1 \<and> dom (has D) \<subseteq> dom (has D1) \<and>
            (\<forall>q. at e q \<noteq> None \<longrightarrow> clear ex rel q \<longrightarrow> rel @ q \<in> dom (has D1))" by simp
        moreover from this have "rel \<in> dom (has D1)" by (elim conjE allE[of _ "[]"]) simp
        ultimately show ?thesis by (simp add: settled_in)
      qed
      have s: "step_ok ex base env rel D1 D' (\<lambda>q. q \<noteq> [])"
        by (rule 1(1)[OF _ True d(2) conjunct1[OF p] 1(4-8) True 1(10)]) (use same in simp)
      have "settled base env D' (rel @ q)" if "clear ex rel q" for q
        using s p that settled_mono[of base env D1 rel D'] by (cases "q = []") (auto simp: step_ok_def)
      moreover have "dom (has D) \<subseteq> dom (has D')" using s p unfolding step_ok_def by blast
      ultimately show ?thesis using s by (simp add: step_ok_def)
    qed
  qed
next
  case (2 h ex env rel b e D)
  have d: "sys h (ReadDir Base rel) D = Inr D" "sys h (ReadDir Env rel) D = Inr D"
    "diffNames h ex env rel b e (merged_names b e) D = Inr D'"
    using 2(2) by (auto simp: diffDir.simps[of h ex env rel b e D] bindR_Inr_iff sys_Inr)
  have s: "step_ok ex base env rel D D' (\<lambda>q. q \<noteq> [] \<and> hd q \<in> set (merged_names b e))"
    by (rule 2(1)[OF d(3) 2(3-10)])
  have "settled base env D' (rel @ n # q)" if "n \<notin> set (merged_names b e)" for n q
  proof -
    have "map_of (kids b) n = None" "map_of (kids e) n = None"
      using that by (auto simp: merged_names_def map_of_eq_None_iff)
    then show ?thesis using 2(7,8) by (simp add: settled_agree entry_def at_append)
  qed
  then have "settled base env D' (rel @ q)" if "q \<noteq> []" "clear ex rel q" for q
    using s that by (cases "hd q \<in> set (merged_names b e)") (simp add: step_ok_def, metis list.collapse)
  then show ?case using s by (simp add: step_ok_def)
next
  case (3 h ex env rel b e D)
  then show ?case by (auto simp: diffNames.simps step_ok_def)
next
  case (4 h ex env rel b e name ns D)
  let ?child = "rel @ [name]"
  note run = 4(4)[unfolded diffNames.simps(2) Let_def]
  show ?case
  proof (cases "is_excluded ex ?child")
    case True
    have r: "diffNames h ex env rel b e ns D = Inr D'" using run True by simp
    have s: "step_ok ex base env rel D D' (\<lambda>q. q \<noteq> [] \<and> hd q \<in> set ns)"
      by (rule 4(1)[OF refl True r 4(5-12)])
    have "settled base env D' (rel @ q)" if "q \<noteq> []" "hd q \<in> set (name # ns)" "clear ex rel q" for q
      using s that True by (cases q) (auto simp: step_ok_def)
    then show ?thesis using s by (simp add: step_ok_def)
  next
    case False
    obtain D1 where d: "(case (lstat h Base ?child (map_of (kids b) name), lstat h Env ?child (map_of (kids e) name)) of
           (Some bc, None) \<Rightarrow> tree_whiteout h env ?child D
         | (None, Some ec) \<Rightarrow> copyEntry h ex env ?child ec D
         | (Some bc, Some ec) \<Rightarrow> diffEntry h ex env ?child bc ec D
         | (None, None) \<Rightarrow> Inl (Vanished ?child)) = Inr D1" "diffNames h ex env rel b e ns D1 = Inr D'"
      using run False by (auto simp: bindR_Inr_iff)
    have l: "lstat h sd p t = t" for sd p t using 4(12) by (simp add: lstat_def)
    have ab: "at env ?child = map_of (kids e) name" "at base ?child = map_of (kids b) name"
      using 4(9,10) by (auto simp: at_append split: option.splits)
    have p: "step_ok ex base env ?child D D1 (\<lambda>q. True)"
    proof (cases "map_of (kids e) name")
      case ec: None
      then obtain bc where "map_of (kids b) name = Some bc" using d(1) by (auto simp: l split: option.splits)
      then have "tree_whiteout h env ?child D = Inr D1" using d(1) ec by (simp add: l)
      then show ?thesis
        by (rule whiteout_step[OF _ 4(5,7)]) (use ab ec dir_above[OF 4(9,11,6)] in auto)
    next
      case ec: (Some ec)
      show ?thesis
      proof (cases "map_of (kids b) name")
        case None
        then have c: "copyEntry h ex env ?child ec D = Inr D1" using d(1) ec by (simp add: l)
        show ?thesis
          by (rule copy_step[OF c 4(5-7)]) (use ab ec None at_append[of base ?child] in simp_all)
      next
        case (Some bc)
        then have c: "diffEntry h ex env ?child bc ec D = Inr D1" using d(1) ec by (simp add: l)
        show ?thesis
          by (rule 4(2)[OF refl False _ _ _ c 4(5-8) _ _ _ 4(12)]) (use ab ec Some l in auto)
      qed
    qed
    have s: "step_ok ex base env rel D1 D' (\<lambda>q. q \<noteq> [] \<and> hd q \<in> set ns)"
      by (rule 4(3)[OF refl False d(2) _ 4(6-12)]) (use p in \<open>simp add: step_ok_def\<close>)
    have "settled base env D' (rel @ q)" if "q \<noteq> []" "hd q \<in> set (name # ns)" "clear ex rel q" for q
    proof (cases q)
      case (Cons n q')
      show ?thesis
      proof (cases "n \<in> set ns")
        case True
        then show ?thesis using s that Cons by (simp add: step_ok_def)
      next
        case False
        then have "settled base env D1 (rel @ q)" using p that Cons by (simp add: step_ok_def)
        then show ?thesis by (rule settled_mono) (use s in \<open>simp add: step_ok_def\<close>)
      qed
    qed (use that in simp)
    moreover have "dom (has D) \<subseteq> dom (has D')" using s p unfolding step_ok_def by blast
    ultimately show ?thesis using s by (simp add: step_ok_def)
  qed
qed


section \<open>The delta over the base is the live environment\<close>

lemma settled_overlay:
  assumes "settled base env D p" "sound env {} D" "wf_ftree env" "plain_tree env"
  shows "overlay_at D base p = entry env p"
proof (cases "has D p")
  case (Some e)
  have "is_whiteout e \<longleftrightarrow> entry env p = None" "\<not> is_whiteout e \<Longrightarrow> entry env p = Some e"
    using soundD[OF assms(2) Some] plain_at[OF assms(4), of p] by (auto simp: entry_def plain_ent_def)
  then show ?thesis using Some by (simp add: overlay_at_def)
next
  case None
  let ?hidden = "list_ex (\<lambda>q. case has D q of None \<Rightarrow> False | Some e \<Rightarrow> \<not> is_edir e) (parents p)"
  have h: "?hidden \<longleftrightarrow> (\<exists>q. q \<noteq> [] \<and> strict_prefix q p \<and> q \<in> dom (has D) \<and> \<not> (\<exists>m. entry env q = Some (EDir m)))"
  proof -
    have "(case has D q of None \<Rightarrow> False | Some e \<Rightarrow> \<not> is_edir e) \<longleftrightarrow>
        q \<in> dom (has D) \<and> \<not> (\<exists>m. entry env q = Some (EDir m))" for q
    proof (cases "has D q")
      case (Some e)
      have "is_edir e \<longleftrightarrow> (\<exists>m. entry env q = Some (EDir m))"
        using soundD[OF assms(2) Some] whiteout_not_dir[of e] by (auto simp: is_edir_iff)
      then show ?thesis using Some by auto
    qed auto
    then show ?thesis by (simp add: list_ex_iff parents_iff Bex_def)
  qed
  show ?thesis
  proof (cases ?hidden)
    case True
    then obtain q where q: "strict_prefix q p" "\<not> (\<exists>m. entry env q = Some (EDir m))" using h by blast
    have "at env p = None"
    proof (rule ccontr)
      assume "at env p \<noteq> None"
      then obtain t where "at env p = Some t" by auto
      from strict_prefix_dir[OF this assms(3) q(1)] q(2) show False by (auto simp: entry_def is_edir_iff)
    qed
    then show ?thesis using None True by (simp add: overlay_at_def entry_def)
  next
    case False
    then have "entry base p = entry env p" using assms(1) None unfolding h settled_def by auto
    then show ?thesis using None False by (simp add: overlay_at_def entry_def)
  qed
qed


definition demo_meta :: meta where
  "demo_meta = \<lparr>m_perm = 420, m_special = 0, m_uid = 0, m_gid = 0\<rparr>"

definition demo_host :: "unit host" where
  "demo_host = \<lparr>h_fail = (\<lambda>c. None), h_uid = 0, h_gid = 0\<rparr>"

text \<open>A file goes, a directory becomes a link, a file changes under a directory that stays, a directory is new.\<close>

definition demo_base :: ftree where
  "demo_base = FT (EDir demo_meta)
    [(''a'', FT (EFile demo_meta [1]) []),
     (''b'', FT (EDir demo_meta) [(''x'', FT (EFile demo_meta [2]) [])]),
     (''c'', FT (EDir demo_meta) [(''y'', FT (EFile demo_meta [3]) []), (''z'', FT (EFile demo_meta [4]) [])])]"

definition demo_env :: ftree where
  "demo_env = FT (EDir demo_meta)
    [(''b'', FT (ELink 0 0 ''c'') []),
     (''c'', FT (EDir demo_meta) [(''y'', FT (EFile demo_meta [5]) []), (''z'', FT (EFile demo_meta [4]) [])]),
     (''d'', FT (EDir demo_meta) [(''w'', FT (EDev Fifo demo_meta 0) [])])]"

definition demo_delta :: delta where
  "demo_delta = (case TreeDiff demo_host demo_base demo_env [''v''] of Inr D \<Rightarrow> D | Inl e \<Rightarrow> [])"

lemma demo_delta_run: "TreeDiff demo_host demo_base demo_env [''v''] = Inr demo_delta"
  by code_simp


section \<open>Where the copy is not exact\<close>

text \<open>\<^verbatim>\<open>applyMeta\<close> passes \<^verbatim>\<open>Mode().Perm()\<close>: a setuid program copied into the delta loses the bit.\<close>

definition suid_meta :: meta where
  "suid_meta = \<lparr>m_perm = 493, m_special = 4, m_uid = 0, m_gid = 0\<rparr>"

lemma setuid_lost:
  "map_option (\<lambda>D. overlay_at D (FT (EDir demo_meta) []) [''s''])
     (case TreeDiff demo_host (FT (EDir demo_meta) []) (FT (EDir demo_meta) [(''s'', FT (EFile suid_meta [1]) [])]) [] of
        Inr D \<Rightarrow> Some D | Inl e \<Rightarrow> None) =
   Some (Some (EFile (suid_meta\<lparr>m_special := 0\<rparr>) [1]))"
  by code_simp

text \<open>An entry of the environment whose \<^verbatim>\<open>lstat\<close> fails is taken for deleted.\<close>

definition blind_host :: "unit host" where
  "blind_host = demo_host\<lparr>h_fail := (\<lambda>c. if c = Lstat Env [''f''] then Some () else None)\<rparr>"

lemma unreadable_whited_out:
  "map_option (\<lambda>D. overlay_at D (FT (EDir demo_meta) [(''f'', FT (EFile demo_meta [1]) [])]) [''f''])
     (case TreeDiff blind_host (FT (EDir demo_meta) [(''f'', FT (EFile demo_meta [1]) [])])
        (FT (EDir demo_meta) [(''f'', FT (EFile demo_meta [1]) [])]) [] of
        Inr D \<Rightarrow> Some D | Inl e \<Rightarrow> None) =
   Some None"
  by code_simp

text \<open>A directory with new metadata is copied with everything below it, unchanged files included.\<close>

lemma whole_subtree_copied:
  "map_option (\<lambda>D. map_of D [''c'', ''y''])
     (case TreeDiff demo_host (FT (EDir demo_meta) [(''c'', FT (EDir demo_meta) [(''y'', FT (EFile demo_meta [3]) [])])])
        (FT (EDir demo_meta) [(''c'', FT (EDir suid_meta) [(''y'', FT (EFile demo_meta [3]) [])])]) [] of
        Inr D \<Rightarrow> Some D | Inl e \<Rightarrow> None) =
   Some (Some (EFile demo_meta [3]))"
  by code_simp


end
