(* ===== verification/Erofs.thy ===== *)
theory Erofs
  imports Oci_Walk "HOL-Library.Multiset"
begin

unbundle bit_operations_syntax

text \<open>
  The EROFS writer (\<^verbatim>\<open>internal/purefs/erofs.go\<close>): the traversal that gives every object of the rootfs tree
  an inode, the resolution of hard links, the packing of directories into 4 KiB blocks, the
  layout and the emission of the image.

  The code links inodes by pointers; here an inode is named by its position in the traversal,
  which is the nid the code gives it. The fields the code fills in later passes (\<^verbatim>\<open>nlink\<close>, \<^verbatim>\<open>size\<close>,
  \<^verbatim>\<open>dirData\<close>, \<^verbatim>\<open>linkData\<close>, \<^verbatim>\<open>blkAddr\<close>) are functions of the finished table.
\<close>

section \<open>Inodes\<close>

record inode =
  i_node :: node
  i_path :: string
  i_parent :: "nat option"
  i_children :: "(string \<times> nat) list"

lemma sum_sort_key: "sum_list (map f (sort_key g xs)) = (sum_list (map f xs) :: nat)"
  by (metis mset_map mset_sort sum_mset_sum_list)

lemma size_sorted_children: "sum_list (map (\<lambda>kc. Suc (size (snd kc))) (sorted_children n)) < size n"
proof -
  have "sum_list (map (\<lambda>kc. Suc (size (snd kc))) xs) \<le> size_list (size_prod (\<lambda>_. 0) size) xs"
    for xs :: "(string \<times> node) list"
    by (induction xs) auto
  from this[of "children n"] show ?thesis
    by (cases n) (simp add: sorted_children_def sum_sort_key)
qed

text \<open>
  \<^verbatim>\<open>mirror\<close>, for the subtree whose first inode gets position \<open>i\<close>: a directory, then its children
  by name, hard links left for later.
\<close>

function (sequential) mirror :: "string \<Rightarrow> node \<Rightarrow> nat option \<Rightarrow> nat \<Rightarrow> inode list"
  and mirror_kids :: "string \<Rightarrow> nat \<Rightarrow> (string \<times> node) list \<Rightarrow> nat \<Rightarrow> (string \<times> nat) list \<times> inode list" where
  "mirror pre n par i =
     (let (cs, ms) = (if is_dir n then mirror_kids pre i (sorted_children n) (Suc i) else ([], []))
      in \<lparr>i_node = n, i_path = pre, i_parent = par, i_children = cs\<rparr> # ms)"
| "mirror_kids pre par [] j = ([], [])"
| "mirror_kids pre par ((name, c) # ks) j =
     (if ntype_of c = TypeHardlink then mirror_kids pre par ks j
      else let m = mirror (path_join [pre, name]) c (Some par) j;
               (cs, ms) = mirror_kids pre par ks (j + length m)
           in ((name, j) # cs, m @ ms))"
  by pat_completeness auto
termination
  by (relation "measure (\<lambda>x. case x of Inl (pre, n, par, i) \<Rightarrow> size n
      | Inr (pre, par, ks, j) \<Rightarrow> sum_list (map (\<lambda>kc. Suc (size (snd kc))) ks))")
    (auto simp: size_sorted_children)

declare mirror.simps [simp del]

text \<open>\<^verbatim>\<open>byPath\<close>: a later inode of the same path replaces the earlier one.\<close>

definition by_path :: "inode list \<Rightarrow> string \<Rightarrow> nat option" where
  "by_path st p = map_of (rev (zip (map i_path st) [0..<length st])) p"

definition add_child :: "nat \<Rightarrow> string \<Rightarrow> nat \<Rightarrow> inode list \<Rightarrow> inode list" where
  "add_child i name t st = st[i := (st ! i)\<lparr>i_children := AList.update name t (i_children (st ! i))\<rparr>]"

text \<open>The target of a hard link, after at most so many hops; \<open>None\<close> drops the link.\<close>

fun hop :: "nat \<Rightarrow> inode list \<Rightarrow> string \<Rightarrow> nat option" where
  "hop 0 st t = None"
| "hop (Suc k) st t =
     (case by_path st t of
        None \<Rightarrow> None
      | Some j \<Rightarrow>
          let a = attrs (i_node (st ! j)) in
          if n_type a \<noteq> TypeHardlink then (if n_type a = TypeDir then None else Some j)
          else hop k st (n_target a))"

function linkHard :: "string \<Rightarrow> node \<Rightarrow> nat \<Rightarrow> inode list \<Rightarrow> inode list" where
  "linkHard pre n parent st =
     fold (\<lambda>(name, c) st.
        let p = path_join [pre, name] in
        if ntype_of c = TypeHardlink then
          (case hop 8 st (n_target (attrs c)) of None \<Rightarrow> st | Some t \<Rightarrow> add_child parent name t st)
        else if is_dir c then
          (case by_path st p of None \<Rightarrow> st | Some j \<Rightarrow> linkHard p c j st)
        else st) (sorted_children n) st"
  by pat_completeness auto
termination
  by (relation "measure (\<lambda>(pre, n, parent, st). size n)") (auto simp: sorted_children_def size_children)

declare linkHard.simps [simp del]

definition inode_table :: "node \<Rightarrow> inode list" where
  "inode_table root = linkHard '''' root 0 (mirror '''' root None 0)"

abbreviation type_at :: "inode list \<Rightarrow> nat \<Rightarrow> ntype" where
  "type_at st i \<equiv> ntype_of (i_node (st ! i))"

text \<open>Link counts: two and the subdirectories for a directory, else the entries that name the inode, at least one.\<close>

definition dir_links :: "inode list \<Rightarrow> nat \<Rightarrow> u32" where
  "dir_links st i = fold (\<lambda>(name, c) n. if type_at st c = TypeDir then n + 1 else n) (i_children (st ! i)) 2"

definition file_links :: "inode list \<Rightarrow> nat \<Rightarrow> u32" where
  "file_links st i =
     fold (\<lambda>d n. if ntype_of (i_node d) \<noteq> TypeDir then n
        else fold (\<lambda>(name, c) n. if c = i then n + 1 else n) (i_children d) n) st 0"

definition nlink :: "inode list \<Rightarrow> nat \<Rightarrow> u32" where
  "nlink st i =
     (let n = (if type_at st i = TypeDir then dir_links st i else file_links st i)
      in if n = 0 then 1 else n)"

section \<open>Directories\<close>

datatype 'e erofs_error = NameTooLong string | FileTooLarge int | SizeDrifted nat int int
  | OpenFailed nat 'e | ReadFailed 'e | WriteFailed

fun ftByType :: "ntype \<Rightarrow> nat" where
  "ftByType TypeFile = 1"
| "ftByType TypeDir = 2"
| "ftByType TypeChar = 3"
| "ftByType TypeBlock = 4"
| "ftByType TypeFifo = 5"
| "ftByType TypeSymlink = 7"
| "ftByType TypeHardlink = 0"

type_synonym dirent = "string \<times> nat \<times> nat"

definition parentNid :: "inode list \<Rightarrow> nat \<Rightarrow> nat" where
  "parentNid st i = (case i_parent (st ! i) of Some p \<Rightarrow> p | None \<Rightarrow> i)"

definition dirents_of :: "inode list \<Rightarrow> nat \<Rightarrow> dirent list" where
  "dirents_of st i = sort_key fst
     ([(''.'', i, 2), (''..'', parentNid st i, 2)] @
      map (\<lambda>name. let c = the (map_of (i_children (st ! i)) name) in (name, c, ftByType (type_at st c)))
        (sort (map fst (i_children (st ! i)))))"

text \<open>How many entries the next block holds.\<close>

fun fill_count :: "nat \<Rightarrow> dirent list \<Rightarrow> nat" where
  "fill_count used [] = 0"
| "fill_count used (e # es) =
     (let need = 12 + length (fst e) in if used + need > 4096 then 0 else Suc (fill_count (used + need) es))"

definition put_dirent :: "nat \<times> dirent \<Rightarrow> bytes \<times> nat \<Rightarrow> bytes \<times> nat" where
  "put_dirent = (\<lambda>(j, name, nid, ft) (blk, nameOff).
     (patch (nameOff, bytes_of name)
       (patch (12 * j + 10, [of_nat ft])
         (patch (12 * j + 8, le16 (of_nat nameOff))
           (patch (12 * j, le64 (of_nat nid)) blk))),
      nameOff + length name))"

definition dir_block :: "dirent list \<Rightarrow> bytes \<times> nat" where
  "dir_block es = fold put_dirent (enumerate 0 es) (zeros 4096, 12 * length es)"

function dir_blocks :: "dirent list \<Rightarrow> 'e erofs_error + (bytes \<times> nat) list" where
  "dir_blocks es =
     (if es = [] then Inr []
      else let k = fill_count 0 es in
        if k = 0 then Inl (NameTooLong (fst (hd es)))
        else bindR (dir_blocks (drop k es)) (\<lambda>bs. Inr (dir_block (take k es) # bs)))"
  by pat_completeness auto
termination by (relation "measure length") auto

declare dir_blocks.simps [simp del]

definition packDirents :: "inode list \<Rightarrow> nat \<Rightarrow> 'e erofs_error + (bytes \<times> int)" where
  "packDirents st i =
     bindR (dir_blocks (dirents_of st i)) (\<lambda>bs.
       if bs = [] then Inr ([], 0)
       else Inr (concat (map fst bs), int ((length bs - 1) * 4096 + snd (last bs))))"

section \<open>Layout\<close>

text \<open>The size of an inode and the bytes it has of its own: a file's come from the store.\<close>

definition payload :: "inode list \<Rightarrow> nat \<Rightarrow> 'e erofs_error + (int \<times> bytes)" where
  "payload st i =
     (let a = attrs (i_node (st ! i)) in
      if n_type a = TypeDir then bindR (packDirents st i) (\<lambda>(d, s). Inr (s, d))
      else if n_type a = TypeFile then Inr (n_size a, [])
      else if n_type a = TypeSymlink then Inr (int (length (bytes_of (n_target a))), bytes_of (n_target a))
      else Inr (0, []))"

definition payloads :: "inode list \<Rightarrow> 'e erofs_error + (int \<times> bytes) list" where
  "payloads st = foldR (\<lambda>i ps. bindR (payload st i) (\<lambda>p. Inr (ps @ [p]))) [0..<length st] []"

definition ceil_blocks :: "int \<Rightarrow> int" where
  "ceil_blocks s = (s + 4095) div 4096"

text \<open>The first data block of each inode, zero for an empty one, and the next free block.\<close>

fun place_blocks :: "u32 \<Rightarrow> int list \<Rightarrow> u32 list \<times> u32" where
  "place_blocks next [] = ([], next)"
| "place_blocks next (s # ss) =
     (if s > 0 then (let (as, e) = place_blocks (next + word_of_int (ceil_blocks s)) ss in (next # as, e))
      else (let (as, e) = place_blocks next ss in (0 # as, e)))"

definition metaBlocks :: "inode list \<Rightarrow> u32" where
  "metaBlocks st = word_of_int (ceil_blocks (int (length st) * 32))"

definition superblock :: "inode list \<Rightarrow> u32 \<Rightarrow> int \<Rightarrow> bytes \<Rightarrow> bytes" where
  "superblock st nblocks buildTime head = fold (\<lambda>(i, b). patch (1024 + i, b))
     [(0, le32 0xe0f5e1e2), (12, [12]), (14, le16 0), (16, le64 (of_nat (length st))),
      (24, le64 (word_of_int buildTime)), (36, le32 nblocks), (40, le32 1),
      (64, bytes_of ''tunaos-live''), (88, [12])] head"

definition ifmt :: "ntype \<Rightarrow> u16" where
  "ifmt t = (case t of TypeDir \<Rightarrow> 0x4000 | TypeFile \<Rightarrow> 0x8000 | TypeSymlink \<Rightarrow> 0xa000 | TypeChar \<Rightarrow> 0x2000
     | TypeBlock \<Rightarrow> 0x6000 | TypeFifo \<Rightarrow> 0x1000 | TypeHardlink \<Rightarrow> 0)"

definition inode_mode :: "node_attrs \<Rightarrow> u16" where
  "inode_mode a = (if n_type a = TypeSymlink then 0xa000 OR 0x1ff
     else word_of_int (n_mode a AND 0xfff) OR ifmt (n_type a))"

definition encode_rdev :: "node_attrs \<Rightarrow> u32" where
  "encode_rdev a = word_of_int
     (push_bit 8 (n_devmajor a) OR (n_devminor a AND 0xff) OR push_bit 12 (n_devminor a AND NOT 0xff))"

definition write_inode :: "inode list \<Rightarrow> int list \<Rightarrow> u32 list \<Rightarrow> nat \<Rightarrow> bytes \<Rightarrow> 'e erofs_error + bytes" where
  "write_inode st sizes addrs i head =
     (let a = attrs (i_node (st ! i)); off = 4096 + i * 32;
          head1 = patch (off + 6, le16 (ucast (nlink st i)))
                    (patch (off + 4, le16 (inode_mode a)) (patch (off, le16 0) head)) in
      if sizes ! i > 0xffffffff then Inl (FileTooLarge (sizes ! i))
      else Inr (fold (\<lambda>(j, b). patch (off + j, b))
        [(8, le32 (word_of_int (sizes ! i))),
         (16, le32 (if n_type a = TypeChar \<or> n_type a = TypeBlock then encode_rdev a else addrs ! i)),
         (20, le32 (of_nat (i + 1))), (24, le16 (word_of_int (n_uid a))), (26, le16 (word_of_int (n_gid a)))] head1))"

section \<open>Emission\<close>

text \<open>The writer takes \<open>lim\<close> bytes, or any number; a store opens a reference to an error or to bytes and the error they end with.\<close>

definition emit :: "nat option \<Rightarrow> bytes \<Rightarrow> bytes \<Rightarrow> 'e erofs_error + bytes" where
  "emit lim b out =
     (case lim of
        None \<Rightarrow> Inr (out @ b)
      | Some l \<Rightarrow> if length out + length b > l then Inl WriteFailed else Inr (out @ b))"

definition write_data ::
  "(string \<Rightarrow> 'e + (bytes \<times> 'e option)) \<Rightarrow> nat option \<Rightarrow> inode list \<Rightarrow> (int \<times> bytes) list \<Rightarrow> nat \<Rightarrow> bytes \<Rightarrow>
   'e erofs_error + bytes" where
  "write_data opn lim st ps i out =
     (let a = attrs (i_node (st ! i)); sz = fst (ps ! i); own = snd (ps ! i) in
      if sz = 0 then Inr out
      else bindR
        (if n_type a = TypeFile then
           (case opn (n_ref a) of
              Inl e \<Rightarrow> Inl (OpenFailed i e)
            | Inr (b, err) \<Rightarrow>
                bindR (emit lim b out) (\<lambda>out.
                  case err of
                    Some e \<Rightarrow> Inl (ReadFailed e)
                  | None \<Rightarrow> if int (length b) \<noteq> sz then Inl (SizeDrifted i (int (length b)) sz) else Inr (length b, out)))
         else bindR (emit lim own out) (\<lambda>out. Inr (length own, out)))
        (\<lambda>(written, out).
          if written mod 4096 \<noteq> 0 then emit lim (zeros (4096 - written mod 4096)) out else Inr out))"

definition WriteErofs ::
  "(string \<Rightarrow> 'e + (bytes \<times> 'e option)) \<Rightarrow> nat option \<Rightarrow> node \<Rightarrow> int \<Rightarrow> 'e erofs_error + bytes" where
  "WriteErofs opn lim root buildTime =
     (let st = inode_table root in
      bindR (payloads st) (\<lambda>ps.
        let sizes = map fst ps; (addrs, nblocks) = place_blocks (1 + metaBlocks st) sizes;
            head0 = superblock st nblocks buildTime (zeros (unat (1 + metaBlocks st) * 4096)) in
        bindR (foldR (write_inode st sizes addrs) [0..<length st] head0) (\<lambda>head.
          bindR (emit lim head []) (foldR (write_data opn lim st ps) [0..<length st]))))"

end
