(* ===== verification/Erofs_Table.thy ===== *)
theory Erofs_Table
  imports Erofs
begin

text \<open>
  The inode table of the EROFS writer against the tree it comes from: each node that is no hard link
  has exactly one inode, the entries of a directory lead to the inodes of its children, and a
  hard link to the inode of its target.
\<close>

section \<open>The traversal\<close>

text \<open>The nodes in the order of the table, with their paths.\<close>

function flat :: "string list \<Rightarrow> node \<Rightarrow> (string list \<times> node) list" where
  "flat ps n = (ps, n) # (if is_dir n
     then concat (map (\<lambda>(name, c). if ntype_of c = TypeHardlink then [] else flat (ps @ [name]) c) (sorted_children n))
     else [])"
  by pat_completeness auto
termination by (relation "measure (\<lambda>(ps, n). size n)") (auto simp: sorted_children_def size_children)

declare flat.simps [simp del]

lemma sorted_kid: "wf_node n \<Longrightarrow> (k, c) \<in> set (sorted_children n) \<Longrightarrow> name_ok k \<and> wf_node c"
  using wf_node_child by (simp add: sorted_children_def)

lemma mirror_flat:
  "wf_node n \<Longrightarrow> \<forall>p \<in> set ps. name_ok p \<Longrightarrow> pre = join_with ''/'' ps \<Longrightarrow>
     map (\<lambda>x. (i_path x, i_node x)) (mirror pre n par i) = map (\<lambda>(q, m). (join_with ''/'' q, m)) (flat ps n)"
  "\<forall>(k, c) \<in> set ks. name_ok k \<and> wf_node c \<Longrightarrow> \<forall>p \<in> set ps. name_ok p \<Longrightarrow> pre = join_with ''/'' ps \<Longrightarrow>
     map (\<lambda>x. (i_path x, i_node x)) (snd (mirror_kids pre p' ks j)) =
     map (\<lambda>(q, m). (join_with ''/'' q, m))
       (concat (map (\<lambda>(name, c). if ntype_of c = TypeHardlink then [] else flat (ps @ [name]) c) ks))"
proof (induction pre n par i and pre p' ks j arbitrary: ps and ps rule: mirror_mirror_kids.induct)
  case (1 pre n par i)
  have "\<forall>(k, c) \<in> set (sorted_children n). name_ok k \<and> wf_node c" using 1(2) sorted_kid by blast
  then show ?case
    using 1(1)[OF _ _ 1(3,4)] 1(4)
    by (subst mirror.simps, subst flat.simps) (auto simp: Let_def split: prod.split)
next
  case (3 pre par name c ks j)
  show ?case
  proof (cases "ntype_of c = TypeHardlink")
    case True
    then show ?thesis using 3(1)[OF True _ 3(5,6)] 3(4) by simp
  next
    case False
    let ?m = "mirror (path_join [pre, name]) c (Some par) j"
    have ok: "name_ok name" "wf_node c" using 3(4) by auto
    have "path_join [pre, name] = join_with ''/'' (ps @ [name])"
      unfolding 3(6) by (rule path_join_names[OF 3(5) ok(1)])
    then have "map (\<lambda>x. (i_path x, i_node x)) ?m = map (\<lambda>(q, m). (join_with ''/'' q, m)) (flat (ps @ [name]) c)"
      by (intro 3(2)[OF False ok(2)]) (use 3(5) ok(1) in auto)
    moreover have "map (\<lambda>x. (i_path x, i_node x)) (snd (mirror_kids pre par ks (j + length ?m))) =
        map (\<lambda>(q, m). (join_with ''/'' q, m))
          (concat (map (\<lambda>(name, c). if ntype_of c = TypeHardlink then [] else flat (ps @ [name]) c) ks))"
      by (rule 3(3)[OF False refl _ 3(5,6)]) (use 3(4) in auto)
    moreover obtain cs ms where "mirror_kids pre par ks (j + length ?m) = (cs, ms)" by fastforce
    ultimately show ?thesis using False by (simp add: Let_def)
  qed
qed simp

lemma flat_mem:
  "wf_node n \<Longrightarrow> (q, m) \<in> set (flat ps n) \<longleftrightarrow>
     (\<exists>r. q = ps @ r \<and> lookup n r = Some m \<and> (r = [] \<or> ntype_of m \<noteq> TypeHardlink))"
proof (induction n arbitrary: ps rule: measure_induct_rule[where f = size])
  case (less n)
  have IH: "(q, m) \<in> set (flat (ps @ [k]) c) \<longleftrightarrow>
      (\<exists>r. q = (ps @ [k]) @ r \<and> lookup c r = Some m \<and> (r = [] \<or> ntype_of m \<noteq> TypeHardlink))"
    if "child n k = Some c" for k c
    by (rule less.IH) (use that less.prems child_in_children[OF that] size_children wf_child[OF less.prems that] in auto)
  have hd: "lookup c r = Some m \<Longrightarrow> ntype_of c = TypeHardlink \<Longrightarrow> r = [] \<and> m = c" for c r
    by (cases r) auto
  have "(q, m) \<in> set (flat ps n) \<longleftrightarrow> (q, m) = (ps, n) \<or>
      (is_dir n \<and> (\<exists>k c. child n k = Some c \<and> ntype_of c \<noteq> TypeHardlink \<and> (q, m) \<in> set (flat (ps @ [k]) c)))"
    by (subst flat.simps) (auto simp: child_iff[OF less.prems] split: if_splits)
  also have "\<dots> \<longleftrightarrow> (\<exists>r. q = ps @ r \<and> lookup n r = Some m \<and> (r = [] \<or> ntype_of m \<noteq> TypeHardlink))" (is "?l \<longleftrightarrow> ?r")
  proof
    assume ?l
    then show ?r
    proof (elim disjE conjE exE)
      fix k c
      assume a: "is_dir n" "child n k = Some c" "ntype_of c \<noteq> TypeHardlink" "(q, m) \<in> set (flat (ps @ [k]) c)"
      then obtain r where "q = (ps @ [k]) @ r" "lookup c r = Some m" "r = [] \<or> ntype_of m \<noteq> TypeHardlink"
        using IH[OF a(2)] by blast
      then show ?r using a by (intro exI[of _ "k # r"]) (cases r; auto)
    qed simp
  next
    assume ?r
    then obtain r where r: "q = ps @ r" "lookup n r = Some m" "r = [] \<or> ntype_of m \<noteq> TypeHardlink" by blast
    show ?l
    proof (cases r)
      case (Cons k s)
      then obtain c where c: "is_dir n" "child n k = Some c" "lookup c s = Some m"
        using r(2) by (auto split: if_splits option.splits)
      moreover have "ntype_of c \<noteq> TypeHardlink" using hd[OF c(3)] r(3) Cons by auto
      ultimately show ?thesis using IH[OF c(2)] r Cons by auto
    qed (use r in simp)
  qed
  finally show ?case .
qed

lemma flat_prefix: "q \<in> set (map fst (flat ps n)) \<Longrightarrow> wf_node n \<Longrightarrow> prefix ps q"
  using flat_mem by fastforce

lemma distinct_sorted_names: "wf_node n \<Longrightarrow> distinct (map fst (sorted_children n))"
  using sorted_children_strict[of n] by (metis sorted_wrt_map strict_sorted_iff)

lemma distinct_flat: "wf_node n \<Longrightarrow> distinct (map fst (flat ps n))"
proof (induction n arbitrary: ps rule: measure_induct_rule[where f = size])
  case (less n)
  let ?f = "\<lambda>(name, c). if ntype_of c = TypeHardlink then [] else flat (ps @ [name]) c"
  have "distinct (map fst (concat (map ?f ks)))" if "distinct (map fst ks)" "set ks \<subseteq> set (children n)" for ks
    using that
  proof (induction ks)
    case (Cons kc ks)
    obtain k c where kc: "kc = (k, c)" by (cases kc)
    have in_n: "(k, c) \<in> set (children n)" using Cons.prems(2) kc by auto
    have 1: "distinct (map fst (?f kc))"
      using less.IH[OF size_children[OF in_n], of "ps @ [k]"] wf_node_child[OF less.prems in_n] kc by simp
    have 2: "set (map fst (?f kc)) \<inter> set (map fst (concat (map ?f ks))) = {}"
    proof (rule ccontr)
      assume "set (map fst (?f kc)) \<inter> set (map fst (concat (map ?f ks))) \<noteq> {}"
      then obtain q where q0: "q \<in> set (map fst (?f kc))" "q \<in> set (map fst (concat (map ?f ks)))" by blast
      from q0(2) obtain e where e: "fst e = q" "e \<in> set (concat (map ?f ks))" unfolding set_map by blast
      from e(2) obtain x where x0: "x \<in> set ks" "e \<in> set (?f x)" unfolding set_concat set_map by blast
      note q = q0(1) x0(1)
      have qx: "q \<in> set (map fst (?f x))" using imageI[OF x0(2), of fst] unfolding e(1) set_map .
      obtain l d where x: "x = (l, d)" by (cases x)
      have "(l, d) \<in> set (children n)" using Cons.prems(2) q(2) x by auto
      moreover have "q \<in> set (map fst (flat (ps @ [l]) d))" "q \<in> set (map fst (flat (ps @ [k]) c))"
        using q(1) qx kc x by (simp_all split: if_splits)
      ultimately have "prefix (ps @ [l]) q" "prefix (ps @ [k]) q"
        using flat_prefix wf_node_child[OF less.prems] in_n by blast+
      then have "k = l" by (auto simp: prefix_def)
      then show False using Cons.prems(1) q(2) kc x by (auto simp: image_iff)
    qed
    show ?case using 1 2 Cons by simp
  qed simp
  from this[of "sorted_children n"] have
    "distinct (map fst (concat (map ?f (sorted_children n))))"
    using distinct_sorted_names[OF less.prems] by (simp add: sorted_children_def)
  moreover have "ps \<notin> set (map fst (concat (map ?f (sorted_children n))))"
  proof
    assume "ps \<in> set (map fst (concat (map ?f (sorted_children n))))"
    then obtain k c where "(k, c) \<in> set (sorted_children n)" "ps \<in> set (map fst (flat (ps @ [k]) c))"
      by (auto split: if_splits)
    then have "prefix (ps @ [k]) ps" using flat_prefix sorted_kid[OF less.prems] by blast
    then show False by (auto simp: prefix_def)
  qed
  moreover have "map fst (flat ps n) = ps # (if is_dir n then map fst (concat (map ?f (sorted_children n))) else [])"
    by (subst flat.simps) simp
  ultimately show ?case by (cases "is_dir n") (simp_all only: distinct.simps if_True if_False list.set(1) empty_iff simp_thms)
qed

lemma join_inj:
  assumes "join_with ''/'' a = join_with ''/'' b" "\<forall>p \<in> set a. name_ok p" "\<forall>p \<in> set b. name_ok p"
  shows "a = b"
proof -
  have ne: "xs = [] \<longleftrightarrow> join_with ''/'' xs = []" if "\<forall>p \<in> set xs. name_ok p" for xs
    using join_with_nonempty[of xs "''/''"] that by (cases xs) (auto simp: name_ok_def)
  show ?thesis
  proof (cases "a = []")
    case True
    then show ?thesis using ne assms by auto
  next
    case False
    then have "b \<noteq> []" using ne assms by metis
    have slash: "\<forall>p \<in> set xs. CHR ''/'' \<notin> set p" if "\<forall>p \<in> set xs. name_ok p" for xs
      using that by (simp add: name_ok_def)
    show ?thesis
      using split_on_join[OF False slash[OF assms(2)]] split_on_join[OF \<open>b \<noteq> []\<close> slash[OF assms(3)]] assms(1)
      by metis
  qed
qed


text \<open>What an entry of the table says about its children.\<close>

definition kid_of :: "inode list \<Rightarrow> nat \<Rightarrow> string \<Rightarrow> nat \<Rightarrow> bool" where
  "kid_of st j name k \<longleftrightarrow> k < length st \<and> is_dir (i_node (st ! j)) \<and> i_parent (st ! k) = Some j \<and>
     child (i_node (st ! j)) name = Some (i_node (st ! k)) \<and> ntype_of (i_node (st ! k)) \<noteq> TypeHardlink \<and>
     i_path (st ! k) = path_join [i_path (st ! j), name]"

definition linked :: "inode list \<Rightarrow> nat \<Rightarrow> bool" where
  "linked st j \<longleftrightarrow> distinct (map fst (i_children (st ! j))) \<and>
     (\<forall>(name, k) \<in> set (i_children (st ! j)). kid_of st j name k) \<and>
     (\<forall>name c. is_dir (i_node (st ! j)) \<longrightarrow> child (i_node (st ! j)) name = Some c \<longrightarrow> ntype_of c \<noteq> TypeHardlink \<longrightarrow>
        name \<in> fst ` set (i_children (st ! j)))"

lemma mirror_head: "mirror pre n par i ! 0 = \<lparr>i_node = n, i_path = pre, i_parent = par,
    i_children = (if is_dir n then fst (mirror_kids pre i (sorted_children n) (Suc i)) else [])\<rparr>"
  "mirror pre n par i \<noteq> []"
  by (subst mirror.simps; simp add: Let_def case_prod_beta)+

lemma mirror_tail: "mirror pre n par i = mirror pre n par i ! 0 #
    (if is_dir n then snd (mirror_kids pre i (sorted_children n) (Suc i)) else [])"
  unfolding mirror_head(1) by (subst mirror.simps) (simp add: Let_def case_prod_beta)

text \<open>
  The children a \<^verbatim>\<open>mirror\<close> call returns, and the inodes it makes, at their positions in any table
  that holds them.
\<close>

lemma mirror_linked:
  "wf_node n \<Longrightarrow> length a = i \<Longrightarrow> st = a @ mirror pre n par i @ b \<Longrightarrow>
     \<forall>j. i \<le> j \<longrightarrow> j < i + length (mirror pre n par i) \<longrightarrow> linked st j"
  "\<forall>(k, c) \<in> set ks. name_ok k \<and> wf_node c \<Longrightarrow> length a = j \<Longrightarrow> st = a @ snd (mirror_kids pre p' ks j) @ b \<Longrightarrow>
     (\<forall>l. j \<le> l \<longrightarrow> l < j + length (snd (mirror_kids pre p' ks j)) \<longrightarrow> linked st l) \<and>
     map fst (fst (mirror_kids pre p' ks j)) = map fst (filter (\<lambda>(k, c). ntype_of c \<noteq> TypeHardlink) ks) \<and>
     (\<forall>(name, k) \<in> set (fst (mirror_kids pre p' ks j)). k < length st \<and> i_parent (st ! k) = Some p' \<and>
        (name, i_node (st ! k)) \<in> set ks \<and> ntype_of (i_node (st ! k)) \<noteq> TypeHardlink \<and>
        i_path (st ! k) = path_join [pre, name])"
proof (induction pre n par i and pre p' ks j arbitrary: a b st and a b st rule: mirror_mirror_kids.induct)
  case (1 pre n par i)
  let ?m = "mirror pre n par i"
  have head: "st ! i = ?m ! 0" using 1(3,4) mirror_head(2)[of pre n par i] by (simp add: nth_append)
  show ?case
  proof (cases "is_dir n")
    case False
    then have m: "?m = [?m ! 0]" by (subst mirror_tail) simp
    have "linked st i" by (simp add: linked_def head mirror_head False)
    then show ?thesis by (subst m) (auto simp: le_less_Suc_eq)
  next
    case True
    let ?ks = "mirror_kids pre i (sorted_children n) (Suc i)"
    have m: "?m = ?m ! 0 # snd ?ks" by (subst mirror_tail) (simp add: True)
    have st: "st = (a @ [?m ! 0]) @ snd ?ks @ b" using 1(4) m by (metis append.assoc append_Cons append_Nil)
    have ok: "\<forall>(k, c) \<in> set (sorted_children n). name_ok k \<and> wf_node c" using sorted_kid[OF 1(2)] by blast
    note kids = 1(1)[OF True ok _ st, unfolded length_append, simplified, OF 1(3)]
    have cs: "i_children (st ! i) = fst ?ks" "i_node (st ! i) = n" "i_path (st ! i) = pre"
      by (simp_all add: head mirror_head True)
    have "linked st i"
    proof -
      have "distinct (map fst (fst ?ks))"
        using kids distinct_map_filter[OF distinct_sorted_names[OF 1(2)]] by simp
      moreover have "kid_of st i name k" if "(name, k) \<in> set (fst ?ks)" for name k
        using kids that child_iff[OF 1(2)] by (auto simp: kid_of_def cs True)
      moreover have "name \<in> fst ` set (fst ?ks)" if "child n name = Some c" "ntype_of c \<noteq> TypeHardlink" for name c
      proof -
        have "(name, c) \<in> set (filter (\<lambda>(k, c). ntype_of c \<noteq> TypeHardlink) (sorted_children n))"
          using that child_iff[OF 1(2)] by simp
        then have "name \<in> set (map fst (filter (\<lambda>(k, c). ntype_of c \<noteq> TypeHardlink) (sorted_children n)))" by force
        then have "name \<in> set (map fst (fst ?ks))" using kids by simp
        then show ?thesis by simp
      qed
      ultimately show ?thesis by (auto simp: linked_def cs)
    qed
    moreover have "linked st j" if "Suc i \<le> j" "j < i + length ?m" for j
      using kids that m by (metis length_Cons add_Suc add_Suc_right)
    ultimately show ?thesis by (metis Suc_leI le_neq_implies_less)
  qed
next
  case (3 pre par name c ks j)
  show ?case
  proof (cases "ntype_of c = TypeHardlink")
    case True
    then show ?thesis using 3(1)[OF True _ 3(5), of st b] 3(4,6) by auto
  next
    case False
    let ?m = "mirror (path_join [pre, name]) c (Some par) j"
    obtain cs ms where mk: "mirror_kids pre par ks (j + length ?m) = (cs, ms)" by fastforce
    have ok: "wf_node c" "\<forall>(k, c) \<in> set ks. name_ok k \<and> wf_node c" using 3(4) by auto
    have st: "st = a @ ?m @ ms @ b" using 3(6) False mk by (simp add: Let_def)
    have kids: "mirror_kids pre par ((name, c) # ks) j = ((name, j) # cs, ?m @ ms)" using False mk by (simp add: Let_def)
    have lm: "\<forall>l. j \<le> l \<longrightarrow> l < j + length ?m \<longrightarrow> linked st l"
      by (rule 3(2)[OF False ok(1) 3(5) st])
    have lk: "(\<forall>l. j + length ?m \<le> l \<longrightarrow> l < j + length ?m + length ms \<longrightarrow> linked st l) \<and>
      map fst cs = map fst (filter (\<lambda>(k, c). ntype_of c \<noteq> TypeHardlink) ks) \<and>
      (\<forall>(name, k) \<in> set cs. k < length st \<and> i_parent (st ! k) = Some par \<and>
        (name, i_node (st ! k)) \<in> set ks \<and> ntype_of (i_node (st ! k)) \<noteq> TypeHardlink \<and>
        i_path (st ! k) = path_join [pre, name])"
      using 3(3)[OF False refl ok(2), of "a @ ?m" st b] 3(5) st mk by simp
    have hd: "st ! j = ?m ! 0" "j < length st"
      using st 3(5) mirror_head(2)[of "path_join [pre, name]" c "Some par" j] by (simp_all add: nth_append)
    have "linked st l" if "j \<le> l" "l < j + length (?m @ ms)" for l
      using lm lk that by (cases "l < j + length ?m") auto
    moreover have "i_parent (st ! j) = Some par \<and> i_node (st ! j) = c \<and> i_path (st ! j) = path_join [pre, name]"
      by (simp add: hd(1) mirror_head)
    ultimately show ?thesis unfolding kids using lk False hd(2) by auto
  qed
qed simp


section \<open>Finding an inode by its path\<close>

lemma map_of_rev_zip:
  assumes "distinct xs"
  shows "map_of (rev (zip xs [0..<length xs])) x = Some j \<longleftrightarrow> j < length xs \<and> xs ! j = x"
proof -
  have "distinct (map fst (rev (zip xs [0..<length xs])))" using assms by (simp add: rev_map[symmetric])
  then have "map_of (rev (zip xs [0..<length xs])) x = Some j \<longleftrightarrow> (x, j) \<in> set (zip xs [0..<length xs])"
    by (simp add: map_of_eq_Some_iff)
  also have "\<dots> \<longleftrightarrow> j < length xs \<and> xs ! j = x" by (auto simp: in_set_zip)
  finally show ?thesis .
qed

lemma by_path_iff: "distinct (map i_path st) \<Longrightarrow> by_path st p = Some j \<longleftrightarrow> j < length st \<and> i_path (st ! j) = p"
  using map_of_rev_zip[of "map i_path st" p j] by (auto simp: by_path_def)

text \<open>The table before the hard links, and its inodes by path.\<close>

abbreviation mirrored :: "node \<Rightarrow> inode list" where
  "mirrored root \<equiv> mirror '''' root None 0"

lemma mirrored_pairs:
  assumes "wf_node root"
  shows "map (\<lambda>x. (i_path x, i_node x)) (mirrored root) = map (\<lambda>(q, m). (join_with ''/'' q, m)) (flat [] root)"
  by (rule mirror_flat(1)) (use assms in simp_all)

lemma flat_ok: "wf_node root \<Longrightarrow> (q, m) \<in> set (flat [] root) \<Longrightarrow> \<forall>p \<in> set q. name_ok p"
  using flat_mem[of root q m "[]"] lookup_names by fastforce

lemma distinct_paths:
  assumes "wf_node root"
  shows "distinct (map i_path (mirrored root))"
proof -
  have "map i_path (mirrored root) = map fst (map (\<lambda>x. (i_path x, i_node x)) (mirrored root))" by simp
  also have "\<dots> = map (join_with ''/'') (map fst (flat [] root))"
    unfolding mirrored_pairs[OF assms] by (simp add: case_prod_beta)
  finally have e: "map i_path (mirrored root) = map (join_with ''/'') (map fst (flat [] root))" .
  have "inj_on (join_with ''/'') (set (map fst (flat [] root)))"
    by (rule inj_onI, rule join_inj) (use flat_ok[OF assms] in auto)
  then show ?thesis
    unfolding e distinct_map[of "join_with ''/''" "map fst (flat [] root)"] using distinct_flat[OF assms, of "[]"] by blast
qed

lemma by_path_lookup:
  assumes "wf_node root" "is_dir root" "\<forall>p \<in> set q. name_ok p"
  shows "by_path (mirrored root) (join_with ''/'' q) = Some j \<longleftrightarrow>
    j < length (mirrored root) \<and> i_path (mirrored root ! j) = join_with ''/'' q"
  by (rule by_path_iff[OF distinct_paths[OF assms(1)]])

lemma inode_at:
  assumes "wf_node root" "lookup root q = Some m" "q = [] \<or> ntype_of m \<noteq> TypeHardlink"
  obtains j where "by_path (mirrored root) (join_with ''/'' q) = Some j" "j < length (mirrored root)"
    "i_node (mirrored root ! j) = m" "i_path (mirrored root ! j) = join_with ''/'' q"
proof -
  have "(q, m) \<in> set (flat [] root)" using flat_mem[OF assms(1), of q m "[]"] assms(2,3) by simp
  then have "(join_with ''/'' q, m) \<in> set (map (\<lambda>x. (i_path x, i_node x)) (mirrored root))"
    unfolding mirrored_pairs[OF assms(1)] by force
  then obtain x where "x \<in> set (mirrored root)" "i_path x = join_with ''/'' q" "i_node x = m" by auto
  then obtain j where "j < length (mirrored root)" "i_path (mirrored root ! j) = join_with ''/'' q"
    "i_node (mirrored root ! j) = m" by (auto simp: in_set_conv_nth)
  then show ?thesis using that by_path_iff[OF distinct_paths[OF assms(1)]] by blast
qed

lemma inode_from:
  assumes "wf_node root" "j < length (mirrored root)"
  obtains q where "lookup root q = Some (i_node (mirrored root ! j))" "\<forall>p \<in> set q. name_ok p"
    "i_path (mirrored root ! j) = join_with ''/'' q" "q = [] \<or> ntype_of (i_node (mirrored root ! j)) \<noteq> TypeHardlink"
proof -
  let ?x = "mirrored root ! j"
  have "(i_path ?x, i_node ?x) \<in> set (map (\<lambda>x. (i_path x, i_node x)) (mirrored root))"
    using assms(2) by auto
  then obtain q where "(q, i_node ?x) \<in> set (flat [] root)" "i_path ?x = join_with ''/'' q"
    unfolding mirrored_pairs[OF assms(1)] by auto
  then show ?thesis using that flat_mem[OF assms(1), of q _ "[]"] lookup_names[OF assms(1)] by auto
qed

text \<open>The node a hard link stands for: what its target names, if that is a plain object.\<close>

definition link_node :: "node \<Rightarrow> string \<Rightarrow> node option" where
  "link_node root t =
     (case lookup root (if t = [] then [] else split_on (CHR ''/'') t) of
        Some m \<Rightarrow> if is_dir m \<or> ntype_of m = TypeHardlink then None else Some m
      | None \<Rightarrow> None)"

lemma split_join: "\<forall>p \<in> set q. name_ok p \<Longrightarrow> (if join_with ''/'' q = [] then [] else split_on (CHR ''/'') (join_with ''/'' q)) = q"
proof (cases "q = []")
  case False
  assume ok: "\<forall>p \<in> set q. name_ok p"
  have "join_with ''/'' q \<noteq> []" by (rule join_with_nonempty) (use False ok in \<open>auto simp: name_ok_def\<close>)
  moreover have "split_on (CHR ''/'') (join_with ''/'' q) = q"
    by (rule split_on_join[OF False]) (use ok in \<open>simp add: name_ok_def\<close>)
  ultimately show ?thesis by simp
qed simp

lemma hop_mirrored:
  assumes "wf_node root" "is_dir root"
  shows "(case hop (Suc k) (mirrored root) t of Some j \<Rightarrow> j < length (mirrored root) \<and> link_node root t = Some (i_node (mirrored root ! j))
      | None \<Rightarrow> link_node root t = None)"
proof (cases "by_path (mirrored root) t")
  case None
  have "link_node root t = None"
  proof (rule ccontr)
    let ?q = "if t = [] then [] else split_on (CHR ''/'') t"
    assume "link_node root t \<noteq> None"
    then obtain m where m: "lookup root ?q = Some m" "ntype_of m \<noteq> TypeHardlink"
      by (auto simp: link_node_def split: option.splits if_splits)
    have "join_with ''/'' ?q = t" by simp
    obtain j where "by_path (mirrored root) (join_with ''/'' ?q) = Some j"
      by (rule inode_at[OF assms(1) m(1)]) (use m(2) in auto)
    moreover have "join_with ''/'' ?q = t" by simp
    ultimately show False using None by (simp only: option.distinct)
  qed
  then show ?thesis using None by simp
next
  case (Some j)
  then have j: "j < length (mirrored root)" "i_path (mirrored root ! j) = t"
    using by_path_iff[OF distinct_paths[OF assms(1)]] by auto
  obtain q where q: "lookup root q = Some (i_node (mirrored root ! j))" "\<forall>p \<in> set q. name_ok p" "t = join_with ''/'' q"
    "q = [] \<or> ntype_of (i_node (mirrored root ! j)) \<noteq> TypeHardlink"
    using inode_from[OF assms(1) j(1)] j(2) by metis
  have nh: "ntype_of (i_node (mirrored root ! j)) \<noteq> TypeHardlink" using q(1,4) assms(2) by auto
  have "link_node root t = (if is_dir (i_node (mirrored root ! j)) then None else Some (i_node (mirrored root ! j)))"
    unfolding link_node_def q(3) split_join[OF q(2)] using q(1) nh by simp
  then show ?thesis using Some nh j(1) by (simp add: Let_def)
qed


section \<open>Hard links\<close>

text \<open>\<^verbatim>\<open>linkHard\<close> changes nothing but the children of directories.\<close>

definition same_frame :: "inode list \<Rightarrow> inode list \<Rightarrow> bool" where
  "same_frame st st' \<longleftrightarrow> length st' = length st \<and>
     (\<forall>j < length st. i_node (st' ! j) = i_node (st ! j) \<and> i_path (st' ! j) = i_path (st ! j) \<and>
        i_parent (st' ! j) = i_parent (st ! j))"

lemma same_frame_refl [simp]: "same_frame st st"
  by (simp add: same_frame_def)

lemma same_by_path: "same_frame st st' \<Longrightarrow> by_path st' p = by_path st p"
proof -
  assume s: "same_frame st st'"
  then have "map i_path st' = map i_path st" by (auto simp: same_frame_def intro: nth_equalityI)
  then show ?thesis using s by (simp add: by_path_def same_frame_def)
qed

lemma by_path_less: "by_path st p = Some j \<Longrightarrow> j < length st"
  by (auto simp: by_path_def dest!: map_of_SomeD set_zip_rightD)

lemma same_hop: "same_frame st st' \<Longrightarrow> hop k st' t = hop k st t"
proof (induction k arbitrary: t)
  case (Suc k)
  then show ?case
    using same_by_path[OF Suc.prems, of t] by_path_less[of st t]
    by (auto simp: same_frame_def Let_def split: option.split)
qed simp

lemma same_add_child: "same_frame st st' \<Longrightarrow> same_frame st (add_child i name t st')"
  by (cases "i < length st'") (auto simp: same_frame_def add_child_def nth_list_update)

text \<open>The entry of a name once the links of its directory are made.\<close>

definition entry_final :: "inode list \<Rightarrow> nat \<Rightarrow> string \<Rightarrow> nat option" where
  "entry_final st j name =
     (case child (i_node (st ! j)) name of
        Some c \<Rightarrow>
          if ntype_of c = TypeHardlink \<and> hop 8 st (n_target (attrs c)) \<noteq> None then hop 8 st (n_target (attrs c))
          else map_of (i_children (st ! j)) name
      | None \<Rightarrow> map_of (i_children (st ! j)) name)"

abbreviation entry_now :: "inode list \<Rightarrow> nat \<Rightarrow> string \<Rightarrow> nat option" where
  "entry_now st j name \<equiv> map_of (i_children (st ! j)) name"

text \<open>Between the two: each entry is as before or final, and progress is never lost.\<close>

definition linking :: "inode list \<Rightarrow> inode list \<Rightarrow> inode list \<Rightarrow> bool" where
  "linking st0 st st' \<longleftrightarrow> same_frame st0 st' \<and>
     (\<forall>j < length st0. distinct (map fst (i_children (st ! j))) \<longrightarrow> distinct (map fst (i_children (st' ! j)))) \<and>
     (\<forall>j < length st0. \<forall>name. entry_now st' j name = entry_now st j name \<or> entry_now st' j name = entry_final st0 j name)"

lemma linking_trans: "linking st0 a b \<Longrightarrow> linking st0 b c \<Longrightarrow> linking st0 a c"
  unfolding linking_def by metis

lemma linking_final: "linking st0 a b \<Longrightarrow> j < length st0 \<Longrightarrow> entry_now a j name = entry_final st0 j name \<Longrightarrow>
    entry_now b j name = entry_final st0 j name"
  unfolding linking_def by metis

lemma add_child_linking:
  assumes "same_frame st0 st" "i < length st0" "i_node (st0 ! i) = n" "child n name = Some c"
    "ntype_of c = TypeHardlink" "hop 8 st0 (n_target (attrs c)) = Some t"
  shows "linking st0 st (add_child i name t st)" "entry_now (add_child i name t st) i name = entry_final st0 i name"
proof -
  have l: "i < length st" using assms(1,2) by (simp add: same_frame_def)
  have f: "entry_final st0 i name = Some t" using assms by (simp add: entry_final_def)
  have e: "entry_now (add_child i name t st) j m = (if j = i \<and> m = name then Some t else entry_now st j m)" for j m
    using l by (auto simp: add_child_def nth_list_update)
  show "entry_now (add_child i name t st) i name = entry_final st0 i name" using e f by simp
  have "distinct (map fst (i_children (st ! j))) \<longrightarrow> distinct (map fst (i_children (add_child i name t st ! j)))" for j
    using l by (cases "j = i") (auto simp: add_child_def nth_list_update distinct_update)
  then show "linking st0 st (add_child i name t st)"
    using same_add_child[OF assms(1)] e f by (auto simp: linking_def)
qed

text \<open>The directories below a node have all their links made when \<^verbatim>\<open>linkHard\<close> returns.\<close>

definition linked_below :: "inode list \<Rightarrow> inode list \<Rightarrow> string list \<Rightarrow> node \<Rightarrow> bool" where
  "linked_below st0 st ps n \<longleftrightarrow> (\<forall>r m j name. lookup n r = Some m \<longrightarrow> (r = [] \<or> ntype_of m \<noteq> TypeHardlink) \<longrightarrow> is_dir m \<longrightarrow>
     by_path st0 (join_with ''/'' (ps @ r)) = Some j \<longrightarrow> entry_now st j name = entry_final st0 j name)"


lemma linking_frame: "linking st0 a b \<Longrightarrow> same_frame st0 b"
  by (simp add: linking_def)

lemma linking_refl: "same_frame st0 a \<Longrightarrow> linking st0 a a"
  by (simp add: linking_def)

lemma linked_below_later: "linking st0 a b \<Longrightarrow> linked_below st0 a ps n \<Longrightarrow> linked_below st0 b ps n"
  unfolding linked_below_def using linking_final by_path_less by metis

lemma linking_still: "linking st0 st0 a \<Longrightarrow> j < length st0 \<Longrightarrow> entry_final st0 j name = entry_now st0 j name \<Longrightarrow>
    entry_now a j name = entry_final st0 j name"
  unfolding linking_def by metis

lemma linkHard_links:
  "wf_node n \<Longrightarrow> is_dir n \<Longrightarrow> \<forall>p \<in> set ps. name_ok p \<Longrightarrow> linking st0 st0 st \<Longrightarrow> by_path st0 (join_with ''/'' ps) = Some i \<Longrightarrow>
    (\<forall>r m. lookup n r = Some m \<longrightarrow> (r = [] \<or> ntype_of m \<noteq> TypeHardlink) \<longrightarrow>
       (\<exists>j. by_path st0 (join_with ''/'' (ps @ r)) = Some j \<and> i_node (st0 ! j) = m)) \<Longrightarrow>
    linking st0 st (linkHard (join_with ''/'' ps) n i st) \<and> linked_below st0 (linkHard (join_with ''/'' ps) n i st) ps n"
proof (induction n arbitrary: ps st i rule: measure_induct_rule[where f = size])
  case (less n)
  note wf = less.prems(1) and dn = less.prems(2) and ok = less.prems(3) and st = less.prems(4)
    and ip = less.prems(5) and found = less.prems(6)
  let ?f = "\<lambda>(name, c) st. let p = path_join [join_with ''/'' ps, name] in
      if ntype_of c = TypeHardlink then (case hop 8 st (n_target (attrs c)) of None \<Rightarrow> st | Some t \<Rightarrow> add_child i name t st)
      else if is_dir c then (case by_path st p of None \<Rightarrow> st | Some j \<Rightarrow> linkHard p c j st) else st"
  have i: "i < length st0" "i_node (st0 ! i) = n"
    using by_path_less[OF ip] found[rule_format, of "[]" n] ip by auto
  have step: "linking st0 s (?f (k, c) s) \<and>
      (ntype_of c = TypeHardlink \<longrightarrow> entry_now (?f (k, c) s) i k = entry_final st0 i k) \<and>
      (is_dir c \<longrightarrow> linked_below st0 (?f (k, c) s) (ps @ [k]) c)"
    if kc: "(k, c) \<in> set (sorted_children n)" and s: "linking st0 st0 s" for k c s
  proof -
    have ch: "child n k = Some c" using kc child_iff[OF wf] by blast
    have kok: "name_ok k" "wf_node c" using sorted_kid[OF wf kc] by auto
    have fr: "same_frame st0 s" by (rule linking_frame[OF s])
    consider (hl) "ntype_of c = TypeHardlink" | (d) "is_dir c" | (o) "ntype_of c \<noteq> TypeHardlink" "\<not> is_dir c" by blast
    then show ?thesis
    proof cases
      case hl
      show ?thesis
      proof (cases "hop 8 st0 (n_target (attrs c))")
        case None
        have "entry_final st0 i k = entry_now st0 i k" using ch hl None i(2) by (simp add: entry_final_def)
        from linking_still[OF s i(1) this] show ?thesis
          using hl None same_hop[OF fr] linking_refl[OF fr] by simp
      next
        case (Some t)
        then show ?thesis using hl same_hop[OF fr] add_child_linking[OF fr i ch hl Some] by simp
      qed
    next
      case d
      have p: "path_join [join_with ''/'' ps, k] = join_with ''/'' (ps @ [k])" by (rule path_join_names[OF ok kok(1)])
      have below: "\<exists>j. by_path st0 (join_with ''/'' ((ps @ [k]) @ r)) = Some j \<and> i_node (st0 ! j) = m"
        if "lookup c r = Some m" "r = [] \<or> ntype_of m \<noteq> TypeHardlink" for r m
      proof -
        have "lookup n (k # r) = Some m" using ch dn that(1) by simp
        moreover have "ntype_of m \<noteq> TypeHardlink" using that d by (cases r) auto
        ultimately show ?thesis using found[rule_format, of "k # r" m] by simp
      qed
      obtain j where j: "by_path st0 (join_with ''/'' (ps @ [k])) = Some j" using below[of "[]" c] by auto
      have "(k, c) \<in> set (children n)" using kc by (simp add: sorted_children_def)
      from less.IH[OF size_children[OF this] kok(2) d _ s j] below ok kok(1)
      have "linking st0 s (linkHard (join_with ''/'' (ps @ [k])) c j s) \<and>
          linked_below st0 (linkHard (join_with ''/'' (ps @ [k])) c j s) (ps @ [k]) c" by auto
      then show ?thesis using d p j same_by_path[OF fr] by (simp add: Let_def)
    next
      case o
      then show ?thesis using linking_refl[OF fr] by simp
    qed
  qed
  have all: "linking st0 s (fold ?f ks s) \<and> (\<forall>(k, c) \<in> set ks.
      (ntype_of c = TypeHardlink \<longrightarrow> entry_now (fold ?f ks s) i k = entry_final st0 i k) \<and>
      (is_dir c \<longrightarrow> linked_below st0 (fold ?f ks s) (ps @ [k]) c))"
    if "set ks \<subseteq> set (sorted_children n)" "linking st0 st0 s" for ks s
    using that
  proof (induction ks arbitrary: s)
    case Nil
    then show ?case using linking_refl[OF linking_frame] by simp
  next
    case (Cons x ks)
    obtain k c where x: "x = (k, c)" by (cases x)
    let ?s = "?f (k, c) s"
    note st1 = step[of k c s]
    have st1: "linking st0 s ?s \<and> (ntype_of c = TypeHardlink \<longrightarrow> entry_now ?s i k = entry_final st0 i k) \<and>
        (is_dir c \<longrightarrow> linked_below st0 ?s (ps @ [k]) c)"
      by (rule step) (use Cons.prems x in auto)
    have r: "linking st0 ?s (fold ?f ks ?s) \<and> (\<forall>(k, c) \<in> set ks.
      (ntype_of c = TypeHardlink \<longrightarrow> entry_now (fold ?f ks ?s) i k = entry_final st0 i k) \<and>
      (is_dir c \<longrightarrow> linked_below st0 (fold ?f ks ?s) (ps @ [k]) c))"
      by (rule Cons.IH) (use Cons.prems linking_trans[OF Cons.prems(2)] st1 in auto)
    have u: "fold ?f (x # ks) s = fold ?f ks ?s" by (simp add: x)
    have "entry_now (fold ?f ks ?s) i k = entry_final st0 i k" if "ntype_of c = TypeHardlink"
      using linking_final[OF conjunct1[OF r] i(1)] st1 that by blast
    moreover have "linked_below st0 (fold ?f ks ?s) (ps @ [k]) c" if "is_dir c"
      using linked_below_later[OF conjunct1[OF r]] st1 that by blast
    ultimately show ?case
      unfolding u x using linking_trans[OF conjunct1[OF st1] conjunct1[OF r]] conjunct2[OF r] by simp
  qed
  let ?s = "linkHard (join_with ''/'' ps) n i st"
  have e: "?s = fold ?f (sorted_children n) st" by (rule linkHard.simps)
  note fin = all[OF subset_refl st, folded e]
  have lst: "linking st0 st0 ?s" by (rule linking_trans[OF st conjunct1[OF fin]])
  have "entry_now ?s j name = entry_final st0 j name"
    if r: "lookup n r = Some m" "r = [] \<or> ntype_of m \<noteq> TypeHardlink" "is_dir m" "by_path st0 (join_with ''/'' (ps @ r)) = Some j" for r m j name
  proof (cases r)
    case Nil
    then have "j = i" using r(4) ip by simp
    show ?thesis
    proof (cases "\<exists>c. child n name = Some c \<and> ntype_of c = TypeHardlink")
      case True
      then show ?thesis using fin child_iff[OF wf] \<open>j = i\<close> by blast
    next
      case False
      then have "entry_final st0 i name = entry_now st0 i name" using i(2) by (auto simp: entry_final_def split: option.split)
      then show ?thesis using linking_still[OF lst i(1)] \<open>j = i\<close> by simp
    qed
  next
    case (Cons k s)
    then obtain c where c: "child n k = Some c" "lookup c s = Some m" using r(1) by (auto split: if_splits option.splits)
    have "is_dir c" using c(2) r(3) by (cases s) (auto split: if_splits)
    then have "linked_below st0 ?s (ps @ [k]) c" using fin c(1) child_iff[OF wf] by blast
    then show ?thesis using c(2) r Cons unfolding linked_below_def by auto
  qed
  then show ?case using fin unfolding linked_below_def by blast
qed

text \<open>The finished table.\<close>

lemma inode_table_links:
  assumes "wf_node root" "is_dir root"
  shows "same_frame (mirrored root) (inode_table root)"
    and "j < length (mirrored root) \<Longrightarrow> is_dir (i_node (mirrored root ! j)) \<Longrightarrow>
      entry_now (inode_table root) j name = entry_final (mirrored root) j name"
    and "j < length (mirrored root) \<Longrightarrow> distinct (map fst (i_children (inode_table root ! j)))"
proof -
  let ?st = "mirrored root"
  have r0: "i_path (?st ! 0) = ''''" "?st \<noteq> []" by (simp_all add: mirror_head)
  then have "by_path ?st (join_with ''/'' []) = Some 0" using by_path_iff[OF distinct_paths[OF assms(1)]] by simp
  moreover have "\<forall>r m. lookup root r = Some m \<longrightarrow> (r = [] \<or> ntype_of m \<noteq> TypeHardlink) \<longrightarrow>
       (\<exists>j. by_path ?st (join_with ''/'' ([] @ r)) = Some j \<and> i_node (?st ! j) = m)"
    using inode_at[OF assms(1)] by (metis append_Nil)
  ultimately have l: "linking ?st ?st (inode_table root) \<and> linked_below ?st (inode_table root) [] root"
    using linkHard_links[OF assms, of "[]" ?st ?st 0] linking_refl[OF same_frame_refl] by (simp add: inode_table_def)
  show "same_frame ?st (inode_table root)" using linking_frame l by blast
  show "entry_now (inode_table root) j name = entry_final ?st j name"
    if j: "j < length ?st" "is_dir (i_node (?st ! j))"
  proof -
    obtain q where "lookup root q = Some (i_node (?st ! j))" "i_path (?st ! j) = join_with ''/'' q"
      "q = [] \<or> ntype_of (i_node (?st ! j)) \<noteq> TypeHardlink"
      using inode_from[OF assms(1) j(1)] by metis
    moreover have "by_path ?st (i_path (?st ! j)) = Some j" using by_path_iff[OF distinct_paths[OF assms(1)]] j(1) by simp
    ultimately show ?thesis using l j(2) unfolding linked_below_def by auto
  qed
  show "distinct (map fst (i_children (inode_table root ! j)))" if j: "j < length ?st"
  proof -
    have "\<forall>j. 0 \<le> j \<longrightarrow> j < 0 + length ?st \<longrightarrow> linked ?st j"
      by (rule mirror_linked(1)[OF assms(1), where a = "[]" and b = "[]"]) simp_all
    then have "linked ?st j" using j by simp
    then show ?thesis using l j by (simp add: linking_def linked_def)
  qed
qed


section \<open>The tree with hard links resolved\<close>

definition view_child :: "node \<Rightarrow> node \<Rightarrow> string \<Rightarrow> node option" where
  "view_child root n name =
     (case child n name of
        None \<Rightarrow> None
      | Some c \<Rightarrow> if ntype_of c = TypeHardlink then link_node root (n_target (attrs c)) else Some c)"

fun view :: "node \<Rightarrow> node \<Rightarrow> string list \<Rightarrow> node option" where
  "view root n [] = Some n"
| "view root n (p # ps) =
     (if \<not> is_dir n then None else case view_child root n p of None \<Rightarrow> None | Some m \<Rightarrow> view root m ps)"

text \<open>Its entries are the entries of the table.\<close>

lemma table_entry:
  assumes "wf_node root" "is_dir root" "j < length (inode_table root)" "is_dir (i_node (inode_table root ! j))"
  shows "case entry_now (inode_table root) j name of
      None \<Rightarrow> view_child root (i_node (inode_table root ! j)) name = None
    | Some k \<Rightarrow> k < length (inode_table root) \<and>
        view_child root (i_node (inode_table root ! j)) name = Some (i_node (inode_table root ! k))"
proof -
  let ?st = "mirrored root" and ?t = "inode_table root"
  note fr = inode_table_links(1)[OF assms(1,2)]
  have len: "length ?t = length ?st" and nd: "k < length ?st \<Longrightarrow> i_node (?t ! k) = i_node (?st ! k)" for k
    using fr by (auto simp: same_frame_def)
  have j: "j < length ?st" "is_dir (i_node (?st ! j))" using assms(3,4) len nd by auto
  have e: "entry_now ?t j name = entry_final ?st j name" by (rule inode_table_links(2)[OF assms(1,2) j])
  have "\<forall>j. 0 \<le> j \<longrightarrow> j < 0 + length ?st \<longrightarrow> linked ?st j"
    by (rule mirror_linked(1)[OF assms(1), where a = "[]" and b = "[]"]) simp_all
  then have lk: "linked ?st j" using j by simp
  have kid: "kid_of ?st j name k" if "entry_now ?st j name = Some k" for k
    using lk map_of_SomeD[OF that] by (auto simp: linked_def)
  show ?thesis
  proof (cases "child (i_node (?st ! j)) name")
    case None
    then have "entry_now ?st j name = None" using kid by (cases "entry_now ?st j name") (auto simp: kid_of_def)
    then show ?thesis using None e nd[OF j(1)] by (simp add: entry_final_def view_child_def)
  next
    case (Some c)
    show ?thesis
    proof (cases "ntype_of c = TypeHardlink")
      case True
      have n: "entry_now ?st j name = None"
        using kid Some True by (cases "entry_now ?st j name") (auto simp: kid_of_def)
      have "hop 8 ?st (n_target (attrs c)) = hop (Suc 7) ?st (n_target (attrs c))" by simp
      then show ?thesis
        using hop_mirrored[OF assms(1,2), where k = 7 and t = "n_target (attrs c)"] Some True n e nd len nd[OF j(1)]
        by (cases "hop 8 ?st (n_target (attrs c))") (auto simp: entry_final_def view_child_def simp del: hop.simps)
    next
      case False
      then obtain k where k: "entry_now ?st j name = Some k"
        using lk j(2) Some by (fastforce simp: linked_def dest: map_of_eq_Some_iff[THEN iffD2])
      have "entry_now ?t j name = Some k" using e k Some False by (simp add: entry_final_def)
      then show ?thesis using kid[OF k] Some False len nd nd[OF j(1)] by (auto simp: kid_of_def view_child_def)
    qed
  qed
qed

lemma table_children:
  assumes "wf_node root" "is_dir root" "j < length (inode_table root)" "is_dir (i_node (inode_table root ! j))"
    "name \<in> fst ` set (i_children (inode_table root ! j))"
  shows "child (i_node (inode_table root ! j)) name \<noteq> None"
proof -
  have "entry_now (inode_table root) j name \<noteq> None" using assms(5) by (simp add: map_of_eq_None_iff)
  then show ?thesis using table_entry[OF assms(1-4), of name]
    by (auto simp: view_child_def split: option.splits)
qed

lemma table_root:
  assumes "wf_node root" "is_dir root"
  shows "inode_table root \<noteq> []" "i_node (inode_table root ! 0) = root"
proof -
  have m: "mirrored root \<noteq> []" "i_node (mirrored root ! 0) = root" by (simp_all add: mirror_head)
  then show "inode_table root \<noteq> []" "i_node (inode_table root ! 0) = root"
    using inode_table_links(1)[OF assms] by (auto simp: same_frame_def)
qed

lemma table_node:
  assumes "wf_node root" "is_dir root" "j < length (inode_table root)"
  obtains q where "lookup root q = Some (i_node (inode_table root ! j))"
    "ntype_of (i_node (inode_table root ! j)) \<noteq> TypeHardlink"
proof -
  have fr: "same_frame (mirrored root) (inode_table root)" by (rule inode_table_links(1)[OF assms(1,2)])
  have j: "j < length (mirrored root)" "i_node (inode_table root ! j) = i_node (mirrored root ! j)"
    using fr assms(3) by (simp_all add: same_frame_def)
  obtain q where "lookup root q = Some (i_node (mirrored root ! j))"
    "q = [] \<or> ntype_of (i_node (mirrored root ! j)) \<noteq> TypeHardlink"
    using inode_from[OF assms(1) j(1)] by metis
  moreover have "ntype_of (i_node (mirrored root ! j)) \<noteq> TypeHardlink"
    using \<open>q = [] \<or> _\<close> \<open>lookup root q = _\<close> assms(2) by (cases "q = []") auto
  ultimately show ?thesis using that j(2) by metis
qed

end
