(* ===== verification/Erofs_Dir.thy ===== *)
theory Erofs_Dir
  imports Erofs
begin

text \<open>
  The directory blocks of the EROFS writer, read back: the reader follows the kernel, which takes
  the number of entries from the first name offset, the end of a name from the next offset and the
  end of the last name from the padding or the end of the data.
\<close>

section \<open>Reading\<close>

definition rd :: "nat \<Rightarrow> nat \<Rightarrow> bytes \<Rightarrow> nat" where
  "rd n off b = le_val (take n (drop off b))"

definition rd_dirents :: "bytes \<Rightarrow> dirent list" where
  "rd_dirents b =
     (let k = rd 2 8 b div 12; off = (\<lambda>i. rd 2 (12 * i + 8) b)
      in map (\<lambda>i. (string_of_bytes
             (if Suc i < k then take (off (Suc i) - off i) (drop (off i) b) else takeWhile (\<lambda>x. x \<noteq> 0) (drop (off i) b)),
           rd 8 (12 * i) b, rd 1 (12 * i + 10) b)) [0..<k])"

function rd_chunks :: "bytes \<Rightarrow> bytes list" where
  "rd_chunks b = (if b = [] then [] else take 4096 b # rd_chunks (drop 4096 b))"
  by pat_completeness auto
termination by (relation "measure length") auto

declare rd_chunks.simps [simp del]

definition rd_dir :: "bytes \<Rightarrow> dirent list" where
  "rd_dir data = concat (map rd_dirents (rd_chunks data))"

section \<open>One block\<close>

definition hdr :: "nat \<Rightarrow> dirent \<Rightarrow> bytes" where
  "hdr off = (\<lambda>(name, nid, ft). le64 (of_nat nid) @ le16 (of_nat off) @ [of_nat ft] @ [0])"

fun hdrs :: "nat \<Rightarrow> dirent list \<Rightarrow> bytes" where
  "hdrs off [] = []"
| "hdrs off (e # es) = hdr off e @ hdrs (off + length (fst e)) es"

definition names_of :: "dirent list \<Rightarrow> bytes" where
  "names_of es = concat (map (bytes_of \<circ> fst) es)"

definition block_used :: "dirent list \<Rightarrow> nat" where
  "block_used es = 12 * length es + length (names_of es)"

lemma length_hdr [simp]: "length (hdr off e) = 12"
  by (simp add: hdr_def split: prod.split)

lemma length_hdrs [simp]: "length (hdrs off es) = 12 * length es"
  by (induction es arbitrary: off) auto

lemma hdrs_append: "hdrs off (xs @ ys) = hdrs off xs @ hdrs (off + length (names_of xs)) ys"
  by (induction xs arbitrary: off) (auto simp: names_of_def algebra_simps)

lemma names_of_simps [simp]: "names_of [] = []" "names_of (e # es) = bytes_of (fst e) @ names_of es"
  "names_of (xs @ ys) = names_of xs @ names_of ys"
  by (simp_all add: names_of_def)

lemma zeros_split: "a \<le> n \<Longrightarrow> zeros n = zeros a @ zeros (n - a)"
  by (simp add: zeros_def replicate_add[symmetric])

lemma put_dirents:
  assumes "k = length xs + length ys" "12 * k + length (names_of xs) + length (names_of ys) \<le> 4096"
  shows "fold put_dirent (enumerate (length xs) ys)
      (hdrs (12 * k) xs @ zeros (12 * length ys) @ names_of xs @ zeros (4096 - 12 * k - length (names_of xs)),
       12 * k + length (names_of xs)) =
    (hdrs (12 * k) (xs @ ys) @ names_of (xs @ ys) @ zeros (4096 - 12 * k - length (names_of (xs @ ys))),
     12 * k + length (names_of (xs @ ys)))"
  using assms
proof (induction ys arbitrary: xs)
  case Nil
  then show ?case by (simp add: zeros_def)
next
  case (Cons e ys)
  obtain name nid ft where e: "e = (name, nid, ft)" by (cases e) auto
  let ?A = "hdrs (12 * k) xs" and ?j = "length xs" and ?o = "12 * k + length (names_of xs)"
  let ?N = "names_of xs"
  let ?Z = "zeros (4096 - 12 * k - length ?N)" and ?R = "zeros (12 * length ys) @ names_of xs"
  have z: "zeros (12 * length (e # ys)) = zeros 8 @ zeros 2 @ zeros 1 @ zeros 1 @ zeros (12 * length ys)"
  proof -
    have "12 * length (e # ys) = 8 + (2 + (1 + (1 + 12 * length ys)))" by simp
    then show ?thesis by (simp only: zeros_def replicate_add)
  qed
  have zn: "?Z = zeros (length name) @ zeros (4096 - 12 * k - length ?N - length name)"
    by (rule zeros_split) (use Cons.prems(2) e in simp)
  let ?b0 = "?A @ zeros 8 @ zeros 2 @ zeros 1 @ zeros 1 @ ?R @ ?Z"
  have p1: "patch (12 * ?j, le64 (of_nat nid)) ?b0 = ?A @ le64 (of_nat nid) @ zeros 2 @ zeros 1 @ zeros 1 @ ?R @ ?Z"
    by (rule patch_mid) simp_all
  have p2: "patch (12 * ?j + 8, le16 (of_nat ?o)) (?A @ le64 (of_nat nid) @ zeros 2 @ zeros 1 @ zeros 1 @ ?R @ ?Z)
      = ?A @ le64 (of_nat nid) @ le16 (of_nat ?o) @ zeros 1 @ zeros 1 @ ?R @ ?Z"
    using patch_mid[of "?A @ le64 (of_nat nid)" "12 * ?j + 8" "zeros 2" "le16 (of_nat ?o)" "zeros 1 @ zeros 1 @ ?R @ ?Z"] by simp
  have p3: "patch (12 * ?j + 10, [of_nat ft]) (?A @ le64 (of_nat nid) @ le16 (of_nat ?o) @ zeros 1 @ zeros 1 @ ?R @ ?Z)
      = ?A @ le64 (of_nat nid) @ le16 (of_nat ?o) @ [of_nat ft] @ zeros 1 @ ?R @ ?Z"
    using patch_mid[of "?A @ le64 (of_nat nid) @ le16 (of_nat ?o)" "12 * ?j + 10" "zeros 1" "[of_nat ft]" "zeros 1 @ ?R @ ?Z"] by simp
  have h: "?A @ le64 (of_nat nid) @ le16 (of_nat ?o) @ [of_nat ft] @ zeros 1 @ ?R @ ?Z
      = (hdrs (12 * k) (xs @ [e]) @ ?R) @ zeros (length name) @ zeros (4096 - 12 * k - length ?N - length name)"
    unfolding zn by (simp add: hdrs_append hdr_def e zeros_def)
  have p4: "patch (?o, bytes_of name) ((hdrs (12 * k) (xs @ [e]) @ ?R) @ zeros (length name) @ zeros (4096 - 12 * k - length ?N - length name))
      = (hdrs (12 * k) (xs @ [e]) @ ?R) @ bytes_of name @ zeros (4096 - 12 * k - length ?N - length name)"
    by (rule patch_mid) (use Cons.prems(1) in simp_all)
  have step: "put_dirent (?j, e) (?A @ zeros (12 * length (e # ys)) @ ?N @ ?Z, ?o) =
      (hdrs (12 * k) (xs @ [e]) @ zeros (12 * length ys) @ names_of (xs @ [e]) @ zeros (4096 - 12 * k - length (names_of (xs @ [e]))),
       12 * k + length (names_of (xs @ [e])))"
  proof -
    have "?A @ zeros (12 * length (e # ys)) @ ?N @ ?Z = ?b0" unfolding z by simp
    then have "put_dirent (?j, e) (?A @ zeros (12 * length (e # ys)) @ ?N @ ?Z, ?o) =
        ((hdrs (12 * k) (xs @ [e]) @ ?R) @ bytes_of name @ zeros (4096 - 12 * k - length ?N - length name), ?o + length name)"
      unfolding put_dirent_def e split_conv by (simp only: p1 p2 p3 h[unfolded e] p4[unfolded e])
    then show ?thesis by (simp add: e algebra_simps)
  qed
  have "fold put_dirent (enumerate (length (xs @ [e])) ys)
      (hdrs (12 * k) (xs @ [e]) @ zeros (12 * length ys) @ names_of (xs @ [e]) @ zeros (4096 - 12 * k - length (names_of (xs @ [e]))),
       12 * k + length (names_of (xs @ [e]))) =
    (hdrs (12 * k) ((xs @ [e]) @ ys) @ names_of ((xs @ [e]) @ ys) @ zeros (4096 - 12 * k - length (names_of ((xs @ [e]) @ ys))),
     12 * k + length (names_of ((xs @ [e]) @ ys)))"
    by (rule Cons.IH) (use Cons.prems in simp_all)
  then show ?case using step by simp
qed

lemma dir_block_eq:
  assumes "block_used es \<le> 4096"
  shows "dir_block es = (hdrs (12 * length es) es @ names_of es @ zeros (4096 - block_used es), block_used es)"
proof -
  have z: "zeros 4096 = zeros (12 * length es) @ zeros (4096 - 12 * length es)"
    by (rule zeros_split) (use assms in \<open>simp add: block_used_def\<close>)
  have "fold put_dirent (enumerate 0 es) (zeros 4096, 12 * length es) =
    (hdrs (12 * length es) es @ names_of es @ zeros (4096 - 12 * length es - length (names_of es)),
     12 * length es + length (names_of es))"
    unfolding z using put_dirents[of "length es" "[]" es] assms by (simp add: block_used_def)
  then show ?thesis by (simp add: dir_block_def block_used_def)
qed


text \<open>Fields and names at their places.\<close>

lemma hdrs_nth:
  assumes "i < length es"
  shows "take 12 (drop (12 * i) (hdrs off es @ r)) = hdr (off + length (names_of (take i es))) (es ! i)"
proof -
  have s: "es = take i es @ es ! i # drop (Suc i) es" using assms by (rule id_take_nth_drop)
  have "hdrs off es = hdrs off (take i es) @ hdr (off + length (names_of (take i es))) (es ! i) @
      hdrs (off + length (names_of (take i es)) + length (fst (es ! i))) (drop (Suc i) es)"
    by (subst s) (simp add: hdrs_append)
  moreover have "length (hdrs off (take i es)) = 12 * i" using assms by simp
  ultimately show ?thesis by simp
qed

lemma rd_within: "o' + n \<le> w \<Longrightarrow> rd n (s + o') b = le_val (take n (drop o' (take w (drop s b))))"
  by (simp add: rd_def take_drop add.commute min_def)

lemma le_val_single: "le_val [b] = unat b"
  by simp

lemma hdr_fields:
  assumes "nid < 2 ^ 64" "ft < 256" "off < 2 ^ 16"
  shows "le_val (take 8 (hdr off (name, nid, ft))) = nid"
    "le_val (take 2 (drop 8 (hdr off (name, nid, ft)))) = off"
    "le_val (take 1 (drop 10 (hdr off (name, nid, ft)))) = ft"
proof -
  have "unat (of_nat nid :: u64) = nid" "unat (of_nat off :: u16) = off" "unat (of_nat ft :: byte) = ft"
    using assms by (simp_all add: unat_of_nat)
  then show "le_val (take 8 (hdr off (name, nid, ft))) = nid"
    "le_val (take 2 (drop 8 (hdr off (name, nid, ft)))) = off"
    "le_val (take 1 (drop 10 (hdr off (name, nid, ft)))) = ft"
    by (simp_all add: hdr_def)
qed

lemma bytes_of_nonzero: "CHR 0x00 \<notin> set s \<Longrightarrow> x \<in> set (bytes_of s) \<Longrightarrow> x \<noteq> 0"
proof
  assume s: "CHR 0x00 \<notin> set s" and x: "x \<in> set (bytes_of s)" "x = 0"
  obtain c where c: "c \<in> set s" "of_char c = (0 :: byte)" using x by (auto simp: bytes_of_def)
  have "c = char_of (unat (of_char c :: byte))" by (simp add: unat_of_char)
  also have "\<dots> = CHR 0x00" unfolding c(2) by (simp add: char_of_def)
  finally show False using c(1) s by simp
qed

definition dirent_ok :: "dirent \<Rightarrow> bool" where
  "dirent_ok = (\<lambda>(name, nid, ft). name \<noteq> [] \<and> CHR 0x00 \<notin> set name \<and> nid < 2 ^ 64 \<and> ft < 256)"

lemma rd_dirents_block:
  assumes "es \<noteq> []" "block_used es \<le> 4096" "\<forall>e \<in> set es. dirent_ok e" "z = zeros m"
  shows "rd_dirents (hdrs (12 * length es) es @ names_of es @ z) = es"
proof -
  let ?b = "hdrs (12 * length es) es @ names_of es @ z" and ?k = "length es"
  let ?o = "\<lambda>i. 12 * ?k + length (names_of (take i es))"
  have nl: "length (names_of (take i es)) \<le> length (names_of es)" for i
    by (subst (2) append_take_drop_id[of i es, symmetric]) (simp only: names_of_simps length_append)
  have field: "rd 8 (12 * i) ?b = fst (snd (es ! i))" "rd 2 (12 * i + 8) ?b = ?o i" "rd 1 (12 * i + 10) ?b = snd (snd (es ! i))"
    if i: "i < ?k" for i
  proof -
    obtain name nid ft where e: "es ! i = (name, nid, ft)" by (cases "es ! i") auto
    have "dirent_ok (es ! i)" using assms(3) i by simp
    then have "nid < 2 ^ 64" "ft < 256" by (simp_all add: dirent_ok_def e)
    moreover have "?o i < 2 ^ 16" using nl[of i] assms(2) by (simp add: block_used_def)
    ultimately have h: "le_val (take 8 (hdr (?o i) (es ! i))) = nid" "le_val (take 2 (drop 8 (hdr (?o i) (es ! i)))) = ?o i"
      "le_val (take 1 (drop 10 (hdr (?o i) (es ! i)))) = ft"
      unfolding e by (rule hdr_fields)+
    note w = hdrs_nth[OF i, of "12 * ?k" "names_of es @ z"]
    show "rd 8 (12 * i) ?b = fst (snd (es ! i))"
      using rd_within[of 0 8 12 "12 * i" ?b] unfolding w using h(1) e by simp
    show "rd 2 (12 * i + 8) ?b = ?o i" using rd_within[of 8 2 12 "12 * i" ?b] unfolding w using h(2) by simp
    show "rd 1 (12 * i + 10) ?b = snd (snd (es ! i))" using rd_within[of 10 1 12 "12 * i" ?b] unfolding w using h(3) e by simp
  qed
  have k: "rd 2 8 ?b div 12 = ?k" using field(2)[of 0] assms(1) by simp
  have name: "string_of_bytes (if Suc i < ?k then take (?o (Suc i) - ?o i) (drop (?o i) ?b)
      else takeWhile (\<lambda>x. x \<noteq> 0) (drop (?o i) ?b)) = fst (es ! i)" if i: "i < ?k" for i
  proof -
    have s: "es = take i es @ es ! i # drop (Suc i) es" using i by (rule id_take_nth_drop)
    have d: "drop (?o i) ?b = bytes_of (fst (es ! i)) @ names_of (drop (Suc i) es) @ z"
    proof -
      have "names_of es = names_of (take i es) @ bytes_of (fst (es ! i)) @ names_of (drop (Suc i) es)"
        by (subst s) (simp only: names_of_simps append_assoc)
      then show ?thesis by simp
    qed
    show ?thesis
    proof (cases "Suc i < ?k")
      case True
      have "?o (Suc i) - ?o i = length (fst (es ! i))" using i by (simp add: take_Suc_conv_app_nth)
      then show ?thesis unfolding d using True by simp
    next
      case False
      then have "drop (Suc i) es = []" using i by simp
      moreover have "takeWhile (\<lambda>x. x \<noteq> 0) (bytes_of (fst (es ! i)) @ zeros m) = bytes_of (fst (es ! i))"
      proof -
        have "dirent_ok (es ! i)" using assms(3) i by simp
        then have "CHR 0x00 \<notin> set (fst (es ! i))" by (simp add: dirent_ok_def split: prod.splits)
        then have "x \<noteq> 0" if "x \<in> set (bytes_of (fst (es ! i)))" for x
          using that by (rule bytes_of_nonzero)
        moreover have "takeWhile (\<lambda>x. x \<noteq> 0) (zeros m) = []" by (cases m) (simp_all add: zeros_def)
        ultimately show ?thesis by (subst takeWhile_append2) auto
      qed
      ultimately show ?thesis unfolding d using False assms(4) by simp
    qed
  qed
  have "rd_dirents ?b = map (\<lambda>i. es ! i) [0..<?k]"
    unfolding rd_dirents_def Let_def k
  proof (rule map_cong[OF refl])
    fix i
    assume "i \<in> set [0..<?k]"
    then have i: "i < ?k" by simp
    have "string_of_bytes (if Suc i < ?k then take (rd 2 (12 * Suc i + 8) ?b - rd 2 (12 * i + 8) ?b) (drop (rd 2 (12 * i + 8) ?b) ?b)
        else takeWhile (\<lambda>x. x \<noteq> 0) (drop (rd 2 (12 * i + 8) ?b) ?b)) = fst (es ! i)"
      using name[OF i] by (cases "Suc i < ?k") (simp_all only: if_True if_False field(2)[OF i] field(2))
    then show "(string_of_bytes (if Suc i < ?k then take (rd 2 (12 * Suc i + 8) ?b - rd 2 (12 * i + 8) ?b) (drop (rd 2 (12 * i + 8) ?b) ?b)
        else takeWhile (\<lambda>x. x \<noteq> 0) (drop (rd 2 (12 * i + 8) ?b) ?b)), rd 8 (12 * i) ?b, rd 1 (12 * i + 10) ?b) = es ! i"
      by (simp only: field(1)[OF i] field(3)[OF i] prod.collapse)
  qed
  then show ?thesis by (simp add: map_nth)
qed


section \<open>All blocks\<close>

lemma fill_count_le: "fill_count u es \<le> length es"
  by (induction u es rule: fill_count.induct) (auto simp: Let_def)

lemma fill_count_used: "u \<le> 4096 \<Longrightarrow> u + block_used (take (fill_count u es) es) \<le> 4096"
proof (induction u es rule: fill_count.induct)
  case (2 u e es)
  then show ?case by (auto simp: Let_def block_used_def)
qed (simp add: block_used_def)

lemma fill_count_pos: "12 + length (fst e) \<le> 4096 \<Longrightarrow> 0 < fill_count 0 (e # es)"
  by (simp add: Let_def)

text \<open>The sizes of the blocks, without their bytes.\<close>

function block_sizes :: "dirent list \<Rightarrow> nat list" where
  "block_sizes es =
     (if es = [] \<or> fill_count 0 es = 0 then []
      else block_used (take (fill_count 0 es) es) # block_sizes (drop (fill_count 0 es) es))"
  by pat_completeness auto
termination by (relation "measure length") auto

declare block_sizes.simps [simp del]

definition dir_size :: "dirent list \<Rightarrow> nat" where
  "dir_size es = (length (block_sizes es) - 1) * 4096 + last (block_sizes es)"

definition fits_block :: "dirent \<Rightarrow> bool" where
  "fits_block e \<longleftrightarrow> 12 + length (fst e) \<le> 4096"

lemma take_add_length_append: "take (length a + m) (a @ c) = a @ take m c"
  by simp

lemma dir_blocks_ok:
  assumes "\<forall>e \<in> set es. fits_block e \<and> dirent_ok e"
  shows "\<exists>bs. (dir_blocks es :: 'e erofs_error + _) = Inr bs \<and> map snd bs = block_sizes es \<and> (bs = [] \<longleftrightarrow> es = []) \<and>
    (\<forall>b \<in> set bs. length (fst b) = 4096 \<and> snd b \<le> 4096 \<and> 0 < snd b) \<and>
    (bs \<noteq> [] \<longrightarrow> rd_dir (take ((length bs - 1) * 4096 + snd (last bs)) (concat (map fst bs))) = es)"
  using assms
proof (induction es rule: dir_blocks.induct)
  case (1 es)
  show ?case
  proof (cases "es = []")
    case True
    then show ?thesis by (subst dir_blocks.simps, subst block_sizes.simps) simp
  next
    case ne: False
    let ?k = "fill_count 0 es"
    let ?xs = "take ?k es"
    have k: "?k \<noteq> 0" using 1(2) ne fill_count_pos by (cases es) (auto simp: fits_block_def simp del: fill_count.simps)
    have ok: "\<forall>e \<in> set (drop ?k es). fits_block e \<and> dirent_ok e" "\<forall>e \<in> set ?xs. dirent_ok e"
      using 1(2) by (auto dest: in_set_takeD in_set_dropD)
    obtain bs where bs: "(dir_blocks (drop ?k es) :: 'e erofs_error + _) = Inr bs" "map snd bs = block_sizes (drop ?k es)"
      "bs = [] \<longleftrightarrow> drop ?k es = []" "\<forall>b \<in> set bs. length (fst b) = 4096 \<and> snd b \<le> 4096 \<and> 0 < snd b"
      "bs \<noteq> [] \<longrightarrow> rd_dir (take ((length bs - 1) * 4096 + snd (last bs)) (concat (map fst bs))) = drop ?k es"
      using 1(1)[OF ne refl k ok(1)] by blast
    have u: "block_used ?xs \<le> 4096" using fill_count_used[of 0 es] by simp
    have xs: "?xs \<noteq> []" using ne k by simp
    have up: "0 < block_used ?xs" using xs by (simp add: block_used_def)
    note blk = dir_block_eq[OF u]
    let ?blk = "hdrs (12 * length ?xs) ?xs @ names_of ?xs @ zeros (4096 - block_used ?xs)"
    have lb: "length ?blk = 4096" using u by (simp add: block_used_def)
    have run: "(dir_blocks es :: 'e erofs_error + _) = Inr (dir_block ?xs # bs)"
      by (subst dir_blocks.simps) (simp add: ne k bs(1))
    have sz: "block_sizes es = block_used ?xs # block_sizes (drop ?k es)"
      by (subst block_sizes.simps) (simp add: ne k)
    have "rd_dir (take (length bs * 4096 + snd (last (dir_block ?xs # bs))) (?blk @ concat (map fst bs))) = es"
    proof (cases "bs = []")
      case True
      then have d: "drop ?k es = []" using bs(3) by simp
      have t: "take (block_used ?xs) ?blk = hdrs (12 * length ?xs) ?xs @ names_of ?xs @ []"
        by (simp add: block_used_def)
      have r: "rd_dirents (hdrs (12 * length ?xs) ?xs @ names_of ?xs @ []) = ?xs"
        by (rule rd_dirents_block[OF xs u ok(2), where m = 0]) (simp add: zeros_def)
      have xe: "?xs = es" using d by simp
      have chunk: "rd_chunks c = [c]" if "c \<noteq> []" "length c \<le> 4096" for c
        using that by (subst rd_chunks.simps, subst rd_chunks.simps) simp
      have len: "length (take (block_used ?xs) ?blk) = block_used ?xs"
        using length_take[of "block_used ?xs" ?blk, unfolded lb] min.absorb2[OF u] by (rule trans)
      have ne: "take (block_used ?xs) ?blk \<noteq> []" using len up by (metis less_irrefl list.size(3))
      have c: "rd_chunks (take (block_used ?xs) ?blk) = [take (block_used ?xs) ?blk]"
        by (rule chunk[OF ne]) (simp only: len u)
      have e: "rd_dirents (take (block_used ?xs) ?blk) = ?xs" unfolding t by (rule r)
      have m: "length bs * 4096 + snd (last (dir_block ?xs # bs)) = block_used ?xs" "?blk @ concat (map fst bs) = ?blk"
        using True blk by simp_all
      have "rd_dir (take (length bs * 4096 + snd (last (dir_block ?xs # bs))) (?blk @ concat (map fst bs))) = ?xs"
        unfolding rd_dir_def m by (simp only: c e list.map concat.simps append_Nil2)
      then show ?thesis using xe by (rule trans)
    next
      case False
      have t: "take (length bs * 4096 + snd (last (dir_block ?xs # bs))) (?blk @ concat (map fst bs)) =
          ?blk @ take ((length bs - 1) * 4096 + snd (last bs)) (concat (map fst bs))"
      proof -
        have "length bs * 4096 + snd (last (dir_block ?xs # bs)) = length ?blk + ((length bs - 1) * 4096 + snd (last bs))"
          unfolding lb using False by (cases bs) simp_all
        then show ?thesis by (simp only: take_add_length_append)
      qed
      have chunk: "rd_chunks (c @ r) = c # rd_chunks r" if "length c = 4096" for c r
        using that by (subst rd_chunks.simps) auto
      have e: "rd_dirents ?blk = ?xs" by (rule rd_dirents_block[OF xs u ok(2) refl])
      note rest = mp[OF bs(5) False, unfolded rd_dir_def]
      show ?thesis unfolding t rd_dir_def chunk[OF lb]
        by (simp only: list.map concat.simps e rest append_take_drop_id)
    qed
    then show ?thesis using run sz bs(2,4) u up lb blk by auto
  qed
qed


lemma dir_size_bound: "\<forall>b \<in> set (block_sizes es). 0 < b \<and> b \<le> 4096 \<Longrightarrow> block_sizes es \<noteq> [] \<Longrightarrow>
    ceil_blocks (int (dir_size es)) = int (length (block_sizes es)) \<and> 0 < dir_size es"
proof -
  assume a: "\<forall>b \<in> set (block_sizes es). 0 < b \<and> b \<le> 4096" "block_sizes es \<noteq> []"
  let ?l = "last (block_sizes es)" and ?n = "length (block_sizes es)"
  have l: "0 < ?l" "?l \<le> 4096" using a by simp_all
  obtain m where m: "?n = Suc m" using a(2) by (cases "block_sizes es") auto
  have "(int (m * 4096 + ?l) + 4095) div 4096 = int m + (int ?l + 4095) div 4096" by simp
  also have "(int ?l + 4095) div 4096 = 1"
  proof (rule int_div_pos_eq[where r = "int ?l - 1"])
  qed (use l in simp_all)
  finally show ?thesis using l by (simp add: ceil_blocks_def dir_size_def m)
qed

text \<open>What \<^verbatim>\<open>packDirents\<close> returns is a whole number of blocks that read back as the entries.\<close>

lemma pack_reads:
  assumes "\<forall>e \<in> set es. fits_block e \<and> dirent_ok e" "es \<noteq> []" "es = dirents_of st i"
  obtains d where "(packDirents st i :: 'e erofs_error + _) = Inr (d, int (dir_size es))"
    "int (length d) = 4096 * ceil_blocks (int (dir_size es))" "rd_dir (take (dir_size es) d) = es" "0 < dir_size es"
proof -
  obtain bs where bs: "(dir_blocks es :: 'e erofs_error + _) = Inr bs" "map snd bs = block_sizes es" "bs = [] \<longleftrightarrow> es = []"
    "\<forall>b \<in> set bs. length (fst b) = 4096 \<and> snd b \<le> 4096 \<and> 0 < snd b"
    "bs \<noteq> [] \<longrightarrow> rd_dir (take ((length bs - 1) * 4096 + snd (last bs)) (concat (map fst bs))) = es"
    using dir_blocks_ok[OF assms(1), where 'e = 'e] by blast
  have ne: "bs \<noteq> []" using bs(3) assms(2) by simp
  have sz: "dir_size es = (length bs - 1) * 4096 + snd (last bs)"
    unfolding dir_size_def bs(2)[symmetric] using ne by (simp add: last_map)
  have b: "ceil_blocks (int (dir_size es)) = int (length (block_sizes es)) \<and> 0 < dir_size es"
    by (rule dir_size_bound) (use bs(2,4) ne in \<open>auto simp: bs(2)[symmetric]\<close>)
  have "length (concat (map fst cs)) = length cs * 4096" if "\<forall>b \<in> set cs. length (fst b) = 4096" for cs :: "(bytes \<times> nat) list"
    using that by (induction cs) auto
  then have len: "length (concat (map fst bs)) = length bs * 4096" using bs(4) by blast
  have lb: "length (block_sizes es) = length bs" unfolding bs(2)[symmetric] by simp
  show ?thesis
  proof (rule that)
    show "(packDirents st i :: 'e erofs_error + _) = Inr (concat (map fst bs), int (dir_size es))"
      unfolding packDirents_def assms(3)[symmetric] bs(1) using ne by (simp add: sz)
    show "int (length (concat (map fst bs))) = 4096 * ceil_blocks (int (dir_size es))"
      unfolding conjunct1[OF b] lb len by simp
    show "rd_dir (take (dir_size es) (concat (map fst bs))) = es" unfolding sz using bs(5) ne by simp
    show "0 < dir_size es" using b by simp
  qed
qed

end
