(* ===== verification/Erofs_Image.thy ===== *)
theory Erofs_Image
  imports Erofs_Table Erofs_Dir
begin

text \<open>
  The EROFS image read back. The reader follows the kernel: superblock, inode slots of 32 bytes,
  contiguous data, directory blocks. What it finds at a path is the node of the rootfs tree
  there, with hard links resolved.
\<close>

lemma bytes_of_empty [simp]: "bytes_of s = [] \<longleftrightarrow> s = []" "bytes_of [] = []"
  by (simp_all add: bytes_of_def)

lemma zeros_add: "zeros (a + b) = zeros a @ zeros b"
  by (simp add: zeros_def replicate_add)

section \<open>A reader\<close>

definition ero_mount :: "bytes \<Rightarrow> nat option" where
  "ero_mount img = (if rd 4 1024 img = 0xe0f5e1e2 \<and> rd 1 1036 img = 12 then Some (rd 2 1038 img) else None)"

definition ero_slot :: "bytes \<Rightarrow> nat \<Rightarrow> nat" where
  "ero_slot img nid = rd 4 1064 img * 4096 + nid * 32"

definition ero_mode :: "bytes \<Rightarrow> nat \<Rightarrow> u16" where
  "ero_mode img nid = of_nat (rd 2 (ero_slot img nid + 4) img)"

abbreviation ero_fmt :: "bytes \<Rightarrow> nat \<Rightarrow> u16" where
  "ero_fmt img nid \<equiv> ero_mode img nid AND 0xf000"

definition ero_size :: "bytes \<Rightarrow> nat \<Rightarrow> nat" where
  "ero_size img nid = rd 4 (ero_slot img nid + 8) img"

definition ero_addr :: "bytes \<Rightarrow> nat \<Rightarrow> nat" where
  "ero_addr img nid = rd 4 (ero_slot img nid + 16) img"

definition ero_data :: "bytes \<Rightarrow> nat \<Rightarrow> bytes" where
  "ero_data img nid = take (ero_size img nid) (drop (4096 * ero_addr img nid) img)"

fun ero_lookup :: "bytes \<Rightarrow> nat \<Rightarrow> string list \<Rightarrow> nat option" where
  "ero_lookup img nid [] = Some nid"
| "ero_lookup img nid (p # ps) =
     (if ero_fmt img nid \<noteq> 0x4000 then None
      else case map_of (rd_dir (ero_data img nid)) p of None \<Rightarrow> None | Some (k, ft) \<Rightarrow> ero_lookup img k ps)"

text \<open>Mode, owner, device number and content of an object; a directory shows its content by its entries.\<close>

definition ero_stat :: "bytes \<Rightarrow> nat \<Rightarrow> u16 \<times> nat \<times> nat \<times> nat \<times> bytes" where
  "ero_stat img nid =
     (ero_mode img nid, rd 2 (ero_slot img nid + 24) img, rd 2 (ero_slot img nid + 26) img,
      if ero_fmt img nid = 0x2000 \<or> ero_fmt img nid = 0x6000 then ero_addr img nid else 0,
      if ero_fmt img nid = 0x8000 \<or> ero_fmt img nid = 0xa000 then ero_data img nid else [])"

definition file_body :: "(string \<Rightarrow> 'e + (bytes \<times> 'e option)) \<Rightarrow> string \<Rightarrow> bytes" where
  "file_body opn ref = (case opn ref of Inr (b, e) \<Rightarrow> b | Inl e \<Rightarrow> [])"

definition node_stat :: "(string \<Rightarrow> 'e + (bytes \<times> 'e option)) \<Rightarrow> node \<Rightarrow> u16 \<times> nat \<times> nat \<times> nat \<times> bytes" where
  "node_stat opn n =
     (let a = attrs n in
      (inode_mode a, nat (n_uid a mod 65536), nat (n_gid a mod 65536),
       if n_type a = TypeChar \<or> n_type a = TypeBlock then unat (encode_rdev a) else 0,
       if n_type a = TypeFile then file_body opn (n_ref a) else if n_type a = TypeSymlink then bytes_of (n_target a) else []))"

section \<open>What the writer is given\<close>

text \<open>
  Names without NUL bytes that fit a block, and files whose bodies open, end without error and have the
  recorded size.
\<close>

definition node_ok :: "(string \<Rightarrow> 'e + (bytes \<times> 'e option)) \<Rightarrow> node \<Rightarrow> bool" where
  "node_ok opn n \<longleftrightarrow> (\<forall>name \<in> set (map fst (children n)). CHR 0x00 \<notin> set name \<and> length name \<le> 4084) \<and>
     (ntype_of n = TypeFile \<longrightarrow>
        (case opn (n_ref (attrs n)) of Inl e \<Rightarrow> False | Inr (b, err) \<Rightarrow> err = None \<and> n_size (attrs n) = int (length b)))"

function tree_ok :: "(string \<Rightarrow> 'e + (bytes \<times> 'e option)) \<Rightarrow> node \<Rightarrow> bool" where
  "tree_ok opn n \<longleftrightarrow> node_ok opn n \<and> (\<forall>kc \<in> set (children n). tree_ok opn (snd kc))"
  by pat_completeness auto
termination by (relation "measure (\<lambda>(opn, n). size n)") (auto intro: size_children)

declare tree_ok.simps [simp del]

definition size_of :: "inode list \<Rightarrow> nat \<Rightarrow> nat" where
  "size_of st i =
     (let a = attrs (i_node (st ! i)) in
      if n_type a = TypeDir then dir_size (dirents_of st i) else if n_type a = TypeFile then nat (n_size a)
      else if n_type a = TypeSymlink then length (n_target a) else 0)"

text \<open>The image stays within 32-bit block numbers, and every object within 32-bit sizes.\<close>

definition erofs_fits :: "node \<Rightarrow> bool" where
  "erofs_fits root \<longleftrightarrow>
     (let st = inode_table root; n = length st in
      1 + ceil_blocks (int n * 32) + sum_list (map (\<lambda>i. ceil_blocks (int (size_of st i))) [0..<n]) < 2 ^ 32 \<and>
      list_all (\<lambda>i. int (size_of st i) < 2 ^ 32) [0..<n])"

lemma tree_ok_lookup: "tree_ok opn n \<Longrightarrow> lookup n q = Some m \<Longrightarrow> node_ok opn m"
proof (induction n q rule: lookup.induct)
  case (1 n)
  then show ?case by (subst (asm) tree_ok.simps) simp
next
  case (2 n p ps)
  then obtain c where c: "is_dir n" "child n p = Some c" "lookup c ps = Some m" by (auto split: if_splits option.splits)
  have "tree_ok opn c" using 2(2) child_in_children[OF c(2)] by (subst (asm) tree_ok.simps) auto
  then show ?case using 2(1)[of c] c by simp
qed

section \<open>Data blocks\<close>

definition content :: "(string \<Rightarrow> 'e + (bytes \<times> 'e option)) \<Rightarrow> inode list \<Rightarrow> (int \<times> bytes) list \<Rightarrow> nat \<Rightarrow> bytes" where
  "content opn st ps i =
     (if type_at st i = TypeFile then file_body opn (n_ref (attrs (i_node (st ! i)))) else snd (ps ! i))"

text \<open>A piece and its padding to whole blocks.\<close>

definition padded :: "bytes \<Rightarrow> bytes" where
  "padded b = b @ (if length b mod 4096 \<noteq> 0 then zeros (4096 - length b mod 4096) else [])"

lemma length_padded: "int (length (padded b)) = 4096 * ceil_blocks (int (length b))"
proof -
  obtain q r where q: "length b = 4096 * q + r" "r < 4096"
    by (metis mod_less_divisor mult_div_mod_eq zero_less_numeral)
  then have m: "length b mod 4096 = r" by simp
  show ?thesis
  proof (cases "r = 0")
    case True
    then show ?thesis using q m by (simp add: padded_def ceil_blocks_def)
  next
    case False
    have "(4096 * int q + int r + 4095) div 4096 = int q + (int r + 4095) div 4096" by simp
    also have "(int r + 4095) div 4096 = 1"
      by (rule int_div_pos_eq[where r = "int r - 1"]) (use False q in simp_all)
    finally show ?thesis using q m False by (simp add: padded_def ceil_blocks_def)
  qed
qed

lemma ceil_blocks_nonneg: "0 \<le> s \<Longrightarrow> 0 \<le> ceil_blocks s"
  by (simp add: ceil_blocks_def)

lemma place_blocks_spec:
  assumes "i < length ss" "0 < ss ! i" "\<forall>s \<in> set ss. 0 \<le> s"
    "int (unat nx) + sum_list (map ceil_blocks ss) < 2 ^ 32"
  shows "int (unat (fst (place_blocks nx ss) ! i)) = int (unat nx) + sum_list (map ceil_blocks (take i ss))"
  using assms
proof (induction ss arbitrary: i nx)
  case (Cons s ss)
  have nn: "0 \<le> ceil_blocks s" "0 \<le> sum_list (map ceil_blocks ss)"
    using Cons.prems(3) ceil_blocks_nonneg by (auto intro!: sum_list_nonneg)
  have wrap: "int (unat (nx + word_of_int (ceil_blocks s))) = int (unat nx) + ceil_blocks s"
  proof -
    have s: "uint nx + (ceil_blocks s + sum_list (map ceil_blocks ss)) < 2 ^ 32" "0 \<le> uint nx"
      using Cons.prems(4) by simp_all
    have c: "ceil_blocks s < 2 ^ 32" "uint nx + ceil_blocks s < 2 ^ 32" "0 \<le> uint nx"
      using s nn by linarith+
    then have "uint (word_of_int (ceil_blocks s) :: u32) = ceil_blocks s"
      using nn by (simp add: uint_word_of_int take_bit_eq_mod)
    then have "uint (nx + word_of_int (ceil_blocks s)) = uint nx + ceil_blocks s"
      using c nn by (simp add: uint_word_ariths)
    then show ?thesis by simp
  qed
  have z: "ceil_blocks s = 0" if "\<not> s > 0" using that Cons.prems(3) by (simp add: ceil_blocks_def)
  show ?case
  proof (cases i)
    case 0
    then show ?thesis using Cons.prems(2) by (simp add: case_prod_beta)
  next
    case (Suc k)
    have IH: "int (unat (fst (place_blocks nx' ss) ! k)) = int (unat nx') + sum_list (map ceil_blocks (take k ss))"
      if "int (unat nx') + sum_list (map ceil_blocks ss) < 2 ^ 32" for nx'
      by (rule Cons.IH) (use Cons.prems Suc that in auto)
    show ?thesis
    proof (cases "s > 0")
      case True
      then show ?thesis using IH[of "nx + word_of_int (ceil_blocks s)"] Suc wrap Cons.prems(4)
        by (simp add: case_prod_beta)
    next
      case False
      then show ?thesis using IH[of "nx"] Suc z Cons.prems(4) by (simp add: case_prod_beta)
    qed
  qed
qed simp


section \<open>The inode table on disk\<close>

definition inode_bytes :: "inode list \<Rightarrow> int list \<Rightarrow> u32 list \<Rightarrow> nat \<Rightarrow> bytes" where
  "inode_bytes st sizes addrs i =
     (let a = attrs (i_node (st ! i)) in
      fold patch
       [(0, le16 0), (4, le16 (inode_mode a)), (6, le16 (ucast (nlink st i))), (8, le32 (word_of_int (sizes ! i))),
        (16, le32 (if n_type a = TypeChar \<or> n_type a = TypeBlock then encode_rdev a else addrs ! i)),
        (20, le32 (of_nat (i + 1))), (24, le16 (word_of_int (n_uid a))), (26, le16 (word_of_int (n_gid a)))] (zeros 32))"

lemma length_inode_bytes [simp]: "length (inode_bytes st sizes addrs i) = 32"
  unfolding inode_bytes_def Let_def by (subst length_patches) simp_all

lemma patch_frame: "i + length b \<le> length Z \<Longrightarrow> patch (length A + i, b) (A @ Z @ R) = A @ patch (i, b) Z @ R"
  by (simp add: patch_def)

lemma fold_patch_frame:
  "length A = off \<Longrightarrow> \<forall>(j, b) \<in> set ps. j + length b \<le> length Z \<Longrightarrow>
    fold (\<lambda>(j, b). patch (off + j, b)) ps (A @ Z @ R) = A @ fold patch ps Z @ R"
proof (induction ps arbitrary: Z)
  case (Cons x ps)
  obtain j b where x: "x = (j, b)" by (cases x)
  have "j + length b \<le> length Z" using Cons.prems(2) x by simp
  then show ?case using patch_frame[of j b Z A R] Cons x by (simp add: length_patch)
qed simp

lemma write_inode_slot:
  assumes "length A = 4096 + i * 32" "sizes ! i \<le> 0xffffffff"
  shows "(write_inode st sizes addrs i (A @ zeros 32 @ R) :: 'e erofs_error + _) = Inr (A @ inode_bytes st sizes addrs i @ R)"
proof -
  define off where "off = 4096 + i * 32"
  define ps :: "(nat \<times> bytes) list" where "ps = (let a = attrs (i_node (st ! i)) in
      [(0, le16 0), (4, le16 (inode_mode a)), (6, le16 (ucast (nlink st i))), (8, le32 (word_of_int (sizes ! i))),
        (16, le32 (if n_type a = TypeChar \<or> n_type a = TypeBlock then encode_rdev a else addrs ! i)),
        (20, le32 (of_nat (i + 1))), (24, le16 (word_of_int (n_uid a))), (26, le16 (word_of_int (n_gid a)))])"
  have w: "write_inode st sizes addrs i h = (Inr (fold (\<lambda>(j, b). patch (off + j, b)) ps h) :: 'e erofs_error + _)" for h
    unfolding write_inode_def off_def[symmetric] ps_def Let_def using assms(2) by simp
  have "fold (\<lambda>(j, b). patch (off + j, b)) ps (A @ zeros 32 @ R) = A @ fold patch ps (zeros 32) @ R"
    by (rule fold_patch_frame) (use assms(1) in \<open>simp_all add: off_def ps_def Let_def\<close>)
  moreover have "fold patch ps (zeros 32) = inode_bytes st sizes addrs i" by (simp only: inode_bytes_def ps_def Let_def)
  ultimately show ?thesis unfolding w by simp
qed

lemma write_inodes:
  assumes "length A = 4096 + i * 32" "\<forall>j < i + n. sizes ! j \<le> 0xffffffff"
  shows "(foldR (write_inode st sizes addrs) [i..<i + n] (A @ zeros (32 * n) @ R) :: 'e erofs_error + _) =
    Inr (A @ concat (map (inode_bytes st sizes addrs) [i..<i + n]) @ R)"
  using assms
proof (induction n arbitrary: A i)
  case (Suc n)
  have z: "zeros (32 * Suc n) = zeros 32 @ zeros (32 * n)" by (simp add: zeros_def replicate_add[symmetric])
  have u: "[i..<i + Suc n] = i # [Suc i..<Suc i + n]" by (simp add: upt_rec)
  have "(write_inode st sizes addrs i (A @ zeros 32 @ zeros (32 * n) @ R) :: 'e erofs_error + _) =
      Inr (A @ inode_bytes st sizes addrs i @ zeros (32 * n) @ R)"
    by (rule write_inode_slot) (use Suc.prems in simp_all)
  moreover have "(foldR (write_inode st sizes addrs) [Suc i..<Suc i + n] ((A @ inode_bytes st sizes addrs i) @ zeros (32 * n) @ R) :: 'e erofs_error + _)
      = Inr ((A @ inode_bytes st sizes addrs i) @ concat (map (inode_bytes st sizes addrs) [Suc i..<Suc i + n]) @ R)"
    by (rule Suc.IH) (use Suc.prems in simp_all)
  ultimately show ?case unfolding u z by simp
qed (simp add: zeros_def)

lemma rd_patch_same: "i + length b \<le> length buf \<Longrightarrow> length b = n \<Longrightarrow> rd n i (patch (i, b) buf) = le_val b"
  by (simp add: rd_def read_patch_same)

lemma rd_patch_other: "j + n \<le> i \<or> i + length b \<le> j \<Longrightarrow> i + length b \<le> length buf \<Longrightarrow> rd n j (patch (i, b) buf) = rd n j buf"
  by (simp add: rd_def read_patch_other)

lemmas rd_patches = rd_patch_same rd_patch_other length_patch

lemma inode_fields:
  "rd 2 4 (inode_bytes st sizes addrs i) = unat (inode_mode (attrs (i_node (st ! i))))"
  "rd 4 8 (inode_bytes st sizes addrs i) = unat (word_of_int (sizes ! i) :: u32)"
  "rd 4 16 (inode_bytes st sizes addrs i) =
     unat (if type_at st i = TypeChar \<or> type_at st i = TypeBlock then encode_rdev (attrs (i_node (st ! i))) else addrs ! i)"
  "rd 2 24 (inode_bytes st sizes addrs i) = unat (word_of_int (n_uid (attrs (i_node (st ! i)))) :: u16)"
  "rd 2 26 (inode_bytes st sizes addrs i) = unat (word_of_int (n_gid (attrs (i_node (st ! i)))) :: u16)"
  by (simp_all add: inode_bytes_def Let_def rd_patches)

section \<open>The superblock\<close>

definition sb_block :: "inode list \<Rightarrow> u32 \<Rightarrow> int \<Rightarrow> bytes" where
  "sb_block st nblocks buildTime = superblock st nblocks buildTime (zeros 4096)"

lemma length_sb [simp]: "length (sb_block st nblocks buildTime) = 4096"
  by (simp add: sb_block_def superblock_def length_patch)

lemma superblock_frame: "superblock st nblocks buildTime (zeros 4096 @ R) = sb_block st nblocks buildTime @ R"
proof -
  have f: "patch (j, b) (Z @ R) = patch (j, b) Z @ R" if "j + length b \<le> length Z" for j b Z
    using patch_frame[OF that, of "[]" R] by simp
  show ?thesis by (simp add: sb_block_def superblock_def f length_patch)
qed

lemma sb_fields:
  "rd 4 1024 (sb_block st nblocks buildTime) = 0xe0f5e1e2" "rd (Suc 0) 1036 (sb_block st nblocks buildTime) = 12"
  "rd 2 1038 (sb_block st nblocks buildTime) = 0" "rd 4 1064 (sb_block st nblocks buildTime) = 1"
  by (simp_all add: sb_block_def superblock_def rd_patches)

lemma rd_append: "off + n \<le> length a \<Longrightarrow> rd n off (a @ b) = rd n off a"
  by (simp add: rd_def)

lemma rd_drop: "rd n (length a + off) (a @ b) = rd n off b"
  by (simp add: rd_def)


section \<open>Every object has its payload\<close>

lemma foldR_collect:
  "\<forall>i \<in> set xs. f i = Inr (g i) \<Longrightarrow> foldR (\<lambda>i ps. bindR (f i) (\<lambda>p. Inr (ps @ [p]))) xs acc = Inr (acc @ map g xs)"
  by (induction xs arbitrary: acc) auto

definition seg :: "(string \<Rightarrow> 'e + (bytes \<times> 'e option)) \<Rightarrow> inode list \<Rightarrow> (int \<times> bytes) list \<Rightarrow> nat \<Rightarrow> bytes" where
  "seg opn st ps i = (if fst (ps ! i) = 0 then [] else padded (content opn st ps i))"

text \<open>What the reader finds in the blocks of an object.\<close>

definition holds_data :: "(string \<Rightarrow> 'e + (bytes \<times> 'e option)) \<Rightarrow> inode list \<Rightarrow> nat \<Rightarrow> bytes \<Rightarrow> bool" where
  "holds_data opn st i b \<longleftrightarrow>
     (let a = attrs (i_node (st ! i)) in
      (n_type a = TypeDir \<longrightarrow> rd_dir b = dirents_of st i) \<and>
      (n_type a = TypeFile \<longrightarrow> b = file_body opn (n_ref a)) \<and>
      (n_type a = TypeSymlink \<longrightarrow> b = bytes_of (n_target a)))"

definition dirents_fine :: "inode list \<Rightarrow> bool" where
  "dirents_fine st \<longleftrightarrow> (\<forall>i < length st. type_at st i = TypeDir \<longrightarrow>
     (\<forall>e \<in> set (dirents_of st i). fits_block e \<and> dirent_ok e))"

definition files_open :: "(string \<Rightarrow> 'e + (bytes \<times> 'e option)) \<Rightarrow> inode list \<Rightarrow> bool" where
  "files_open opn st \<longleftrightarrow> (\<forall>i < length st. type_at st i = TypeFile \<longrightarrow>
     (\<exists>b. opn (n_ref (attrs (i_node (st ! i)))) = Inr (b, None) \<and> n_size (attrs (i_node (st ! i))) = int (length b)))"

lemma dirents_nonempty [simp]: "dirents_of st i \<noteq> []"
  by (simp add: dirents_of_def flip: length_0_conv)

lemma padded_whole: "int (length d) = 4096 * k \<Longrightarrow> padded d = d"
proof -
  assume "int (length d) = 4096 * k"
  then have "int (length d) mod 4096 = 0" by simp
  then have "length d mod 4096 = 0" by (metis of_nat_0_eq_iff of_nat_mod of_nat_numeral)
  then show ?thesis by (simp add: padded_def)
qed

lemma payload_piece:
  fixes opn :: "string \<Rightarrow> 'e + (bytes \<times> 'e option)"
  assumes "i < length st" "dirents_fine st" "files_open opn st" "type_at st i \<noteq> TypeHardlink"
  obtains own where "(payload st i :: 'e erofs_error + _) = Inr (int (size_of st i), own)"
    and "\<And>ps. ps ! i = (int (size_of st i), own) \<Longrightarrow>
      (\<forall>out. write_data opn None st ps i out = Inr (out @ seg opn st ps i)) \<and>
      int (length (seg opn st ps i)) = 4096 * ceil_blocks (int (size_of st i)) \<and>
      size_of st i \<le> length (seg opn st ps i) \<and>
      holds_data opn st i (take (size_of st i) (seg opn st ps i))"
proof -
  let ?a = "attrs (i_node (st ! i))"
  have pad: "emit None (zeros (4096 - length b mod 4096)) (out @ b) = Inr (out @ padded b)"
    if "length b mod 4096 \<noteq> 0" for b out
    using that by (simp add: emit_def padded_def)
  have c0: "ceil_blocks 0 = 0" by (simp add: ceil_blocks_def)
  have lp: "length b \<le> length (padded b)" for b by (simp add: padded_def)
  have tp: "take (length b) (padded b) = b" for b by (simp add: padded_def)
  consider (d) "n_type ?a = TypeDir" | (f) "n_type ?a = TypeFile" | (s) "n_type ?a = TypeSymlink"
    | (o) "n_type ?a \<noteq> TypeDir" "n_type ?a \<noteq> TypeFile" "n_type ?a \<noteq> TypeSymlink" by blast
  then show ?thesis
  proof cases
    case d
    have "\<forall>e \<in> set (dirents_of st i). fits_block e \<and> dirent_ok e" using assms(1,2) d by (simp add: dirents_fine_def)
    then obtain own where own: "(packDirents st i :: 'e erofs_error + _) = Inr (own, int (dir_size (dirents_of st i)))"
      "int (length own) = 4096 * ceil_blocks (int (dir_size (dirents_of st i)))"
      "rd_dir (take (dir_size (dirents_of st i)) own) = dirents_of st i" "0 < dir_size (dirents_of st i)"
      using pack_reads[OF _ dirents_nonempty refl] by metis
    have sz: "size_of st i = dir_size (dirents_of st i)" by (simp add: size_of_def d)
    have whole: "padded own = own" by (rule padded_whole[OF own(2)])
    have m0: "length own mod 4096 = 0"
      using own(2) by (metis of_nat_0_eq_iff of_nat_mod of_nat_numeral mod_mult_self1_is_0)
    have "int (dir_size (dirents_of st i)) \<le> 4096 * ceil_blocks (int (dir_size (dirents_of st i)))"
      by (simp add: ceil_blocks_def)
    then have le: "dir_size (dirents_of st i) \<le> length own" using own(2) by simp
    show ?thesis
    proof (rule that[of own])
      show "(payload st i :: 'e erofs_error + _) = Inr (int (size_of st i), own)"
        by (simp add: payload_def d own(1) sz)
      fix ps :: "(int \<times> bytes) list"
      assume ps: "ps ! i = (int (size_of st i), own)"
      have sg: "seg opn st ps i = own" using own(4) by (simp add: seg_def ps sz content_def d whole)
      have "write_data opn None st ps i out = Inr (out @ own)" for out
        using own(4) m0 by (simp add: write_data_def Let_def ps sz d emit_def)
      then show "(\<forall>out. write_data opn None st ps i out = Inr (out @ seg opn st ps i)) \<and>
          int (length (seg opn st ps i)) = 4096 * ceil_blocks (int (size_of st i)) \<and>
          size_of st i \<le> length (seg opn st ps i) \<and> holds_data opn st i (take (size_of st i) (seg opn st ps i))"
        unfolding sg sz using own(2,3) le by (simp add: holds_data_def d)
    qed
  next
    case f
    then obtain b where b: "opn (n_ref ?a) = Inr (b, None)" "n_size ?a = int (length b)"
      using assms(1,3) by (auto simp: files_open_def)
    have sz: "size_of st i = length b" by (simp add: size_of_def f b)
    have fb: "file_body opn (n_ref ?a) = b" by (simp add: file_body_def b)
    show ?thesis
    proof (rule that[of "[]"])
      show "(payload st i :: 'e erofs_error + _) = Inr (int (size_of st i), [])" by (simp add: payload_def f b sz)
      fix ps :: "(int \<times> bytes) list"
      assume ps: "ps ! i = (int (size_of st i), [])"
      have sg: "seg opn st ps i = (if b = [] then [] else padded b)" by (simp add: seg_def ps sz content_def f fb)
      have "write_data opn None st ps i out = Inr (out @ seg opn st ps i)" for out
        unfolding sg using pad[of b out] by (simp add: write_data_def Let_def ps sz f b emit_def padded_def)
      then show "(\<forall>out. write_data opn None st ps i out = Inr (out @ seg opn st ps i)) \<and>
          int (length (seg opn st ps i)) = 4096 * ceil_blocks (int (size_of st i)) \<and>
          size_of st i \<le> length (seg opn st ps i) \<and> holds_data opn st i (take (size_of st i) (seg opn st ps i))"
        unfolding sg sz using length_padded[of b] lp[of b] tp[of b] fb by (simp add: holds_data_def f c0)
    qed
  next
    case s
    let ?b = "bytes_of (n_target ?a)"
    have sz: "size_of st i = length ?b" by (simp add: size_of_def s)
    show ?thesis
    proof (rule that[of ?b])
      show "(payload st i :: 'e erofs_error + _) = Inr (int (size_of st i), ?b)" by (simp add: payload_def Let_def s sz)
      fix ps :: "(int \<times> bytes) list"
      assume ps: "ps ! i = (int (size_of st i), ?b)"
      have sg: "seg opn st ps i = (if ?b = [] then [] else padded ?b)"
        by (cases "n_target ?a") (simp_all add: seg_def ps sz content_def s bytes_of_def)
      have "write_data opn None st ps i out = Inr (out @ seg opn st ps i)" for out
        unfolding sg using pad[of ?b out] by (simp add: write_data_def Let_def ps sz s emit_def padded_def)
      then show "(\<forall>out. write_data opn None st ps i out = Inr (out @ seg opn st ps i)) \<and>
          int (length (seg opn st ps i)) = 4096 * ceil_blocks (int (size_of st i)) \<and>
          size_of st i \<le> length (seg opn st ps i) \<and> holds_data opn st i (take (size_of st i) (seg opn st ps i))"
        unfolding sg sz using length_padded[of ?b] lp[of ?b] tp[of ?b] by (simp add: holds_data_def s c0)
    qed
  next
    case o
    have sz: "size_of st i = 0" by (simp add: size_of_def o)
    show ?thesis
    proof (rule that[of "[]"])
      show "(payload st i :: 'e erofs_error + _) = Inr (int (size_of st i), [])" by (simp add: payload_def o sz)
    qed (use o in \<open>simp add: seg_def write_data_def holds_data_def sz c0\<close>)
  qed
qed


section \<open>The whole image\<close>

lemma write_all:
  assumes "\<forall>i \<in> set is. \<forall>out. write_data opn None st ps i out = Inr (out @ g i)"
  shows "foldR (write_data opn None st ps) is out = Inr (out @ concat (map g is))"
  using assms by (induction "is" arbitrary: out) auto

lemma sum_list_take_le: "(\<forall>x \<in> set xs. 0 \<le> (x :: int)) \<Longrightarrow> sum_list (take i xs) \<le> sum_list xs"
proof -
  assume a: "\<forall>x \<in> set xs. 0 \<le> x"
  have "0 \<le> sum_list (drop i xs)" by (rule sum_list_nonneg) (use a in \<open>auto dest: in_set_dropD\<close>)
  moreover have "sum_list xs = sum_list (take i xs) + sum_list (drop i xs)"
    by (metis append_take_drop_id sum_list_append)
  ultimately show ?thesis by simp
qed

text \<open>Slot, block address and data of every inode in the finished image.\<close>

definition image_ok :: "(string \<Rightarrow> 'e + (bytes \<times> 'e option)) \<Rightarrow> inode list \<Rightarrow> bytes \<Rightarrow> bool" where
  "image_ok opn st img \<longleftrightarrow> ero_mount img = Some 0 \<and>
     (\<forall>i < length st. let a = attrs (i_node (st ! i)) in
        ero_mode img i = inode_mode a \<and> ero_size img i = size_of st i \<and>
        rd 2 (ero_slot img i + 24) img = nat (n_uid a mod 65536) \<and> rd 2 (ero_slot img i + 26) img = nat (n_gid a mod 65536) \<and>
        (n_type a = TypeChar \<or> n_type a = TypeBlock \<longrightarrow> ero_addr img i = unat (encode_rdev a)) \<and>
        holds_data opn st i (ero_data img i))"

lemma unat_of_int16: "unat (word_of_int x :: u16) = nat (x mod 65536)"
  by (simp add: unat_eq_nat_uint uint_word_of_int take_bit_eq_mod)

lemma write_erofs_image:
  fixes opn :: "string \<Rightarrow> 'e + (bytes \<times> 'e option)"
  assumes st: "st = inode_table root" and nh: "\<forall>i < length st. type_at st i \<noteq> TypeHardlink"
    and df: "dirents_fine st" and fo: "files_open opn st" and fits: "erofs_fits root"
  shows "\<exists>img. WriteErofs opn None root buildTime = Inr img \<and> image_ok opn st img"
proof -
  let ?n = "length st"
  define own where "own i = (SOME own. (payload st i :: 'e erofs_error + _) = Inr (int (size_of st i), own) \<and>
      (\<forall>ps. ps ! i = (int (size_of st i), own) \<longrightarrow>
      (\<forall>out. write_data opn None st ps i out = Inr (out @ seg opn st ps i)) \<and>
      int (length (seg opn st ps i)) = 4096 * ceil_blocks (int (size_of st i)) \<and>
      size_of st i \<le> length (seg opn st ps i) \<and>
      holds_data opn st i (take (size_of st i) (seg opn st ps i))))" for i
  have piece: "(payload st i :: 'e erofs_error + _) = Inr (int (size_of st i), own i) \<and>
      (\<forall>ps. ps ! i = (int (size_of st i), own i) \<longrightarrow>
      (\<forall>out. write_data opn None st ps i out = Inr (out @ seg opn st ps i)) \<and>
      int (length (seg opn st ps i)) = 4096 * ceil_blocks (int (size_of st i)) \<and>
      size_of st i \<le> length (seg opn st ps i) \<and>
      holds_data opn st i (take (size_of st i) (seg opn st ps i)))" if "i < ?n" for i
    unfolding own_def by (rule someI_ex) (rule payload_piece[OF that df fo nh[rule_format, OF that]], blast)
  define ps where "ps = map (\<lambda>i. (int (size_of st i), own i)) [0..<?n]"
  have psi: "ps ! i = (int (size_of st i), own i)" if "i < ?n" for i using that by (simp add: ps_def)
  have pay: "(payloads st :: 'e erofs_error + _) = Inr ps"
    unfolding payloads_def ps_def using foldR_collect[where xs = "[0..<?n]" and f = "payload st" and acc = "[]"] piece by fastforce
  define sizes where "sizes = map fst ps"
  have sz: "sizes = map (\<lambda>i. int (size_of st i)) [0..<?n]" by (simp add: sizes_def ps_def comp_def)
  have f1: "1 + ceil_blocks (int ?n * 32) + sum_list (map ceil_blocks sizes) < 2 ^ 32" "\<forall>i < ?n. size_of st i < 2 ^ 32"
    using fits unfolding erofs_fits_def st[symmetric] Let_def by (auto simp: list_all_iff sz comp_def)
  have cn: "0 \<le> ceil_blocks (int ?n * 32)" "0 \<le> sum_list (map ceil_blocks sizes)"
    by (auto intro!: sum_list_nonneg ceil_blocks_nonneg simp: sz)
  define mb where "mb = nat (ceil_blocks (int ?n * 32))"
  have mb: "int mb = ceil_blocks (int ?n * 32)" using cn by (simp add: mb_def)
  have meta: "unat (1 + metaBlocks st) = 1 + mb"
  proof -
    have c: "1 + ceil_blocks (int ?n * 32) < 2 ^ 32" using f1(1) cn by linarith
    then have "uint (metaBlocks st) = ceil_blocks (int ?n * 32)"
      using cn by (simp add: metaBlocks_def uint_word_of_int take_bit_eq_mod)
    then have "uint (1 + metaBlocks st) = 1 + ceil_blocks (int ?n * 32)" using c cn by (simp add: uint_word_ariths)
    then show ?thesis using cn by (simp add: unat_eq_nat_uint mb_def nat_add_distrib)
  qed
  obtain addrs nb where pb: "place_blocks (1 + metaBlocks st) sizes = (addrs, nb)" by (cases "place_blocks (1 + metaBlocks st) sizes")
  have addr: "int (unat (addrs ! i)) = 1 + int mb + sum_list (map ceil_blocks (take i sizes))" if "i < ?n" "0 < size_of st i" for i
    using place_blocks_spec[of i sizes "1 + metaBlocks st"] that f1(1) cn unfolding pb meta mb[symmetric] by (simp add: sz mb)
  have room: "32 * ?n \<le> 4096 * mb"
  proof -
    have "int (32 * ?n) \<le> 4096 * int mb" unfolding mb by (simp add: ceil_blocks_def)
    then show ?thesis by linarith
  qed
  let ?R = "zeros (4096 * mb - 32 * ?n)"
  define head where "head = sb_block st nb buildTime @ concat (map (inode_bytes st sizes addrs) [0..<?n]) @ ?R"
  have head0: "superblock st nb buildTime (zeros (unat (1 + metaBlocks st) * 4096)) =
      sb_block st nb buildTime @ zeros (32 * ?n) @ ?R"
  proof -
    have "unat (1 + metaBlocks st) * 4096 = 4096 + (32 * ?n + (4096 * mb - 32 * ?n))" unfolding meta using room by simp
    then have "zeros (unat (1 + metaBlocks st) * 4096) = zeros 4096 @ zeros (32 * ?n) @ ?R" by (simp only: zeros_add)
    then show ?thesis by (simp only: superblock_frame)
  qed
  have headw: "(foldR (write_inode st sizes addrs) [0..<?n] (sb_block st nb buildTime @ zeros (32 * ?n) @ ?R) :: 'e erofs_error + _) = Inr head"
  proof -
    have "sizes ! j \<le> 0xffffffff" if "j < ?n" for j using f1(2)[rule_format, OF that] that by (simp add: sz)
    then show ?thesis using write_inodes[of "sb_block st nb buildTime" 0 ?n sizes st addrs ?R] by (simp add: head_def)
  qed
  let ?g = "seg opn st ps"
  define img where "img = head @ concat (map ?g [0..<?n])"
  have "foldR (write_data opn None st ps) [0..<?n] head = Inr img"
    unfolding img_def by (rule write_all) (use piece psi in auto)
  then have run: "WriteErofs opn None root buildTime = Inr img"
    unfolding WriteErofs_def st[symmetric] Let_def pay bindR_simps sizes_def[symmetric] pb split_conv head0 headw
    by (simp add: emit_def)
  have lsb: "length (sb_block st nb buildTime) = 4096" by simp
  have lt: "length (concat (map (inode_bytes st sizes addrs) is)) = 32 * length is" for "is"
    by (induction "is") auto
  have lhead: "int (length head) = 4096 * (1 + int mb)" unfolding head_def using room by (simp add: lt)
  have sbf: "rd n off img = rd n off (sb_block st nb buildTime)" if "off + n \<le> 4096" for n off
    unfolding img_def head_def append_assoc by (rule rd_append) (use that in simp)
  have slot: "ero_slot img i = 4096 + i * 32" for i
    unfolding ero_slot_def by (subst sbf) (simp_all add: sb_fields)
  have field: "rd n (ero_slot img i + off) img = rd n off (inode_bytes st sizes addrs i)" if "i < ?n" "off + n \<le> 32" for n off i
  proof -
    have "[0..<?n] = [0..<i] @ i # [Suc i..<?n]" using that(1) by (metis less_imp_le_nat upt_add_eq_append upt_rec zero_le le_add_diff_inverse)
    then have e: "img = (sb_block st nb buildTime @ concat (map (inode_bytes st sizes addrs) [0..<i])) @
        inode_bytes st sizes addrs i @ (concat (map (inode_bytes st sizes addrs) [Suc i..<?n]) @ ?R @ concat (map ?g [0..<?n]))"
      by (simp add: img_def head_def)
    have l: "length (sb_block st nb buildTime @ concat (map (inode_bytes st sizes addrs) [0..<i])) = 4096 + i * 32"
      by (simp add: lt)
    show ?thesis unfolding slot by (subst e, subst l[symmetric], subst rd_drop, rule rd_append) (use that in simp)
  qed
  have "ero_mount img = Some 0" unfolding ero_mount_def by (simp add: sbf sb_fields)
  moreover have "let a = attrs (i_node (st ! i)) in
        ero_mode img i = inode_mode a \<and> ero_size img i = size_of st i \<and>
        rd 2 (ero_slot img i + 24) img = nat (n_uid a mod 65536) \<and> rd 2 (ero_slot img i + 26) img = nat (n_gid a mod 65536) \<and>
        (n_type a = TypeChar \<or> n_type a = TypeBlock \<longrightarrow> ero_addr img i = unat (encode_rdev a)) \<and>
        holds_data opn st i (ero_data img i)" if i: "i < ?n" for i
  proof -
    let ?a = "attrs (i_node (st ! i))"
    have fl: "ero_mode img i = inode_mode ?a" "rd 2 (ero_slot img i + 24) img = nat (n_uid ?a mod 65536)"
      "rd 2 (ero_slot img i + 26) img = nat (n_gid ?a mod 65536)"
      "ero_addr img i = unat (if n_type ?a = TypeChar \<or> n_type ?a = TypeBlock then encode_rdev ?a else addrs ! i)"
      by (simp_all add: ero_mode_def ero_addr_def field[OF i] inode_fields unat_of_int16)
    have "unat (word_of_int (sizes ! i) :: u32) = size_of st i"
      using f1(2)[rule_format, OF i] i by (simp add: sz unat_of_nat take_bit_eq_mod)
    then have es: "ero_size img i = size_of st i" by (simp add: ero_size_def field[OF i] inode_fields)
    note pc = piece[OF i, THEN conjunct2, rule_format, OF psi[OF i]]
    have "holds_data opn st i (ero_data img i)"
    proof (cases "size_of st i = 0")
      case True
      then show ?thesis using pc by (simp add: ero_data_def es)
    next
      case False
      have dev: "\<not> (n_type ?a = TypeChar \<or> n_type ?a = TypeBlock)" using False by (auto simp: size_of_def Let_def)
      have "int (length (concat (map ?g [0..<j]))) = 4096 * sum_list (map ceil_blocks (take j sizes))" if "j \<le> ?n" for j
        using that
      proof (induction j)
        case (Suc j)
        have "int (length (?g j)) = 4096 * ceil_blocks (int (size_of st j))"
          using piece[of j] psi[of j] Suc.prems by auto
        then show ?case using Suc by (simp add: take_Suc_conv_app_nth sz)
      qed simp
      from this[of i] have "int (4096 * ero_addr img i) = int (length (head @ concat (map ?g [0..<i])))"
        using i lhead addr[OF i] False by (simp add: fl(4) dev)
      then have "4096 * ero_addr img i = length (head @ concat (map ?g [0..<i]))" by linarith
      moreover have "img = (head @ concat (map ?g [0..<i])) @ ?g i @ concat (map ?g [Suc i..<?n])"
      proof -
        have "[0..<?n] = [0..<i] @ i # [Suc i..<?n]" using i by (metis less_imp_le_nat upt_add_eq_append upt_rec zero_le le_add_diff_inverse)
        then show ?thesis by (simp add: img_def)
      qed
      ultimately have "drop (4096 * ero_addr img i) img = ?g i @ concat (map ?g [Suc i..<?n])" by (metis append_eq_conv_conj)
      then have "ero_data img i = take (size_of st i) (?g i)" using pc by (simp add: ero_data_def es)
      then show ?thesis using pc by simp
    qed
    then show ?thesis using fl es by (simp add: Let_def)
  qed
  ultimately show ?thesis using run by (auto simp: image_ok_def)
qed


section \<open>Directory entries of the table\<close>

lemma mirror_parents:
  "x \<in> set (mirror pre n par i) \<Longrightarrow> i_parent x = par \<or> (\<exists>p. i_parent x = Some p \<and> p < i + length (mirror pre n par i))"
  "x \<in> set (snd (mirror_kids pre p' ks j)) \<Longrightarrow>
     i_parent x = Some p' \<or> (\<exists>p. i_parent x = Some p \<and> p < j + length (snd (mirror_kids pre p' ks j)))"
proof (induction pre n par i and pre p' ks j arbitrary: x and x rule: mirror_mirror_kids.induct)
  case (1 pre n par i)
  have m: "mirror pre n par i = mirror pre n par i ! 0 #
      (if is_dir n then snd (mirror_kids pre i (sorted_children n) (Suc i)) else [])" by (rule mirror_tail)
  show ?case
  proof (cases "x = mirror pre n par i ! 0")
    case True
    then show ?thesis by (simp add: mirror_head)
  next
    case False
    have "x \<in> set (mirror pre n par i ! 0 #
        (if is_dir n then snd (mirror_kids pre i (sorted_children n) (Suc i)) else []))"
      using 1(2) by (subst (asm) m)
    then have d: "is_dir n" "x \<in> set (snd (mirror_kids pre i (sorted_children n) (Suc i)))"
      using False by (simp_all split: if_splits)
    have "length (mirror pre n par i) = Suc (length (snd (mirror_kids pre i (sorted_children n) (Suc i))))"
      by (subst m) (simp add: d(1))
    then show ?thesis using 1(1)[OF d] by auto
  qed
next
  case (3 pre par name c ks j)
  show ?case
  proof (cases "ntype_of c = TypeHardlink")
    case True
    then show ?thesis using 3(1)[OF True, of x] 3(4) by simp
  next
    case False
    let ?m = "mirror (path_join [pre, name]) c (Some par) j"
    obtain cs ms where mk: "mirror_kids pre par ks (j + length ?m) = (cs, ms)" by fastforce
    have k: "snd (mirror_kids pre par ((name, c) # ks) j) = ?m @ ms" using False mk by (simp add: Let_def)
    have "x \<in> set ?m \<or> x \<in> set (snd (mirror_kids pre par ks (j + length ?m)))" using 3(4) k mk by simp
    then show ?thesis
    proof
      assume "x \<in> set ?m"
      then show ?thesis using 3(2)[OF False] k by fastforce
    next
      assume "x \<in> set (snd (mirror_kids pre par ks (j + length ?m)))"
      then show ?thesis using 3(3)[OF False refl] k mk by fastforce
    qed
  qed
qed simp

lemma parent_less:
  assumes "wf_node root" "is_dir root" "i < length (inode_table root)"
  shows "parentNid (inode_table root) i < length (inode_table root)"
proof -
  have fr: "same_frame (mirrored root) (inode_table root)" by (rule inode_table_links(1)[OF assms(1,2)])
  have i: "i < length (mirrored root)" "i_parent (inode_table root ! i) = i_parent (mirrored root ! i)"
    "length (inode_table root) = length (mirrored root)"
    using fr assms(3) by (simp_all add: same_frame_def)
  have "i_parent (mirrored root ! i) = None \<or> (\<exists>p. i_parent (mirrored root ! i) = Some p \<and> p < length (mirrored root))"
    using mirror_parents(1)[OF nth_mem[OF i(1)]] by simp
  then show ?thesis using i assms(3) by (auto simp: parentNid_def)
qed

lemma set_dirents: "set (dirents_of st i) = {(''.'', i, 2), (''..'', parentNid st i, 2)} \<union>
    (\<lambda>name. (name, the (entry_now st i name), ftByType (type_at st (the (entry_now st i name))))) ` fst ` set (i_children (st ! i))"
  unfolding dirents_of_def set_sort by (simp add: Let_def image_image)

lemma dirent_names:
  assumes "distinct (map fst (i_children (st ! i)))" "\<forall>name \<in> fst ` set (i_children (st ! i)). name_ok name"
  shows "sorted_wrt (<) (map fst (dirents_of st i))"
proof -
  let ?es = "[(''.'', i, 2 :: nat), (''..'', parentNid st i, 2)] @
      map (\<lambda>name. let c = the (entry_now st i name) in (name, c, ftByType (type_at st c))) (sort (map fst (i_children (st ! i))))"
  have "map fst ?es = ''.'' # ''..'' # sort (map fst (i_children (st ! i)))" by (simp add: comp_def Let_def)
  moreover have "''.'' \<notin> fst ` set (i_children (st ! i))" "''..'' \<notin> fst ` set (i_children (st ! i))"
    using assms(2) by (auto simp: name_ok_def)
  ultimately have "distinct (map fst ?es)" using assms(1) by simp
  moreover have "mset (map fst (sort_key fst ?es)) = mset (map fst ?es)" by (simp only: mset_map mset_sort)
  ultimately have "distinct (map fst (sort_key fst ?es))" using mset_eq_imp_distinct_iff by blast
  moreover have "sorted (map fst (sort_key fst ?es))" by (rule sorted_sort_key)
  ultimately show ?thesis by (simp add: strict_sorted_iff dirents_of_def)
qed

lemma dirents_lookup:
  assumes "distinct (map fst (i_children (st ! i)))" "\<forall>name \<in> fst ` set (i_children (st ! i)). name_ok name"
    and "p \<noteq> ''.''" "p \<noteq> ''..''"
  shows "map_of (dirents_of st i) p = map_option (\<lambda>c. (c, ftByType (type_at st c))) (entry_now st i p)"
proof -
  have d: "distinct (map fst (dirents_of st i))" using dirent_names[OF assms(1,2)] by (simp add: strict_sorted_iff)
  have "(p, c, f) \<in> set (dirents_of st i) \<longleftrightarrow> entry_now st i p = Some c \<and> f = ftByType (type_at st c)" for c f
  proof -
    have "p \<in> fst ` set (i_children (st ! i)) \<longleftrightarrow> entry_now st i p \<noteq> None" by (simp add: map_of_eq_None_iff)
    then show ?thesis using assms(3,4) unfolding set_dirents by auto
  qed
  then have "map_of (dirents_of st i) p = Some (c, f) \<longleftrightarrow> entry_now st i p = Some c \<and> f = ftByType (type_at st c)" for c f
    using map_of_eq_Some_iff[OF d] by simp
  then show ?thesis by (cases "map_of (dirents_of st i) p"; cases "entry_now st i p") auto
qed

lemma table_names:
  assumes "wf_node root" "is_dir root" "i < length (inode_table root)" "is_dir (i_node (inode_table root ! i))"
  shows "distinct (map fst (i_children (inode_table root ! i)))"
    and "name \<in> fst ` set (i_children (inode_table root ! i)) \<Longrightarrow>
      name_ok name \<and> name \<in> set (map fst (children (i_node (inode_table root ! i))))"
proof -
  have fr: "same_frame (mirrored root) (inode_table root)" by (rule inode_table_links(1)[OF assms(1,2)])
  then show "distinct (map fst (i_children (inode_table root ! i)))"
    using inode_table_links(3)[OF assms(1,2)] assms(3) by (simp add: same_frame_def)
  assume "name \<in> fst ` set (i_children (inode_table root ! i))"
  then obtain c where c: "child (i_node (inode_table root ! i)) name = Some c" using table_children[OF assms] by blast
  obtain q where "lookup root q = Some (i_node (inode_table root ! i))" by (rule table_node[OF assms(1-3)])
  then show "name_ok name \<and> name \<in> set (map fst (children (i_node (inode_table root ! i))))"
    using wf_child[OF wf_lookup[OF assms(1)] c] child_in_children[OF c] by force
qed

lemma table_fine:
  assumes "wf_node root" "is_dir root" "tree_ok opn root" "erofs_fits root"
  shows "\<forall>i < length (inode_table root). type_at (inode_table root) i \<noteq> TypeHardlink"
    and "dirents_fine (inode_table root)" and "files_open opn (inode_table root)"
proof -
  let ?st = "inode_table root"
  have nok: "node_ok opn (i_node (?st ! i))" "ntype_of (i_node (?st ! i)) \<noteq> TypeHardlink" if "i < length ?st" for i
    using table_node[OF assms(1,2) that] tree_ok_lookup[OF assms(3)] by metis+
  then show "\<forall>i < length ?st. type_at ?st i \<noteq> TypeHardlink" by blast
  show "files_open opn ?st"
    unfolding files_open_def
  proof (intro allI impI)
    fix i
    assume i: "i < length ?st" "type_at ?st i = TypeFile"
    show "\<exists>b. opn (n_ref (attrs (i_node (?st ! i)))) = Inr (b, None) \<and> n_size (attrs (i_node (?st ! i))) = int (length b)"
      using nok(1)[OF i(1)] i(2) by (cases "opn (n_ref (attrs (i_node (?st ! i))))") (auto simp: node_ok_def)
  qed
  have n: "length ?st < 2 ^ 64"
  proof -
    have "0 \<le> sum_list (map (\<lambda>i. ceil_blocks (int (size_of ?st i))) [0..<length ?st])"
      by (auto intro!: sum_list_nonneg ceil_blocks_nonneg)
    then have "ceil_blocks (int (length ?st) * 32) < 2 ^ 32" using assms(4) by (simp add: erofs_fits_def Let_def)
    then show ?thesis by (simp add: ceil_blocks_def)
  qed
  have ft: "ftByType t < 256" for t by (cases t) auto
  show "dirents_fine ?st"
    unfolding dirents_fine_def
  proof (intro allI impI ballI)
    fix i e
    assume i: "i < length ?st" "type_at ?st i = TypeDir" and e: "e \<in> set (dirents_of ?st i)"
    have fine: "fits_block (name, c, ftByType t) \<and> dirent_ok (name, c, ftByType t)"
      if "name \<in> fst ` set (i_children (?st ! i))" "entry_now ?st i name = Some c" for name c t
    proof -
      have "name_ok name" "name \<in> set (map fst (children (i_node (?st ! i))))"
        using table_names(2)[OF assms(1,2) i that(1)] by auto
      moreover have "c < length ?st" using table_entry[OF assms(1,2) i, of name] that(2) by simp
      ultimately show ?thesis
        using nok(1)[OF i(1)] n ft[of t] by (auto simp: node_ok_def fits_block_def dirent_ok_def name_ok_def)
    qed
    have "e \<in> {(''.'', i, 2), (''..'', parentNid ?st i, 2)} \<or> (\<exists>name c. name \<in> fst ` set (i_children (?st ! i)) \<and>
        entry_now ?st i name = Some c \<and> e = (name, c, ftByType (type_at ?st c)))"
    proof -
      have "entry_now ?st i name \<noteq> None" if "name \<in> fst ` set (i_children (?st ! i))" for name
        using that by (simp add: map_of_eq_None_iff)
      then show ?thesis using e unfolding set_dirents by force
    qed
    then show "fits_block e \<and> dirent_ok e"
    proof
      assume "e \<in> {(''.'', i, 2), (''..'', parentNid ?st i, 2)}"
      then show ?thesis using i(1) parent_less[OF assms(1,2) i(1)] n by (auto simp: fits_block_def dirent_ok_def)
    qed (use fine in blast)
  qed
qed

lemma fmt_of_mode:
  assumes "n_type a \<noteq> TypeHardlink"
  shows "inode_mode a AND 0xf000 = ifmt (n_type a)"
proof -
  have "(word_of_int (n_mode a AND 0xfff) :: u16) = word_of_int (n_mode a) AND 0xfff"
    by (simp add: of_int_and_eq)
  then have "(word_of_int (n_mode a AND 0xfff) OR c) AND 0xf000 = c AND (0xf000 :: u16)" for c
    by (simp add: bit.conj_disj_distrib2 and.assoc)
  then show ?thesis using assms by (cases "n_type a") (auto simp: inode_mode_def ifmt_def)
qed


section \<open>What the reader finds\<close>

lemma image_lookup:
  assumes "wf_node root" "is_dir root" "st = inode_table root" "image_ok opn st img"
    and nh: "\<forall>i < length st. type_at st i \<noteq> TypeHardlink"
  shows "i < length st \<Longrightarrow> ''.'' \<notin> set ps \<Longrightarrow> ''..'' \<notin> set ps \<Longrightarrow>
    (case ero_lookup img i ps of None \<Rightarrow> view root (i_node (st ! i)) ps = None
     | Some k \<Rightarrow> k < length st \<and> view root (i_node (st ! i)) ps = Some (i_node (st ! k)))"
proof (induction ps arbitrary: i)
  case (Cons p ps)
  have fmt: "ero_fmt img i = ifmt (type_at st i)"
    using assms(4) Cons.prems(1) nh fmt_of_mode[of "attrs (i_node (st ! i))"] by (simp add: image_ok_def Let_def)
  have fd: "ifmt t = 0x4000 \<longleftrightarrow> t = TypeDir" for t by (cases t) (simp_all add: ifmt_def)
  show ?case
  proof (cases "type_at st i = TypeDir")
    case False
    then show ?thesis using fmt fd by simp
  next
    case True
    have i: "i < length (inode_table root)" "is_dir (i_node (inode_table root ! i))" using True Cons.prems(1) assms(3) by auto
    have "rd_dir (ero_data img i) = dirents_of st i"
      using assms(4) Cons.prems(1) True by (simp add: image_ok_def Let_def holds_data_def)
    moreover have "map_of (dirents_of st i) p = map_option (\<lambda>c. (c, ftByType (type_at st c))) (entry_now st i p)"
      by (rule dirents_lookup) (use table_names[OF assms(1,2) i] Cons.prems assms(3) in auto)
    ultimately have step: "ero_lookup img i (p # ps) = (case entry_now st i p of None \<Rightarrow> None | Some c \<Rightarrow> ero_lookup img c ps)"
      using fmt fd True by (simp split: option.split)
    note te = table_entry[OF assms(1,2) i, of p, folded assms(3)]
    show ?thesis
    proof (cases "entry_now st i p")
      case None
      then show ?thesis using te step True by simp
    next
      case (Some c)
      then have v: "view root (i_node (st ! i)) (p # ps) = view root (i_node (st ! c)) ps" "c < length st"
        using te True by simp_all
      have s: "ero_lookup img i (p # ps) = ero_lookup img c ps" unfolding step Some by simp
      show ?thesis unfolding s v(1) by (rule Cons.IH[OF v(2)]) (use Cons.prems in simp_all)
    qed
  qed
qed simp

lemma image_stat:
  assumes "image_ok opn st img" "i < length st" "type_at st i \<noteq> TypeHardlink"
  shows "ero_stat img i = node_stat opn (i_node (st ! i))"
proof -
  let ?a = "attrs (i_node (st ! i))"
  have fmt: "ero_fmt img i = ifmt (n_type ?a)"
    using assms fmt_of_mode[of ?a] by (simp add: image_ok_def Let_def)
  show ?thesis
    using assms(1,2) unfolding ero_stat_def node_stat_def fmt
    by (cases "n_type ?a") (use assms(3) in \<open>simp_all add: image_ok_def Let_def holds_data_def ifmt_def\<close>)
qed



definition demo_open :: "string \<Rightarrow> unit + (bytes \<times> unit option)" where
  "demo_open ref = (if ref = ''r'' then Inr ([104, 105], None) else Inl ())"

definition demo_root :: node where
  "demo_root = Node (blank_attrs\<lparr>n_mode := 493\<rparr>)
    [(''f'', Node (blank_attrs\<lparr>n_type := TypeFile, n_mode := 420, n_uid := 1000, n_size := 2, n_ref := ''r''\<rparr>) []),
     (''d'', Node (blank_attrs\<lparr>n_mode := 493\<rparr>)
       [(''h'', Node (blank_attrs\<lparr>n_type := TypeHardlink, n_target := ''f''\<rparr>) [])])]"

lemma demo_root_fits: "erofs_fits demo_root"
proof -
  have "length (inode_table demo_root) = 3" "size_of (inode_table demo_root) 0 = 53"
    "size_of (inode_table demo_root) 1 = 40" "size_of (inode_table demo_root) 2 = 2"
    by code_simp+
  then show ?thesis by (simp add: erofs_fits_def Let_def upt_rec ceil_blocks_def numeral_eq_Suc[of "num.Bit0 num.One"])
qed

lemma demo_root_ok: "wf_node demo_root" "is_dir demo_root" "tree_ok demo_open demo_root"
  by code_simp+


section \<open>What the format and the traversal lose\<close>

text \<open>The loop over hard link chains never takes a second step: the table has no hard links to follow.\<close>

lemma hop_never_chains:
  assumes "wf_node root" "is_dir root"
  shows "hop (Suc k) (mirrored root) t = hop 1 (mirrored root) t"
proof (cases "by_path (mirrored root) t")
  case (Some j)
  then have j: "j < length (mirrored root)" by (rule by_path_less)
  have "ntype_of (i_node (mirrored root ! j)) \<noteq> TypeHardlink"
    using inode_from[OF assms(1) j] assms(2) by (metis lookup.simps(1) ntype.distinct(5) option.inject)
  then show ?thesis using Some by (simp add: Let_def)
qed simp

text \<open>So a hard link to a hard link is dropped, though its final target is there.\<close>

definition chain_root :: node where
  "chain_root = Node (blank_attrs\<lparr>n_mode := 493\<rparr>)
    [(''f'', Node (blank_attrs\<lparr>n_type := TypeFile, n_mode := 420, n_size := 2, n_ref := ''r''\<rparr>) []),
     (''g'', Node (blank_attrs\<lparr>n_type := TypeHardlink, n_target := ''f''\<rparr>) []),
     (''h'', Node (blank_attrs\<lparr>n_type := TypeHardlink, n_target := ''g''\<rparr>) [])]"

lemma hardlink_chain_dropped:
  "entry_now (inode_table chain_root) 0 ''g'' = Some 1 \<and> entry_now (inode_table chain_root) 0 ''h'' = None"
  by code_simp

text \<open>The compact inode keeps 16 bits of an owner: 65536 becomes root.\<close>

lemma owner_truncated:
  "node_stat demo_open (Node (blank_attrs\<lparr>n_type := TypeFifo, n_mode := 420, n_uid := 65536\<rparr>) []) =
   node_stat demo_open (Node (blank_attrs\<lparr>n_type := TypeFifo, n_mode := 420, n_uid := 0\<rparr>) [])"
  by code_simp

end
