(* ===== verification/Pe_Image.thy ===== *)
theory Pe_Image
  imports Prelude
begin

text \<open>
  The check of the EFI images of an experimental live boot
  (\<^verbatim>\<open>internal/liveboot/inputs.go\<close>, \<^verbatim>\<open>ARM64PE\<close>), with what it uses of Go's
  \<^verbatim>\<open>debug/pe\<close>: the header, the optional header and the section table of a file that
  has neither COFF symbols nor relocations, which the code refuses before it calls
  \<^verbatim>\<open>pe.NewFile\<close>. A slice expression or a read of \<^verbatim>\<open>encoding/binary\<close> outside the
  buffer panics in Go; it is the error \<open>Panic\<close> here, so that its absence is a theorem.
  Lengths and offsets that the code holds in 64 bits are sums of at most three values
  below \<open>2 ^ 32\<close> and are natural numbers here; the 32-bit sum of an offset and a virtual
  size keeps its width.
\<close>

section \<open>Errors and reads\<close>

datatype pe_error =
    PeSize | PeDos | PeHeaderOffset | PeSignature | PeSectionCount | PeSymbols | PeTruncated
  | PeRelocations | PeNewFile | PeMachine | PeNotPlus | PeSectionOutside | PeOverlap

datatype kernel_error =
    KernelSize | KernelRelease | KernelDigest | InternalSection string | DuplicateSection string
  | IncompleteSection string | KernelDiffers | LoaderRelease

datatype board_error =
    StringOutside | StringUnterminated
  | HwidSection | HwidDuplicate | HwidLimit | HwidRecord | HwidUnterminated | NoBoardMapping

datatype dtb_error =
    DtbHeader | DtbSpans | DtbTokens | DtbRootName | DtbUnbalanced | DtbProperty
  | DtbPropertyOutside | DtbCompatible | DtbCompatibleSize | DtbCompatibleCount
  | DtbCompatibleEmpty | DtbEnd | DtbToken | DtbMissingEnd

datatype input_error =
    BadMode | BadKernelIdentity | BadInputPath | InputTraversal | BadInputSize
  | ReceiptSize | NotRegular | InputChanged | InputDigest | OsError string

datatype scope_error =
    BadScope | BadImage | BadEnvironment | BadArgument | GateDisabled
  | FirmwareOverride | Blacklist | GateMissing | ArgumentCount

datatype lb_error =
    Panic
  | PeErr pe_error
  | KernelErr kernel_error
  | BoardErr board_error
  | DtbErr dtb_error
  | InputErr input_error
  | ScopeErr scope_error
  | NamedErr string lb_error

definition need :: "bool \<Rightarrow> 'e \<Rightarrow> 'e + unit" where
  "need c e = (if c then Inr () else Inl e)"

lemma need_iff [simp]: "need c e = Inr u \<longleftrightarrow> c" "need c e = Inl e' \<longleftrightarrow> \<not> c \<and> e' = e"
  by (auto simp: need_def)

definition rd :: "bytes \<Rightarrow> nat \<Rightarrow> nat \<Rightarrow> 'e \<Rightarrow> 'e + bytes" where
  "rd data off n e = (if off + n \<le> length data then Inr (take n (drop off data)) else Inl e)"

text \<open>\<^verbatim>\<open>data[a:b]\<close>.\<close>

definition slice :: "bytes \<Rightarrow> nat \<Rightarrow> nat \<Rightarrow> lb_error + bytes" where
  "slice data a b = (if a \<le> b \<and> b \<le> length data then Inr (take (b - a) (drop a data)) else Inl Panic)"

definition u16le :: "bytes \<Rightarrow> nat \<Rightarrow> lb_error + u16" where
  "u16le data off = bindR (rd data off 2 Panic) (\<lambda>b. Inr (word_of_nat (le_val b)))"

definition u32le :: "bytes \<Rightarrow> nat \<Rightarrow> lb_error + u32" where
  "u32le data off = bindR (rd data off 4 Panic) (\<lambda>b. Inr (word_of_nat (le_val b)))"

definition u32be :: "bytes \<Rightarrow> nat \<Rightarrow> lb_error + u32" where
  "u32be data off = bindR (rd data off 4 Panic) (\<lambda>b. Inr (word_of_nat (le_val (rev b))))"

lemma rd_Inr: "off + n \<le> length data \<Longrightarrow> rd data off n e = Inr (take n (drop off data))"
  by (simp add: rd_def)

lemma rd_iff: "rd data off n e = Inr b \<longleftrightarrow> off + n \<le> length data \<and> b = take n (drop off data)"
  by (auto simp: rd_def)

lemma rd_Inl_iff: "rd data off n e = Inl e' \<longleftrightarrow> length data < off + n \<and> e' = e"
  by (auto simp: rd_def)

lemma slice_iff: "slice data a b = Inr s \<longleftrightarrow> a \<le> b \<and> b \<le> length data \<and> s = take (b - a) (drop a data)"
  by (auto simp: slice_def)

lemma read_in_bounds:
  "off + 2 \<le> length data \<Longrightarrow> \<exists>v. u16le data off = Inr v"
  "off + 4 \<le> length data \<Longrightarrow> \<exists>v. u32le data off = Inr v"
  "off + 4 \<le> length data \<Longrightarrow> \<exists>v. u32be data off = Inr v"
  by (simp_all add: u16le_def u32le_def u32be_def rd_def)

lemma read_at:
  "u16le (a @ le16 v @ b) (length a) = Inr v"
  "u32le (a @ le32 w @ b) (length a) = Inr w"
  "u32be (a @ be32 w @ b) (length a) = Inr w"
  by (simp_all add: u16le_def u32le_def u32be_def rd_def)

section \<open>\<^verbatim>\<open>debug/pe\<close>\<close>

record pe_section =
  ps_name :: string
  ps_vsize :: u32
  ps_size :: u32
  ps_offset :: u32

datatype opt_header = NoHeader | Header32 | Header64

record pe_file =
  pf_machine :: u16
  pf_optional :: opt_header
  pf_sections :: "pe_section list"

definition pe_machines :: "u16 list" where
  "pe_machines = [0, 0x14c, 0x1c4, 0x8664, 0xaa64, 0x5032, 0x5064, 0x5128, 0x6232, 0x6264]"

definition until_nul :: "bytes \<Rightarrow> string" where
  "until_nul b = string_of_bytes (takeWhile (\<lambda>x. x \<noteq> 0) b)"

text \<open>
  A name that starts with a slash is an offset into the string table, which is empty
  here: only the offset 4, its end, is inside it.
\<close>

definition full_name :: "bytes \<Rightarrow> lb_error + string" where
  "full_name nm =
     (if take 1 nm \<noteq> bytes_of ''/'' then Inr (until_nul nm)
      else let s = until_nul (tl nm); ds = trim_prefix s ''+'' in
        if ds \<noteq> [] \<and> list_all is_digit ds \<and> dec_val ds = 4 then Inr '''' else Inl (PeErr PeNewFile))"

definition section_header :: "bytes \<Rightarrow> nat \<Rightarrow> lb_error + pe_section" where
  "section_header data off =
     bindR (rd data off 40 (PeErr PeNewFile)) (\<lambda>h.
     bindR (full_name (take 8 h)) (\<lambda>name.
     bindR (u32le h 8) (\<lambda>vs.
     bindR (u32le h 16) (\<lambda>sz.
     bindR (u32le h 20) (\<lambda>po.
       Inr \<lparr>ps_name = name, ps_vsize = vs, ps_size = sz, ps_offset = po\<rparr>)))))"

definition optional_header :: "bytes \<Rightarrow> nat \<Rightarrow> nat \<Rightarrow> lb_error + opt_header" where
  "optional_header data off sz =
     (if sz = 0 then Inr NoHeader
      else if sz < 2 then Inl (PeErr PeNewFile)
      else bindR (rd data off 2 (PeErr PeNewFile)) (\<lambda>m.
        let magic = le_val m;
            body = (\<lambda>least nrva h.
              if sz < least then Inl (PeErr PeNewFile)
              else bindR (rd data off least (PeErr PeNewFile)) (\<lambda>oh.
                bindR (u32le oh nrva) (\<lambda>n.
                  if int (sz - least) \<noteq> 8 * uint n then Inl (PeErr PeNewFile)
                  else bindR (rd data (off + least) (sz - least) (PeErr PeNewFile)) (\<lambda>_. Inr h)))) in
        if magic = 0x10b then body 96 92 Header32
        else if magic = 0x20b then body 112 108 Header64
        else Inl (PeErr PeNewFile)))"

definition pe_NewFile :: "bytes \<Rightarrow> lb_error + pe_file" where
  "pe_NewFile data =
     bindR (rd data 0 96 (PeErr PeNewFile)) (\<lambda>dos.
     bindR (u32le dos 60) (\<lambda>signoff.
     bindR (if take 2 dos = bytes_of ''MZ''
            then (if take 4 (drop (unat signoff) data) = bytes_of ''PE'' @ [0, 0]
                  then Inr (unat signoff + 4) else Inl (PeErr PeNewFile))
            else Inr 0) (\<lambda>base.
     bindR (rd data base 20 (PeErr PeNewFile)) (\<lambda>fh.
     bindR (u16le fh 0) (\<lambda>machine.
     bindR (u16le fh 2) (\<lambda>count.
     bindR (u16le fh 16) (\<lambda>osz.
       if machine \<notin> set pe_machines then Inl (PeErr PeNewFile)
       else
     bindR (optional_header data (base + 20) (unat osz)) (\<lambda>oh.
     bindR (foldR (\<lambda>k ss. bindR (section_header data (base + 20 + unat osz + 40 * k)) (\<lambda>s. Inr (ss @ [s])))
              [0..<unat count] []) (\<lambda>ss.
       Inr \<lparr>pf_machine = machine, pf_optional = oh, pf_sections = ss\<rparr>)))))))))"

section \<open>\<^verbatim>\<open>ARM64PE\<close>\<close>

definition MaxPayloadBytes :: int where
  "MaxPayloadBytes = 64 * 2 ^ 20"

text \<open>The extents of the sections so far and the check of one more.\<close>

definition place_section :: "bytes \<Rightarrow> nat \<Rightarrow> pe_section \<Rightarrow> (nat \<times> nat) list \<Rightarrow> lb_error + (nat \<times> nat) list" where
  "place_section data tableEnd s spans =
     (if ps_size s = 0 then Inr spans
      else let start = unat (ps_offset s); fin = unat (ps_offset s) + unat (ps_size s) in
        if start < tableEnd \<or> length data < fin then Inl (PeErr PeSectionOutside)
        else if list_ex (\<lambda>(ostart, oend). start < oend \<and> ostart < fin) spans then Inl (PeErr PeOverlap)
        else Inr (spans @ [(start, fin)]))"

definition no_relocations :: "bytes \<Rightarrow> nat \<Rightarrow> unit \<Rightarrow> lb_error + unit" where
  "no_relocations data off u =
     bindR (u32le data (off + 24)) (\<lambda>p.
       if p \<noteq> 0 then Inl (PeErr PeRelocations)
       else bindR (u16le data (off + 32)) (\<lambda>n. need (n = 0) (PeErr PeRelocations)))"

definition ARM64PE :: "bytes \<Rightarrow> lb_error + pe_file" where
  "ARM64PE data =
     (if length data < 64 \<or> MaxPayloadBytes < int (length data) then Inl (PeErr PeSize)
      else bindR (slice data 0 2) (\<lambda>mz.
      if mz \<noteq> bytes_of ''MZ'' then Inl (PeErr PeDos)
      else bindR (u32le data 60) (\<lambda>off.
      let peOffset = unat off in
      if peOffset < 64 \<or> length data < peOffset + 24 then Inl (PeErr PeHeaderOffset)
      else bindR (slice data peOffset (peOffset + 4)) (\<lambda>sig.
      if sig \<noteq> bytes_of ''PE'' @ [0, 0] then Inl (PeErr PeSignature)
      else bindR (u16le data (peOffset + 6)) (\<lambda>cnt.
      let count = unat cnt in
      if count = 0 \<or> 256 < count then Inl (PeErr PeSectionCount)
      else bindR (u32le data (peOffset + 12)) (\<lambda>symptr.
      bindR (u32le data (peOffset + 16)) (\<lambda>nsyms.
      if symptr \<noteq> 0 \<or> nsyms \<noteq> 0 then Inl (PeErr PeSymbols)
      else bindR (u16le data (peOffset + 20)) (\<lambda>osz.
      let table = peOffset + 24 + unat osz; tableEnd = table + count * 40 in
      if length data < tableEnd then Inl (PeErr PeTruncated)
      else bindR (foldR (no_relocations data) (map (\<lambda>k. table + 40 * k) [0..<count]) ()) (\<lambda>_.
      bindR (pe_NewFile data) (\<lambda>f.
      if pf_machine f \<noteq> 0xaa64 \<or> pf_sections f = [] \<or> 256 < length (pf_sections f) then Inl (PeErr PeMachine)
      else if pf_optional f \<noteq> Header64 then Inl (PeErr PeNotPlus)
      else bindR (foldR (place_section data tableEnd) (pf_sections f) []) (\<lambda>_. Inr f)))))))))))"

section \<open>What the check guarantees\<close>

definition span_of :: "pe_section \<Rightarrow> nat set" where
  "span_of s = {unat (ps_offset s) ..< unat (ps_offset s) + unat (ps_size s)}"

lemma read_inside:
  assumes "b + n \<le> length data"
  shows "k + 2 \<le> n \<Longrightarrow> u16le (take n (drop b data)) k = u16le data (b + k)"
    and "k + 4 \<le> n \<Longrightarrow> u32le (take n (drop b data)) k = u32le data (b + k)"
  using assms by (auto simp: u16le_def u32le_def rd_def drop_take min_def add.commute)

lemma foldR_gather:
  "foldR (\<lambda>k ss. bindR (g k) (\<lambda>s. Inr (ss @ [s]))) ks acc = Inr r \<Longrightarrow>
   \<exists>ss. r = acc @ ss \<and> length ss = length ks \<and> (\<forall>i<length ks. g (ks ! i) = Inr (ss ! i))"
proof (induction ks arbitrary: acc)
  case (Cons k ks)
  then obtain s where s: "g k = Inr s"
    and f: "foldR (\<lambda>k ss. bindR (g k) (\<lambda>s. Inr (ss @ [s]))) ks (acc @ [s]) = Inr r"
    by (auto simp: bindR_Inr_iff)
  obtain ss where "r = (acc @ [s]) @ ss" "length ss = length ks" "\<forall>i<length ks. g (ks ! i) = Inr (ss ! i)"
    using Cons.IH[OF f] by blast
  then show ?case using s by (intro exI[of _ "s # ss"]) (auto simp: nth_Cons split: nat.split)
qed simp

lemma foldR_gather_Inl:
  "foldR (\<lambda>k ss. bindR (g k) (\<lambda>s. Inr (ss @ [s]))) ks acc = Inl e \<Longrightarrow> \<exists>k \<in> set ks. g k = Inl e"
  by (induction ks arbitrary: acc) (auto simp: bindR_Inl_iff)

lemma pe_NewFile_sections:
  assumes "pe_NewFile data = Inr f" and "take 2 data = bytes_of ''MZ''" and "u32le data 60 = Inr off"
    and "u16le data (unat off + 6) = Inr cnt" and "u16le data (unat off + 20) = Inr osz"
  shows "length (pf_sections f) = unat cnt \<and>
    (\<forall>k<unat cnt. section_header data (unat off + 24 + unat osz + 40 * k) = Inr (pf_sections f ! k))"
proof -
  have len: "96 \<le> length data" using assms(1) by (auto simp: pe_NewFile_def bindR_Inr_iff rd_iff)
  have dos: "u32le (take 96 data) 60 = Inr off" using read_inside(2)[of 0 96 data 60] len assms(3) by simp
  from assms(1) obtain fh machine cnt' osz' oh ss where
    fh: "unat off + 4 + 20 \<le> length data" "fh = take 20 (drop (unat off + 4) data)"
    and m: "u16le fh 2 = Inr cnt'" "u16le fh 16 = Inr osz'"
    and ss: "foldR (\<lambda>k ss. bindR (section_header data (24 + unat off + unat osz' + 40 * k)) (\<lambda>s. Inr (ss @ [s])))
              [0..<unat cnt'] [] = Inr ss"
    and f: "f = \<lparr>pf_machine = machine, pf_optional = oh, pf_sections = ss\<rparr>"
    by (auto simp: pe_NewFile_def bindR_Inr_iff rd_iff dos assms(2) split: if_splits)
  have "cnt' = cnt" "osz' = osz"
    using m read_inside(1)[OF fh(1), of 2] read_inside(1)[OF fh(1), of 16] assms(4,5)
    unfolding fh(2) by (simp_all add: ac_simps)
  then show ?thesis using foldR_gather[OF ss] f by (simp add: add.commute)
qed

lemma place_sections_inv:
  "foldR (place_section data tableEnd) ss [] = Inr spans \<Longrightarrow>
   spans = map (\<lambda>s. (unat (ps_offset s), unat (ps_offset s) + unat (ps_size s))) (filter (\<lambda>s. ps_size s \<noteq> 0) ss) \<and>
   (\<forall>s \<in> set ss. span_of s \<subseteq> {tableEnd ..< length data}) \<and>
   sorted_wrt (\<lambda>s t. span_of s \<inter> span_of t = {}) ss"
proof (induction ss arbitrary: spans rule: rev_induct)
  case (snoc s ss)
  then obtain sp where sp: "foldR (place_section data tableEnd) ss [] = Inr sp"
    and p: "place_section data tableEnd s sp = Inr spans"
    by (auto simp: foldR_append bindR_Inr_iff)
  note IH = snoc.IH[OF sp]
  show ?case
  proof (cases "ps_size s = 0")
    case True
    then show ?thesis using IH p by (auto simp: place_section_def sorted_wrt_append span_of_def)
  next
    case False
    have free: "span_of t \<inter> span_of s = {}" if "t \<in> set ss" for t
    proof (cases "ps_size t = 0")
      case False
      then have "(unat (ps_offset t), unat (ps_offset t) + unat (ps_size t)) \<in> set sp"
        using IH \<open>t \<in> set ss\<close> by auto
      then show ?thesis using p \<open>ps_size s \<noteq> 0\<close>
        by (auto simp: place_section_def Let_def list_ex_iff span_of_def split: if_splits)
    qed (simp add: span_of_def)
    then show ?thesis using IH p False
      by (auto simp: place_section_def Let_def sorted_wrt_append span_of_def split: if_splits)
  qed
qed simp

lemma ARM64PE_facts:
  assumes "ARM64PE data = Inr f"
  shows "\<exists>off cnt osz spans. take 2 data = bytes_of ''MZ'' \<and> u32le data 60 = Inr off \<and>
    u16le data (unat off + 6) = Inr cnt \<and> unat cnt \<noteq> 0 \<and> unat cnt \<le> 256 \<and>
    u16le data (unat off + 20) = Inr osz \<and> pe_NewFile data = Inr f \<and>
    pf_machine f = 0xaa64 \<and> pf_optional f = Header64 \<and>
    foldR (place_section data (unat off + 24 + unat osz + unat cnt * 40)) (pf_sections f) [] = Inr spans"
  using assms by (auto simp: ARM64PE_def bindR_Inr_iff Let_def slice_iff split: if_splits)

text \<open>
  C35. An image that passes \<^verbatim>\<open>ARM64PE\<close> is a 64-bit ARM64 executable whose sections are the
  records of the section table it names, between 1 and 256 of them; the bytes of every
  section lie in the file behind that table, and no two sections share a byte.
\<close>

theorem ARM64PE_layout:
  assumes "ARM64PE data = Inr f"
  shows "pf_machine f = 0xaa64 \<and> pf_optional f = Header64 \<and>
    0 < length (pf_sections f) \<and> length (pf_sections f) \<le> 256 \<and>
    (\<exists>table. (\<forall>k<length (pf_sections f). section_header data (table + 40 * k) = Inr (pf_sections f ! k)) \<and>
      (\<forall>s \<in> set (pf_sections f). span_of s \<subseteq> {table + 40 * length (pf_sections f) ..< length data})) \<and>
    sorted_wrt (\<lambda>s t. span_of s \<inter> span_of t = {}) (pf_sections f)"
proof -
  from ARM64PE_facts[OF assms] obtain off cnt osz spans where mz: "take 2 data = bytes_of ''MZ''"
    and off: "u32le data 60 = Inr off" and cnt: "u16le data (unat off + 6) = Inr cnt" "unat cnt \<noteq> 0" "unat cnt \<le> 256"
    and osz: "u16le data (unat off + 20) = Inr osz" and new: "pe_NewFile data = Inr f"
    and m: "pf_machine f = 0xaa64" "pf_optional f = Header64"
    and spans: "foldR (place_section data (unat off + 24 + unat osz + unat cnt * 40)) (pf_sections f) [] = Inr spans"
    by blast
  note secs = pe_NewFile_sections[OF new mz off cnt(1) osz]
  note placed = place_sections_inv[OF spans]
  show ?thesis
    using m secs placed cnt by (auto simp: mult.commute intro!: exI[of _ "unat off + 24 + unat osz"])
qed

lemma ARM64PE_section_inside:
  assumes "ARM64PE data = Inr f" and "s \<in> set (pf_sections f)" and "ps_size s \<noteq> 0"
  shows "unat (ps_offset s) + unat (ps_size s) \<le> length data"
proof -
  from ARM64PE_facts[OF assms(1)] obtain off :: u32 and cnt osz :: u16 and spans where
    "foldR (place_section data (unat off + 24 + unat osz + unat cnt * 40)) (pf_sections f) [] = Inr spans"
    by blast
  from place_sections_inv[OF this] assms(2)
  have "span_of s \<subseteq> {unat off + 24 + unat osz + unat cnt * 40 ..< length data}" by blast
  moreover have "0 < unat (ps_size s)" using assms(3) by (simp add: word_greater_zero_iff unat_gt_0)
  ultimately show ?thesis
    by (auto simp: span_of_def ivl_subset)
qed

section \<open>No read outside the buffer\<close>

lemma full_name_no_panic: "full_name nm \<noteq> Inl Panic"
  by (simp add: full_name_def Let_def)

lemma section_header_no_panic: "section_header data off \<noteq> Inl Panic"
  by (auto simp: section_header_def bindR_Inl_iff rd_Inl_iff rd_iff full_name_no_panic u32le_def)

lemma optional_header_no_panic: "optional_header data off sz \<noteq> Inl Panic"
  by (auto simp: optional_header_def Let_def bindR_Inl_iff rd_Inl_iff rd_iff u32le_def split: if_splits)

lemma pe_NewFile_no_panic: "pe_NewFile data \<noteq> Inl Panic"
proof
  assume "pe_NewFile data = Inl Panic"
  then show False
    by (auto simp: pe_NewFile_def bindR_Inl_iff rd_Inl_iff rd_iff u32le_def u16le_def optional_header_no_panic
        section_header_no_panic dest!: foldR_gather_Inl split: if_splits)
qed

lemma foldR_Inl: "foldR f xs s = Inl e \<Longrightarrow> \<exists>x \<in> set xs. \<exists>t. f x t = Inl e"
proof (induction xs arbitrary: s)
  case (Cons x xs)
  then show ?case by (fastforce simp: bindR_Inl_iff)
qed simp

lemma no_relocations_no_panic:
  "off + 40 \<le> length data \<Longrightarrow> no_relocations data off u \<noteq> Inl Panic"
  by (auto simp: no_relocations_def bindR_Inl_iff u32le_def u16le_def rd_Inl_iff split: if_splits)

lemma place_section_no_panic: "place_section data t s spans \<noteq> Inl Panic"
  by (simp add: place_section_def Let_def)

lemma ARM64PE_no_panic: "ARM64PE data \<noteq> Inl Panic"
proof
  assume "ARM64PE data = Inl Panic"
  then show False
    by (auto simp: ARM64PE_def bindR_Inl_iff Let_def slice_iff u32le_def u16le_def rd_Inl_iff rd_iff slice_def
        pe_NewFile_no_panic place_section_no_panic no_relocations_no_panic
        dest!: foldR_Inl split: if_splits)
qed

section \<open>An image\<close>

text \<open>A file built as the repository's tests do, with an optional header without data directories.\<close>

fun pe_headers :: "nat \<Rightarrow> (string \<times> bytes) list \<Rightarrow> bytes" where
  "pe_headers off [] = []"
| "pe_headers off ((name, b) # ss) =
     bytes_of name @ zeros (8 - length name) @ le32 (word_of_nat (length b)) @ zeros 4 @
     le32 (word_of_nat (length b)) @ le32 (word_of_nat off) @ zeros 16 @ pe_headers (off + length b) ss"

definition synthetic_pe :: "(string \<times> bytes) list \<Rightarrow> bytes" where
  "synthetic_pe ss =
     bytes_of ''MZ'' @ zeros 58 @ le32 64 @ bytes_of ''PE'' @ [0, 0] @ le16 0xaa64 @ le16 (word_of_nat (length ss)) @
     zeros 12 @ le16 112 @ zeros 2 @ le16 0x20b @ zeros 110 @ pe_headers (200 + 40 * length ss) ss @
     concat (map snd ss)"

fun pe_secs :: "nat \<Rightarrow> (string \<times> bytes) list \<Rightarrow> pe_section list" where
  "pe_secs off [] = []"
| "pe_secs off ((name, b) # ss) =
     \<lparr>ps_name = name, ps_vsize = word_of_nat (length b), ps_size = word_of_nat (length b), ps_offset = word_of_nat off\<rparr> #
     pe_secs (off + length b) ss"

definition pe_name_ok :: "string \<Rightarrow> bool" where
  "pe_name_ok n \<longleftrightarrow> length n \<le> 8 \<and> CHR 0x00 \<notin> set n \<and> \<not> has_prefix n ''/''"

definition pe_image_ok :: "(string \<times> bytes) list \<Rightarrow> bool" where
  "pe_image_ok ss \<longleftrightarrow> ss \<noteq> [] \<and> length ss \<le> 256 \<and> list_all (\<lambda>s. pe_name_ok (fst s)) ss \<and>
     length (synthetic_pe ss) \<le> 2 ^ 26"

lemma zeros_plus: "zeros (m + n) = zeros m @ zeros n"
  by (simp add: zeros_def replicate_add)

lemma bytes_of_zero: "0 \<in> set (bytes_of s) \<longleftrightarrow> CHR 0x00 \<in> set s"
proof -
  have "(of_char c :: byte) = 0 \<longleftrightarrow> c = CHR 0x00" for c
  proof -
    have "(of_char c :: byte) = 0 \<longleftrightarrow> (of_char c :: nat) = 0"
      unfolding unat_of_char[symmetric] by (rule unat_eq_0[symmetric])
    also have "\<dots> \<longleftrightarrow> (of_char c :: nat) = of_char (CHR 0x00)" by simp
    also have "\<dots> \<longleftrightarrow> c = CHR 0x00" by (rule of_char_eq_iff)
    finally show ?thesis .
  qed
  then show ?thesis by (force simp: bytes_of_def image_iff)
qed

lemma until_nul_padded:
  assumes "CHR 0x00 \<notin> set n"
  shows "until_nul (bytes_of n @ zeros k) = n"
proof -
  have "takeWhile (\<lambda>x. x \<noteq> 0) (bytes_of n @ zeros k) = bytes_of n"
  proof (cases k)
    case (Suc j)
    have "\<And>x. x \<in> set (bytes_of n) \<Longrightarrow> x \<noteq> 0" using assms bytes_of_zero by blast
    then show ?thesis by (subst takeWhile_append2) (auto simp: Suc zeros_def)
  qed (use assms bytes_of_zero in \<open>auto simp: zeros_def takeWhile_eq_all_conv\<close>)
  then show ?thesis by (simp add: until_nul_def)
qed

lemma full_name_padded:
  assumes "pe_name_ok n"
  shows "full_name (bytes_of n @ zeros (8 - length n)) = Inr n"
proof -
  have "take 1 (bytes_of n @ zeros (8 - length n)) \<noteq> bytes_of ''/''"
  proof (cases n)
    case Nil
    then show ?thesis by (simp add: bytes_of_def zeros_def)
  next
    case (Cons c m)
    then have c: "c \<noteq> CHR ''/''" using assms by (auto simp: pe_name_ok_def)
    have "take 1 (bytes_of n @ zeros (8 - length n)) = bytes_of [c]" using Cons by (simp add: bytes_of_def)
    moreover have "bytes_of [c] \<noteq> bytes_of ''/''"
    proof
      assume "bytes_of [c] = bytes_of ''/''"
      then have "string_of_bytes (bytes_of [c]) = string_of_bytes (bytes_of ''/'')" by (rule arg_cong)
      then show False using c unfolding string_of_bytes_of by simp
    qed
    ultimately show ?thesis by simp
  qed
  then show ?thesis
    using assms by (simp add: full_name_def pe_name_ok_def until_nul_padded)
qed


lemma length_pe_headers: "list_all (\<lambda>s. pe_name_ok (fst s)) ss \<Longrightarrow> length (pe_headers off ss) = 40 * length ss"
  by (induction off ss rule: pe_headers.induct) (auto simp: pe_name_ok_def)

lemma length_pe_secs [simp]: "length (pe_secs off ss) = length ss"
  by (induction off ss rule: pe_secs.induct) auto

text \<open>One record: its fields read back, and no relocation.\<close>

lemma one_header:
  assumes "pe_name_ok n" and h_def: "h = bytes_of n @ zeros (8 - length n) @ le32 vs @ zeros 4 @ le32 sz @ le32 po @ zeros 16"
  shows "section_header (a @ h @ c) (length a) = Inr \<lparr>ps_name = n, ps_vsize = vs, ps_size = sz, ps_offset = po\<rparr>"
    and "no_relocations (a @ h @ c) (length a) () = Inr ()"
proof -
  have n: "length n \<le> 8" using assms(1) by (simp add: pe_name_ok_def)
  have l: "length h = 40" using n by (simp add: h_def)
  have r: "rd (a @ h @ c) (length a) 40 (PeErr PeNewFile) = Inr h" using l by (simp add: rd_def)
  have nm: "full_name (take 8 h) = Inr n"
    using full_name_padded[OF assms(1)] n by (simp add: h_def)
  have f: "u32le h 8 = Inr vs" "u32le h 16 = Inr sz" "u32le h 20 = Inr po"
    using n by (simp_all add: h_def u32le_def rd_def)
  show "section_header (a @ h @ c) (length a) = Inr \<lparr>ps_name = n, ps_vsize = vs, ps_size = sz, ps_offset = po\<rparr>"
    unfolding section_header_def r by (simp add: nm f)
  have z: "take 4 (drop 24 h) = zeros 4" "take 2 (drop 32 h) = zeros 2"
    using n by (simp_all add: h_def zeros_def)
  have "u32le (a @ h @ c) (length a + 24) = Inr 0" "u16le (a @ h @ c) (length a + 32) = Inr 0"
    using l z by (simp_all add: u32le_def u16le_def rd_def) (simp_all add: zeros_def numeral_eq_Suc)
  then show "no_relocations (a @ h @ c) (length a) () = Inr ()"
    by (simp add: no_relocations_def need_def)
qed

lemma pe_headers_read:
  "list_all (\<lambda>s. pe_name_ok (fst s)) ss \<Longrightarrow> k < length ss \<Longrightarrow>
   section_header (a @ pe_headers off ss @ c) (length a + 40 * k) = Inr (pe_secs off ss ! k) \<and>
   no_relocations (a @ pe_headers off ss @ c) (length a + 40 * k) () = Inr ()"
proof (induction off ss arbitrary: a k rule: pe_headers.induct)
  case (2 off n b ss)
  define h where "h = bytes_of n @ zeros (8 - length n) @ le32 (word_of_nat (length b)) @ zeros 4 @
     le32 (word_of_nat (length b)) @ le32 (word_of_nat off) @ zeros 16"
  have n: "pe_name_ok n" using 2 by simp
  have h: "a @ pe_headers off ((n, b) # ss) @ c = a @ h @ (pe_headers (off + length b) ss @ c)" by (simp add: h_def)
  show ?case
  proof (cases k)
    case 0
    then show ?thesis unfolding h using one_header[OF n h_def] by simp
  next
    case (Suc j)
    have "length (a @ h) + 40 * j = length a + 40 * k"
      using n by (simp add: h_def Suc pe_name_ok_def)
    then show ?thesis
      using "2.IH"[of j "a @ h"] 2 Suc unfolding h by (simp add: add.assoc)
  qed
qed simp

lemma foldR_gather_Inr:
  "(\<And>k. k \<in> set ks \<Longrightarrow> g k = Inr (h k)) \<Longrightarrow>
   foldR (\<lambda>k ss. bindR (g k) (\<lambda>s. Inr (ss @ [s]))) ks acc = Inr (acc @ map h ks)"
  by (induction ks arbitrary: acc) auto

lemma foldR_unit: "(\<And>x. x \<in> set xs \<Longrightarrow> f x () = Inr ()) \<Longrightarrow> foldR f xs () = Inr ()"
  by (induction xs) auto

lemma place_secs:
  "list_all (\<lambda>(s, e). e \<le> off) spans \<Longrightarrow> tableEnd \<le> off \<Longrightarrow> off + length (concat (map snd ss)) \<le> length data \<Longrightarrow>
   length data \<le> 2 ^ 26 \<Longrightarrow> \<exists>r. foldR (place_section data tableEnd) (pe_secs off ss) spans = Inr r"
proof (induction off ss arbitrary: spans rule: pe_secs.induct)
  case (2 off n b ss)
  let ?s = "\<lparr>ps_name = n, ps_vsize = word_of_nat (length b), ps_size = word_of_nat (length b), ps_offset = word_of_nat off\<rparr>"
  have u: "unat (word_of_nat off :: u32) = off" "unat (word_of_nat (length b) :: u32) = length b"
    using 2 by (simp_all add: unat_of_nat take_bit_eq_mod)
  have "\<exists>sp. place_section data tableEnd ?s spans = Inr sp \<and> list_all (\<lambda>(s, e). e \<le> off + length b) sp"
  proof (cases "(word_of_nat (length b) :: u32) = 0")
    case True
    then show ?thesis using 2 by (auto simp: place_section_def list_all_iff)
  next
    case False
    have "\<not> list_ex (\<lambda>(ostart, oend). off < oend \<and> ostart < off + length b) spans"
      using 2 by (auto simp: list_ex_iff list_all_iff)
    then show ?thesis using 2 False u by (auto simp: place_section_def Let_def list_all_iff)
  qed
  then obtain sp where sp: "place_section data tableEnd ?s spans = Inr sp" "list_all (\<lambda>(s, e). e \<le> off + length b) sp"
    by blast
  from "2.IH"[OF sp(2)] 2 sp(1) show ?case by simp
qed simp

text \<open>
  Acceptance: any image laid out this way passes the check and yields its sections, so the
  check refuses no ordinary loader.
\<close>

lemma synthetic_pe_read:
  assumes "list_all (\<lambda>s. pe_name_ok (fst s)) ss" and "length ss \<le> 256"
  shows "slice (synthetic_pe ss) 0 2 = Inr (bytes_of ''MZ'')" and "u32le (synthetic_pe ss) 60 = Inr 64"
    and "slice (synthetic_pe ss) 64 68 = Inr (bytes_of ''PE'' @ [0, 0])"
    and "u16le (synthetic_pe ss) 70 = Inr (word_of_nat (length ss))"
    and "u32le (synthetic_pe ss) 76 = Inr 0" and "u32le (synthetic_pe ss) 80 = Inr 0"
    and "u16le (synthetic_pe ss) 84 = Inr 112" and "u16le (synthetic_pe ss) 68 = Inr 0xaa64"
    and "rd (synthetic_pe ss) 88 2 e = Inr (le16 0x20b)"
    and "length (synthetic_pe ss) = 200 + 40 * length ss + length (concat (map snd ss))"
proof -
  have z: "zeros 2 = [0, 0]" "zeros 4 = [0, 0, 0, 0]" by (simp_all add: zeros_def numeral_eq_Suc)
  have z12: "zeros 12 = zeros 4 @ zeros 4 @ zeros 4" using zeros_plus[of 4 8] zeros_plus[of 4 4] by simp
  have MZ: "length (bytes_of ''MZ'') = 2" "length (bytes_of ''PE'') = 2" by simp_all
  note defs = synthetic_pe_def slice_def u32le_def u16le_def rd_def
  show "slice (synthetic_pe ss) 0 2 = Inr (bytes_of ''MZ'')" by (simp add: defs)
  show "u32le (synthetic_pe ss) 60 = Inr 64" by (simp add: defs)
  show "slice (synthetic_pe ss) 64 68 = Inr (bytes_of ''PE'' @ [0, 0])" by (simp add: defs)
  show "u16le (synthetic_pe ss) 70 = Inr (word_of_nat (length ss))" by (simp add: defs)
  show "u32le (synthetic_pe ss) 76 = Inr 0" by (simp add: defs z12) (simp add: z)
  show "u32le (synthetic_pe ss) 80 = Inr 0" by (simp add: defs z12) (simp add: z)
  show "u16le (synthetic_pe ss) 84 = Inr 112" by (simp add: defs)
  show "u16le (synthetic_pe ss) 68 = Inr 0xaa64" by (simp add: defs)
  show "rd (synthetic_pe ss) 88 2 e = Inr (le16 0x20b)" by (simp add: defs)
  show "length (synthetic_pe ss) = 200 + 40 * length ss + length (concat (map snd ss))"
    by (simp add: synthetic_pe_def length_pe_headers[OF assms(1)])
qed

lemma synthetic_pe_optional: "optional_header (synthetic_pe ss) 88 112 = Inr Header64"
proof -
  have z110: "zeros 110 = zeros 106 @ zeros 4" using zeros_plus[of 106 4] by simp
  have m: "rd (synthetic_pe ss) 88 2 (PeErr PeNewFile) = Inr (le16 0x20b)" by (simp add: synthetic_pe_def rd_def)
  have o: "rd (synthetic_pe ss) 88 112 (PeErr PeNewFile) = Inr (le16 0x20b @ zeros 106 @ zeros 4)"
    by (simp add: synthetic_pe_def rd_def z110)
  have n: "u32le (le16 0x20b @ zeros 106 @ zeros 4) 108 = Inr 0"
    by (simp add: u32le_def rd_def) (simp add: zeros_def numeral_eq_Suc)
  have l: "rd (synthetic_pe ss) 200 0 (PeErr PeNewFile) = Inr []" by (simp add: synthetic_pe_def rd_def)
  show ?thesis by (simp add: optional_header_def m o n l)
qed

lemma ARM64PE_synthetic:
  assumes "pe_image_ok ss"
  shows "ARM64PE (synthetic_pe ss) =
    Inr \<lparr>pf_machine = 0xaa64, pf_optional = Header64, pf_sections = pe_secs (200 + 40 * length ss) ss\<rparr>"
proof -
  have names: "list_all (\<lambda>s. pe_name_ok (fst s)) ss" and cnt: "length ss \<le> 256" "ss \<noteq> []"
    and size: "length (synthetic_pe ss) \<le> 2 ^ 26"
    using assms by (simp_all add: pe_image_ok_def)
  note rd = synthetic_pe_read[OF names cnt(1)]
  define data where "data = synthetic_pe ss"
  define a where "a = take 200 data"
  have data: "data = a @ pe_headers (200 + 40 * length ss) ss @ concat (map snd ss)"
    by (simp add: a_def data_def synthetic_pe_def)
  have la: "length a = 200" by (simp add: a_def data_def rd(10))
  have heads: "section_header data (200 + 40 * k) = Inr (pe_secs (200 + 40 * length ss) ss ! k)"
    "no_relocations data (200 + 40 * k) () = Inr ()" if "k < length ss" for k
    using pe_headers_read[OF names that, of a "200 + 40 * length ss" "concat (map snd ss)"] la data by simp_all
  have u: "unat (word_of_nat (length ss) :: u16) = length ss" using cnt(1) by (simp add: unat_of_nat take_bit_eq_mod)
  have new: "pe_NewFile data = Inr \<lparr>pf_machine = 0xaa64, pf_optional = Header64, pf_sections = pe_secs (200 + 40 * length ss) ss\<rparr>"
  proof -
    have dos: "rd data 0 96 (PeErr PeNewFile) = Inr (take 96 data)" by (simp add: rd_def data_def rd(10))
    have off: "u32le (take 96 data) 60 = Inr 64"
      using read_inside(2)[of 0 96 data 60] rd(2,10) by (simp add: data_def)
    have fh: "rd data 68 20 (PeErr PeNewFile) = Inr (take 20 (drop 68 data))" by (simp add: rd_def data_def rd(10))
    have f: "u16le (take 20 (drop 68 data)) 0 = Inr 0xaa64" "u16le (take 20 (drop 68 data)) 2 = Inr (word_of_nat (length ss))"
      "u16le (take 20 (drop 68 data)) 16 = Inr 112"
      using read_inside(1)[of 68 20 data] rd(4,7,8,10) by (simp_all add: data_def)
    have mz: "take 2 data = bytes_of ''MZ''" "take 4 (drop 64 data) = bytes_of ''PE'' @ [0, 0]"
      using rd(1,3) by (simp_all add: slice_iff data_def slice_def split: if_splits)
    have secs: "foldR (\<lambda>k ss. bindR (section_header data (200 + 40 * k)) (\<lambda>s. Inr (ss @ [s]))) [0..<length ss] [] =
        Inr (pe_secs (200 + 40 * length ss) ss)"
    proof -
      have "foldR (\<lambda>k ss. bindR (section_header data (200 + 40 * k)) (\<lambda>s. Inr (ss @ [s]))) [0..<length ss] [] =
        Inr ([] @ map (\<lambda>k. pe_secs (200 + 40 * length ss) ss ! k) [0..<length ss])"
        by (rule foldR_gather_Inr) (simp add: heads)
      also have "map (\<lambda>k. pe_secs (200 + 40 * length ss) ss ! k) [0..<length ss] = pe_secs (200 + 40 * length ss) ss"
        using map_nth[of "pe_secs (200 + 40 * length ss) ss"] by simp
      finally show ?thesis by simp
    qed
    have opt: "optional_header data 88 112 = Inr Header64" by (simp add: data_def synthetic_pe_optional)
    show ?thesis
      unfolding pe_NewFile_def dos by (simp add: off mz fh f opt u pe_machines_def secs)
  qed
  have rel: "foldR (no_relocations data) (map (\<lambda>k. 200 + 40 * k) [0..<length ss]) () = Inr ()"
    by (rule foldR_unit) (auto simp: heads)
  have len: "length data = 200 + 40 * length ss + length (concat (map snd ss))" by (simp add: data_def rd(10))
  obtain spans where sp: "foldR (place_section data (200 + length ss * 40)) (pe_secs (200 + 40 * length ss) ss) [] = Inr spans"
    using place_secs[of "200 + 40 * length ss" "[]" "200 + length ss * 40" ss data] len size data_def by auto
  have big: "\<not> MaxPayloadBytes < int (length data)" using size by (simp add: MaxPayloadBytes_def data_def)
  have ne: "pe_secs (200 + 40 * length ss) ss \<noteq> []" using cnt(2) length_pe_secs by (metis length_0_conv)
  have long: "\<not> length data < 64" "\<not> length data < 88" "\<not> length data < 200 + length ss * 40" using len by simp_all
  note r = rd[folded data_def]
  show ?thesis
    unfolding data_def[symmetric] ARM64PE_def
    using big ne long cnt r(1-7) u new rel sp
    by (simp add: Let_def)
qed

definition demo_pe :: bytes where
  "demo_pe = synthetic_pe [(''.text'', [1, 2, 3]), (''.bss'', []), (''.data'', [4])]"

theorem ARM64PE_layout_witness:
  "\<exists>f. ARM64PE demo_pe = Inr f \<and> map ps_name (pf_sections f) = [''.text'', ''.bss'', ''.data''] \<and>
     pf_optional f = Header64 \<and> sorted_wrt (\<lambda>s t. span_of s \<inter> span_of t = {}) (pf_sections f)"
proof -
  have ok: "pe_image_ok [(''.text'', [1, 2, 3]), (''.bss'', []), (''.data'', [4])]"
    by (simp add: pe_image_ok_def pe_name_ok_def synthetic_pe_def)
  note a = ARM64PE_synthetic[OF ok, folded demo_pe_def]
  show ?thesis using a ARM64PE_layout[OF a] by simp
qed

end
