(* ===== verification/Live_Board.thy ===== *)
theory Live_Board
  imports Pe_Image
begin

text \<open>
  The static board mapping of an experimental loader
  (\<^verbatim>\<open>internal/liveboot/board.go\<close>): the first compatible string of the root node of a
  flattened device tree, and the hardware identifier table. The token loop of
  \<^verbatim>\<open>rootCompatible\<close> is a step function on its variables with a recursion whose
  termination rests on every step moving the position forward.
\<close>

section \<open>Strings of a table\<close>

definition cstring :: "bytes \<Rightarrow> nat \<Rightarrow> lb_error + string" where
  "cstring data offset =
     (if length data \<le> offset then Inl (BoardErr StringOutside)
      else
        let window = take 256 (drop offset data) in
        if 0 \<in> set window then Inr (until_nul window)
        else Inl (BoardErr StringUnterminated))"

section \<open>\<^verbatim>\<open>rootCompatible\<close>\<close>

record dtb_state =
  d_pos :: nat
  d_depth :: int
  d_roots :: nat
  d_compatible :: "string list option"
  d_tokens :: nat

datatype dtb_turn = More dtb_state | Done "string list option"

definition align4 :: "nat \<Rightarrow> nat" where
  "align4 n = n div 4 * 4"

text \<open>The list of strings of a property value: \<open>k\<close> of them are read.\<close>

function compatibles :: "bytes \<Rightarrow> nat \<Rightarrow> string list \<Rightarrow> lb_error + string list" where
  "compatibles value offset acc =
     (if offset < length value then
        (if 32 \<le> length acc then Inl (DtbErr DtbCompatibleCount)
         else case cstring value offset of
           Inl e \<Rightarrow> Inl e
         | Inr v \<Rightarrow> if v = '''' then Inl (DtbErr DtbCompatibleEmpty)
                   else compatibles value (offset + length v + 1) (acc @ [v]))
      else Inr acc)"
  by pat_completeness auto
termination by (relation "measure (\<lambda>(value, offset, _). length value - offset)") auto

declare compatibles.simps [simp del]

text \<open>\<^verbatim>\<open>FDT_BEGIN_NODE\<close>, \<^verbatim>\<open>FDT_END_NODE\<close>, \<^verbatim>\<open>FDT_PROP\<close>; the position is behind the token.\<close>

definition dtb_begin :: "bytes \<Rightarrow> dtb_state \<Rightarrow> lb_error + dtb_turn" where
  "dtb_begin st s =
     bindR (cstring st (d_pos s)) (\<lambda>name.
       let s1 = s\<lparr>d_pos := align4 (d_pos s + length name + 1 + 3)\<rparr> in
       if d_depth s1 = 0 then
         (if name \<noteq> '''' then Inl (DtbErr DtbRootName)
          else Inr (More (s1\<lparr>d_roots := d_roots s1 + 1, d_depth := d_depth s1 + 1\<rparr>)))
       else Inr (More (s1\<lparr>d_depth := d_depth s1 + 1\<rparr>)))"

definition dtb_end :: "dtb_state \<Rightarrow> lb_error + dtb_turn" where
  "dtb_end s =
     (let s1 = s\<lparr>d_depth := d_depth s - 1\<rparr> in
      if d_depth s1 < 0 then Inl (DtbErr DtbUnbalanced) else Inr (More s1))"

definition dtb_prop :: "bytes \<Rightarrow> bytes \<Rightarrow> dtb_state \<Rightarrow> lb_error + dtb_turn" where
  "dtb_prop st strs s =
     (if length st < d_pos s + 8 \<or> d_depth s = 0 then Inl (DtbErr DtbProperty)
      else bindR (u32be st (d_pos s)) (\<lambda>size.
      bindR (u32be st (d_pos s + 4)) (\<lambda>nameOffset.
      let pos = d_pos s + 8 in
      if int (length st) < int pos + uint size then Inl (DtbErr DtbPropertyOutside)
      else bindR (cstring strs (unat nameOffset)) (\<lambda>name.
      bindR (slice st pos (pos + unat size)) (\<lambda>value.
      let s1 = s\<lparr>d_pos := align4 (pos + unat size + 3)\<rparr> in
      if d_depth s1 = 1 \<and> name = ''compatible'' then
        (if d_compatible s1 \<noteq> None \<or> value = [] \<or> List.last value \<noteq> 0 then Inl (DtbErr DtbCompatible)
         else if 4096 < int (length value) then Inl (DtbErr DtbCompatibleSize)
         else bindR (compatibles value 0 []) (\<lambda>cs. Inr (More (s1\<lparr>d_compatible := Some cs\<rparr>))))
      else Inr (More s1))))))"

definition dtb_step :: "bytes \<Rightarrow> bytes \<Rightarrow> dtb_state \<Rightarrow> lb_error + dtb_turn" where
  "dtb_step st strs s0 =
     (let tokens = d_tokens s0 + 1 in
      if 65536 < int tokens then Inl (DtbErr DtbTokens)
      else bindR (u32be st (d_pos s0)) (\<lambda>token.
        let s = s0\<lparr>d_tokens := tokens, d_pos := d_pos s0 + 4\<rparr> in
        if token = 1 then dtb_begin st s
        else if token = 2 then dtb_end s
        else if token = 3 then dtb_prop st strs s
        else if token = 4 then Inr (More s)
        else if token = 9 then
          (if d_depth s \<noteq> 0 \<or> d_roots s \<noteq> 1 then Inl (DtbErr DtbEnd) else Inr (Done (d_compatible s)))
        else Inl (DtbErr DtbToken)))"

lemma align4_le: "n \<le> align4 (n + 3)" "align4 n \<le> n"
  by (auto simp: align4_def)

lemma dtb_begin_advances: "dtb_begin st s = Inr (More s') \<Longrightarrow> d_pos s < d_pos s'"
proof -
  assume "dtb_begin st s = Inr (More s')"
  then have "\<exists>name :: string. d_pos s' = align4 (d_pos s + length name + 1 + 3)"
    by (auto simp: dtb_begin_def bindR_Inr_iff Let_def split: if_splits intro: exI[of _ "[]"])
  then obtain name :: string where "d_pos s' = align4 (d_pos s + length name + 1 + 3)" by blast
  then show ?thesis using align4_le(1)[of "d_pos s + length name + 1"] by simp
qed

lemma dtb_prop_advances: "dtb_prop st strs s = Inr (More s') \<Longrightarrow> d_pos s < d_pos s'"
proof -
  assume "dtb_prop st strs s = Inr (More s')"
  then obtain size :: u32 where "d_pos s' = align4 (d_pos s + 8 + unat size + 3)"
    by (auto simp: dtb_prop_def bindR_Inr_iff Let_def split: if_splits)
  then show ?thesis using align4_le(1)[of "d_pos s + 8 + unat size"] by simp
qed

lemma dtb_step_advances: "dtb_step st strs s = Inr (More s') \<Longrightarrow> d_pos s < d_pos s'"
  by (auto simp: dtb_step_def dtb_end_def Let_def bindR_Inr_iff split: if_splits
      dest!: dtb_begin_advances dtb_prop_advances)

function dtb_loop :: "bytes \<Rightarrow> bytes \<Rightarrow> dtb_state \<Rightarrow> lb_error + string list option" where
  "dtb_loop st strs s =
     (if d_pos s + 4 \<le> length st then
        (case dtb_step st strs s of
           Inl e \<Rightarrow> Inl e
         | Inr (Done c) \<Rightarrow> Inr c
         | Inr (More s') \<Rightarrow> dtb_loop st strs s')
      else Inl (DtbErr DtbMissingEnd))"
  by pat_completeness auto
termination
  by (relation "measure (\<lambda>(st, strs, s). length st - d_pos s)") (auto dest: dtb_step_advances)

declare dtb_loop.simps [simp del]

definition dtb_start :: dtb_state where
  "dtb_start = \<lparr>d_pos = 0, d_depth = 0, d_roots = 0, d_compatible = None, d_tokens = 0\<rparr>"

definition rootCompatible :: "bytes \<Rightarrow> lb_error + string list option" where
  "rootCompatible data =
     (if length data < 40 then Inl (DtbErr DtbHeader)
      else bindR (u32be data 0) (\<lambda>magic.
      if magic \<noteq> 0xd00dfeed then Inl (DtbErr DtbHeader)
      else bindR (u32be data 4) (\<lambda>total.
      bindR (u32be data 8) (\<lambda>structure.
      bindR (u32be data 12) (\<lambda>stringsOffset.
      bindR (u32be data 32) (\<lambda>stringsSize.
      bindR (u32be data 36) (\<lambda>structureSize.
      if int (length data) < uint total \<or> total < 40 \<or> structure < 40 \<or> uint structure mod 4 \<noteq> 0 \<or>
         uint structureSize mod 4 \<noteq> 0 \<or> uint stringsOffset < uint structure + uint structureSize \<or>
         stringsOffset < 40 \<or> uint total < uint structure + uint structureSize \<or>
         uint total < uint stringsOffset + uint stringsSize
      then Inl (DtbErr DtbSpans)
      else bindR (slice data (unat structure) (unat structure + unat structureSize)) (\<lambda>st.
      bindR (slice data (unat stringsOffset) (unat stringsOffset + unat stringsSize)) (\<lambda>strs.
        dtb_loop st strs dtb_start)))))))))"

section \<open>\<^verbatim>\<open>HasBoardMapping\<close>\<close>

definition Board :: string where
  "Board = ''lenovo,thinkpad-x13s''"

text \<open>One record of the hardware table: the match so far, or the end of the table.\<close>

definition hwid_record :: "bytes \<Rightarrow> nat \<Rightarrow> bool \<Rightarrow> lb_error + (bool \<times> bool)" where
  "hwid_record data off hwidMatch =
     (if 4096 \<le> int (off div 28) then Inl (BoardErr HwidLimit)
      else bindR (u32le data off) (\<lambda>descriptor.
        if descriptor = 0 then Inr (True, hwidMatch)
        else if length data < off + 28 \<or> (descriptor \<noteq> 0x1000001c \<and> descriptor \<noteq> 0x2000001c)
        then Inl (BoardErr HwidRecord)
        else bindR (u32le data (off + 24)) (\<lambda>compatibleOffset.
          if compatibleOffset = 0 then Inr (False, hwidMatch)
          else bindR (cstring data (unat compatibleOffset)) (\<lambda>value.
            Inr (False, hwidMatch \<or> (descriptor = 0x1000001c \<and> value = Board))))))"

function hwid_loop :: "bytes \<Rightarrow> nat \<Rightarrow> bool \<Rightarrow> lb_error + bool" where
  "hwid_loop data off hwidMatch =
     (if off + 4 \<le> length data then
        (case hwid_record data off hwidMatch of
           Inl e \<Rightarrow> Inl e
         | Inr (terminated, m) \<Rightarrow> if terminated then Inr m else hwid_loop data (off + 28) m)
      else Inl (BoardErr HwidUnterminated))"
  by pat_completeness auto
termination by (relation "measure (\<lambda>(data, off, _). length data - off)") auto

declare hwid_loop.simps [simp del]

record board_state =
  bs_dtb :: bool
  bs_hwid :: bool
  bs_count :: nat

definition board_section :: "bytes \<Rightarrow> pe_section \<Rightarrow> board_state \<Rightarrow> lb_error + board_state" where
  "board_section loader s b =
     (if ps_name s \<noteq> ''.dtbauto'' \<and> ps_name s \<noteq> ''.hwids'' then Inr b
      else if ps_vsize s = 0 \<or> ps_size s < ps_vsize s then Inl (BoardErr HwidSection)
      else bindR (slice loader (unat (ps_offset s)) (unat (ps_offset s + ps_vsize s))) (\<lambda>data.
        if ps_name s = ''.dtbauto'' then
          bindR (rootCompatible data) (\<lambda>cs.
            Inr (case cs of Some (c # _) \<Rightarrow> if c = Board then b\<lparr>bs_dtb := True\<rparr> else b | _ \<Rightarrow> b))
        else
          let b1 = b\<lparr>bs_count := bs_count b + 1\<rparr> in
          if bs_count b1 \<noteq> 1 then Inl (BoardErr HwidDuplicate)
          else bindR (hwid_loop data 0 (bs_hwid b1)) (\<lambda>m. Inr (b1\<lparr>bs_hwid := m\<rparr>))))"

definition HasBoardMapping :: "bytes \<Rightarrow> lb_error + unit" where
  "HasBoardMapping loader =
     bindR (ARM64PE loader) (\<lambda>f.
     bindR (foldR (board_section loader) (pf_sections f) \<lparr>bs_dtb = False, bs_hwid = False, bs_count = 0\<rparr>) (\<lambda>b.
       need (bs_dtb b \<and> bs_hwid b) (BoardErr NoBoardMapping)))"

section \<open>A device tree and its flattened form\<close>

text \<open>
  The specification side: a tree of named nodes with properties and the blob that holds
  it, after the format of the Devicetree Specification. Property names live in the
  strings block, at the offset \<open>off\<close> gives for each.
\<close>

datatype dnode = DNode string "(string \<times> bytes) list" "dnode list"

definition pad4 :: "bytes \<Rightarrow> bytes" where
  "pad4 b = b @ zeros ((4 - length b mod 4) mod 4)"

fun flat_prop :: "(string \<Rightarrow> u32) \<Rightarrow> string \<times> bytes \<Rightarrow> bytes" where
  "flat_prop off (n, v) = be32 3 @ be32 (word_of_nat (length v)) @ be32 (off n) @ pad4 v"

fun flat_node :: "(string \<Rightarrow> u32) \<Rightarrow> dnode \<Rightarrow> bytes" where
  "flat_node off (DNode nm ps cs) =
     be32 1 @ pad4 (bytes_of nm @ [0]) @ concat (map (flat_prop off) ps) @
     concat (map (flat_node off) cs) @ be32 2"

fun node_tokens :: "dnode \<Rightarrow> nat" where
  "node_tokens (DNode nm ps cs) = 2 + length ps + sum_list (map node_tokens cs)"

definition dtb_blob :: "u32 list \<Rightarrow> bytes \<Rightarrow> (string \<Rightarrow> u32) \<Rightarrow> dnode \<Rightarrow> bytes \<Rightarrow> bytes" where
  "dtb_blob words rsv off root strs =
     (let st = flat_node off root @ be32 9; so = 40 + length rsv in
      be32 0xd00dfeed @ be32 (word_of_nat (so + length st + length strs)) @
      be32 (word_of_nat so) @ be32 (word_of_nat (so + length st)) @ concat (map be32 words) @
      be32 (word_of_nat (length strs)) @ be32 (word_of_nat (length st)) @ rsv @ st @ strs)"

definition text_ok :: "string \<Rightarrow> bool" where
  "text_ok s \<longleftrightarrow> length s < 256 \<and> CHR 0x00 \<notin> set s"

definition prop_ok :: "bytes \<Rightarrow> (string \<Rightarrow> u32) \<Rightarrow> string \<times> bytes \<Rightarrow> bool" where
  "prop_ok strs off p \<longleftrightarrow> cstring strs (unat (off (fst p))) = Inr (fst p) \<and> length (snd p) < 2 ^ 32"

fun node_ok :: "bytes \<Rightarrow> (string \<Rightarrow> u32) \<Rightarrow> dnode \<Rightarrow> bool" where
  "node_ok strs off (DNode nm ps cs) \<longleftrightarrow>
     text_ok nm \<and> list_all (prop_ok strs off) ps \<and> list_all (node_ok strs off) cs"

definition nul_list :: "string list \<Rightarrow> bytes" where
  "nul_list cs = concat (map (\<lambda>c. bytes_of c @ [0]) cs)"

definition compatible_ok :: "string list \<Rightarrow> bool" where
  "compatible_ok cs \<longleftrightarrow> cs \<noteq> [] \<and> length cs \<le> 32 \<and> length (nul_list cs) \<le> 4096 \<and>
     list_all (\<lambda>c. c \<noteq> '''' \<and> text_ok c) cs"

section \<open>The parser reads the tree back\<close>

lemma cstring_text:
  assumes "text_ok s"
  shows "cstring (a @ bytes_of s @ 0 # b) (length a) = Inr s"
proof -
  have z: "0 \<notin> set (bytes_of s)" using assms by (simp add: bytes_of_zero text_ok_def)
  have l: "length (bytes_of s) < 256" using assms by (simp add: text_ok_def)
  have w: "take 256 (drop (length a) (a @ bytes_of s @ 0 # b)) = bytes_of s @ 0 # take (255 - length s) b"
    using l by (simp add: take_Cons')
  have "takeWhile (\<lambda>x. x \<noteq> 0) (bytes_of s @ 0 # take (255 - length s) b) = bytes_of s"
    using z by (subst takeWhile_append2) auto
  then show ?thesis unfolding cstring_def w until_nul_def by simp
qed

lemma nul_list_simps [simp]: "nul_list [] = []" "nul_list (c # cs) = bytes_of c @ 0 # nul_list cs"
  by (simp_all add: nul_list_def)

lemma compatibles_nul_list:
  "length acc + length cs \<le> 32 \<Longrightarrow> list_all (\<lambda>c. c \<noteq> '''' \<and> text_ok c) cs \<Longrightarrow>
   compatibles (pre @ nul_list cs) (length pre) acc = Inr (acc @ cs)"
proof (induction cs arbitrary: pre acc)
  case Nil
  then show ?case by (simp add: compatibles.simps)
next
  case (Cons c cs)
  have c: "cstring (pre @ bytes_of c @ 0 # nul_list cs) (length pre) = Inr c"
    by (rule cstring_text) (use Cons.prems in simp)
  have "compatibles ((pre @ bytes_of c @ [0]) @ nul_list cs) (length (pre @ bytes_of c @ [0])) (acc @ [c]) =
      Inr ((acc @ [c]) @ cs)"
    by (rule Cons.IH) (use Cons.prems in simp_all)
  then show ?case using c Cons.prems by (simp add: compatibles.simps[of _ "length pre"])
qed

lemma length_pad4: "length (pad4 v) = (length v + 3) div 4 * 4"
proof -
  have "n + (4 - n mod 4) mod 4 = (n + 3) div 4 * 4" for n :: nat
  proof -
    obtain q r where n: "n = 4 * q + r" "r < 4" using mod_less_divisor[of 4 n] by (metis mult_div_mod_eq zero_less_numeral)
    have m: "(4 * q + r) mod 4 = r" "(4 * q + r + 3) div 4 = q + (r + 3) div 4" using n(2) by simp_all
    consider "r = 0" | "r = 1" | "r = 2" | "r = 3" using n(2) by linarith
    then show ?thesis unfolding n m by cases simp_all
  qed
  then show ?thesis by (simp add: pad4_def)
qed

lemma align4_pad4: "4 dvd p \<Longrightarrow> align4 (p + length v + 3) = p + length (pad4 v)"
proof -
  assume "4 dvd p"
  then obtain k where k: "p = 4 * k" by (rule dvdE)
  have "(4 * k + length v + 3) div 4 = k + (length v + 3) div 4"
    using div_mult_self2[of 4 "length v + 3" k] by (simp add: ac_simps)
  then show ?thesis by (simp add: length_pad4 align4_def k)
qed

lemma dvd_length_flat [simp]: "4 dvd length (flat_prop off p)" "4 dvd length (flat_node off n)"
proof -
  show p: "4 dvd length (flat_prop off p)" for p by (cases p) (simp add: length_pad4)
  show "4 dvd length (flat_node off n)"
  proof (induction n)
    case (DNode nm ps cs)
    have "4 dvd length (concat (map (flat_prop off) ps))" using p by (induction ps) auto
    moreover have "4 dvd length (concat (map (flat_node off) cs))" using DNode by (induction cs) auto
    ultimately show ?case by (simp add: length_pad4)
  qed
qed

lemma dtb_loop_more:
  "d_pos s + 4 \<le> length st \<Longrightarrow> dtb_step st strs s = Inr (More s') \<Longrightarrow>
   dtb_loop st strs s = dtb_loop st strs s'"
  by (simp add: dtb_loop.simps[of st strs s])

definition prop_effect :: "string list \<Rightarrow> int \<Rightarrow> string \<Rightarrow> string list option \<Rightarrow> string list option" where
  "prop_effect cs d n c = (if d = 1 \<and> n = ''compatible'' then Some cs else c)"

lemma dtb_loop_prop:
  assumes st: "st = a @ flat_prop off (n, v) @ b" and a: "4 dvd length a" "d_pos s = length a"
    and ok: "prop_ok strs off (n, v)" and d: "1 \<le> d_depth s" and t: "d_tokens s + 1 \<le> 65536"
    and c: "d_depth s = 1 \<Longrightarrow> n = ''compatible'' \<Longrightarrow> d_compatible s = None \<and> v = nul_list cs \<and> compatible_ok cs"
  shows "dtb_loop st strs s = dtb_loop st strs (s\<lparr>d_pos := length a + length (flat_prop off (n, v)),
    d_tokens := d_tokens s + 1, d_compatible := prop_effect cs (d_depth s) n (d_compatible s)\<rparr>)"
proof -
  have tok: "u32be st (length a) = Inr 3" using read_at(3)[of a 3] by (simp add: st)
  have sz: "u32be st (length a + 4) = Inr (word_of_nat (length v))"
    using read_at(3)[of "a @ be32 3" "word_of_nat (length v)"] by (simp add: st add.commute)
  have no: "u32be st (8 + length a) = Inr (off n)"
    using read_at(3)[of "a @ be32 3 @ be32 (word_of_nat (length v))" "off n"] by (simp add: st add.commute)
  have len: "unat (word_of_nat (length v) :: u32) = length v"
    using ok by (simp add: prop_ok_def unat_of_nat)
  then have ulen: "uint (word_of_nat (length v) :: u32) = int (length v)" by (simp add: uint_nat)
  have val: "slice st (12 + length a) (12 + length a + length v) = Inr v"
    by (simp add: slice_iff st pad4_def)
  have fits: "int (length st) \<ge> int (length a + 12) + int (length v)" "length a + 12 \<le> length st"
    by (simp_all add: st pad4_def)
  have al: "align4 (length a + 12 + length v + 3) = length a + length (flat_prop off (n, v))"
    using align4_pad4[of "length a + 12" v] a(1) by simp
  have name: "cstring strs (unat (off n)) = Inr n" using ok by (simp add: prop_ok_def)
  have last: "v \<noteq> [] \<and> List.last v = 0 \<and> int (length v) \<le> 4096 \<and> compatibles v 0 [] = Inr cs"
    if "d_depth s = 1" "n = ''compatible''"
  proof -
    from c[OF that] have v: "v = nul_list cs" "compatible_ok cs" by auto
    then have "compatibles ([] @ nul_list cs) (length ([] :: bytes)) [] = Inr ([] @ cs)"
      by (intro compatibles_nul_list) (auto simp: compatible_ok_def)
    moreover obtain cs' x where "cs = cs' @ [x]" using v by (cases cs rule: rev_cases) (auto simp: compatible_ok_def)
    ultimately show ?thesis using v by (auto simp: nul_list_def compatible_ok_def)
  qed
  have "dtb_step st strs s = dtb_prop st strs (s\<lparr>d_tokens := d_tokens s + 1, d_pos := length a + 4\<rparr>)"
    using t a(2) by (simp add: dtb_step_def Let_def tok)
  also have "\<dots> = Inr (More (s\<lparr>d_pos := length a + length (flat_prop off (n, v)),
    d_tokens := d_tokens s + 1, d_compatible := prop_effect cs (d_depth s) n (d_compatible s)\<rparr>))"
  proof (cases "d_depth s = 1 \<and> n = ''compatible''")
    case True
    with c have none: "d_compatible s = None" by blast
    note l = last[OF conjunct1[OF True] conjunct2[OF True]]
    show ?thesis
      using d fits al val sz no name True none l
      by (simp add: dtb_prop_def Let_def len ulen prop_effect_def)
  next
    case False
    then show ?thesis
      using d fits al val sz no name by (auto simp: dtb_prop_def Let_def len ulen prop_effect_def)
  qed
  finally show ?thesis by (intro dtb_loop_more) (use a fits in simp_all)
qed

lemma dtb_loop_props:
  assumes "st = a @ concat (map (flat_prop off) ps) @ b" and "4 dvd length a" and "d_pos s = length a"
    and "list_all (prop_ok strs off) ps" and "1 \<le> d_depth s" and "d_tokens s + length ps \<le> 65536"
    and "d_depth s = 1 \<Longrightarrow> distinct (map fst ps) \<and> (''compatible'' \<in> fst ` set ps \<longrightarrow> d_compatible s = None) \<and>
      (\<forall>v. (''compatible'', v) \<in> set ps \<longrightarrow> v = nul_list cs \<and> compatible_ok cs)"
  shows "dtb_loop st strs s = dtb_loop st strs (s\<lparr>d_pos := length a + length (concat (map (flat_prop off) ps)),
    d_tokens := d_tokens s + length ps,
    d_compatible := fold (prop_effect cs (d_depth s)) (map fst ps) (d_compatible s)\<rparr>)"
  using assms
proof (induction ps arbitrary: a s)
  case Nil
  then have "s\<lparr>d_pos := length a\<rparr> = s" by (cases s) simp
  then show ?case by simp
next
  case (Cons p ps)
  obtain n v where p: "p = (n, v)" by (cases p)
  define s1 where "s1 = s\<lparr>d_pos := length a + length (flat_prop off (n, v)), d_tokens := d_tokens s + 1,
    d_compatible := prop_effect cs (d_depth s) n (d_compatible s)\<rparr>"
  have one: "dtb_loop st strs s = dtb_loop st strs s1"
    unfolding s1_def
    by (rule dtb_loop_prop[of st a off n v "concat (map (flat_prop off) ps) @ b"])
       (use Cons.prems p in \<open>auto simp: image_iff\<close>)
  have s1: "d_pos s1 = length (a @ flat_prop off (n, v))" "d_depth s1 = d_depth s"
    "d_tokens s1 = d_tokens s + 1" "d_compatible s1 = prop_effect cs (d_depth s) n (d_compatible s)"
    by (simp_all add: s1_def)
  have rest: "dtb_loop st strs s1 = dtb_loop st strs (s1\<lparr>d_pos := length (a @ flat_prop off (n, v)) +
      length (concat (map (flat_prop off) ps)), d_tokens := d_tokens s1 + length ps,
      d_compatible := fold (prop_effect cs (d_depth s1)) (map fst ps) (d_compatible s1)\<rparr>)"
  proof (rule Cons.IH)
    show "st = (a @ flat_prop off (n, v)) @ concat (map (flat_prop off) ps) @ b" using Cons.prems p by simp
    show "4 dvd length (a @ flat_prop off (n, v))" using Cons.prems(2) by (simp del: flat_prop.simps)
  qed (use Cons.prems p s1 in \<open>auto simp: prop_effect_def image_iff\<close>)
  show ?case unfolding one rest by (simp add: s1_def p add.assoc)
qed

text \<open>The token of a node and its name; the depth grows by one.\<close>

lemma dtb_loop_begin:
  assumes st: "st = a @ be32 1 @ pad4 (bytes_of nm @ [0]) @ b" and a: "4 dvd length a" "d_pos s = length a"
    and t: "d_tokens s + 1 \<le> 65536" and nm: "text_ok nm" "d_depth s = 0 \<Longrightarrow> nm = ''''"
  shows "dtb_loop st strs s = dtb_loop st strs (s\<lparr>d_pos := length a + length (be32 1 @ pad4 (bytes_of nm @ [0])),
    d_tokens := d_tokens s + 1, d_depth := d_depth s + 1,
    d_roots := (if d_depth s = 0 then d_roots s + 1 else d_roots s)\<rparr>)"
proof -
  have tok: "u32be st (length a) = Inr 1" using read_at(3)[of a 1] by (simp add: st)
  have name: "cstring st (length a + 4) = Inr nm"
    using cstring_text[OF nm(1), of "a @ be32 1"] by (simp add: st pad4_def)
  have al: "align4 (length a + 4 + length nm + 1 + 3) = length a + length (be32 1 @ pad4 (bytes_of nm @ [0]))"
    using align4_pad4[of "length a + 4" "bytes_of nm @ [0]"] a(1) by (simp add: add.assoc)
  have fits: "length a + 4 \<le> length st" by (simp add: st)
  have "dtb_step st strs s = dtb_begin st (s\<lparr>d_tokens := d_tokens s + 1, d_pos := length a + 4\<rparr>)"
    using t a(2) by (simp add: dtb_step_def Let_def tok)
  also have "\<dots> = Inr (More (s\<lparr>d_pos := length a + length (be32 1 @ pad4 (bytes_of nm @ [0])),
    d_tokens := d_tokens s + 1, d_depth := d_depth s + 1,
    d_roots := (if d_depth s = 0 then d_roots s + 1 else d_roots s)\<rparr>))"
    using al nm(2) name by (auto simp: dtb_begin_def Let_def)
  finally show ?thesis by (intro dtb_loop_more) (use a fits in simp_all)
qed

lemma dtb_loop_end:
  assumes st: "st = a @ be32 2 @ b" and a: "d_pos s = length a"
    and t: "d_tokens s + 1 \<le> 65536" and d: "1 \<le> d_depth s"
  shows "dtb_loop st strs s = dtb_loop st strs (s\<lparr>d_pos := length a + 4, d_tokens := d_tokens s + 1,
    d_depth := d_depth s - 1\<rparr>)"
proof -
  have tok: "u32be st (length a) = Inr 2" using read_at(3)[of a 2] by (simp add: st)
  show ?thesis
    by (rule dtb_loop_more) (use a t d tok in \<open>simp_all add: st dtb_step_def dtb_end_def Let_def\<close>)
qed

lemma prop_effect_deep [simp]: "1 < d \<Longrightarrow> prop_effect cs d n c = c"
  by (simp add: prop_effect_def)

lemma fold_prop_effect_deep [simp]: "1 < d \<Longrightarrow> fold (prop_effect cs d) ns c = c"
  by (induction ns arbitrary: c) simp_all

text \<open>A node below the root is skipped: the position and the token count move, nothing else.\<close>

definition skipped :: "bytes \<Rightarrow> (string \<Rightarrow> u32) \<Rightarrow> dnode \<Rightarrow> bool" where
  "skipped strs off n \<longleftrightarrow> (\<forall>st a b s. st = a @ flat_node off n @ b \<and> 4 dvd length a \<and> d_pos s = length a \<and>
     1 \<le> d_depth s \<and> d_tokens s + node_tokens n \<le> 65536 \<longrightarrow>
     dtb_loop st strs s = dtb_loop st strs (s\<lparr>d_pos := length a + length (flat_node off n),
       d_tokens := d_tokens s + node_tokens n\<rparr>))"

lemma dtb_loop_nodes:
  assumes "\<And>n. n \<in> set ns \<Longrightarrow> skipped strs off n"
    and "st = a @ concat (map (flat_node off) ns) @ b" and "4 dvd length a" and "d_pos s = length a"
    and "1 \<le> d_depth s" and "d_tokens s + sum_list (map node_tokens ns) \<le> 65536"
  shows "dtb_loop st strs s = dtb_loop st strs (s\<lparr>d_pos := length a + length (concat (map (flat_node off) ns)),
     d_tokens := d_tokens s + sum_list (map node_tokens ns)\<rparr>)"
  using assms
proof (induction ns arbitrary: a s)
  case Nil
  then have "s\<lparr>d_pos := length a\<rparr> = s" by (cases s) simp
  then show ?case by simp
next
  case (Cons n ns)
  define s1 where "s1 = s\<lparr>d_pos := length a + length (flat_node off n), d_tokens := d_tokens s + node_tokens n\<rparr>"
  have "skipped strs off n" using Cons.prems(1) by simp
  then have one: "dtb_loop st strs s = dtb_loop st strs s1"
    unfolding skipped_def s1_def by (rule allE) (use Cons.prems in fastforce)
  have rest: "dtb_loop st strs s1 = dtb_loop st strs (s1\<lparr>d_pos := length (a @ flat_node off n) +
      length (concat (map (flat_node off) ns)), d_tokens := d_tokens s1 + sum_list (map node_tokens ns)\<rparr>)"
    by (rule Cons.IH) (use Cons.prems in \<open>auto simp: s1_def\<close>)
  show ?case unfolding one rest by (simp add: s1_def add.assoc)
qed

lemma node_skipped: "node_ok strs off n \<Longrightarrow> skipped strs off n"
proof (induction n)
  case (DNode nm ps cs)
  have kids: "skipped strs off c" if "c \<in> set cs" for c
    using DNode that by (simp add: list_all_iff)
  show ?case
    unfolding skipped_def
  proof (intro allI impI)
    fix st a b and s :: dtb_state
    let ?n = "DNode nm ps cs"
    let ?h = "be32 1 @ pad4 (bytes_of nm @ [0])"
    let ?p = "concat (map (flat_prop off) ps)"
    let ?c = "concat (map (flat_node off) cs)"
    assume as: "st = a @ flat_node off ?n @ b \<and> 4 dvd length a \<and> d_pos s = length a \<and>
     1 \<le> d_depth s \<and> d_tokens s + node_tokens ?n \<le> 65536"
    have dv: "4 dvd length ?h" "4 dvd length ?p"
      using dvd_length_flat(1) by (simp_all add: length_pad4, induction ps) auto
    define s1 where "s1 = s\<lparr>d_pos := length a + length ?h, d_tokens := d_tokens s + 1, d_depth := d_depth s + 1\<rparr>"
    have 1: "dtb_loop st strs s = dtb_loop st strs s1"
      using dtb_loop_begin[of st a nm "?p @ ?c @ be32 2 @ b" s strs] as DNode.prems by (auto simp: s1_def)
    define s2 where "s2 = s1\<lparr>d_pos := length (a @ ?h) + length ?p, d_tokens := d_tokens s1 + length ps\<rparr>"
    have "dtb_loop st strs s1 = dtb_loop st strs (s1\<lparr>d_pos := length (a @ ?h) + length ?p,
        d_tokens := d_tokens s1 + length ps,
        d_compatible := fold (prop_effect [] (d_depth s1)) (map fst ps) (d_compatible s1)\<rparr>)"
      by (rule dtb_loop_props[of st "a @ ?h" off ps "?c @ be32 2 @ b"])
         (use as DNode.prems dv(1) in \<open>auto simp: s1_def\<close>)
    moreover have "1 < d_depth s1" using as by (simp add: s1_def)
    ultimately have 2: "dtb_loop st strs s1 = dtb_loop st strs s2"
      by (simp add: s2_def)
    define s3 where "s3 = s2\<lparr>d_pos := length (a @ ?h @ ?p) + length ?c,
      d_tokens := d_tokens s2 + sum_list (map node_tokens cs)\<rparr>"
    have 3: "dtb_loop st strs s2 = dtb_loop st strs s3"
      unfolding s3_def
      by (rule dtb_loop_nodes[of cs strs off st "a @ ?h @ ?p" "be32 2 @ b"])
         (use as kids dv in \<open>auto simp: s1_def s2_def\<close>)
    have 4: "dtb_loop st strs s3 = dtb_loop st strs (s3\<lparr>d_pos := length (a @ ?h @ ?p @ ?c) + 4,
        d_tokens := d_tokens s3 + 1, d_depth := d_depth s3 - 1\<rparr>)"
      by (rule dtb_loop_end[of st "a @ ?h @ ?p @ ?c" b]) (use as in \<open>auto simp: s1_def s2_def s3_def\<close>)
    show "dtb_loop st strs s = dtb_loop st strs (s\<lparr>d_pos := length a + length (flat_node off ?n),
       d_tokens := d_tokens s + node_tokens ?n\<rparr>)"
      unfolding 1 2 3 4 by (simp add: s1_def s2_def s3_def add.assoc)
  qed
qed

lemma fold_prop_effect_root:
  "fold (prop_effect cs 1) ns c = (if ''compatible'' \<in> set ns then Some cs else c)"
  by (induction ns arbitrary: c) (auto simp: prop_effect_def)

lemma dtb_loop_root:
  assumes ok: "node_ok strs off (DNode '''' ps kids)" and d: "distinct (map fst ps)"
    and c: "\<forall>v. (''compatible'', v) \<in> set ps \<longrightarrow> v = nul_list cs \<and> compatible_ok cs"
    and t: "node_tokens (DNode '''' ps kids) < 65536"
  shows "dtb_loop (flat_node off (DNode '''' ps kids) @ be32 9) strs dtb_start =
    Inr (if ''compatible'' \<in> fst ` set ps then Some cs else None)"
proof -
  let ?h = "be32 1 @ pad4 (bytes_of '''' @ [0])"
  let ?p = "concat (map (flat_prop off) ps)"
  let ?c = "concat (map (flat_node off) kids)"
  let ?st = "flat_node off (DNode '''' ps kids) @ be32 9"
  let ?res = "if ''compatible'' \<in> fst ` set ps then Some cs else None"
  have dv: "4 dvd length ?h" "4 dvd length ?p"
    using dvd_length_flat(1) by (simp_all add: length_pad4, induction ps) auto
  define s1 where "s1 = dtb_start\<lparr>d_pos := length ?h, d_tokens := 1, d_depth := 1, d_roots := 1\<rparr>"
  have 1: "dtb_loop ?st strs dtb_start = dtb_loop ?st strs s1"
    using dtb_loop_begin[of ?st "[]" "''''" "?p @ ?c @ be32 2 @ be32 9" dtb_start strs]
    by (simp add: s1_def dtb_start_def text_ok_def)
  define s2 where "s2 = s1\<lparr>d_pos := length ?h + length ?p, d_tokens := 1 + length ps, d_compatible := ?res\<rparr>"
  have "dtb_loop ?st strs s1 = dtb_loop ?st strs (s1\<lparr>d_pos := length ?h + length ?p,
      d_tokens := d_tokens s1 + length ps,
      d_compatible := fold (prop_effect cs (d_depth s1)) (map fst ps) (d_compatible s1)\<rparr>)"
    by (rule dtb_loop_props[of ?st ?h off ps "?c @ be32 2 @ be32 9"])
       (use ok d c t dv(1) in \<open>auto simp: s1_def dtb_start_def\<close>)
  then have 2: "dtb_loop ?st strs s1 = dtb_loop ?st strs s2"
    by (simp add: s1_def s2_def fold_prop_effect_root dtb_start_def)
  define s3 where "s3 = s2\<lparr>d_pos := length (?h @ ?p) + length ?c,
    d_tokens := d_tokens s2 + sum_list (map node_tokens kids)\<rparr>"
  have kids: "skipped strs off k" if "k \<in> set kids" for k
    using ok that by (auto simp: list_all_iff intro: node_skipped)
  have 3: "dtb_loop ?st strs s2 = dtb_loop ?st strs s3"
    unfolding s3_def
    by (rule dtb_loop_nodes[of kids strs off ?st "?h @ ?p" "be32 2 @ be32 9"])
       (use kids dv t in \<open>auto simp: s1_def s2_def\<close>)
  define s4 where "s4 = s3\<lparr>d_pos := length (?h @ ?p @ ?c) + 4, d_tokens := d_tokens s3 + 1, d_depth := d_depth s3 - 1\<rparr>"
  have 4: "dtb_loop ?st strs s3 = dtb_loop ?st strs s4"
    unfolding s4_def
    by (rule dtb_loop_end[of ?st "?h @ ?p @ ?c" "be32 9"]) (use t in \<open>auto simp: s1_def s2_def s3_def\<close>)
  have pos: "d_pos s4 = length (flat_node off (DNode '''' ps kids))"
    by (simp add: s4_def)
  have tok: "u32be ?st (d_pos s4) = Inr 9"
    unfolding pos using read_at(3)[of "flat_node off (DNode '''' ps kids)" 9 "[]"] by simp
  have "d_tokens s4 + 1 \<le> 65536" "d_depth s4 = 0" "d_roots s4 = 1" "d_compatible s4 = ?res"
    using t by (simp_all add: s1_def s2_def s3_def s4_def)
  then have step: "dtb_step ?st strs s4 = Inr (Done ?res)"
    using tok by (simp add: dtb_step_def Let_def)
  have "d_pos s4 + 4 \<le> length ?st" unfolding pos by simp
  then have "dtb_loop ?st strs s4 = Inr ?res"
    by (subst dtb_loop.simps) (simp only: step if_True sum.case dtb_turn.case)
  then show ?thesis unfolding 1 2 3 4 .
qed

lemma be32_word_of_nat_small: "n < 2 ^ 32 \<Longrightarrow> unat (word_of_nat n :: u32) = n" "n < 2 ^ 32 \<Longrightarrow> uint (word_of_nat n :: u32) = int n"
  by (simp_all add: unat_of_nat take_bit_eq_mod uint_nat)

text \<open>
  C33. On the flattened form of any device tree that is within the limits, whatever lies
  between its blocks and behind it, \<^verbatim>\<open>rootCompatible\<close> returns the compatible list of the
  root node: no property or node below the root is taken for it.
\<close>

theorem rootCompatible_reads_tree:
  assumes "node_ok strs off (DNode '''' ps kids)" and "distinct (map fst ps)"
    and "\<forall>v. (''compatible'', v) \<in> set ps \<longrightarrow> v = nul_list cs \<and> compatible_ok cs"
    and "node_tokens (DNode '''' ps kids) < 65536"
    and "length words = 4" and "4 dvd length rsv"
    and "length (dtb_blob words rsv off (DNode '''' ps kids) strs) < 2 ^ 32"
  shows "rootCompatible (dtb_blob words rsv off (DNode '''' ps kids) strs @ junk) =
    Inr (if ''compatible'' \<in> fst ` set ps then Some cs else None)"
proof -
  obtain w1 w2 w3 w4 where words: "words = [w1, w2, w3, w4]"
    using assms(5) by (auto simp: length_Suc_conv numeral_eq_Suc)
  define root where "root = DNode '''' ps kids"
  define st where "st = flat_node off root @ be32 9"
  define so where "so = 40 + length rsv"
  define total where "total = so + length st + length strs"
  define data where "data = dtb_blob words rsv off root strs @ junk"
  have data: "data = be32 0xd00dfeed @ be32 (word_of_nat total) @ be32 (word_of_nat so) @
      be32 (word_of_nat (so + length st)) @ be32 w1 @ be32 w2 @ be32 w3 @ be32 w4 @
      be32 (word_of_nat (length strs)) @ be32 (word_of_nat (length st)) @ rsv @ st @ strs @ junk"
    by (simp add: data_def dtb_blob_def Let_def st_def so_def total_def words)
  have "length (dtb_blob words rsv off root strs) = total"
    by (simp add: dtb_blob_def Let_def st_def so_def total_def words)
  then have small: "total < 2 ^ 32" using assms(7) by (simp add: root_def)
  have w: "u32be data 0 = Inr 0xd00dfeed" "u32be data 4 = Inr (word_of_nat total)"
    "u32be data 8 = Inr (word_of_nat so)" "u32be data 12 = Inr (word_of_nat (so + length st))"
    "u32be data 32 = Inr (word_of_nat (length strs))" "u32be data 36 = Inr (word_of_nat (length st))"
    unfolding data by (simp_all add: u32be_def rd_def)
  have n: "unat (word_of_nat so :: u32) = so" "unat (word_of_nat (length st) :: u32) = length st"
    "unat (word_of_nat (length strs) :: u32) = length strs"
    "unat (word_of_nat (so + length st) :: u32) = so + length st"
    by (rule be32_word_of_nat_small(1), use small in \<open>simp add: total_def\<close>)+
  have u: "uint (word_of_nat so :: u32) = int so" "uint (word_of_nat (length st) :: u32) = int (length st)"
    "uint (word_of_nat (length strs) :: u32) = int (length strs)" "uint (word_of_nat total :: u32) = int total"
    "uint (word_of_nat (so + length st) :: u32) = int (so + length st)"
    by (rule be32_word_of_nat_small(2), use small in \<open>simp add: total_def\<close>)+
  have four: "int so mod 4 = 0" "int (length st) mod 4 = 0"
  proof -
    have "4 dvd so" using assms(6) by (simp add: so_def)
    moreover have "4 dvd length st" by (simp add: st_def)
    ultimately show "int so mod 4 = 0" "int (length st) mod 4 = 0" by presburger+
  qed
  have ge: "\<not> (word_of_nat so :: u32) < 40" "\<not> (word_of_nat total :: u32) < 40"
    "\<not> (word_of_nat (so + length st) :: u32) < 40"
    by (simp_all only: word_less_nat_alt n be32_word_of_nat_small(1)[OF small]) (simp_all add: so_def total_def)
  have sl: "slice data so (so + length st) = Inr st"
    "slice data (so + length st) (so + length st + length strs) = Inr strs"
    by (simp_all add: data so_def slice_iff)
  have len: "40 \<le> length data" "total \<le> length data" by (simp_all add: data total_def so_def)
  have "rootCompatible data = dtb_loop st strs dtb_start"
    using four ge sl len w n u by (simp add: rootCompatible_def total_def)
  also have "\<dots> = Inr (if ''compatible'' \<in> fst ` set ps then Some cs else None)"
    unfolding st_def root_def by (rule dtb_loop_root[OF assms(1-4)])
  finally show ?thesis by (simp add: data_def root_def)
qed

section \<open>No read outside a section\<close>

lemma cstring_no_panic: "cstring data off \<noteq> Inl Panic"
  by (simp add: cstring_def Let_def)

lemma compatibles_no_panic: "compatibles v off acc \<noteq> Inl Panic"
  by (induction v off acc rule: compatibles.induct)
     (subst compatibles.simps, auto simp: cstring_no_panic split: sum.splits)

definition safe :: "lb_error + 'a \<Rightarrow> bool" where
  "safe r \<longleftrightarrow> r \<noteq> Inl Panic"

lemma safe_intros:
  "safe r \<Longrightarrow> (\<And>a. r = Inr a \<Longrightarrow> safe (f a)) \<Longrightarrow> safe (bindR r f)"
  "(c \<Longrightarrow> safe x) \<Longrightarrow> (\<not> c \<Longrightarrow> safe y) \<Longrightarrow> safe (if c then x else y)"
  "safe (Inr a)" "e \<noteq> Panic \<Longrightarrow> safe (Inl e)"
  "off + 4 \<le> length data \<Longrightarrow> safe (u32be data off)"
  "safe (cstring data off)" "safe (compatibles v off acc)"
  by (cases r) (auto simp: safe_def u32be_def rd_def cstring_no_panic compatibles_no_panic)

lemma safe_slice: "a \<le> b \<Longrightarrow> b \<le> length data \<Longrightarrow> safe (slice data a b)"
  by (simp add: safe_def slice_def)

lemma dtb_prop_no_panic: "dtb_prop st strs s \<noteq> Inl Panic"
proof (cases "length st < d_pos s + 8 \<or> d_depth s = 0")
  case False
  have sl: "safe (slice st (d_pos s + 8) (d_pos s + 8 + unat size))"
    if "\<not> int (length st) < int (d_pos s + 8) + uint size" for size :: u32
  proof -
    have "d_pos s + 8 + unat size \<le> length st"
      using that by (simp only: uint_nat of_nat_add[symmetric] of_nat_less_iff not_less)
    then show ?thesis by (intro safe_slice) simp_all
  qed
  have "safe (dtb_prop st strs s)"
    unfolding dtb_prop_def Let_def if_not_P[OF False]
    by (intro safe_intros sl) (use False in simp_all)
  then show ?thesis by (simp add: safe_def)
qed (simp add: dtb_prop_def)

lemma dtb_step_no_panic: "d_pos s + 4 \<le> length st \<Longrightarrow> dtb_step st strs s \<noteq> Inl Panic"
  by (auto simp: dtb_step_def Let_def bindR_Inl_iff u32be_def rd_Inl_iff dtb_begin_def dtb_end_def
      cstring_no_panic dtb_prop_no_panic split: if_splits)

lemma dtb_loop_no_panic: "dtb_loop st strs s \<noteq> Inl Panic"
proof (induction st strs s rule: dtb_loop.induct)
  case (1 st strs s)
  show ?case
  proof (cases "d_pos s + 4 \<le> length st")
    case True
    then show ?thesis using 1 dtb_step_no_panic[OF True, of strs]
      by (subst dtb_loop.simps) (auto split: sum.splits dtb_turn.splits)
  qed (simp add: dtb_loop.simps)
qed

lemma rootCompatible_no_panic: "rootCompatible data \<noteq> Inl Panic"
proof (cases "length data < 40")
  case False
  have sl: "safe (slice data (unat a) (unat a + unat b))"
    if "\<not> int (length data) < uint t" "\<not> uint t < uint a + uint b" for a b t :: u32
  proof -
    have "unat a + unat b \<le> unat t" "unat t \<le> length data"
      using that by (simp_all only: uint_nat of_nat_add[symmetric] of_nat_less_iff not_less)
    then show ?thesis by (intro safe_slice) simp_all
  qed
  have loop: "safe (dtb_loop st strs s)" for st strs s by (simp add: safe_def dtb_loop_no_panic)
  have "safe (rootCompatible data)"
    unfolding rootCompatible_def if_not_P[OF False]
    by (intro safe_intros loop) ((use False in \<open>simp; fail\<close>) | (rule sl, blast, blast))+
  then show ?thesis by (simp add: safe_def)
qed (simp add: rootCompatible_def)

lemma hwid_loop_no_panic: "hwid_loop data off m \<noteq> Inl Panic"
proof (induction data off m rule: hwid_loop.induct)
  case (1 data off m)
  have "hwid_record data off m \<noteq> Inl Panic" if "off + 4 \<le> length data"
    using that by (auto simp: hwid_record_def bindR_Inl_iff u32le_def rd_Inl_iff cstring_no_panic split: if_splits)
  then show ?case using 1 by (subst hwid_loop.simps) (auto split: sum.splits)
qed

text \<open>
  The 32-bit sum of an offset and a virtual size cannot wrap for a section of an accepted
  image, and ends inside it.
\<close>

lemma section_payload:
  assumes "ARM64PE loader = Inr f" and "s \<in> set (pf_sections f)"
    and "ps_vsize s \<noteq> 0" and "ps_vsize s \<le> ps_size s"
  shows "unat (ps_offset s + ps_vsize s) = unat (ps_offset s) + unat (ps_vsize s)"
    and "unat (ps_offset s) + unat (ps_vsize s) \<le> length loader"
    and "slice loader (unat (ps_offset s)) (unat (ps_offset s + ps_vsize s)) =
      Inr (take (unat (ps_vsize s)) (drop (unat (ps_offset s)) loader))"
proof -
  have v: "unat (ps_vsize s) \<le> unat (ps_size s)" using assms(4) by (simp add: word_le_nat_alt)
  have "ps_size s \<noteq> 0" using assms(3,4) by auto
  then have inside: "unat (ps_offset s) + unat (ps_size s) \<le> length loader"
    by (rule ARM64PE_section_inside[OF assms(1,2)])
  have "int (length loader) \<le> MaxPayloadBytes"
    using assms(1) by (auto simp: ARM64PE_def split: if_splits)
  then have small: "length loader \<le> 2 ^ 26" by (simp add: MaxPayloadBytes_def)
  then show sum: "unat (ps_offset s + ps_vsize s) = unat (ps_offset s) + unat (ps_vsize s)"
    using inside v by (simp add: unat_word_ariths)
  show le: "unat (ps_offset s) + unat (ps_vsize s) \<le> length loader" using inside v by simp
  show "slice loader (unat (ps_offset s)) (unat (ps_offset s + ps_vsize s)) =
      Inr (take (unat (ps_vsize s)) (drop (unat (ps_offset s)) loader))"
    unfolding sum using le by (simp add: slice_def)
qed

lemma HasBoardMapping_no_panic: "HasBoardMapping loader \<noteq> Inl Panic"
proof
  assume "HasBoardMapping loader = Inl Panic"
  then obtain f s b where f: "ARM64PE loader = Inr f" "s \<in> set (pf_sections f)"
    and p: "board_section loader s b = Inl Panic"
    by (auto simp: HasBoardMapping_def bindR_Inl_iff ARM64PE_no_panic dest!: foldR_Inl)
  have "slice loader (unat (ps_offset s)) (unat (ps_offset s + ps_vsize s)) \<noteq> Inl Panic"
    if "ps_vsize s \<noteq> 0" "\<not> ps_size s < ps_vsize s"
    using section_payload(3)[OF f that(1)] that(2) by simp
  with p show False
    by (auto simp: board_section_def bindR_Inl_iff Let_def rootCompatible_no_panic hwid_loop_no_panic split: if_splits)
qed

section \<open>What an accepted loader maps\<close>

definition payload :: "bytes \<Rightarrow> pe_section \<Rightarrow> bytes" where
  "payload loader s = take (unat (ps_vsize s)) (drop (unat (ps_offset s)) loader)"

definition hwid_kind :: "bytes \<Rightarrow> nat \<Rightarrow> bool" where
  "hwid_kind data k \<longleftrightarrow> u32le data (28 * k) = Inr 0x1000001c \<or> u32le data (28 * k) = Inr 0x2000001c"

definition hwid_names :: "bytes \<Rightarrow> nat \<Rightarrow> string \<Rightarrow> bool" where
  "hwid_names data k name \<longleftrightarrow> k < 4096 \<and> (\<forall>j\<le>k. hwid_kind data j) \<and> u32le data (28 * k) = Inr 0x1000001c \<and>
     (\<exists>off. u32le data (28 * k + 24) = Inr off \<and> off \<noteq> 0 \<and> cstring data (unat off) = Inr name)"

lemma hwid_record_match:
  assumes "hwid_record data (28 * n) m = Inr (fin, r)" and "\<forall>j<n. hwid_kind data j"
  shows "(\<not> fin \<longrightarrow> hwid_kind data n) \<and> (r \<longrightarrow> m \<or> hwid_names data n Board)"
proof -
  have le: "(\<forall>j\<le>n. hwid_kind data j) \<longleftrightarrow> hwid_kind data n"
    using assms(2) by (auto simp: order_le_less)
  show ?thesis
    using assms(1) unfolding hwid_names_def le
    by (auto simp: hwid_record_def bindR_Inr_iff hwid_kind_def split: if_splits)
qed

lemma hwid_loop_match:
  "hwid_loop data (28 * n) m = Inr r \<Longrightarrow> \<forall>j<n. hwid_kind data j \<Longrightarrow> r \<Longrightarrow> m \<or> (\<exists>k. hwid_names data k Board)"
proof (induction data "28 * n" m arbitrary: n rule: hwid_loop.induct)
  case (1 data m)
  from "1.prems"(1) have fits: "28 * n + 4 \<le> length data"
    by (subst (asm) hwid_loop.simps) (simp split: if_splits)
  with "1.prems"(1) obtain fin m' where rec: "hwid_record data (28 * n) m = Inr (fin, m')"
    and res: "(if fin then Inr m' else hwid_loop data (28 * n + 28) m') = Inr r"
    by (subst (asm) hwid_loop.simps) (auto split: sum.splits)
  note match = hwid_record_match[OF rec "1.prems"(2)]
  show ?case
  proof (cases fin)
    case True
    then show ?thesis using match res "1.prems"(3) by auto
  next
    case False
    have "m' \<or> (\<exists>k. hwid_names data k Board)"
    proof (rule "1.hyps"[OF fits rec refl False, of "Suc n"])
      show "\<forall>j<Suc n. hwid_kind data j" using "1.prems"(2) match False by (auto simp: less_Suc_eq)
      show "hwid_loop data (28 * Suc n) m' = Inr r" using res False by (simp add: add.commute)
    qed (use "1.prems"(3) in simp_all)
    then show ?thesis using match by blast
  qed
qed

definition dtb_names :: "bytes \<Rightarrow> pe_section list \<Rightarrow> string \<Rightarrow> bool" where
  "dtb_names loader ss name \<longleftrightarrow>
     (\<exists>s \<in> set ss. ps_name s = ''.dtbauto'' \<and> (\<exists>rest. rootCompatible (payload loader s) = Inr (Some (name # rest))))"

lemma board_sections_sound:
  assumes "ARM64PE loader = Inr f"
  shows "set ss \<subseteq> set (pf_sections f) \<Longrightarrow>
    foldR (board_section loader) ss \<lparr>bs_dtb = False, bs_hwid = False, bs_count = 0\<rparr> = Inr b \<Longrightarrow>
    bs_count b = length (filter (\<lambda>s. ps_name s = ''.hwids'') ss) \<and> bs_count b \<le> 1 \<and>
    (bs_dtb b \<longrightarrow> dtb_names loader ss Board) \<and>
    (bs_hwid b \<longrightarrow> (\<exists>s \<in> set ss. ps_name s = ''.hwids'' \<and> (\<exists>k. hwid_names (payload loader s) k Board)))"
proof (induction ss arbitrary: b rule: rev_induct)
  case (snoc s ss)
  then obtain b0 where b0: "foldR (board_section loader) ss \<lparr>bs_dtb = False, bs_hwid = False, bs_count = 0\<rparr> = Inr b0"
    and step: "board_section loader s b0 = Inr b"
    by (auto simp: foldR_append bindR_Inr_iff)
  have IH: "bs_count b0 = length (filter (\<lambda>s. ps_name s = ''.hwids'') ss)" "bs_count b0 \<le> 1"
    "bs_dtb b0 \<longrightarrow> dtb_names loader ss Board"
    "bs_hwid b0 \<longrightarrow> (\<exists>s \<in> set ss. ps_name s = ''.hwids'' \<and> (\<exists>k. hwid_names (payload loader s) k Board))"
    using snoc.IH[OF _ b0] snoc.prems(1) by auto
  have mono: "dtb_names loader (ss @ [s]) Board \<longleftrightarrow> dtb_names loader ss Board \<or> dtb_names loader [s] Board"
    by (auto simp: dtb_names_def)
  consider "ps_name s \<noteq> ''.dtbauto''" "ps_name s \<noteq> ''.hwids''" | "ps_name s = ''.dtbauto''" | "ps_name s = ''.hwids''"
    by blast
  then show ?case
  proof cases
    case 1
    then have "b = b0" using step by (simp add: board_section_def)
    then show ?thesis using IH 1 mono by auto
  next
    case 2
    then have v: "ps_vsize s \<noteq> 0" "ps_vsize s \<le> ps_size s"
      using step by (auto simp: board_section_def split: if_splits)
    have "s \<in> set (pf_sections f)" using snoc.prems(1) by simp
    note sl = section_payload(3)[OF assms this v, folded payload_def]
    have nv: "\<not> ps_size s < ps_vsize s" using v(2) by simp
    from step 2 v(1) nv sl obtain cs where cs: "rootCompatible (payload loader s) = Inr cs"
      and b: "b = (case cs of Some (c # _) \<Rightarrow> if c = Board then b0\<lparr>bs_dtb := True\<rparr> else b0 | _ \<Rightarrow> b0)"
      by (auto simp: board_section_def bindR_Inr_iff)
    have "bs_dtb b \<longrightarrow> dtb_names loader (ss @ [s]) Board" "bs_count b = bs_count b0" "bs_hwid b = bs_hwid b0"
      using b IH(3) cs 2 unfolding mono
      by (auto simp: dtb_names_def split: option.splits list.splits if_splits)
    then show ?thesis using IH 2 by auto
  next
    case 3
    then have v: "ps_vsize s \<noteq> 0" "ps_vsize s \<le> ps_size s"
      using step by (auto simp: board_section_def split: if_splits)
    have "s \<in> set (pf_sections f)" using snoc.prems(1) by simp
    note sl = section_payload(3)[OF assms this v, folded payload_def]
    have nv: "\<not> ps_size s < ps_vsize s" using v(2) by simp
    from step 3 v(1) nv sl obtain m where m: "hwid_loop (payload loader s) (28 * 0) (bs_hwid b0) = Inr m"
      and b: "b = b0\<lparr>bs_count := Suc (bs_count b0), bs_hwid := m\<rparr>" and c: "bs_count b0 = 0"
      by (auto simp: board_section_def bindR_Inr_iff Let_def split: if_splits)
    have "m \<longrightarrow> bs_hwid b0 \<or> (\<exists>k. hwid_names (payload loader s) k Board)"
      using hwid_loop_match[OF m] by simp
    then show ?thesis using IH 3 mono b c by auto
  qed
qed simp

text \<open>
  C34. A loader that passes \<^verbatim>\<open>HasBoardMapping\<close> is an accepted image with a device tree whose
  root node names this board first, and with exactly one hardware table; a record before
  the end of that table maps a hardware identifier to the same name.
\<close>

theorem HasBoardMapping_sound:
  assumes "HasBoardMapping loader = Inr u"
  shows "\<exists>f. ARM64PE loader = Inr f \<and> dtb_names loader (pf_sections f) Board \<and>
    length (filter (\<lambda>s. ps_name s = ''.hwids'') (pf_sections f)) = 1 \<and>
    (\<exists>s \<in> set (pf_sections f). ps_name s = ''.hwids'' \<and> (\<exists>k. hwid_names (payload loader s) k Board))"
proof -
  from assms obtain f b where f: "ARM64PE loader = Inr f"
    and b: "foldR (board_section loader) (pf_sections f) \<lparr>bs_dtb = False, bs_hwid = False, bs_count = 0\<rparr> = Inr b"
    and ok: "bs_dtb b" "bs_hwid b"
    by (auto simp: HasBoardMapping_def bindR_Inr_iff)
  note sound = board_sections_sound[OF f subset_refl b]
  then have "filter (\<lambda>s. ps_name s = ''.hwids'') (pf_sections f) \<noteq> []"
    using ok by (auto simp: filter_empty_conv)
  then show ?thesis using sound ok f by (auto simp: le_Suc_eq)
qed

section \<open>A loader\<close>

definition board_tree_props :: "(string \<times> bytes) list" where
  "board_tree_props = [(''compatible'', nul_list [Board, ''qcom,sc8280xp''])]"

definition board_strings :: bytes where
  "board_strings = bytes_of ''compatible'' @ [0]"

definition board_dtb :: bytes where
  "board_dtb = dtb_blob [0, 17, 16, 0] (zeros 16) (\<lambda>_. 0) (DNode '''' board_tree_props [DNode ''cpus'' [] []]) board_strings"

lemma board_dtb_facts:
  "node_ok board_strings (\<lambda>_. 0) (DNode '''' board_tree_props [DNode ''cpus'' [] []])"
  "distinct (map fst board_tree_props)"
  "\<forall>v. (''compatible'', v) \<in> set board_tree_props \<longrightarrow>
     v = nul_list [Board, ''qcom,sc8280xp''] \<and> compatible_ok [Board, ''qcom,sc8280xp'']"
  "node_tokens (DNode '''' board_tree_props [DNode ''cpus'' [] []]) < 65536"
  "length board_dtb < 2 ^ 32"
proof -
  have c: "cstring board_strings 0 = Inr ''compatible''"
    using cstring_text[of "''compatible''" "[]" "[]"] by (simp add: board_strings_def text_ok_def)
  show "node_ok board_strings (\<lambda>_. 0) (DNode '''' board_tree_props [DNode ''cpus'' [] []])"
    by (simp add: prop_ok_def c text_ok_def board_tree_props_def Board_def)
qed (simp_all add: board_tree_props_def compatible_ok_def Board_def text_ok_def board_dtb_def dtb_blob_def
  board_strings_def length_pad4)

theorem rootCompatible_reads_tree_witness:
  "rootCompatible (board_dtb @ [0, 0]) = Inr (Some [Board, ''qcom,sc8280xp''])"
  using rootCompatible_reads_tree[OF board_dtb_facts(1-4), of "[0, 17, 16, 0]" "zeros 16" "[0, 0]"] board_dtb_facts(5)
  by (simp add: board_dtb_def board_tree_props_def)

lemma pe_secs_payload:
  "length a = off \<Longrightarrow> off + length (concat (map snd ss)) < 2 ^ 26 \<Longrightarrow> k < length ss \<Longrightarrow>
   let s = pe_secs off ss ! k in
     ps_name s = fst (ss ! k) \<and> (ps_vsize s = 0 \<longleftrightarrow> snd (ss ! k) = []) \<and> ps_size s = ps_vsize s \<and>
     slice (a @ concat (map snd ss)) (unat (ps_offset s)) (unat (ps_offset s + ps_vsize s)) = Inr (snd (ss ! k))"
proof (induction off ss arbitrary: a k rule: pe_secs.induct)
  case (2 off n b ss)
  show ?case
  proof (cases k)
    case 0
    have off: "off < 2 ^ 32" "length b < 2 ^ 32" "off + length b < 2 ^ 32" using 2 by simp_all
    have u: "unat (word_of_nat off :: u32) = off" by (rule be32_word_of_nat_small(1)[OF off(1)])
    have v: "unat (word_of_nat (length b) :: u32) = length b" by (rule be32_word_of_nat_small(1)[OF off(2)])
    have sum: "unat (word_of_nat off + word_of_nat (length b) :: u32) = off + length b"
      using be32_word_of_nat_small(1)[OF off(3)] by simp
    have "(word_of_nat (length b) :: u32) = 0 \<longleftrightarrow> b = []"
      using v unat_eq_0[of "word_of_nat (length b) :: u32"] by simp
    then show ?thesis using 0 2 by (simp add: u sum slice_iff)
  next
    case (Suc j)
    then show ?thesis using "2.IH"[of "a @ b" j] 2 by (simp add: Let_def)
  qed
qed simp

definition board_hwids :: bytes where
  "board_hwids = le32 0x1000001c @ zeros 20 @ le32 56 @ zeros 28 @ bytes_of Board @ [0]"

lemma board_hwids_match: "hwid_loop board_hwids 0 False = Inr True"
proof -
  have z: "zeros 28 = zeros 4 @ zeros 24" using zeros_plus[of 4 24] by simp
  have len: "length board_hwids = 77" by (simp add: board_hwids_def Board_def)
  have d: "u32le board_hwids 0 = Inr 0x1000001c" "u32le board_hwids 24 = Inr 56"
    by (simp_all add: u32le_def rd_def board_hwids_def)
  have e: "u32le board_hwids 28 = Inr 0"
    by (simp add: u32le_def rd_def board_hwids_def z) (simp add: zeros_def numeral_eq_Suc)
  have c: "cstring board_hwids 56 = Inr Board"
    using cstring_text[of Board "le32 0x1000001c @ zeros 20 @ le32 56 @ zeros 28" "[]"]
    by (simp add: board_hwids_def text_ok_def) (simp add: Board_def)
  have "hwid_record board_hwids 0 False = Inr (False, True)"
    by (simp add: hwid_record_def d c len)
  moreover have "hwid_record board_hwids 28 True = Inr (True, True)"
    by (simp add: hwid_record_def e)
  ultimately show ?thesis by (simp add: hwid_loop.simps len)
qed

definition board_sections :: "bytes \<Rightarrow> string \<Rightarrow> (string \<times> bytes) list" where
  "board_sections krn release =
     [(''.linux'', krn), (''.uname'', bytes_of release), (''.dtbauto'', board_dtb), (''.hwids'', board_hwids)]"

lemma board_loader_accepted:
  assumes "length krn + length release \<le> 1000000" "krn \<noteq> []"
  defines "loader \<equiv> synthetic_pe (board_sections krn release)"
  defines "secs \<equiv> pe_secs 360 (board_sections krn release)"
  shows "ARM64PE loader = Inr \<lparr>pf_machine = 0xaa64, pf_optional = Header64, pf_sections = secs\<rparr>"
    and "k < 4 \<Longrightarrow> let s = secs ! k; b = board_sections krn release ! k in
      ps_name s = fst b \<and> (ps_vsize s = 0 \<longleftrightarrow> snd b = []) \<and> ps_size s = ps_vsize s \<and>
      slice loader (unat (ps_offset s)) (unat (ps_offset s + ps_vsize s)) = Inr (snd b)"
proof -
  have names: "list_all (\<lambda>s. pe_name_ok (fst s)) (board_sections krn release)"
    by (simp add: board_sections_def pe_name_ok_def)
  have four: "length (board_sections krn release) = 4" by (simp add: board_sections_def)
  have "length board_dtb = 147" "length board_hwids = 77"
    by (simp_all add: board_dtb_def dtb_blob_def Let_def board_tree_props_def Board_def board_strings_def length_pad4 board_hwids_def)
  then have small: "360 + length (concat (map snd (board_sections krn release))) < 2 ^ 26"
    using assms(1) by (simp add: board_sections_def)
  have len: "length loader = 360 + length (concat (map snd (board_sections krn release)))"
    using synthetic_pe_read(10)[OF names] four by (simp add: loader_def)
  have ok: "pe_image_ok (board_sections krn release)"
    using names small len four by (auto simp: pe_image_ok_def loader_def board_sections_def)
  show "ARM64PE loader = Inr \<lparr>pf_machine = 0xaa64, pf_optional = Header64, pf_sections = secs\<rparr>"
    using ARM64PE_synthetic[OF ok] four by (simp add: loader_def secs_def)
  define a where "a = take 360 loader"
  have loader: "loader = a @ concat (map snd (board_sections krn release))"
    unfolding a_def using length_pe_headers[OF names, of "360"] four
    by (simp add: loader_def synthetic_pe_def)
  have la: "length a = 360" by (simp add: a_def len)
  show "k < 4 \<Longrightarrow> let s = secs ! k; b = board_sections krn release ! k in
      ps_name s = fst b \<and> (ps_vsize s = 0 \<longleftrightarrow> snd b = []) \<and> ps_size s = ps_vsize s \<and>
      slice loader (unat (ps_offset s)) (unat (ps_offset s + ps_vsize s)) = Inr (snd b)"
    using pe_secs_payload[OF la small, of k] four by (simp add: loader[symmetric] secs_def Let_def)
qed

lemma board_loader_sections:
  assumes "length krn + length release \<le> 1000000" "krn \<noteq> []"
  obtains s0 s1 s2 s3 where
    "ARM64PE (synthetic_pe (board_sections krn release)) =
      Inr \<lparr>pf_machine = 0xaa64, pf_optional = Header64, pf_sections = [s0, s1, s2, s3]\<rparr>"
    "ps_name s0 = ''.linux''" "ps_name s1 = ''.uname''" "ps_name s2 = ''.dtbauto''" "ps_name s3 = ''.hwids''"
    "ps_vsize s0 \<noteq> 0" "ps_size s0 = ps_vsize s0" "ps_vsize s1 = 0 \<longleftrightarrow> release = ''''" "ps_size s1 = ps_vsize s1"
    "ps_vsize s2 \<noteq> 0" "ps_size s2 = ps_vsize s2" "ps_vsize s3 \<noteq> 0" "ps_size s3 = ps_vsize s3"
    "slice (synthetic_pe (board_sections krn release)) (unat (ps_offset s0)) (unat (ps_offset s0 + ps_vsize s0)) = Inr krn"
    "slice (synthetic_pe (board_sections krn release)) (unat (ps_offset s1)) (unat (ps_offset s1 + ps_vsize s1)) = Inr (bytes_of release)"
    "slice (synthetic_pe (board_sections krn release)) (unat (ps_offset s2)) (unat (ps_offset s2 + ps_vsize s2)) = Inr board_dtb"
    "slice (synthetic_pe (board_sections krn release)) (unat (ps_offset s3)) (unat (ps_offset s3 + ps_vsize s3)) = Inr board_hwids"
proof -
  let ?secs = "pe_secs 360 (board_sections krn release)"
  have "\<exists>s0 s1 s2 s3. ?secs = [s0, s1, s2, s3]" by (simp add: board_sections_def)
  then obtain s0 s1 s2 s3 where secs: "?secs = [s0, s1, s2, s3]" by blast
  note acc = board_loader_accepted(1)[OF assms, unfolded secs]
  have b: "board_sections krn release ! 0 = (''.linux'', krn)" "board_sections krn release ! 1 = (''.uname'', bytes_of release)"
    "board_sections krn release ! 2 = (''.dtbauto'', board_dtb)" "board_sections krn release ! 3 = (''.hwids'', board_hwids)"
    by (simp_all add: board_sections_def numeral_eq_Suc)
  have i: "[s0, s1, s2, s3] ! 0 = s0" "[s0, s1, s2, s3] ! 1 = s1" "[s0, s1, s2, s3] ! 2 = s2" "[s0, s1, s2, s3] ! 3 = s3"
    by (simp_all add: numeral_eq_Suc)
  have ne: "board_dtb \<noteq> []" "board_hwids \<noteq> []" "bytes_of release = [] \<longleftrightarrow> release = ''''"
    by (simp_all add: board_dtb_def dtb_blob_def Let_def board_hwids_def bytes_of_def flip: length_greater_0_conv)
  note f = board_loader_accepted(2)[OF assms, unfolded secs]
  show ?thesis
    using f[of 0] f[of 1] f[of 2] f[of 3] acc assms(2) ne
    unfolding b i Let_def fst_conv snd_conv by (intro that[of s0 s1 s2 s3]) simp_all
qed

lemma board_loader_maps:
  assumes "length krn + length release \<le> 1000000" "krn \<noteq> []"
  shows "HasBoardMapping (synthetic_pe (board_sections krn release)) = Inr ()"
proof -
  obtain s0 s1 s2 s3 where f:
    "ARM64PE (synthetic_pe (board_sections krn release)) =
      Inr \<lparr>pf_machine = 0xaa64, pf_optional = Header64, pf_sections = [s0, s1, s2, s3]\<rparr>"
    "ps_name s0 = ''.linux''" "ps_name s1 = ''.uname''" "ps_name s2 = ''.dtbauto''" "ps_name s3 = ''.hwids''"
    "ps_vsize s2 \<noteq> 0" "ps_size s2 = ps_vsize s2" "ps_vsize s3 \<noteq> 0" "ps_size s3 = ps_vsize s3"
    "slice (synthetic_pe (board_sections krn release)) (unat (ps_offset s2)) (unat (ps_offset s2 + ps_vsize s2)) = Inr board_dtb"
    "slice (synthetic_pe (board_sections krn release)) (unat (ps_offset s3)) (unat (ps_offset s3 + ps_vsize s3)) = Inr board_hwids"
    by (rule board_loader_sections[OF assms])
  have dtb: "rootCompatible board_dtb = Inr (Some [Board, ''qcom,sc8280xp''])"
  proof -
    have "dtb_loop (flat_node (\<lambda>_. 0) (DNode '''' board_tree_props [DNode ''cpus'' [] []]) @ be32 9) board_strings dtb_start =
        Inr (if ''compatible'' \<in> fst ` set board_tree_props then Some [Board, ''qcom,sc8280xp''] else None)"
      by (rule dtb_loop_root[OF board_dtb_facts(1-4)])
    then show ?thesis
      by (simp add: rootCompatible_def board_dtb_def dtb_blob_def Let_def u32be_def rd_def slice_def
          board_tree_props_def board_strings_def length_pad4 Board_def)
  qed
  show ?thesis
    by (simp add: HasBoardMapping_def f board_section_def dtb board_hwids_match)
qed

theorem HasBoardMapping_sound_witness:
  "HasBoardMapping (synthetic_pe (board_sections [1, 2, 3] ''7.2'')) = Inr () \<and>
   (\<exists>f. ARM64PE (synthetic_pe (board_sections [1, 2, 3] ''7.2'')) = Inr f \<and>
     dtb_names (synthetic_pe (board_sections [1, 2, 3] ''7.2'')) (pf_sections f) Board)"
proof -
  have a: "HasBoardMapping (synthetic_pe (board_sections [1, 2, 3] ''7.2'')) = Inr ()"
    by (rule board_loader_maps) simp_all
  show ?thesis using a HasBoardMapping_sound[OF a] by blast
qed

end
