(* ===== verification/Live_Boot.thy ===== *)
theory Live_Boot
  imports Live_Board Kargs
begin

text \<open>
  The inputs of an experimental live boot (\<^verbatim>\<open>internal/liveboot\<close>: \<^verbatim>\<open>inputs.go\<close>,
  \<^verbatim>\<open>scope.go\<close>, \<^verbatim>\<open>inputs_linux.go\<close>, \<^verbatim>\<open>bundle.go\<close>): the manifest and its limits, the scope
  and the kernel arguments, the reading of the pinned files below a directory that other
  processes may change, the match of loader and stock kernel, and the bundle.

  Parameters: \<open>sha\<close> is the hexadecimal SHA-256 of a byte sequence; \<open>ord\<close> the order in
  which Go iterates over the map of inputs; \<open>os\<close> the answers of the operating system.
\<close>

section \<open>The manifest\<close>

record lb_input =
  in_Path :: string
  in_Size :: int
  in_SHA256 :: string

record lb_manifest =
  mf_Mode :: string
  mf_Board :: string
  mf_Architecture :: string
  mf_KernelRelease :: string
  mf_KernelSHA256 :: string
  mf_Shim :: lb_input
  mf_GRUB :: lb_input
  mf_Loader :: lb_input
  mf_PreparationReceipt :: lb_input

definition Mode :: string where
  "Mode = ''fedora-arm64-dtbloader''"

text \<open>\<^verbatim>\<open>hex.DecodeString\<close> and \<^verbatim>\<open>strings.ToLower\<close> on ASCII.\<close>

definition hex_digit :: "char \<Rightarrow> byte option" where
  "hex_digit c =
     (let n = of_char c :: nat in
      if 48 \<le> n \<and> n \<le> 57 then Some (word_of_nat (n - 48))
      else if 97 \<le> n \<and> n \<le> 102 then Some (word_of_nat (n - 87))
      else if 65 \<le> n \<and> n \<le> 70 then Some (word_of_nat (n - 55))
      else None)"

fun hex_decode :: "string \<Rightarrow> bytes option" where
  "hex_decode [] = Some []"
| "hex_decode [c] = None"
| "hex_decode (c # d # s) =
     (case (hex_digit c, hex_digit d, hex_decode s) of
        (Some h, Some l, Some b) \<Rightarrow> Some ((16 * h + l) # b)
      | _ \<Rightarrow> None)"

definition lower_char :: "char \<Rightarrow> char" where
  "lower_char c = (let n = of_char c :: nat in if 65 \<le> n \<and> n \<le> 90 then char_of (n + 32) else c)"

definition validDigest :: "string \<Rightarrow> bool" where
  "validDigest s \<longleftrightarrow> (case hex_decode s of None \<Rightarrow> False | Some b \<Rightarrow> length b = 32 \<and> s = map lower_char s)"

definition contains_any :: "string \<Rightarrow> string \<Rightarrow> bool" where
  "contains_any s chars \<longleftrightarrow> list_ex (\<lambda>c. c \<in> set chars) s"

definition input_validate :: "lb_input \<Rightarrow> lb_error + unit" where
  "input_validate inp =
     (let p = in_Path inp in
      if p = '''' \<or> p = ''.'' \<or> has_prefix p ''/'' \<or> path_clean p \<noteq> p \<or> contains_any p [CHR 0x5C, CHR 0x00]
      then Inl (InputErr BadInputPath)
      else if list_ex (\<lambda>part. part = ''..'') (split_on CHR ''/'' p) then Inl (InputErr InputTraversal)
      else if in_Size inp \<le> 0 \<or> MaxPayloadBytes < in_Size inp \<or> \<not> validDigest (in_SHA256 inp)
      then Inl (InputErr BadInputSize)
      else Inr ())"

definition manifest_inputs :: "lb_manifest \<Rightarrow> (string \<times> lb_input) list" where
  "manifest_inputs m =
     [(''shim'', mf_Shim m), (''grub'', mf_GRUB m), (''loader'', mf_Loader m),
      (''preparation receipt'', mf_PreparationReceipt m)]"

definition named :: "string \<Rightarrow> lb_error + 'a \<Rightarrow> lb_error + 'a" where
  "named name r = (case r of Inl e \<Rightarrow> Inl (NamedErr name e) | Inr a \<Rightarrow> Inr a)"

definition Validate :: "((string \<times> lb_input) list \<Rightarrow> (string \<times> lb_input) list) \<Rightarrow> lb_manifest \<Rightarrow> lb_error + unit" where
  "Validate ord m =
     (if mf_Mode m \<noteq> Mode \<or> mf_Board m \<noteq> Board \<or> mf_Architecture m \<noteq> ''arm64'' then Inl (InputErr BadMode)
      else if mf_KernelRelease m = '''' \<or>
        contains_any (mf_KernelRelease m) [CHR 0x00, CHR 0x0D, CHR 0x0A, CHR '' '', CHR ''/'', CHR 0x5C] \<or>
        \<not> validDigest (mf_KernelSHA256 m) then Inl (InputErr BadKernelIdentity)
      else bindR (foldR (\<lambda>(name, inp) u. named name (input_validate inp)) (ord (manifest_inputs m)) ()) (\<lambda>_.
        need (in_Size (mf_PreparationReceipt m) \<le> 2 ^ 20) (InputErr ReceiptSize)))"

section \<open>Scope and arguments\<close>

record lb_scope =
  sc_ISO :: bool
  sc_BlockTarget :: bool
  sc_Environments :: int
  sc_LiveOnly :: bool
  sc_Dedup :: bool
  sc_OfflinePayloads :: int
  sc_SkipInitramfsRebuild :: bool
  sc_Image :: string
  sc_Environment :: string

text \<open>\<^verbatim>\<open>strings.Cut\<close>.\<close>

fun cut_at :: "string \<Rightarrow> string \<Rightarrow> string \<times> string \<times> bool" where
  "cut_at sep [] = (if sep = '''' then ('''', '''', True) else ('''', '''', False))"
| "cut_at sep (c # s) =
     (if has_prefix (c # s) sep then ('''', drop (length sep) (c # s), True)
      else case cut_at sep s of (a, b, ok) \<Rightarrow> (c # a, b, ok))"

definition word_char :: "char \<Rightarrow> bool" where
  "word_char c \<longleftrightarrow>
     (CHR ''a'' \<le> c \<and> c \<le> CHR ''z'') \<or> (CHR ''A'' \<le> c \<and> c \<le> CHR ''Z'') \<or> (CHR ''0'' \<le> c \<and> c \<le> CHR ''9'') \<or>
     c \<in> set ''_-/.:=,+''"

definition safeWord :: "string \<Rightarrow> bool" where
  "safeWord v \<longleftrightarrow> v \<noteq> [] \<and> int (length v) \<le> 4096 \<and> list_all word_char v"

definition ValidateScope :: "lb_scope \<Rightarrow> lb_error + unit" where
  "ValidateScope s =
     (if \<not> sc_ISO s \<or> sc_BlockTarget s \<or> sc_Environments s \<noteq> 1 \<or> \<not> sc_LiveOnly s \<or> sc_Dedup s \<or>
         sc_OfflinePayloads s \<noteq> 0 \<or> sc_SkipInitramfsRebuild s then Inl (ScopeErr BadScope)
      else case cut_at ''@sha256:'' (sc_Image s) of (pre, digest, ok) \<Rightarrow>
        if \<not> ok \<or> pre = '''' \<or> contains_any pre [CHR '' '', CHR 0x0D, CHR 0x0A, CHR 0x00, CHR ''@''] \<or> \<not> validDigest digest
        then Inl (ScopeErr BadImage)
        else need (safeWord (sc_Environment s) \<and> \<not> contains_any (sc_Environment s) ''/.:='') (ScopeErr BadEnvironment))"

definition check_argument :: "string \<Rightarrow> nat \<Rightarrow> lb_error + nat" where
  "check_argument arg required =
     (if \<not> safeWord arg \<or> arg = ''--'' then Inl (ScopeErr BadArgument)
      else case cut_eq arg of (key, v, _) \<Rightarrow>
        if key = ''tacklebox.x13s-adsp'' \<and> v \<noteq> ''required'' then Inl (ScopeErr GateDisabled)
        else
          let required1 = (if key = ''tacklebox.x13s-adsp'' then required + 1 else required);
              normalized = map (\<lambda>c. if c = CHR ''-'' then CHR ''_'' else c) (map lower_char key) in
          if normalized = ''firmware_class.path'' \<or> filter (\<lambda>c. c \<noteq> CHR ''_'') normalized = ''bootconfig''
          then Inl (ScopeErr FirmwareOverride)
          else if contains normalized ''blacklist'' then Inl (ScopeErr Blacklist)
          else Inr required1)"

definition ValidateArguments :: "string list \<Rightarrow> lb_error + unit" where
  "ValidateArguments args =
     bindR (foldR check_argument args 0) (\<lambda>required. need (required = 1) (ScopeErr GateMissing))"

section \<open>The loader and the stock kernel\<close>

definition sidecar_sections :: "string list" where
  "sidecar_sections = [''.initrd'', ''.ucode'', ''.cmdline'', ''.osrel'', ''.profile'', ''.pcrsig'', ''.pcrpkey'']"

definition kernel_section :: "bytes \<Rightarrow> pe_section \<Rightarrow> (string \<times> bytes) list \<Rightarrow> lb_error + (string \<times> bytes) list" where
  "kernel_section loader s sections =
     (if ps_name s \<in> set sidecar_sections then Inl (KernelErr (InternalSection (ps_name s)))
      else if ps_name s = ''.linux'' \<or> ps_name s = ''.uname'' then
        (if map_of sections (ps_name s) \<noteq> None then Inl (KernelErr (DuplicateSection (ps_name s)))
         else if ps_vsize s = 0 \<or> ps_size s < ps_vsize s then Inl (KernelErr (IncompleteSection (ps_name s)))
         else bindR (slice loader (unat (ps_offset s)) (unat (ps_offset s + ps_vsize s))) (\<lambda>b.
           Inr ((ps_name s, b) # sections)))
      else Inr sections)"

definition ValidateKernelPair ::
  "(bytes \<Rightarrow> string) \<Rightarrow> ((string \<times> lb_input) list \<Rightarrow> (string \<times> lb_input) list) \<Rightarrow>
   bytes \<Rightarrow> bytes \<Rightarrow> string \<Rightarrow> lb_manifest \<Rightarrow> lb_error + unit" where
  "ValidateKernelPair sha ord loader krn extractedRelease m =
     (if krn = [] \<or> MaxPayloadBytes < int (length krn) then Inl (KernelErr KernelSize)
      else bindR (Validate ord m) (\<lambda>_.
      if extractedRelease \<noteq> mf_KernelRelease m then Inl (KernelErr KernelRelease)
      else if sha krn \<noteq> mf_KernelSHA256 m then Inl (KernelErr KernelDigest)
      else bindR (ARM64PE loader) (\<lambda>f.
      bindR (foldR (kernel_section loader) (pf_sections f) []) (\<lambda>sections.
        if map_of sections ''.linux'' = None \<or> map_of sections ''.linux'' = Some [] \<or>
           map_of sections ''.linux'' \<noteq> Some krn then Inl (KernelErr KernelDiffers)
        else case map_of sections ''.uname'' of
          None \<Rightarrow> Inl (KernelErr LoaderRelease)
        | Some uname \<Rightarrow>
            need (uname \<noteq> [] \<and> string_of_bytes (trim_right_by (\<lambda>b. b = 0) uname) = mf_KernelRelease m)
              (KernelErr LoaderRelease)))))"

section \<open>Reading a pinned input\<close>

text \<open>
  What the system calls answer. An inode keeps its kind; the entries of a directory, the
  size and the modification time of a file may differ from one call to the next, so they
  depend on the time of the call, which is the number of calls made before it. \<open>None\<close> is
  any failure of the call.
\<close>

datatype inode_kind = KDir | KRegular | KSymlink | KOther

record os_answers =
  os_root :: "nat option"
  os_kind :: "nat \<Rightarrow> inode_kind"
  os_entry :: "nat \<Rightarrow> nat \<Rightarrow> string \<Rightarrow> nat option"
  os_stat :: "nat \<Rightarrow> nat \<Rightarrow> (int \<times> int) option"
  os_content :: "nat \<Rightarrow> nat \<Rightarrow> bytes option"
  os_abs :: "string \<Rightarrow> string option"

text \<open>The descriptors of the process: those open with their inodes, and those closed twice.\<close>

record process =
  pr_time :: nat
  pr_next :: nat
  pr_open :: "(nat \<times> nat) list"
  pr_stray :: nat

definition open_fd :: "nat \<Rightarrow> process \<Rightarrow> nat \<times> process" where
  "open_fd ino p = (pr_next p, p\<lparr>pr_next := pr_next p + 1, pr_open := (pr_next p, ino) # pr_open p\<rparr>)"

definition close_fd :: "nat \<Rightarrow> process \<Rightarrow> process" where
  "close_fd fd p =
     (if map_of (pr_open p) fd = None then p\<lparr>pr_stray := pr_stray p + 1\<rparr>
      else p\<lparr>pr_open := AList.delete fd (pr_open p)\<rparr>)"

definition tick :: "process \<Rightarrow> process" where
  "tick p = p\<lparr>pr_time := pr_time p + 1\<rparr>"

text \<open>
  \<^verbatim>\<open>openat(fd, name, O_RDONLY | O_NOFOLLOW | \<dots>)\<close>, with \<^verbatim>\<open>O_DIRECTORY\<close> when \<open>dir\<close> is set.
\<close>

definition openat :: "os_answers \<Rightarrow> bool \<Rightarrow> nat \<Rightarrow> string \<Rightarrow> process \<Rightarrow> (lb_error + nat) \<times> process" where
  "openat os dir fd name p =
     (let p1 = tick p in
      case map_of (pr_open p) fd of
        None \<Rightarrow> (Inl (InputErr (OsError ''EBADF'')), p1)
      | Some d \<Rightarrow>
         (case os_entry os (pr_time p) d name of
            None \<Rightarrow> (Inl (InputErr (OsError ''openat'')), p1)
          | Some ino \<Rightarrow>
              if os_kind os ino = KSymlink then (Inl (InputErr (OsError ''ELOOP'')), p1)
              else if dir \<and> os_kind os ino \<noteq> KDir then (Inl (InputErr (OsError ''ENOTDIR'')), p1)
              else (case open_fd ino p1 of (fd', p2) \<Rightarrow> (Inr fd', p2))))"

text \<open>The walk of \<^verbatim>\<open>openDirectory\<close>: the descriptor it left is closed before the error is looked at.\<close>

fun open_parts :: "os_answers \<Rightarrow> nat \<Rightarrow> string list \<Rightarrow> process \<Rightarrow> (lb_error + nat) \<times> process" where
  "open_parts os fd [] p = (Inr fd, p)"
| "open_parts os fd (part # parts) p =
     (if part = '''' then open_parts os fd parts p
      else case openat os True fd part p of (r, p1) \<Rightarrow>
        (let p2 = close_fd fd p1 in
         case r of Inl e \<Rightarrow> (Inl e, p2) | Inr fd' \<Rightarrow> open_parts os fd' parts p2))"

definition openDirectory :: "os_answers \<Rightarrow> string \<Rightarrow> process \<Rightarrow> (lb_error + nat) \<times> process" where
  "openDirectory os directory p =
     (case os_abs os directory of
        None \<Rightarrow> (Inl (InputErr (OsError ''Abs'')), p)
      | Some absolute \<Rightarrow>
         (case os_root os of
            None \<Rightarrow> (Inl (InputErr (OsError ''open'')), tick p)
          | Some ino \<Rightarrow>
             (case open_fd ino (tick p) of (fd, p1) \<Rightarrow>
                open_parts os fd (split_on CHR ''/'' (trim_prefix absolute ''/'')) p1)))"

text \<open>The walk of \<^verbatim>\<open>ReadInput\<close> below it: on an error the deferred close releases the last descriptor.\<close>

fun walk_parts :: "os_answers \<Rightarrow> nat \<Rightarrow> string list \<Rightarrow> process \<Rightarrow> (lb_error \<times> nat + nat) \<times> process" where
  "walk_parts os fd [] p = (Inr fd, p)"
| "walk_parts os fd (part # parts) p =
     (case openat os True fd part p of
        (Inl e, p1) \<Rightarrow> (Inl (e, fd), p1)
      | (Inr fd', p1) \<Rightarrow> walk_parts os fd' parts (close_fd fd p1))"

text \<open>From the open file on: stat, bounded read, stat again, digest.\<close>

definition read_file :: "(bytes \<Rightarrow> string) \<Rightarrow> os_answers \<Rightarrow> lb_input \<Rightarrow> nat \<Rightarrow> process \<Rightarrow> (lb_error + bytes) \<times> process" where
  "read_file sha os inp ino p =
     (case os_stat os (pr_time p) ino of
        None \<Rightarrow> (Inl (InputErr (OsError ''fstat'')), tick p)
      | Some before \<Rightarrow>
         let p1 = tick p in
         if os_kind os ino \<noteq> KRegular \<or> fst before \<noteq> in_Size inp then (Inl (InputErr NotRegular), p1)
         else (case os_content os (pr_time p1) ino of
           None \<Rightarrow> (Inl (InputErr (OsError ''read'')), tick p1)
         | Some content \<Rightarrow>
            let data = take (nat (in_Size inp + 1)) content; p2 = tick p1 in
            (case os_stat os (pr_time p2) ino of
               None \<Rightarrow> (Inl (InputErr (OsError ''fstat'')), tick p2)
             | Some after \<Rightarrow>
                if before \<noteq> after \<or> int (length data) \<noteq> in_Size inp then (Inl (InputErr InputChanged), tick p2)
                else if sha data \<noteq> in_SHA256 inp then (Inl (InputErr InputDigest), tick p2)
                else (Inr data, tick p2))))"

definition ReadInput ::
  "(bytes \<Rightarrow> string) \<Rightarrow> os_answers \<Rightarrow> string \<Rightarrow> lb_input \<Rightarrow> process \<Rightarrow> (lb_error + bytes) \<times> process" where
  "ReadInput sha os directory inp p =
     (case input_validate inp of
        Inl e \<Rightarrow> (Inl e, p)
      | Inr _ \<Rightarrow>
         (case openDirectory os directory p of
            (Inl e, p1) \<Rightarrow> (Inl e, p1)
          | (Inr fd0, p1) \<Rightarrow>
              let parts = split_on CHR ''/'' (in_Path inp) in
              (case walk_parts os fd0 (butlast parts) p1 of
                 (Inl (e, fd), p2) \<Rightarrow> (Inl e, close_fd fd p2)
               | (Inr fd, p2) \<Rightarrow>
                  (case openat os False fd (List.last parts) p2 of
                     (Inl e, p3) \<Rightarrow> (Inl e, close_fd fd p3)
                   | (Inr ffd, p3) \<Rightarrow>
                      (case map_of (pr_open p3) ffd of
                         None \<Rightarrow> (Inl (InputErr (OsError ''EBADF'')), close_fd fd (close_fd ffd p3))
                       | Some ino \<Rightarrow>
                          (case read_file sha os inp ino p3 of (r, p4) \<Rightarrow>
                             (r, close_fd fd (close_fd ffd p4))))))))"

section \<open>The bundle\<close>

record live_bundle =
  bu_Files :: "(string \<times> bytes) list"
  bu_PreparationReceipt :: bytes

definition nl :: string where "nl = [CHR 0x0A]"

definition grub_config :: "string \<Rightarrow> string list \<Rightarrow> string" where
  "grub_config base args =
     ''set timeout=5'' @ nl @ ''set default=0'' @ nl @
     ''menuentry '' @ [CHR 0x27] @ ''TunaOS X13s experimental live'' @ [CHR 0x27] @ '' {'' @ nl @
     '' linux '' @ base @ ''vmlinuz '' @ join_with '' '' args @ nl @
     '' initrd '' @ base @ ''initrd.img'' @ nl @ ''}'' @ nl"

text \<open>
  The four reads in order; the process state is threaded through, and the first failure
  ends the preparation.
\<close>

fun read_inputs ::
  "(bytes \<Rightarrow> string) \<Rightarrow> os_answers \<Rightarrow> string \<Rightarrow> (string \<times> lb_input) list \<Rightarrow> process \<Rightarrow>
   (lb_error + bytes list) \<times> process" where
  "read_inputs sha os directory [] p = (Inr [], p)"
| "read_inputs sha os directory ((name, inp) # ins) p =
     (case ReadInput sha os directory inp p of
        (Inl e, p1) \<Rightarrow> (Inl (NamedErr name e), p1)
      | (Inr data, p1) \<Rightarrow>
         (case read_inputs sha os directory ins p1 of
            (Inl e, p2) \<Rightarrow> (Inl e, p2)
          | (Inr ds, p2) \<Rightarrow> (Inr (data # ds), p2)))"

definition assemble ::
  "(bytes \<Rightarrow> string) \<Rightarrow> ((string \<times> lb_input) list \<Rightarrow> (string \<times> lb_input) list) \<Rightarrow> lb_manifest \<Rightarrow> bytes \<Rightarrow>
   string \<Rightarrow> string \<Rightarrow> string list \<Rightarrow> bytes \<Rightarrow> bytes \<Rightarrow> bytes \<Rightarrow> bytes \<Rightarrow> lb_error + live_bundle" where
  "assemble sha ord m krn release environment args shim grub loader receipt =
     bindR (foldR (\<lambda>data u. bindR (ARM64PE data) (\<lambda>_. Inr ())) [shim, grub] ()) (\<lambda>_.
     bindR (ValidateKernelPair sha ord loader krn release m) (\<lambda>_.
     bindR (HasBoardMapping loader) (\<lambda>_.
       let base = ''/images/pxeboot/'' @ environment @ ''/''; config = bytes_of (grub_config base args) in
       Inr \<lparr>bu_Files =
         [(''EFI/BOOT/BOOTAA64.EFI'', shim), (''EFI/BOOT/grubaa64.efi'', grub), (''EFI/fedora/grubaa64.efi'', grub),
          (''EFI/BOOT/grub.cfg'', config), (''EFI/fedora/grub.cfg'', config),
          (trim_prefix base ''/'' @ ''vmlinuz'', loader)],
         bu_PreparationReceipt = receipt\<rparr>)))"

definition Prepare ::
  "(bytes \<Rightarrow> string) \<Rightarrow> ((string \<times> lb_input) list \<Rightarrow> (string \<times> lb_input) list) \<Rightarrow> os_answers \<Rightarrow>
   string \<Rightarrow> lb_manifest \<Rightarrow> bytes \<Rightarrow> string \<Rightarrow> lb_scope \<Rightarrow> string list \<Rightarrow> process \<Rightarrow> (lb_error + live_bundle) \<times> process" where
  "Prepare sha ord os directory m krn release scope args p =
     (case bindR (Validate ord m) (\<lambda>_. bindR (ValidateScope scope) (\<lambda>_. bindR (ValidateArguments args) (\<lambda>_.
        if args = [] \<or> 128 < length args then Inl (ScopeErr ArgumentCount)
        else need (list_all safeWord args) (ScopeErr BadArgument)))) of
        Inl e \<Rightarrow> (Inl e, p)
      | Inr _ \<Rightarrow>
         (case read_inputs sha os directory
             [(''shim'', mf_Shim m), (''GRUB'', mf_GRUB m), (''loader'', mf_Loader m),
              (''preparation receipt'', mf_PreparationReceipt m)] p of
            (Inl e, p1) \<Rightarrow> (Inl e, p1)
          | (Inr ds, p1) \<Rightarrow>
             (assemble sha ord m krn release (sc_Environment scope) args (ds ! 0) (ds ! 1) (ds ! 2) (ds ! 3), p1)))"

section \<open>Descriptors\<close>

text \<open>
  Specification: the path from a directory to another through names, each looked up at
  some moment and each a directory, so not a symbolic link.
\<close>

fun dirs_reach :: "os_answers \<Rightarrow> nat \<Rightarrow> string list \<Rightarrow> nat \<Rightarrow> bool" where
  "dirs_reach os d [] e \<longleftrightarrow> d = e"
| "dirs_reach os d (n # ns) e \<longleftrightarrow>
     (\<exists>t i. os_entry os t d n = Some i \<and> os_kind os i = KDir \<and> dirs_reach os i ns e)"

lemma dirs_reach_append: "dirs_reach os d (ms @ ns) e \<longleftrightarrow> (\<exists>i. dirs_reach os d ms i \<and> dirs_reach os i ns e)"
proof (induction ms arbitrary: d)
  case (Cons m ms)
  show ?case unfolding append_Cons dirs_reach.simps Cons.IH by blast
qed simp

definition process_ok :: "process \<Rightarrow> bool" where
  "process_ok p \<longleftrightarrow> distinct (map fst (pr_open p)) \<and> list_all (\<lambda>(fd, _). fd < pr_next p) (pr_open p)"

text \<open>\<open>holds p0 fd ino p\<close>: beyond what was open at \<open>p0\<close>, the process holds just \<open>fd\<close>, open on \<open>ino\<close>.\<close>

definition holds :: "process \<Rightarrow> nat \<Rightarrow> nat \<Rightarrow> process \<Rightarrow> bool" where
  "holds p0 fd ino p \<longleftrightarrow> pr_open p = (fd, ino) # pr_open p0 \<and> process_ok p \<and> pr_stray p = pr_stray p0 \<and>
     pr_next p0 \<le> pr_next p"

definition released :: "process \<Rightarrow> process \<Rightarrow> bool" where
  "released p0 p \<longleftrightarrow> pr_open p = pr_open p0 \<and> pr_stray p = pr_stray p0 \<and> pr_next p0 \<le> pr_next p"

lemma released_ok: "released p0 p \<Longrightarrow> process_ok p0 \<Longrightarrow> process_ok p"
  by (auto simp: released_def process_ok_def list_all_iff)

lemma released_trans: "released p q \<Longrightarrow> released q r \<Longrightarrow> released p r"
  by (auto simp: released_def)

lemma tick_simps [simp]: "pr_open (tick p) = pr_open p" "pr_stray (tick p) = pr_stray p" "pr_next (tick p) = pr_next p"
  "process_ok (tick p) = process_ok p"
  by (simp_all add: tick_def process_ok_def)

lemma close_fd_next [simp]: "pr_next (close_fd fd p) = pr_next p"
  by (simp add: close_fd_def)

lemma delete_fresh: "fd \<notin> fst ` set l \<Longrightarrow> AList.delete fd l = l"
  by (induction l) auto

lemma close_held: "holds p0 fd ino p \<Longrightarrow> released p0 (close_fd fd p)"
  by (auto simp: holds_def released_def close_fd_def process_ok_def delete_fresh)

lemma close_fd_cong:
  "pr_open p = pr_open q \<and> pr_stray p = pr_stray q \<Longrightarrow>
   pr_open (close_fd fd p) = pr_open (close_fd fd q) \<and> pr_stray (close_fd fd p) = pr_stray (close_fd fd q)"
  by (simp add: close_fd_def)

text \<open>A new descriptor opened while \<open>fd\<close> is held, and \<open>fd\<close> closed after it.\<close>

lemma open_then_close:
  assumes "holds p0 fd ino p"
  shows "holds p0 (pr_next p) e (close_fd fd (snd (open_fd e (tick p))))"
    and "released p0 (close_fd fd (close_fd (pr_next p) (snd (open_fd e (tick p)))))"
proof -
  have p: "pr_open p = (fd, ino) # pr_open p0" "fd < pr_next p" "fd \<notin> fst ` set (pr_open p0)"
    "list_all (\<lambda>(fd, _). fd < pr_next p) (pr_open p0)" "distinct (map fst (pr_open p0))" "pr_stray p = pr_stray p0"
  proof -
    have o: "pr_open p = (fd, ino) # pr_open p0" "distinct (map fst (pr_open p))"
      "list_all (\<lambda>(fd, _). fd < pr_next p) (pr_open p)" "pr_stray p = pr_stray p0"
      using assms unfolding holds_def process_ok_def by blast+
    show "pr_open p = (fd, ino) # pr_open p0" "pr_stray p = pr_stray p0" by (fact o)+
    show "fd < pr_next p" "fd \<notin> fst ` set (pr_open p0)" "list_all (\<lambda>(fd, _). fd < pr_next p) (pr_open p0)"
      "distinct (map fst (pr_open p0))"
      using o(2,3) unfolding o(1) by simp_all
  qed
  have nx: "pr_next p0 \<le> pr_next p" using assms by (simp add: holds_def)
  have nofd: "(fd, b) \<notin> set (pr_open p0)" for b using p(3) by force
  have fresh: "pr_next p \<notin> fst ` set (pr_open p0)" using p(4) by (auto simp: list_all_iff)
  have "list_all (\<lambda>(fd, _). fd < Suc (pr_next p)) (pr_open p0)" using p(4) by (auto simp: list_all_iff)
  then show "holds p0 (pr_next p) e (close_fd fd (snd (open_fd e (tick p))))"
    using p fresh nofd nx by (auto simp: holds_def open_fd_def close_fd_def process_ok_def delete_fresh)
  show "released p0 (close_fd fd (close_fd (pr_next p) (snd (open_fd e (tick p)))))"
    using p fresh nx by (auto simp: released_def open_fd_def close_fd_def delete_fresh)
qed

lemma openat_cases:
  assumes "openat os dir fd name p = (r, p1)" and "map_of (pr_open p) fd = Some d"
  shows "(\<exists>e. r = Inl e \<and> p1 = tick p) \<or>
    (\<exists>ino. r = Inr (pr_next p) \<and> p1 = snd (open_fd ino (tick p)) \<and> os_entry os (pr_time p) d name = Some ino \<and>
       os_kind os ino \<noteq> KSymlink \<and> (dir \<longrightarrow> os_kind os ino = KDir))"
  using assms by (auto simp: openat_def open_fd_def tick_def Let_def split: option.splits if_splits)

lemma holds_lookup: "holds p0 fd ino p \<Longrightarrow> map_of (pr_open p) fd = Some ino"
  by (simp add: holds_def)

lemma open_parts_ok:
  "open_parts os fd parts p = (r, p') \<Longrightarrow> holds p0 fd d p \<Longrightarrow>
   (case r of Inl e \<Rightarrow> released p0 p'
    | Inr fd' \<Rightarrow> \<exists>e. holds p0 fd' e p' \<and> dirs_reach os d (filter (\<lambda>n. n \<noteq> '''') parts) e)"
proof (induction parts arbitrary: fd d p)
  case (Cons part parts)
  show ?case
  proof (cases "part = ''''")
    case False
    obtain r1 p1 where o: "openat os True fd part p = (r1, p1)" by (cases "openat os True fd part p")
    from openat_cases[OF o holds_lookup[OF Cons.prems(2)]] show ?thesis
    proof (elim disjE exE conjE)
      fix e assume "r1 = Inl e" "p1 = tick p"
      moreover have "released p0 (close_fd fd (tick p))"
        using Cons.prems(2) by (intro close_held[of p0 fd d]) (auto simp: holds_def)
      ultimately show ?thesis using Cons.prems(1) False o by auto
    next
      fix e assume e: "r1 = Inr (pr_next p)" "p1 = snd (open_fd e (tick p))" "os_entry os (pr_time p) d part = Some e"
        "True \<longrightarrow> os_kind os e = KDir"
      have run: "open_parts os (pr_next p) parts (close_fd fd p1) = (r, p')"
        using Cons.prems(1) False o e(1) by simp
      have "holds p0 (pr_next p) e (close_fd fd p1)"
        unfolding e(2) by (rule open_then_close(1)[OF Cons.prems(2)])
      from Cons.IH[OF run this] show ?thesis using e False by (auto split: sum.splits)
    qed
  qed (use Cons in \<open>auto split: sum.splits\<close>)
qed auto

lemma walk_parts_ok:
  "walk_parts os fd parts p = (r, p') \<Longrightarrow> holds p0 fd d p \<Longrightarrow>
   (case r of Inl (e, fd') \<Rightarrow> \<exists>e. holds p0 fd' e p'
    | Inr fd' \<Rightarrow> \<exists>e. holds p0 fd' e p' \<and> dirs_reach os d parts e)"
proof (induction parts arbitrary: fd d p)
  case (Cons part parts)
  obtain r1 p1 where o: "openat os True fd part p = (r1, p1)" by (cases "openat os True fd part p")
  from openat_cases[OF o holds_lookup[OF Cons.prems(2)]] show ?case
  proof (elim disjE exE conjE)
    fix e assume "r1 = Inl e" "p1 = tick p"
    moreover have "holds p0 fd d (tick p)" using Cons.prems(2) by (auto simp: holds_def)
    ultimately show ?thesis using Cons.prems(1) o by auto
  next
    fix e assume e: "r1 = Inr (pr_next p)" "p1 = snd (open_fd e (tick p))" "os_entry os (pr_time p) d part = Some e"
      "True \<longrightarrow> os_kind os e = KDir"
    have run: "walk_parts os (pr_next p) parts (close_fd fd p1) = (r, p')"
      using Cons.prems(1) o e(1) by simp
    have "holds p0 (pr_next p) e (close_fd fd p1)"
      unfolding e(2) by (rule open_then_close(1)[OF Cons.prems(2)])
    from Cons.IH[OF run this] show ?thesis using e by (auto split: sum.splits)
  qed
qed auto

lemma openDirectory_ok:
  assumes "openDirectory os directory p = (r, p')" and "process_ok p"
  shows "case r of Inl e \<Rightarrow> released p p'
    | Inr fd \<Rightarrow> \<exists>root abs e. os_root os = Some root \<and> os_abs os directory = Some abs \<and> holds p fd e p' \<and>
        dirs_reach os root (filter (\<lambda>n. n \<noteq> '''') (split_on CHR ''/'' (trim_prefix abs ''/''))) e"
proof (cases "os_abs os directory = None \<or> os_root os = None")
  case True
  then show ?thesis using assms(1) by (auto simp: openDirectory_def released_def split: option.splits)
next
  case False
  then obtain root abs where ra: "os_root os = Some root" "os_abs os directory = Some abs" by auto
  have run: "open_parts os (pr_next p) (split_on CHR ''/'' (trim_prefix abs ''/'')) (snd (open_fd root (tick p))) = (r, p')"
    using assms(1) ra by (simp add: openDirectory_def open_fd_def)
  have "holds p (pr_next p) root (snd (open_fd root (tick p)))"
    using assms(2) by (auto simp: holds_def open_fd_def process_ok_def list_all_iff)
  from open_parts_ok[OF run this] show ?thesis using ra by (auto split: sum.splits)
qed

lemma read_file_process: "read_file sha os inp ino p = (r, p') \<Longrightarrow> pr_open p' = pr_open p \<and> pr_stray p' = pr_stray p \<and> pr_next p' = pr_next p"
  by (auto simp: read_file_def Let_def split: option.splits if_splits)

lemma read_file_sound:
  "read_file sha os inp ino p = (Inr data, p') \<Longrightarrow>
   os_kind os ino = KRegular \<and> int (length data) = in_Size inp \<and> sha data = in_SHA256 inp \<and>
   (\<exists>t. os_content os t ino = Some data)"
proof -
  assume "read_file sha os inp ino p = (Inr data, p')"
  then obtain content t where k: "os_kind os ino = KRegular" and c: "os_content os t ino = Some content"
    and d: "data = take (nat (in_Size inp + 1)) content" "int (length data) = in_Size inp" "sha data = in_SHA256 inp"
    by (auto simp: read_file_def Let_def split: option.splits if_splits)
  have "length content \<le> nat (in_Size inp + 1) - 1"
  proof (rule ccontr)
    assume "\<not> length content \<le> nat (in_Size inp + 1) - 1"
    then have "length data = nat (in_Size inp + 1)" unfolding d(1) by simp
    then show False using d(2) by linarith
  qed
  then have "data = content" unfolding d(1) by simp
  then show ?thesis using k c d by auto
qed

definition path_names :: "string \<Rightarrow> string list" where
  "path_names absolute = filter (\<lambda>n. n \<noteq> '''') (split_on CHR ''/'' (trim_prefix absolute ''/''))"

text \<open>
  The bytes are the content of a regular file reached from the root through the names of
  the directory and of the input path, with no symbolic link on the way.
\<close>

definition read_from :: "os_answers \<Rightarrow> string \<Rightarrow> lb_input \<Rightarrow> bytes \<Rightarrow> bool" where
  "read_from os directory inp data \<longleftrightarrow>
     (\<exists>root abs dir t e t'. os_root os = Some root \<and> os_abs os directory = Some abs \<and>
        dirs_reach os root (path_names abs @ butlast (split_on CHR ''/'' (in_Path inp))) dir \<and>
        os_entry os t dir (List.last (split_on CHR ''/'' (in_Path inp))) = Some e \<and>
        os_kind os e = KRegular \<and> os_content os t' e = Some data)"

text \<open>All of \<^verbatim>\<open>ReadInput\<close>: what is left open, and what an answer says.\<close>

lemma ReadInput_all:
  assumes "ReadInput sha os directory inp p = (r, p')" and "process_ok p"
  shows "released p p' \<and> (\<forall>data. r = Inr data \<longrightarrow>
    input_validate inp = Inr () \<and> int (length data) = in_Size inp \<and> sha data = in_SHA256 inp \<and>
    read_from os directory inp data)"
proof (cases "input_validate inp")
  case (Inl e)
  then show ?thesis using assms by (auto simp: ReadInput_def released_def)
next
  case (Inr u)
  let ?parts = "split_on CHR ''/'' (in_Path inp)"
  obtain r1 p1 where dir: "openDirectory os directory p = (r1, p1)" by (cases "openDirectory os directory p")
  note od = openDirectory_ok[OF dir assms(2)]
  show ?thesis
  proof (cases r1)
    case e: (Inl e)
    then show ?thesis using assms(1) Inr dir od by (auto simp: ReadInput_def)
  next
    case fd0: (Inr fd0)
    with od obtain root abs e0 where ra: "os_root os = Some root" "os_abs os directory = Some abs"
      and h0: "holds p fd0 e0 p1"
      and d0: "dirs_reach os root (filter (\<lambda>n. n \<noteq> '''') (split_on CHR ''/'' (trim_prefix abs ''/''))) e0" by auto
    obtain r2 p2 where w: "walk_parts os fd0 (butlast ?parts) p1 = (r2, p2)"
      by (cases "walk_parts os fd0 (butlast ?parts) p1")
    note wp = walk_parts_ok[OF w h0]
    show ?thesis
    proof (cases r2)
      case (Inl ef)
      obtain e fd where ef: "ef = (e, fd)" by (cases ef)
      from wp Inl ef obtain i where "holds p fd i p2" by auto
      then have "released p (close_fd fd p2)" by (rule close_held)
      moreover have "r = Inl e" "p' = close_fd fd p2"
        using assms(1) \<open>input_validate inp = Inr u\<close> dir fd0 w Inl ef by (auto simp: ReadInput_def)
      ultimately show ?thesis by simp
    next
      case fd: (Inr fd)
      with wp obtain e1 where h1: "holds p fd e1 p2" and d1: "dirs_reach os e0 (butlast ?parts) e1" by auto
      obtain r3 p3 where o: "openat os False fd (List.last ?parts) p2 = (r3, p3)"
        by (cases "openat os False fd (List.last ?parts) p2")
      from openat_cases[OF o holds_lookup[OF h1]] show ?thesis
      proof (elim disjE exE conjE)
        fix e assume e: "r3 = Inl e" "p3 = tick p2"
        have "released p (close_fd fd (tick p2))" using h1 by (intro close_held[of p fd e1]) (auto simp: holds_def)
        moreover have "r = Inl e" "p' = close_fd fd (tick p2)"
          using assms(1) \<open>input_validate inp = Inr u\<close> dir fd0 w fd o e by (auto simp: ReadInput_def)
        ultimately show ?thesis by simp
      next
        fix ino assume i: "r3 = Inr (pr_next p2)" "p3 = snd (open_fd ino (tick p2))"
          "os_entry os (pr_time p2) e1 (List.last ?parts) = Some ino"
        obtain r4 p4 where f: "read_file sha os inp ino p3 = (r4, p4)" by (cases "read_file sha os inp ino p3")
        have m: "map_of (pr_open p3) (pr_next p2) = Some ino" unfolding i(2) by (simp add: open_fd_def)
        have res: "r = r4" "p' = close_fd fd (close_fd (pr_next p2) p4)"
          using assms(1) \<open>input_validate inp = Inr u\<close> dir fd0 w fd o i(1) m f by (auto simp: ReadInput_def)
        have rel: "released p (close_fd fd (close_fd (pr_next p2) p3))"
          unfolding i(2) by (rule open_then_close(2)[OF h1])
        note rf = read_file_process[OF f]
        have "released p p'"
          using rel close_fd_cong[OF close_fd_cong[of p4 p3 "pr_next p2"], of fd] rf
          unfolding res released_def by auto
        moreover have "int (length data) = in_Size inp \<and> sha data = in_SHA256 inp \<and> read_from os directory inp data"
          if data: "r = Inr data" for data
        proof -
          have rs: "os_kind os ino = KRegular" "int (length data) = in_Size inp" "sha data = in_SHA256 inp"
            "\<exists>t. os_content os t ino = Some data"
            using read_file_sound[of sha os inp ino p3 data p4] f res(1) data by auto
          have "dirs_reach os root (path_names abs @ butlast ?parts) e1"
            using d0 d1 unfolding dirs_reach_append path_names_def by blast
          then have "read_from os directory inp data"
            using ra i(3) rs(1,4) unfolding read_from_def by blast
          then show ?thesis using rs by simp
        qed
        ultimately show ?thesis using \<open>input_validate inp = Inr u\<close> by simp
      qed
    qed
  qed
qed

text \<open>
  C31. For every answer of the operating system, \<^verbatim>\<open>ReadInput\<close> leaves exactly the descriptors
  open that were open before and closes none twice; and what it returns is the content of a
  regular file, reached without a symbolic link from the root through the directory and the
  input path, of the pinned size and digest.
\<close>

theorem ReadInput_pinned:
  assumes "ReadInput sha os directory inp p = (r, p')" and "process_ok p"
  shows "pr_open p' = pr_open p \<and> pr_stray p' = pr_stray p \<and>
    (\<forall>data. r = Inr data \<longrightarrow> int (length data) = in_Size inp \<and> in_Size inp \<le> 2 ^ 26 \<and>
       sha data = in_SHA256 inp \<and> read_from os directory inp data)"
proof -
  note all = ReadInput_all[OF assms]
  have "in_Size inp \<le> 2 ^ 26" if "input_validate inp = Inr ()"
    using that by (auto simp: input_validate_def Let_def MaxPayloadBytes_def split: if_splits)
  then show ?thesis using all unfolding released_def by blast
qed

section \<open>The bundle and its kernel\<close>

lemma kernel_sections_sound:
  assumes "ARM64PE loader = Inr f"
  shows "set ss \<subseteq> set (pf_sections f) \<Longrightarrow> foldR (kernel_section loader) ss [] = Inr sections \<Longrightarrow>
    (\<forall>n b. map_of sections n = Some b \<longrightarrow> (\<exists>s \<in> set ss. ps_name s = n \<and> payload loader s = b)) \<and>
    (\<forall>s \<in> set ss. ps_name s \<notin> set sidecar_sections)"
proof (induction ss arbitrary: sections rule: rev_induct)
  case (snoc s ss)
  then obtain sec0 where sec0: "foldR (kernel_section loader) ss [] = Inr sec0"
    and step: "kernel_section loader s sec0 = Inr sections"
    by (auto simp: foldR_append bindR_Inr_iff)
  have IH: "\<forall>n b. map_of sec0 n = Some b \<longrightarrow> (\<exists>s \<in> set ss. ps_name s = n \<and> payload loader s = b)"
    "\<forall>s \<in> set ss. ps_name s \<notin> set sidecar_sections"
    using snoc.IH[OF _ sec0] snoc.prems(1) by auto
  have side: "ps_name s \<notin> set sidecar_sections"
    using step by (auto simp: kernel_section_def split: if_splits)
  show ?case
  proof (cases "ps_name s = ''.linux'' \<or> ps_name s = ''.uname''")
    case True
    then have v: "ps_vsize s \<noteq> 0" "ps_vsize s \<le> ps_size s"
      using step side by (auto simp: kernel_section_def split: if_splits)
    have nv: "\<not> ps_size s < ps_vsize s" using v(2) by simp
    have "s \<in> set (pf_sections f)" using snoc.prems(1) by simp
    note sl = section_payload(3)[OF assms this v, folded payload_def]
    have "sections = (ps_name s, payload loader s) # sec0"
      using step side True v(1) nv sl by (auto simp: kernel_section_def split: if_splits)
    then show ?thesis using IH side by auto
  next
    case False
    then have "sections = sec0" using step side by (simp add: kernel_section_def)
    then show ?thesis using IH side by auto
  qed
qed simp

text \<open>The loader carries the kernel, byte for byte, in a section of that name, and no sidecar.\<close>

definition carries_kernel :: "bytes \<Rightarrow> bytes \<Rightarrow> bool" where
  "carries_kernel loader krn \<longleftrightarrow>
     (\<exists>f. ARM64PE loader = Inr f \<and> (\<exists>s \<in> set (pf_sections f). ps_name s = ''.linux'' \<and> payload loader s = krn) \<and>
       (\<forall>s \<in> set (pf_sections f). ps_name s \<notin> set sidecar_sections))"

lemma ValidateKernelPair_sound:
  assumes "ValidateKernelPair sha ord loader krn release m = Inr u"
  shows "carries_kernel loader krn \<and> sha krn = mf_KernelSHA256 m \<and> release = mf_KernelRelease m \<and> krn \<noteq> []"
proof -
  from assms obtain f sections where f: "ARM64PE loader = Inr f"
    and sec: "foldR (kernel_section loader) (pf_sections f) [] = Inr sections"
    and k: "map_of sections ''.linux'' = Some krn"
    and m: "sha krn = mf_KernelSHA256 m" "release = mf_KernelRelease m" "krn \<noteq> []"
    by (auto simp: ValidateKernelPair_def bindR_Inr_iff split: if_splits)
  from kernel_sections_sound[OF f subset_refl sec] k f show ?thesis
    using m unfolding carries_kernel_def by blast
qed

definition adsp_gate :: string where
  "adsp_gate = ''tacklebox.x13s-adsp=required''"

definition names_gate :: "string \<Rightarrow> bool" where
  "names_gate a \<longleftrightarrow> fst (cut_eq a) = ''tacklebox.x13s-adsp''"

definition names_blacklist :: "string \<Rightarrow> bool" where
  "names_blacklist a \<longleftrightarrow> contains (map lower_char (fst (cut_eq a))) ''blacklist''"

lemma check_argument_Inr:
  assumes "check_argument arg n = Inr n'"
  shows "safeWord arg \<and> n' = (if names_gate arg then n + 1 else n) \<and>
    (names_gate arg \<longrightarrow> arg = adsp_gate) \<and> \<not> names_blacklist arg"
proof -
  obtain key v b where c: "cut_eq arg = (key, v, b)" by (cases "cut_eq arg")
  have ok: "safeWord arg" "key = ''tacklebox.x13s-adsp'' \<longrightarrow> v = ''required''"
    "n' = (if key = ''tacklebox.x13s-adsp'' then n + 1 else n)"
    "\<not> contains (map (\<lambda>c. if c = CHR ''-'' then CHR ''_'' else c) (map lower_char key)) ''blacklist''"
    using assms by (auto simp: check_argument_def c Let_def split: if_splits)
  have whole: "arg = ''tacklebox.x13s-adsp=required''" if "key = ''tacklebox.x13s-adsp''" "v = ''required''"
  proof -
    have key: "key = takeWhile (\<lambda>c. c \<noteq> CHR ''='') arg" and v: "v = drop 1 (dropWhile (\<lambda>c. c \<noteq> CHR ''='') arg)"
      using c by (simp_all add: cut_eq_def)
    have "dropWhile (\<lambda>c. c \<noteq> CHR ''='') arg \<noteq> []"
    proof
      assume "dropWhile (\<lambda>c. c \<noteq> CHR ''='') arg = []"
      then show False using v that(2) by (simp only: drop_Nil) simp
    qed
    then obtain x xs where dw: "dropWhile (\<lambda>c. c \<noteq> CHR ''='') arg = x # xs"
      by (cases "dropWhile (\<lambda>c. c \<noteq> CHR ''='') arg") blast+
    then have "x = CHR ''=''" using hd_dropWhile[of "\<lambda>c. c \<noteq> CHR ''=''" arg] by simp
    moreover have "xs = v" unfolding v dw by simp
    ultimately have "arg = key @ CHR ''='' # v"
      using takeWhile_dropWhile_id[of "\<lambda>c. c \<noteq> CHR ''=''" arg] unfolding key dw by simp
    then show ?thesis using that by simp
  qed
  have "\<not> contains (map lower_char key) ''blacklist''"
  proof
    assume "contains (map lower_char key) ''blacklist''"
    then obtain a d where "map lower_char key = a @ ''blacklist'' @ d" by (auto simp: contains_iff)
    then have "map (\<lambda>c. if c = CHR ''-'' then CHR ''_'' else c) (map lower_char key) =
      map (\<lambda>c. if c = CHR ''-'' then CHR ''_'' else c) a @ ''blacklist'' @
      map (\<lambda>c. if c = CHR ''-'' then CHR ''_'' else c) d" by simp
    then show False using ok(4) contains_iff by blast
  qed
  then show ?thesis using ok whole c by (auto simp: names_gate_def names_blacklist_def adsp_gate_def)
qed

lemma check_arguments_Inr:
  "foldR check_argument args n = Inr n' \<Longrightarrow>
   list_all safeWord args \<and> n' = n + length (filter (\<lambda>a. a = adsp_gate) args) \<and>
   list_all (\<lambda>a. names_gate a \<longrightarrow> a = adsp_gate) args \<and> list_all (\<lambda>a. \<not> names_blacklist a) args"
proof (induction args arbitrary: n)
  case (Cons a args)
  from Cons.prems obtain n1 where n1: "check_argument a n = Inr n1" and rest: "foldR check_argument args n1 = Inr n'"
    by (auto simp: bindR_Inr_iff)
  have gate: "names_gate adsp_gate" by code_simp
  note c = check_argument_Inr[OF n1]
  then have "n1 = n + (if a = adsp_gate then 1 else 0)" using gate by auto
  then show ?case using c Cons.IH[OF rest] by simp
qed simp

text \<open>The words a GRUB command line of safe words splits into.\<close>

lemma safeWord_no_space:
  assumes "safeWord w"
  shows "w \<noteq> [] \<and> (\<forall>c \<in> set w. \<not> is_space c)"
proof -
  have "\<not> is_space c" if "word_char c" for c
    using that by (auto simp: word_char_def is_space_def less_eq_char_def)
  then show ?thesis using assms by (auto simp: safeWord_def list_all_iff)
qed

lemma linux_line:
  assumes env: "safeWord env" and args: "list_all safeWord args"
  shows "Prelude.fields (split_on (CHR 0x0A) (grub_config (''/images/pxeboot/'' @ env @ ''/'') args) ! 3) =
    ''linux'' # (''/images/pxeboot/'' @ env @ ''/vmlinuz'') # args"
proof -
  define base where "base = ''/images/pxeboot/'' @ env @ ''/''"
  define krn where "krn = base @ ''vmlinuz''"
  define line where "line = '' linux '' @ krn @ '' '' @ join_with '' '' args"
  define tail where "tail = '' initrd '' @ base @ ''initrd.img'' @ nl @ ''}'' @ nl"
  have words: "\<forall>w \<in> set args. w \<noteq> [] \<and> (\<forall>c \<in> set w. \<not> is_space c)"
    using args safeWord_no_space unfolding list_all_iff by blast
  have k: "krn \<noteq> []" "\<forall>c \<in> set krn. \<not> is_space c"
    using safeWord_no_space[OF env] by (auto simp: krn_def base_def is_space_def)
  have "CHR 0x0A \<notin> set (join_with '' '' args)"
    using words
    by (induction args rule: induct_list012) (auto simp: is_space_def)
  moreover have "CHR 0x0A \<notin> set krn" using k(2) by (auto simp: is_space_def)
  ultimately have nonl: "CHR 0x0A \<notin> set line" by (auto simp: line_def)
  have "grub_config base args = ''set timeout=5'' @ CHR 0x0A # ''set default=0'' @ CHR 0x0A #
      (''menuentry '' @ [CHR 0x27] @ ''TunaOS X13s experimental live'' @ [CHR 0x27] @ '' {'') @ CHR 0x0A # line @ CHR 0x0A # tail"
    by (simp add: grub_config_def line_def tail_def krn_def nl_def)
  note config = this
  have h: "CHR 0x0A \<notin> set ''set timeout=5''" "CHR 0x0A \<notin> set ''set default=0''"
    "CHR 0x0A \<notin> set (''menuentry '' @ [CHR 0x27] @ ''TunaOS X13s experimental live'' @ [CHR 0x27] @ '' {'')"
    by simp_all
  have "split_on (CHR 0x0A) (grub_config base args) ! 3 = line"
    unfolding config split_on_append_sep[OF h(1)] split_on_append_sep[OF h(2)] split_on_append_sep[OF h(3)]
      split_on_append_sep[OF nonl] numeral_3_eq_3 nth_Cons_Suc nth_Cons_0 by (rule refl)
  moreover have "Prelude.fields line = ''linux'' # krn # args"
  proof -
    have "Prelude.fields (krn @ CHR '' '' # join_with '' '' args) = krn # Prelude.fields (join_with '' '' args)"
      by (rule Prelude.fields_word_space[OF k]) (simp add: is_space_def)
    moreover have "Prelude.fields ('' linux '' @ s) = ''linux'' # Prelude.fields s" for s
    proof -
      have sp: "is_space (CHR '' '')" by (simp add: is_space_def)
      have "Prelude.fields (CHR '' '' # (''linux'' @ CHR '' '' # s)) = Prelude.fields (''linux'' @ CHR '' '' # s)"
        by (rule Prelude.fields_space[OF sp])
      also have "\<dots> = ''linux'' # Prelude.fields s"
        by (rule Prelude.fields_word_space[OF _ _ sp]) (auto simp: is_space_def)
      finally show ?thesis by simp
    qed
    ultimately show ?thesis unfolding line_def fields_join_space[OF words] by simp
  qed
  ultimately show ?thesis by (simp add: base_def krn_def)
qed

definition pinned :: "(bytes \<Rightarrow> string) \<Rightarrow> os_answers \<Rightarrow> string \<Rightarrow> lb_input \<Rightarrow> bytes \<Rightarrow> bool" where
  "pinned sha os directory inp data \<longleftrightarrow>
     int (length data) = in_Size inp \<and> sha data = in_SHA256 inp \<and> read_from os directory inp data"

lemma read_inputs_ok:
  "read_inputs sha os directory ins p = (r, p') \<Longrightarrow> process_ok p \<Longrightarrow>
   released p p' \<and> (\<forall>ds. r = Inr ds \<longrightarrow> list_all2 (\<lambda>ni d. pinned sha os directory (snd ni) d) ins ds)"
proof (induction ins arbitrary: r p p')
  case (Cons ni ins)
  obtain name inp where ni: "ni = (name, inp)" by (cases ni)
  obtain r1 p1 where one: "ReadInput sha os directory inp p = (r1, p1)" by (cases "ReadInput sha os directory inp p")
  note all = ReadInput_all[OF one Cons.prems(2)]
  show ?case
  proof (cases r1)
    case (Inl e)
    then show ?thesis using Cons.prems(1) one all ni by auto
  next
    case (Inr data)
    obtain r2 p2 where rest: "read_inputs sha os directory ins p1 = (r2, p2)"
      by (cases "read_inputs sha os directory ins p1")
    have rel: "released p p1" using all by simp
    note IH = Cons.IH[OF rest released_ok[OF rel Cons.prems(2)]]
    have d: "pinned sha os directory inp data" using all Inr by (simp add: pinned_def)
    show ?thesis
      using Cons.prems(1) one Inr rest IH released_trans[OF rel] d ni by (auto split: sum.splits)
  qed
qed (auto simp: released_def)

text \<open>
  C30. A bundle is prepared only from four files of pinned size and digest and with a
  loader that carries the given kernel byte for byte, whose digest is the manifest's, and
  no internal initrd or command line. The files are those bytes unchanged, and the linux
  line of the generated configuration splits into the kernel path and exactly the given
  arguments, one of which is the mandatory gate and none a blacklist. Nothing stays open.
\<close>

theorem Prepare_sound:
  assumes "Prepare sha ord os directory m krn release scope args p = (Inr b, p')" and "process_ok p"
  shows "pr_open p' = pr_open p \<and> pr_stray p' = pr_stray p \<and>
    (\<exists>shim grub loader config.
      pinned sha os directory (mf_Shim m) shim \<and> pinned sha os directory (mf_GRUB m) grub \<and>
      pinned sha os directory (mf_Loader m) loader \<and>
      pinned sha os directory (mf_PreparationReceipt m) (bu_PreparationReceipt b) \<and>
      carries_kernel loader krn \<and> sha krn = mf_KernelSHA256 m \<and> HasBoardMapping loader = Inr () \<and>
      bu_Files b = [(''EFI/BOOT/BOOTAA64.EFI'', shim), (''EFI/BOOT/grubaa64.efi'', grub),
        (''EFI/fedora/grubaa64.efi'', grub), (''EFI/BOOT/grub.cfg'', bytes_of config),
        (''EFI/fedora/grub.cfg'', bytes_of config),
        (''images/pxeboot/'' @ sc_Environment scope @ ''/vmlinuz'', loader)] \<and>
      Prelude.fields (split_on (CHR 0x0A) config ! 3) =
        ''linux'' # (''/images/pxeboot/'' @ sc_Environment scope @ ''/vmlinuz'') # args) \<and>
    length (filter (\<lambda>a. a = adsp_gate) args) = 1 \<and> list_all (\<lambda>a. \<not> names_blacklist a) args"
proof -
  let ?ins = "[(''shim'', mf_Shim m), (''GRUB'', mf_GRUB m), (''loader'', mf_Loader m),
              (''preparation receipt'', mf_PreparationReceipt m)]"
  obtain r1 where pre: "bindR (Validate ord m) (\<lambda>_. bindR (ValidateScope scope) (\<lambda>_. bindR (ValidateArguments args) (\<lambda>_.
        if args = [] \<or> 128 < length args then Inl (ScopeErr ArgumentCount)
        else need (list_all safeWord args) (ScopeErr BadArgument)))) = r1" by blast
  obtain r2 p1 where ri: "read_inputs sha os directory ?ins p = (r2, p1)"
    by (cases "read_inputs sha os directory ?ins p")
  from assms(1) pre obtain u where u: "r1 = Inr u" by (cases r1) (auto simp: Prepare_def)
  from assms(1) u ri pre obtain ds where ds: "r2 = Inr ds" by (cases r2) (auto simp: Prepare_def)
  have asm: "assemble sha ord m krn release (sc_Environment scope) args (ds ! 0) (ds ! 1) (ds ! 2) (ds ! 3) = Inr b"
    and p1: "p1 = p'"
    using assms(1) u ri pre ds by (simp_all add: Prepare_def)
  note inputs = read_inputs_ok[OF ri assms(2)]
  then obtain shim grub loader receipt where d: "ds = [shim, grub, loader, receipt]"
    and pins: "pinned sha os directory (mf_Shim m) shim" "pinned sha os directory (mf_GRUB m) grub"
      "pinned sha os directory (mf_Loader m) loader" "pinned sha os directory (mf_PreparationReceipt m) receipt"
    using ds by (auto simp: list_all2_Cons1)
  define config where "config = grub_config (''/images/pxeboot/'' @ sc_Environment scope @ ''/'') args"
  from asm d have pair: "ValidateKernelPair sha ord loader krn release m = Inr ()"
    and board: "HasBoardMapping loader = Inr ()"
    and b: "bu_PreparationReceipt b = receipt" "bu_Files b = [(''EFI/BOOT/BOOTAA64.EFI'', shim), (''EFI/BOOT/grubaa64.efi'', grub),
        (''EFI/fedora/grubaa64.efi'', grub), (''EFI/BOOT/grub.cfg'', bytes_of config),
        (''EFI/fedora/grub.cfg'', bytes_of config),
        (''images/pxeboot/'' @ sc_Environment scope @ ''/vmlinuz'', loader)]"
    by (auto simp: assemble_def bindR_Inr_iff config_def Let_def trim_prefix_def)
  from pre u have scope: "ValidateScope scope = Inr ()" and args: "ValidateArguments args = Inr ()"
    by (auto simp: bindR_Inr_iff)
  have env: "safeWord (sc_Environment scope)"
    using scope by (auto simp: ValidateScope_def split: if_splits prod.splits)
  from args obtain n where n: "foldR check_argument args 0 = Inr n" "n = 1"
    by (auto simp: ValidateArguments_def bindR_Inr_iff)
  note ca = check_arguments_Inr[OF n(1)]
  then have safe: "list_all safeWord args" by blast
  have line: "Prelude.fields (split_on (CHR 0x0A) config ! 3) =
        ''linux'' # (''/images/pxeboot/'' @ sc_Environment scope @ ''/vmlinuz'') # args"
    unfolding config_def by (rule linux_line[OF env safe])
  note k = ValidateKernelPair_sound[OF pair]
  have "pr_open p' = pr_open p \<and> pr_stray p' = pr_stray p"
    using inputs p1 by (simp add: released_def)
  moreover have "length (filter (\<lambda>a. a = adsp_gate) args) = 1 \<and> list_all (\<lambda>a. \<not> names_blacklist a) args"
    using ca n(2) by simp
  ultimately show ?thesis using pins k board b line by blast
qed

lemma ValidateKernelPair_no_panic:
  "ValidateKernelPair sha ord loader krn release m \<noteq> Inl Panic"
proof
  assume as: "ValidateKernelPair sha ord loader krn release m = Inl Panic"
  have sec: "kernel_section loader s ss \<noteq> Inl Panic" if "ARM64PE loader = Inr f" "s \<in> set (pf_sections f)" for f s ss
    using section_payload(3)[OF that] by (auto simp: kernel_section_def bindR_Inl_iff not_less split: if_splits)
  have inp: "named n (input_validate i) \<noteq> Inl Panic" for n i
    by (auto simp: named_def input_validate_def Let_def split: sum.splits)
  have val: "Validate ord m \<noteq> Inl Panic"
    by (auto simp: Validate_def bindR_Inl_iff inp dest!: foldR_Inl split: if_splits)
  from as sec val show False
    by (auto simp: ValidateKernelPair_def bindR_Inl_iff ARM64PE_no_panic dest!: foldR_Inl split: if_splits option.splits)
qed

text \<open>
  C32. Whatever bytes a loader consists of, the checks read no byte outside it: the
  executable check, the device tree parser, the board mapping and the kernel match never
  evaluate a slice or an integer read that is out of range.
\<close>

theorem liveboot_no_panic:
  "ARM64PE loader \<noteq> Inl Panic \<and> rootCompatible loader \<noteq> Inl Panic \<and> HasBoardMapping loader \<noteq> Inl Panic \<and>
   ValidateKernelPair sha ord loader krn release m \<noteq> Inl Panic"
  by (intro conjI ARM64PE_no_panic rootCompatible_no_panic HasBoardMapping_no_panic ValidateKernelPair_no_panic)

section \<open>A preparation\<close>

definition demo_sha :: "bytes \<Rightarrow> string" where
  "demo_sha b = replicate 64 CHR ''0''"

definition demo_loader :: bytes where
  "demo_loader = synthetic_pe (board_sections [1, 2, 3] ''7.2'')"

definition demo_shim :: bytes where
  "demo_shim = synthetic_pe [(''.text'', [7])]"

text \<open>The directory \<open>/in\<close> with four files: the inodes are 2 to 5.\<close>

definition demo_content :: "nat \<Rightarrow> bytes" where
  "demo_content i = (if i = 4 then demo_loader else if i = 5 then [123, 125] else demo_shim)"

definition demo_os :: os_answers where
  "demo_os = \<lparr>os_root = Some 0,
     os_kind = (\<lambda>i. if i < 2 then KDir else KRegular),
     os_entry = (\<lambda>t d n. if d = 0 \<and> n = ''in'' then Some 1
       else if d = 1 then map_of [(''a'', 2), (''b'', 3), (''c'', 4), (''d'', 5)] n else None),
     os_stat = (\<lambda>t i. Some (int (length (demo_content i)), 0)),
     os_content = (\<lambda>t i. Some (demo_content i)),
     os_abs = Some\<rparr>"

definition demo_input :: "string \<Rightarrow> nat \<Rightarrow> lb_input" where
  "demo_input n i = \<lparr>in_Path = n, in_Size = int (length (demo_content i)), in_SHA256 = replicate 64 CHR ''0''\<rparr>"

definition demo_manifest :: lb_manifest where
  "demo_manifest = \<lparr>mf_Mode = Mode, mf_Board = Board, mf_Architecture = ''arm64'', mf_KernelRelease = ''7.2'',
     mf_KernelSHA256 = replicate 64 CHR ''0'', mf_Shim = demo_input ''a'' 2, mf_GRUB = demo_input ''b'' 3,
     mf_Loader = demo_input ''c'' 4, mf_PreparationReceipt = demo_input ''d'' 5\<rparr>"

definition demo_scope :: lb_scope where
  "demo_scope = \<lparr>sc_ISO = True, sc_BlockTarget = False, sc_Environments = 1, sc_LiveOnly = True, sc_Dedup = False,
     sc_OfflinePayloads = 0, sc_SkipInitramfsRebuild = False,
     sc_Image = ''r/i@sha256:'' @ replicate 64 CHR ''0'', sc_Environment = ''gnome''\<rparr>"

definition demo_process :: process where
  "demo_process = \<lparr>pr_time = 0, pr_next = 3, pr_open = [], pr_stray = 0\<rparr>"

lemma demo_digest: "validDigest (replicate 64 CHR ''0'')"
  by code_simp

lemma demo_lengths:
  "int (length (demo_content i)) \<le> MaxPayloadBytes \<and> 0 < int (length (demo_content i))"
  "int (length (demo_content 5)) = 2"
proof -
  have "list_all (\<lambda>s. pe_name_ok (fst s)) (board_sections [1, 2, 3] ''7.2'')"
    by (simp add: board_sections_def pe_name_ok_def)
  note l = synthetic_pe_read(10)[OF this]
  have "length demo_loader = 590"
    using l by (simp add: demo_loader_def board_sections_def board_dtb_def dtb_blob_def Let_def board_tree_props_def
        Board_def board_strings_def length_pad4 board_hwids_def)
  moreover have "length demo_shim = 241" by (simp add: demo_shim_def synthetic_pe_def)
  ultimately show "int (length (demo_content i)) \<le> MaxPayloadBytes \<and> 0 < int (length (demo_content i))"
    by (simp add: demo_content_def MaxPayloadBytes_def flip: length_greater_0_conv)
qed (simp add: demo_content_def)

lemma demo_input_ok: "n \<in> {''a'', ''b'', ''c'', ''d''} \<Longrightarrow> input_validate (demo_input n i) = Inr ()"
proof -
  assume "n \<in> {''a'', ''b'', ''c'', ''d''}"
  then have "path_clean n = n" "n \<noteq> ''''" "n \<noteq> ''.''" "\<not> has_prefix n ''/''"
    "\<not> contains_any n [CHR 0x5C, CHR 0x00]" "\<not> list_ex (\<lambda>part. part = ''..'') (split_on CHR ''/'' n)"
    by (elim insertE emptyE; hypsubst; code_simp)+
  then show ?thesis
    using demo_lengths(1)[of i] demo_digest by (simp add: input_validate_def demo_input_def Let_def)
qed

definition later :: "process \<Rightarrow> process" where
  "later p = p\<lparr>pr_time := pr_time p + 6, pr_next := pr_next p + 3\<rparr>"

lemma demo_read:
  assumes "(n, i) \<in> {(''a'', 2), (''b'', 3), (''c'', 4), (''d'', 5)}" and "pr_open p = []"
  shows "ReadInput demo_sha demo_os ''/in'' (demo_input n i) p = (Inr (demo_content i), later p)"
proof -
  have v: "input_validate (demo_input n i) = Inr ()" using assms(1) by (intro demo_input_ok) auto
  have sp: "split_on CHR ''/'' n = [n]" "split_on CHR ''/'' (trim_prefix ''/in'' ''/'') = [''in'']"
    using assms(1) by (auto simp: trim_prefix_def)
  have e: "map_of [(''a'', 2), (''b'', 3), (''c'', 4), (''d'', 5)] n = Some i" "2 \<le> i"
    using assms(1) by auto
  have t: "take (nat (int (length (demo_content i)) + 1)) (demo_content i) = demo_content i" by simp
  have os: "os_root demo_os = Some 0" "os_abs demo_os = Some" "os_entry demo_os t 0 ''in'' = Some 1"
    "os_entry demo_os t 1 n = Some i" "os_kind demo_os 1 = KDir" "os_kind demo_os i = KRegular"
    "os_stat demo_os t i = Some (int (length (demo_content i)), 0)" "os_content demo_os t i = Some (demo_content i)" for t
    using e by (simp_all add: demo_os_def)
  have inp: "in_Path (demo_input n i) = n" "in_Size (demo_input n i) = int (length (demo_content i))"
    "in_SHA256 (demo_input n i) = demo_sha (demo_content i)"
    by (simp_all add: demo_input_def demo_sha_def)
  have os1: "os_entry demo_os t (Suc 0) n = Some i" "os_kind demo_os (Suc 0) = KDir" for t
    using os(4,5) by simp_all
  show ?thesis
    using assms(2)
    by (simp add: ReadInput_def v openDirectory_def os os1 inp sp open_fd_def tick_def openat_def close_fd_def
        Let_def read_file_def later_def)
qed

theorem ReadInput_pinned_witness:
  "ReadInput demo_sha demo_os ''/in'' (demo_input ''c'' 4) demo_process = (Inr demo_loader, later demo_process) \<and>
   demo_sha demo_loader = in_SHA256 (demo_input ''c'' 4) \<and> pr_open (later demo_process) = [] \<and>
   read_from demo_os ''/in'' (demo_input ''c'' 4) demo_loader"
proof -
  have c: "demo_content 4 = demo_loader" by (simp add: demo_content_def)
  have r: "ReadInput demo_sha demo_os ''/in'' (demo_input ''c'' 4) demo_process = (Inr demo_loader, later demo_process)"
    using demo_read[of "''c''" 4 demo_process] c by (simp add: demo_process_def)
  have ok: "process_ok demo_process" by (simp add: process_ok_def demo_process_def)
  note pin = ReadInput_pinned[OF r ok]
  then have "pr_open (later demo_process) = pr_open demo_process" by (rule conjunct1)
  moreover have "pr_open demo_process = []" by (simp add: demo_process_def)
  ultimately show ?thesis using r pin by auto
qed

lemma demo_pair: "ValidateKernelPair demo_sha ord demo_loader [1, 2, 3] ''7.2'' demo_manifest = Inr ()"
  if valid: "Validate ord demo_manifest = Inr ()" for ord
proof -
  obtain s0 s1 s2 s3 where f:
    "ARM64PE (synthetic_pe (board_sections [1, 2, 3] ''7.2'')) =
      Inr \<lparr>pf_machine = 0xaa64, pf_optional = Header64, pf_sections = [s0, s1, s2, s3]\<rparr>"
    "ps_name s0 = ''.linux''" "ps_name s1 = ''.uname''" "ps_name s2 = ''.dtbauto''" "ps_name s3 = ''.hwids''"
    "ps_vsize s0 \<noteq> 0" "ps_size s0 = ps_vsize s0" "ps_vsize s1 = 0 \<longleftrightarrow> ''7.2'' = ''''" "ps_size s1 = ps_vsize s1"
    "slice (synthetic_pe (board_sections [1, 2, 3] ''7.2'')) (unat (ps_offset s0)) (unat (ps_offset s0 + ps_vsize s0)) = Inr [1, 2, 3]"
    "slice (synthetic_pe (board_sections [1, 2, 3] ''7.2'')) (unat (ps_offset s1)) (unat (ps_offset s1 + ps_vsize s1)) = Inr (bytes_of ''7.2'')"
    by (rule board_loader_sections[of "[1, 2, 3]" "''7.2''"]) simp_all
  have v1: "ps_vsize s1 \<noteq> 0" using f(8) by simp
  have secs: "foldR (kernel_section demo_loader) [s0, s1, s2, s3] [] = Inr [(''.uname'', bytes_of ''7.2''), (''.linux'', [1, 2, 3])]"
    using f v1 by (simp add: demo_loader_def kernel_section_def sidecar_sections_def)
  have u: "string_of_bytes (trim_right_by (\<lambda>b. b = 0) (bytes_of ''7.2'')) = ''7.2''" by code_simp
  have ne: "bytes_of ''7.2'' \<noteq> []" by (simp add: bytes_of_def)
  show ?thesis
    using valid secs f(1) u ne
    by (simp add: ValidateKernelPair_def MaxPayloadBytes_def demo_manifest_def demo_sha_def demo_loader_def[symmetric] need_def)
qed

theorem Prepare_sound_witness:
  "\<exists>b p. Prepare demo_sha (\<lambda>l. l) demo_os ''/in'' demo_manifest [1, 2, 3] ''7.2'' demo_scope
       [''console=ttyAMA0'', ''tacklebox.x13s-adsp=required''] demo_process = (Inr b, p) \<and>
     pr_open p = [] \<and> map_of (bu_Files b) ''images/pxeboot/gnome/vmlinuz'' = Some demo_loader \<and>
     carries_kernel demo_loader [1, 2, 3]"
proof -
  let ?args = "[''console=ttyAMA0'', ''tacklebox.x13s-adsp=required'']"
  have inputs: "input_validate (demo_input ''a'' 2) = Inr ()" "input_validate (demo_input ''b'' 3) = Inr ()"
    "input_validate (demo_input ''c'' 4) = Inr ()" "input_validate (demo_input ''d'' 5) = Inr ()"
    by (rule demo_input_ok, simp)+
  have kr: "\<not> contains_any ''7.2'' [CHR 0x00, CHR 0x0D, CHR 0x0A, CHR '' '', CHR ''/'', CHR 0x5C]" by code_simp
  have valid: "Validate (\<lambda>l. l) demo_manifest = Inr ()"
    using inputs kr demo_digest demo_lengths(2)
    by (simp add: Validate_def demo_manifest_def manifest_inputs_def named_def need_def) (simp add: demo_input_def)
  have scope: "ValidateScope demo_scope = Inr ()" by code_simp
  have args: "ValidateArguments ?args = Inr ()" by code_simp
  have words: "list_all safeWord ?args" by code_simp
  have c: "demo_content 2 = demo_shim" "demo_content 3 = demo_shim" "demo_content 4 = demo_loader" "demo_content 5 = [123, 125]"
    by (simp_all add: demo_content_def)
  have p0: "pr_open demo_process = []" "pr_open (later q) = pr_open q" for q by (simp_all add: demo_process_def later_def)
  have m: "mf_Shim demo_manifest = demo_input ''a'' 2" "mf_GRUB demo_manifest = demo_input ''b'' 3"
    "mf_Loader demo_manifest = demo_input ''c'' 4" "mf_PreparationReceipt demo_manifest = demo_input ''d'' 5"
    by (simp_all add: demo_manifest_def)
  have reads: "read_inputs demo_sha demo_os ''/in'' [(''shim'', demo_input ''a'' 2), (''GRUB'', demo_input ''b'' 3),
      (''loader'', demo_input ''c'' 4), (''preparation receipt'', demo_input ''d'' 5)] demo_process =
      (Inr [demo_shim, demo_shim, demo_loader, [123, 125]], later (later (later (later demo_process))))"
    using demo_read[of "''a''" 2 demo_process] demo_read[of "''b''" 3 "later demo_process"]
      demo_read[of "''c''" 4 "later (later demo_process)"] demo_read[of "''d''" 5 "later (later (later demo_process))"]
    by (simp add: p0 c)
  have "pe_image_ok [(''.text'', [7])]" by (simp add: pe_image_ok_def pe_name_ok_def synthetic_pe_def)
  note shim = ARM64PE_synthetic[OF this, folded demo_shim_def]
  have board: "HasBoardMapping demo_loader = Inr ()"
    unfolding demo_loader_def by (rule board_loader_maps) simp_all
  have pair: "ValidateKernelPair demo_sha (\<lambda>l. l) demo_loader [1, 2, 3] ''7.2'' demo_manifest = Inr ()"
    by (rule demo_pair[OF valid])
  obtain b where b: "assemble demo_sha (\<lambda>l. l) demo_manifest [1, 2, 3] ''7.2'' ''gnome'' ?args demo_shim demo_shim demo_loader [123, 125] = Inr b"
    and files: "map_of (bu_Files b) ''images/pxeboot/gnome/vmlinuz'' = Some demo_loader"
    by (simp add: assemble_def shim pair board Let_def trim_prefix_def)
  have env: "sc_Environment demo_scope = ''gnome''" by (simp add: demo_scope_def)
  let ?p = "later (later (later (later demo_process)))"
  have run: "Prepare demo_sha (\<lambda>l. l) demo_os ''/in'' demo_manifest [1, 2, 3] ''7.2'' demo_scope ?args demo_process = (Inr b, ?p)"
    using b words by (simp add: Prepare_def valid scope args m reads env need_def del: read_inputs.simps)
  have ok: "process_ok demo_process" by (simp add: process_ok_def demo_process_def)
  note sound = Prepare_sound[OF run ok]
  have p: "pr_open ?p = []" by (simp add: p0)
  from sound obtain loader where "carries_kernel loader [1, 2, 3]" "map_of (bu_Files b) ''images/pxeboot/gnome/vmlinuz'' = Some loader"
    unfolding env by (elim conjE exE) simp
  then show ?thesis using run p files by auto
qed

end
