(* ===== verification/Opfs_Store.thy ===== *)
theory Opfs_Store
  imports Oci_Store
begin

text \<open>
  The blob store of the browser engine (\<^verbatim>\<open>cmd/tbwasm/opfsstore.go\<close>, \<^verbatim>\<open>refs.go\<close>): an
  arena appends every body to one file of the origin-private file system and hands out
  references \<^verbatim>\<open>prefix:offset:length\<close>; the hybrid store sends reads to one of two arenas.

  The platform is part of the state. A writable stream works on a swap copy that becomes
  the file at \<^verbatim>\<open>close\<close>, starts at position 0, and a \<^verbatim>\<open>File\<close> is a snapshot of the file: that is
  the documented behaviour of the File System Standard. \<open>js n\<close> says whether the \<open>n\<close>-th
  awaited promise is rejected; a rejected call has no effect. Positions are JavaScript
  numbers, exact up to \<open>2 ^ 53\<close>; a write beyond that size, far above any quota, is rejected.
\<close>

section \<open>References\<close>

text \<open>\<^verbatim>\<open>strconv.ParseInt(s, 10, 64)\<close>.\<close>

definition parse_int64 :: "string \<Rightarrow> int option" where
  "parse_int64 s =
     (let neg = (s \<noteq> [] \<and> hd s = CHR ''-'');
          ds = (if s \<noteq> [] \<and> (hd s = CHR ''-'' \<or> hd s = CHR ''+'') then tl s else s);
          v = (if neg then - int (dec_val ds) else int (dec_val ds)) in
      if ds = [] \<or> \<not> list_all is_digit ds \<or> v < - (2 ^ 63) \<or> 2 ^ 63 \<le> v then None else Some v)"

text \<open>\<^verbatim>\<open>%d\<close> of a signed number.\<close>

definition int_dec :: "int \<Rightarrow> string" where
  "int_dec i = (if i < 0 then CHR ''-'' # nat_dec (nat (- i)) else nat_dec (nat i))"

definition formatArenaRef :: "string \<Rightarrow> int \<Rightarrow> int \<Rightarrow> string" where
  "formatArenaRef pfx off len = pfx @ '':'' @ int_dec off @ '':'' @ int_dec len"

definition parseArenaRef :: "string \<Rightarrow> (string \<times> int \<times> int) option" where
  "parseArenaRef ref =
     (case split_on CHR '':'' ref of
        [p, o1, l1] \<Rightarrow>
          (case parse_int64 o1 of
             None \<Rightarrow> None
           | Some off \<Rightarrow> (case parse_int64 l1 of None \<Rightarrow> None | Some len \<Rightarrow> Some (p, off, len)))
      | _ \<Rightarrow> None)"

lemma int_dec_no_colon: "CHR '':'' \<notin> set (int_dec i)"
  using nat_dec_digits[of "CHR '':''"] by (auto simp: int_dec_def is_digit_def)

lemma parse_int64_dec:
  assumes "- (2 ^ 63) \<le> i" "i < 2 ^ 63"
  shows "parse_int64 (int_dec i) = Some i"
proof -

  have "hd (nat_dec n) \<noteq> CHR ''-''" "hd (nat_dec n) \<noteq> CHR ''+''" for n
    using nat_dec_digits[of "hd (nat_dec n)" n] by (auto simp: is_digit_def)
  moreover have "list_all is_digit (nat_dec n)" for n
    using nat_dec_digits[of _ n] by (auto simp: list_all_iff)
  ultimately show ?thesis using assms by (auto simp: parse_int64_def int_dec_def Let_def)
qed

lemma parse_format:
  assumes "CHR '':'' \<notin> set p" "0 \<le> off" "off < 2 ^ 63" "0 \<le> len" "len < 2 ^ 63"
  shows "parseArenaRef (formatArenaRef p off len) = Some (p, off, len)"
proof -
  have "formatArenaRef p off len = join_with [CHR '':''] [p, int_dec off, int_dec len]"
    by (simp add: formatArenaRef_def)
  then have "split_on CHR '':'' (formatArenaRef p off len) = [p, int_dec off, int_dec len]"
    using split_on_join[of "[p, int_dec off, int_dec len]" "CHR '':''"] assms(1) int_dec_no_colon by simp
  then show ?thesis using assms by (simp add: parseArenaRef_def parse_int64_dec)
qed

section \<open>The platform and the arena\<close>

datatype opfs_error = JsRejected nat | ReaderFailed string | BadArenaRef string | NoPostArena string

record arena =
  ar_prefix :: string
  ar_off :: int
  ar_sealed :: bool
  ar_destroyed :: bool
  ar_committed :: bytes
  ar_writer :: "(bytes \<times> nat) option"
  ar_file :: bytes
  ar_exists :: bool
  ar_calls :: nat

type_synonym 'a opfs = "arena \<Rightarrow> (opfs_error + 'a) \<times> arena"

text \<open>One awaited call: the platform may reject it, and refuses a call on a closed stream.\<close>

definition await :: "(nat \<Rightarrow> bool) \<Rightarrow> (arena \<Rightarrow> arena option) \<Rightarrow> unit opfs" where
  "await js call a =
     (let a1 = a\<lparr>ar_calls := ar_calls a + 1\<rparr> in
      if js (ar_calls a) then (Inl (JsRejected (ar_calls a)), a1)
      else case call a1 of None \<Rightarrow> (Inl (JsRejected (ar_calls a)), a1) | Some a2 \<Rightarrow> (Inr (), a2))"

text \<open>The calls: \<^verbatim>\<open>write\<close> at the position of the stream, \<^verbatim>\<open>close\<close>, \<^verbatim>\<open>getFile\<close>, \<^verbatim>\<open>createWritable\<close>, \<^verbatim>\<open>seek\<close>, \<^verbatim>\<open>abort\<close>.\<close>

definition write_at :: "bytes \<Rightarrow> bytes \<times> nat \<Rightarrow> bytes \<times> nat" where
  "write_at c w = (case w of (b, pos) \<Rightarrow>
     (take pos (b @ zeros (pos - length b)) @ c @ drop (pos + length c) b, pos + length c))"

definition js_write :: "bytes \<Rightarrow> arena \<Rightarrow> arena option" where
  "js_write c a =
     (case ar_writer a of
        None \<Rightarrow> None
      | Some w \<Rightarrow> if 2 ^ 53 < int (snd w) + int (length c) then None
                  else Some (a\<lparr>ar_writer := Some (write_at c w)\<rparr>))"

definition js_close :: "arena \<Rightarrow> arena option" where
  "js_close a = map_option (\<lambda>w. a\<lparr>ar_committed := fst w, ar_writer := None\<rparr>) (ar_writer a)"

definition js_getFile :: "arena \<Rightarrow> arena option" where
  "js_getFile a = (if ar_exists a then Some (a\<lparr>ar_file := ar_committed a\<rparr>) else None)"

definition js_createWritable :: "bool \<Rightarrow> arena \<Rightarrow> arena option" where
  "js_createWritable keep a =
     (if ar_exists a then Some (a\<lparr>ar_writer := Some (if keep then ar_committed a else [], 0)\<rparr>) else None)"

definition js_seek :: "int \<Rightarrow> arena \<Rightarrow> arena option" where
  "js_seek p a = map_option (\<lambda>w. a\<lparr>ar_writer := Some (fst w, nat p)\<rparr>) (ar_writer a)"

definition js_abort :: "arena \<Rightarrow> arena option" where
  "js_abort a = map_option (\<lambda>w. a\<lparr>ar_writer := None\<rparr>) (ar_writer a)"

definition js_removeEntry :: "arena \<Rightarrow> arena option" where
  "js_removeEntry a = (if ar_exists a then Some (a\<lparr>ar_exists := False, ar_committed := []\<rparr>) else None)"

definition and_then :: "'a opfs \<Rightarrow> ('a \<Rightarrow> 'b opfs) \<Rightarrow> 'b opfs" where
  "and_then f g a = (case f a of (Inl e, a1) \<Rightarrow> (Inl e, a1) | (Inr x, a1) \<Rightarrow> g x a1)"

definition newOpfsArena :: "(nat \<Rightarrow> bool) \<Rightarrow> bytes \<Rightarrow> string \<Rightarrow> (opfs_error + unit) \<times> arena" where
  "newOpfsArena js leftover pfx =
     and_then (await js (\<lambda>a. Some a)) (\<lambda>_. and_then (await js (\<lambda>a. Some (a\<lparr>ar_exists := True\<rparr>))) (\<lambda>_.
       await js (js_createWritable False)))
     \<lparr>ar_prefix = pfx, ar_off = 0, ar_sealed = False, ar_destroyed = False, ar_committed = leftover,
      ar_writer = None, ar_file = [], ar_exists = False, ar_calls = 0\<rparr>"

definition sealLocked :: "(nat \<Rightarrow> bool) \<Rightarrow> unit opfs" where
  "sealLocked js a =
     (if ar_sealed a then (Inr (), a)
      else and_then (await js js_close) (\<lambda>_. and_then (await js js_getFile) (\<lambda>_ a1.
             (Inr (), a1\<lparr>ar_sealed := True\<rparr>))) a)"

definition reopenLocked :: "(nat \<Rightarrow> bool) \<Rightarrow> unit opfs" where
  "reopenLocked js a =
     (if \<not> ar_sealed a then (Inr (), a)
      else and_then (await js (js_createWritable True)) (\<lambda>_. and_then (await js (js_seek (ar_off a))) (\<lambda>_ a1.
             (Inr (), a1\<lparr>ar_sealed := False\<rparr>))) a)"

text \<open>A reader is the chunks its \<^verbatim>\<open>Read\<close> returns and how it ends; the loop copies until then.\<close>

fun put_chunks :: "(nat \<Rightarrow> bool) \<Rightarrow> bytes list \<Rightarrow> opfs_error option \<Rightarrow> int \<Rightarrow> int opfs" where
  "put_chunks js [] None n a = (Inr n, a)"
| "put_chunks js [] (Some e) n a = (Inl e, a)"
| "put_chunks js (c # cs) fin n a =
     (if c = [] then put_chunks js cs fin n a
      else and_then (await js (js_write c)) (\<lambda>_. put_chunks js cs fin (n + int (length c))) a)"

definition arena_Put :: "(nat \<Rightarrow> bool) \<Rightarrow> bytes list \<Rightarrow> opfs_error option \<Rightarrow> (string \<times> int) opfs" where
  "arena_Put js cs fin =
     and_then (reopenLocked js) (\<lambda>_ a. and_then (put_chunks js cs fin 0) (\<lambda>n a1.
       (Inr (formatArenaRef (ar_prefix a1) (ar_off a) n, n), a1\<lparr>ar_off := ar_off a + n\<rparr>)) a)"

text \<open>\<^verbatim>\<open>Blob.slice\<close>: the bounds are clamped to the blob, a negative one counts from its end.\<close>

definition clamp :: "nat \<Rightarrow> int \<Rightarrow> nat" where
  "clamp len i = (if i < 0 then nat (max 0 (int len + i)) else min len (nat i))"

definition blob_slice :: "bytes \<Rightarrow> int \<Rightarrow> int \<Rightarrow> bytes" where
  "blob_slice b s e = take (clamp (length b) e - clamp (length b) s) (drop (clamp (length b) s) b)"

record slice_reader =
  sr_blob :: bytes
  sr_size :: int
  sr_pos :: int
  sr_buf :: bytes
  sr_bo :: nat

definition arena_Open :: "(nat \<Rightarrow> bool) \<Rightarrow> string \<Rightarrow> slice_reader opfs" where
  "arena_Open js ref a =
     (case parseArenaRef ref of
        None \<Rightarrow> (Inl (BadArenaRef ref), a)
      | Some (p, off, len) \<Rightarrow>
          if p \<noteq> ar_prefix a then (Inl (BadArenaRef ref), a)
          else and_then (\<lambda>a. if ar_sealed a then (Inr (), a) else and_then (sealLocked js) (\<lambda>_. reopenLocked js) a)
            (\<lambda>_ a1. (Inr \<lparr>sr_blob = blob_slice (ar_file a1) off (off + len), sr_size = len, sr_pos = 0,
                            sr_buf = [], sr_bo = 0\<rparr>, a1)) a)"

definition Destroy :: "(nat \<Rightarrow> bool) \<Rightarrow> unit opfs" where
  "Destroy js a =
     (if ar_destroyed a then (Inr (), a)
      else and_then (\<lambda>a. if ar_sealed a then (Inr (), a)
                         else and_then (await js js_abort) (\<lambda>_ a1. (Inr (), a1\<lparr>ar_sealed := True\<rparr>)) a)
             (\<lambda>_. and_then (await js js_removeEntry) (\<lambda>_ a1. (Inr (), a1\<lparr>ar_destroyed := True\<rparr>))) a)"

text \<open>\<^verbatim>\<open>opfsSliceReader.Read\<close> into a buffer of \<open>n\<close> bytes; \<open>None\<close> is \<^verbatim>\<open>io.EOF\<close>.\<close>

definition sliceChunk :: int where
  "sliceChunk = 4 * 2 ^ 20"

definition slice_Read :: "nat \<Rightarrow> slice_reader \<Rightarrow> bytes option \<times> slice_reader" where
  "slice_Read n r =
     (let copy = (\<lambda>r. let out = take n (drop (sr_bo r) (sr_buf r)) in (Some out, r\<lparr>sr_bo := sr_bo r + length out\<rparr>)) in
      if length (sr_buf r) \<le> sr_bo r then
        (if sr_size r \<le> sr_pos r then (None, r)
         else let fin = (if sr_size r < sr_pos r + sliceChunk then sr_size r else sr_pos r + sliceChunk) in
           copy (r\<lparr>sr_buf := blob_slice (sr_blob r) (sr_pos r) fin, sr_bo := 0, sr_pos := fin\<rparr>))
      else copy r)"

definition arenaWriter_Write :: "(nat \<Rightarrow> bool) \<Rightarrow> bytes \<Rightarrow> nat opfs" where
  "arenaWriter_Write js p =
     and_then (await js (js_write p)) (\<lambda>_ a1. (Inr (length p), a1\<lparr>ar_off := ar_off a1 + int (length p)\<rparr>))"

section \<open>An arena keeps what was put\<close>

text \<open>The bytes appended so far, and the invariant of an arena none of whose calls failed.\<close>

definition contents :: "arena \<Rightarrow> bytes" where
  "contents a = (if ar_sealed a then ar_committed a else case ar_writer a of None \<Rightarrow> [] | Some w \<Rightarrow> fst w)"

definition arena_ok :: "arena \<Rightarrow> bool" where
  "arena_ok a \<longleftrightarrow> ar_exists a \<and> \<not> ar_destroyed a \<and> CHR '':'' \<notin> set (ar_prefix a) \<and>
     int (length (contents a)) = ar_off a \<and> ar_off a \<le> 2 ^ 53 \<and>
     (if ar_sealed a then ar_file a = ar_committed a
      else case ar_writer a of None \<Rightarrow> False | Some (b, pos) \<Rightarrow> pos = length b)"

definition arena_get :: "arena \<Rightarrow> string \<Rightarrow> bytes option" where
  "arena_get a ref =
     (case parseArenaRef ref of
        None \<Rightarrow> None
      | Some (p, off, len) \<Rightarrow>
          if p \<noteq> ar_prefix a \<or> off < 0 \<or> len < 0 \<or> int (length (contents a)) < off + len then None
          else Some (take (nat len) (drop (nat off) (contents a))))"

lemma await_Inr:
  "await js call a = (Inr u, a') \<longleftrightarrow> \<not> js (ar_calls a) \<and> call (a\<lparr>ar_calls := ar_calls a + 1\<rparr>) = Some a'"
  by (auto simp: await_def Let_def split: option.splits)

lemma and_then_Inr: "and_then f g a = (Inr y, a'') \<longleftrightarrow> (\<exists>x a'. f a = (Inr x, a') \<and> g x a' = (Inr y, a''))"
  by (auto simp: and_then_def split: prod.splits sum.splits)

lemma write_at_end [simp]: "write_at c (b, length b) = (b @ c, length b + length c)"
  by (simp add: write_at_def zeros_def)

lemma put_chunks_Inr:
  "put_chunks js cs fin n a = (Inr m, a') \<Longrightarrow> ar_writer a = Some (b, length b) \<Longrightarrow> int (length b) \<le> 2 ^ 53 \<Longrightarrow>
   fin = None \<and> m = n + int (length (concat cs)) \<and> int (length b + length (concat cs)) \<le> 2 ^ 53 \<and>
   (\<exists>k. a' = a\<lparr>ar_writer := Some (b @ concat cs, length (b @ concat cs)), ar_calls := k\<rparr>)"
proof (induction js cs fin n a arbitrary: b rule: put_chunks.induct)
  case (1 js n a)
  then have "a' = a\<lparr>ar_writer := Some (b, length b), ar_calls := ar_calls a\<rparr>" by simp
  then show ?case using 1 by (auto intro!: exI[of _ "ar_calls a"])
next
  case (3 js c cs fin n a)
  show ?case
  proof (cases "c = []")
    case False
    from "3.prems"(1) False obtain a1 where w: "await js (js_write c) a = (Inr (), a1)"
      and rest: "put_chunks js cs fin (n + int (length c)) a1 = (Inr m, a')"
      by (auto simp: and_then_Inr)
    from w "3.prems"(2) have a1: "a1 = a\<lparr>ar_calls := ar_calls a + 1, ar_writer := Some (b @ c, length (b @ c))\<rparr>"
      and fits: "int (length (b @ c)) \<le> 2 ^ 53"
      by (auto simp: await_Inr js_write_def split: if_splits)
    have "ar_writer a1 = Some (b @ c, length (b @ c))" by (simp add: a1)
    from "3.IH"(2)[OF False rest this fits] show ?thesis by (auto simp: a1 add.assoc)
  qed (use 3 in auto)
qed simp

lemma put_chunks_complete: "put_chunks js cs fin n a = (Inr m, a') \<Longrightarrow> fin = None"
  by (induction js cs fin n a rule: put_chunks.induct) (auto simp: and_then_Inr split: if_splits)

text \<open>Sealing and reopening leave the bytes as they are.\<close>

lemma sealLocked_ok:
  assumes "sealLocked js a = (Inr (), a')" "arena_ok a"
  shows "arena_ok a' \<and> ar_sealed a' \<and> contents a' = contents a \<and> ar_off a' = ar_off a \<and> ar_prefix a' = ar_prefix a"
  using assms
  by (auto simp: sealLocked_def and_then_Inr await_Inr js_close_def js_getFile_def arena_ok_def contents_def
      split: if_splits option.splits)

lemma reopenLocked_ok:
  assumes "reopenLocked js a = (Inr (), a')" "arena_ok a"
  shows "arena_ok a' \<and> \<not> ar_sealed a' \<and> contents a' = contents a \<and> ar_off a' = ar_off a \<and> ar_prefix a' = ar_prefix a \<and>
    ar_file a' = ar_file a"
  using assms
  by (auto simp: reopenLocked_def and_then_Inr await_Inr js_createWritable_def js_seek_def arena_ok_def contents_def
      split: if_splits option.splits)

lemma arena_Put_ok:
  assumes "arena_Put js cs fin a = (Inr (ref, n), a')" "arena_ok a"
  shows "arena_ok a' \<and> fin = None \<and> n = int (length (concat cs)) \<and> contents a' = contents a @ concat cs \<and>
    ref = formatArenaRef (ar_prefix a) (ar_off a) n \<and> ar_prefix a' = ar_prefix a"
proof -
  from assms(1) obtain a1 a2 where re: "reopenLocked js a = (Inr (), a1)"
    and put: "put_chunks js cs fin 0 a1 = (Inr n, a2)"
    and res: "ref = formatArenaRef (ar_prefix a2) (ar_off a1) n" "a' = a2\<lparr>ar_off := ar_off a1 + n\<rparr>"
    by (auto simp: arena_Put_def and_then_Inr)
  note r = reopenLocked_ok[OF re assms(2)]
  have w: "ar_writer a1 = Some (contents a1, length (contents a1))" "int (length (contents a1)) \<le> 2 ^ 53"
    using r by (auto simp: arena_ok_def contents_def split: option.splits)
  note p = put_chunks_Inr[OF put w]
  then show ?thesis using r res by (auto simp: arena_ok_def contents_def)
qed

lemma arena_get_issued:
  assumes "arena_ok a" "contents a = x @ b @ y" "ref = formatArenaRef (ar_prefix a) (int (length x)) (int (length b))"
  shows "arena_get a ref = Some b"
proof -
  have "int (length (contents a)) \<le> 2 ^ 53" using assms(1) by (simp add: arena_ok_def)
  then have "parseArenaRef ref = Some (ar_prefix a, int (length x), int (length b))"
    unfolding assms(3) by (intro parse_format) (use assms in \<open>auto simp: arena_ok_def\<close>)
  then show ?thesis by (simp add: arena_get_def assms(2))
qed

lemma arena_get_grows:
  assumes "arena_get a ref = Some b" "contents a' = contents a @ c" "ar_prefix a' = ar_prefix a"
  shows "arena_get a' ref = Some b"
  using assms by (auto simp: arena_get_def nat_le_iff split: option.splits if_splits)

section \<open>Reading a slice\<close>

text \<open>\<^verbatim>\<open>io.ReadAll\<close> with a buffer of any positive length.\<close>

function slice_all :: "nat \<Rightarrow> slice_reader \<Rightarrow> bytes" where
  "slice_all n r =
     (case slice_Read (Suc n) r of
        (None, _) \<Rightarrow> []
      | (Some out, r') \<Rightarrow> out @ slice_all n r')"
  by pat_completeness auto
termination
  by (relation "measures [\<lambda>(n, r). nat (sr_size r - sr_pos r), \<lambda>(n, r). length (sr_buf r) - sr_bo r]")
     (auto simp: slice_Read_def Let_def sliceChunk_def split: if_splits)

declare slice_all.simps [simp del]

lemma blob_slice_inside:
  "0 \<le> s \<Longrightarrow> s \<le> e \<Longrightarrow> e \<le> int (length b) \<Longrightarrow> blob_slice b s e = take (nat e - nat s) (drop (nat s) b)"
  by (simp add: blob_slice_def clamp_def min_def nat_le_iff)

lemma slice_all_rest:
  "0 \<le> sr_pos r \<Longrightarrow> sr_pos r \<le> sr_size r \<Longrightarrow> sr_size r = int (length (sr_blob r)) \<Longrightarrow> sr_bo r \<le> length (sr_buf r) \<Longrightarrow>
   slice_all n r = drop (sr_bo r) (sr_buf r) @ drop (nat (sr_pos r)) (sr_blob r)"
proof (induction n r rule: slice_all.induct)
  case (1 n r)
  show ?case
  proof (cases "length (sr_buf r) \<le> sr_bo r")
    case False
    define out where "out = take (Suc n) (drop (sr_bo r) (sr_buf r))"
    define r' where "r' = r\<lparr>sr_bo := sr_bo r + length out\<rparr>"
    have rd: "slice_Read (Suc n) r = (Some out, r')" using False by (simp add: slice_Read_def Let_def out_def r'_def)
    have "slice_all n r' = drop (sr_bo r') (sr_buf r') @ drop (nat (sr_pos r')) (sr_blob r')"
      by (rule "1.IH"[OF rd[symmetric] refl]) (use "1.prems" in \<open>auto simp: r'_def out_def\<close>)
    moreover have "out @ drop (length out) (drop (sr_bo r) (sr_buf r)) = drop (sr_bo r) (sr_buf r)"
      unfolding out_def by (metis append_take_drop_id length_take min.cobounded1 take_all_iff drop_all linorder_le_cases min_def)
    ultimately show ?thesis
      by (subst slice_all.simps) (simp add: rd r'_def add.commute)
  next
    case buf: True
    show ?thesis
    proof (cases "sr_size r \<le> sr_pos r")
      case True
      then show ?thesis using buf "1.prems" by (subst slice_all.simps) (simp add: slice_Read_def)
    next
      case False
      define fin where "fin = (if sr_size r < sr_pos r + sliceChunk then sr_size r else sr_pos r + sliceChunk)"
      have fin: "sr_pos r < fin" "fin \<le> sr_size r" using False by (auto simp: fin_def sliceChunk_def)
      define part where "part = blob_slice (sr_blob r) (sr_pos r) fin"
      have part: "part = take (nat fin - nat (sr_pos r)) (drop (nat (sr_pos r)) (sr_blob r))"
        unfolding part_def by (rule blob_slice_inside) (use fin "1.prems" in simp_all)
      define out where "out = take (Suc n) part"
      define r' where "r' = r\<lparr>sr_buf := part, sr_bo := length out, sr_pos := fin\<rparr>"
      have rd: "slice_Read (Suc n) r = (Some out, r')"
        using False buf by (simp add: slice_Read_def Let_def out_def r'_def part_def fin_def)
      have IH: "slice_all n r' = drop (sr_bo r') (sr_buf r') @ drop (nat (sr_pos r')) (sr_blob r')"
        by (rule "1.IH"[OF rd[symmetric] refl]) (use "1.prems" fin in \<open>auto simp: r'_def out_def\<close>)
      have "out @ drop (length out) part = part"
        unfolding out_def by (metis append_take_drop_id length_take min.cobounded1 take_all_iff drop_all linorder_le_cases min_def)
      moreover have "part @ drop (nat fin) (sr_blob r) = drop (nat (sr_pos r)) (sr_blob r)"
      proof -
        have "nat fin = (nat fin - nat (sr_pos r)) + nat (sr_pos r)" using fin "1.prems" by simp
        then have "drop (nat fin) (sr_blob r) = drop (nat fin - nat (sr_pos r)) (drop (nat (sr_pos r)) (sr_blob r))"
          by (metis drop_drop)
        then show ?thesis unfolding part by (simp only: append_take_drop_id)
      qed
      ultimately show ?thesis
        using buf IH by (subst slice_all.simps) (simp add: rd r'_def flip: append_assoc)
    qed
  qed
qed

text \<open>Open of a reference the arena issued: the reader delivers exactly its bytes.\<close>

lemma arena_Open_reads:
  assumes "arena_Open js ref a = (Inr r, a')" "arena_ok a" "arena_get a ref = Some b"
  shows "slice_all n r = b \<and> arena_ok a' \<and> contents a' = contents a \<and> ar_prefix a' = ar_prefix a"
proof -
  obtain off len where p: "parseArenaRef ref = Some (ar_prefix a, off, len)"
    and rng: "0 \<le> off" "0 \<le> len" "off + len \<le> int (length (contents a))"
    and b: "b = take (nat len) (drop (nat off) (contents a))"
    using assms(3) by (auto simp: arena_get_def split: option.splits if_splits)
  obtain a1 where step: "(if ar_sealed a then (Inr (), a) else and_then (sealLocked js) (\<lambda>_. reopenLocked js) a) = (Inr (), a1)"
    and r: "r = \<lparr>sr_blob = blob_slice (ar_file a1) off (off + len), sr_size = len, sr_pos = 0, sr_buf = [], sr_bo = 0\<rparr>"
    and a': "a' = a1"
    using assms(1) p by (auto simp: arena_Open_def and_then_Inr)
  have ok: "arena_ok a1 \<and> contents a1 = contents a \<and> ar_prefix a1 = ar_prefix a \<and> ar_file a1 = contents a"
  proof (cases "ar_sealed a")
    case True
    then show ?thesis using step assms(2) by (auto simp: arena_ok_def contents_def)
  next
    case False
    then obtain a2 where s: "sealLocked js a = (Inr (), a2)" and re: "reopenLocked js a2 = (Inr (), a1)"
      using step by (auto simp: and_then_Inr)
    note so = sealLocked_ok[OF s assms(2)]
    then have "ar_file a2 = contents a2" by (auto simp: arena_ok_def contents_def)
    then show ?thesis using so reopenLocked_ok[OF re] by simp
  qed
  have blob: "sr_blob r = b"
    using blob_slice_inside[of off "off + len" "contents a"] rng ok by (simp add: r b nat_add_distrib)
  have "slice_all n r = drop (sr_bo r) (sr_buf r) @ drop (nat (sr_pos r)) (sr_blob r)"
    by (rule slice_all_rest) (use rng in \<open>auto simp: blob b, simp_all add: r\<close>)
  then show ?thesis using ok a' blob by (simp add: r)
qed

section \<open>The arena as a blob store\<close>

text \<open>The scratch buffer of \<^verbatim>\<open>Put\<close> holds 1 MiB: the chunks of a body that is read at full speed.\<close>

function chop :: "nat \<Rightarrow> bytes \<Rightarrow> bytes list" where
  "chop n b = (if b = [] then [] else take (Suc n) b # chop n (drop (Suc n) b))"
  by pat_completeness auto
termination by (relation "measure (\<lambda>(n, b). length b)") auto

declare chop.simps [simp del]

lemma concat_chop [simp]: "concat (chop n b) = b"
  by (induction n b rule: chop.induct) (subst chop.simps, auto)

definition arena_put :: "(nat \<Rightarrow> bool) \<Rightarrow> arena \<Rightarrow> opfs_error body \<Rightarrow> opfs_error + (string \<times> int \<times> arena)" where
  "arena_put js a r =
     (case arena_Put js (chop 1048575 (fst r)) (snd r) a of
        (Inl e, _) \<Rightarrow> Inl e
      | (Inr (ref, n), a') \<Rightarrow> Inr (ref, n, a'))"

lemma arena_put_Inr:
  assumes "arena_put js a r = Inr (ref, sz, a')" "arena_ok a"
  shows "arena_ok a' \<and> snd r = None \<and> sz = int (length (fst r)) \<and> contents a' = contents a @ fst r \<and>
    ref = formatArenaRef (ar_prefix a) (int (length (contents a))) sz \<and> ar_prefix a' = ar_prefix a"
proof -
  from assms(1) have "arena_Put js (chop 1048575 (fst r)) (snd r) a = (Inr (ref, sz), a')"
    by (auto simp: arena_put_def split: prod.splits sum.splits)
  from arena_Put_ok[OF this assms(2)] show ?thesis using assms(2) by (auto simp: arena_ok_def)
qed

lemma arena_put_get:
  assumes "arena_put js a r = Inr (ref, sz, a')" "arena_ok a"
  shows "arena_get a' ref = Some (fst r)"
  using arena_put_Inr[OF assms] arena_get_issued[of a' "contents a" "fst r" "[]" ref] by simp

interpretation arena: blob_store "arena_put js" arena_get arena_ok
proof
  fix s s' :: arena and r :: "opfs_error body" and ref sz
  assume put: "arena_put js s r = Inr (ref, sz, s')"
  show "snd r = None"
    using put by (auto simp: arena_put_def arena_Put_def and_then_Inr split: prod.splits sum.splits
        dest!: put_chunks_complete)
  assume ok: "arena_ok s"
  note p = arena_put_Inr[OF put ok]
  show "arena_get s' ref = Some (fst r) \<and> sz = int (length (fst r))" using arena_put_get[OF put ok] p by simp
  show "arena_get s' q = Some b" if "arena_get s q = Some b" for q b
    using arena_get_grows[OF that] p by simp
  show "arena_ok s'" using p by simp
qed

section \<open>The hybrid store\<close>

record hybrid =
  hy_arena :: arena
  hy_post :: "arena option"

definition hybrid_post :: "(nat \<Rightarrow> bool) \<Rightarrow> bytes \<Rightarrow> hybrid \<Rightarrow> (opfs_error + arena) \<times> hybrid" where
  "hybrid_post jp leftover h =
     (case hy_post h of
        Some p \<Rightarrow> (Inr p, h)
      | None \<Rightarrow> (case newOpfsArena jp leftover ''o'' of (Inl e, _) \<Rightarrow> (Inl e, h) | (Inr _, p) \<Rightarrow> (Inr p, h\<lparr>hy_post := Some p\<rparr>)))"

definition hybrid_Put ::
  "(nat \<Rightarrow> bool) \<Rightarrow> bytes \<Rightarrow> bytes list \<Rightarrow> opfs_error option \<Rightarrow> hybrid \<Rightarrow> (opfs_error + (string \<times> int)) \<times> hybrid" where
  "hybrid_Put jp leftover cs fin h =
     (case hybrid_post jp leftover h of
        (Inl e, h1) \<Rightarrow> (Inl e, h1)
      | (Inr p, h1) \<Rightarrow> (case arena_Put jp cs fin p of (r, p1) \<Rightarrow> (r, h1\<lparr>hy_post := Some p1\<rparr>)))"

definition hybrid_Open :: "(nat \<Rightarrow> bool) \<Rightarrow> (nat \<Rightarrow> bool) \<Rightarrow> string \<Rightarrow> hybrid \<Rightarrow> (opfs_error + slice_reader) \<times> hybrid" where
  "hybrid_Open ja jp ref h =
     (if has_prefix ref ''o:'' then
        (case hy_post h of
           None \<Rightarrow> (Inl (NoPostArena ref), h)
         | Some p \<Rightarrow> (case arena_Open jp ref p of (r, p1) \<Rightarrow> (r, h\<lparr>hy_post := Some p1\<rparr>)))
      else (case arena_Open ja ref (hy_arena h) of (r, a1) \<Rightarrow> (r, h\<lparr>hy_arena := a1\<rparr>)))"

definition hybrid_seal :: "(nat \<Rightarrow> bool) \<Rightarrow> hybrid \<Rightarrow> (opfs_error + unit) \<times> hybrid" where
  "hybrid_seal jp h =
     (case hy_post h of
        None \<Rightarrow> (Inr (), h)
      | Some p \<Rightarrow> (case sealLocked jp p of (r, p1) \<Rightarrow> (r, h\<lparr>hy_post := Some p1\<rparr>)))"

definition hybrid_destroy :: "(nat \<Rightarrow> bool) \<Rightarrow> (nat \<Rightarrow> bool) \<Rightarrow> hybrid \<Rightarrow> hybrid" where
  "hybrid_destroy ja jp h =
     h\<lparr>hy_arena := snd (Destroy ja (hy_arena h)), hy_post := map_option (\<lambda>p. snd (Destroy jp p)) (hy_post h)\<rparr>"

definition hybrid_ok :: "hybrid \<Rightarrow> bool" where
  "hybrid_ok h \<longleftrightarrow> arena_ok (hy_arena h) \<and> ar_prefix (hy_arena h) = ''a'' \<and>
     (case hy_post h of None \<Rightarrow> True | Some p \<Rightarrow> arena_ok p \<and> ar_prefix p = ''o'')"

definition hybrid_get :: "hybrid \<Rightarrow> string \<Rightarrow> bytes option" where
  "hybrid_get h ref =
     (if has_prefix ref ''o:'' then Option.bind (hy_post h) (\<lambda>p. arena_get p ref) else arena_get (hy_arena h) ref)"

definition hybrid_put :: "(nat \<Rightarrow> bool) \<Rightarrow> bytes \<Rightarrow> hybrid \<Rightarrow> opfs_error body \<Rightarrow> opfs_error + (string \<times> int \<times> hybrid)" where
  "hybrid_put jp leftover h r =
     (case hybrid_Put jp leftover (chop 1048575 (fst r)) (snd r) h of
        (Inl e, _) \<Rightarrow> Inl e
      | (Inr (ref, n), h') \<Rightarrow> Inr (ref, n, h'))"

lemma newOpfsArena_ok: "newOpfsArena js leftover pfx = (Inr u, a) \<Longrightarrow> CHR '':'' \<notin> set pfx \<Longrightarrow>
    arena_ok a \<and> contents a = [] \<and> ar_prefix a = pfx"
  by (auto simp: newOpfsArena_def and_then_Inr await_Inr js_createWritable_def arena_ok_def contents_def)

lemma hybrid_post_ok:
  assumes "hybrid_post jp leftover h = (Inr p, h1)" "hybrid_ok h"
  shows "arena_ok p \<and> ar_prefix p = ''o'' \<and> h1 = h\<lparr>hy_post := Some p\<rparr> \<and>
    contents p = (case hy_post h of None \<Rightarrow> [] | Some q \<Rightarrow> contents q)"
  using assms newOpfsArena_ok[of jp leftover "''o''"]
  by (auto simp: hybrid_post_def hybrid_ok_def split: option.splits prod.splits sum.splits)

lemma hybrid_Put_ok:
  assumes "hybrid_Put jp leftover cs fin h = (Inr (ref, n), h')" "hybrid_ok h"
  shows "hybrid_ok h' \<and> fin = None \<and> n = int (length (concat cs)) \<and> hybrid_get h' ref = Some (concat cs) \<and>
    (\<forall>q b. hybrid_get h q = Some b \<longrightarrow> hybrid_get h' q = Some b)"
proof -
  from assms(1) obtain p h1 p1 where post: "hybrid_post jp leftover h = (Inr p, h1)"
    and put: "arena_Put jp cs fin p = (Inr (ref, n), p1)" and h': "h' = h1\<lparr>hy_post := Some p1\<rparr>"
    by (auto simp: hybrid_Put_def split: prod.splits sum.splits)
  note po = hybrid_post_ok[OF post assms(2)]
  then have okp: "arena_ok p" by blast
  note pu = arena_Put_ok[OF put okp]
  have off: "ar_off p = int (length (contents p))" using okp by (auto simp: arena_ok_def)
  have "has_prefix ref ''o:''" using pu po by (auto simp: formatArenaRef_def)
  moreover have "arena_get p1 ref = Some (concat cs)"
    by (rule arena_get_issued[of p1 "contents p" "concat cs" "[]"]) (use pu off in auto)
  ultimately have "hybrid_get h' ref = Some (concat cs)" by (simp add: hybrid_get_def h')
  moreover have "hybrid_get h' q = Some b" if q: "hybrid_get h q = Some b" for q b
  proof (cases "has_prefix q ''o:''")
    case True
    with q obtain p0 where p0: "hy_post h = Some p0" "arena_get p0 q = Some b"
      by (auto simp: hybrid_get_def bind_eq_Some_conv)
    then have "p0 = p" using post by (simp add: hybrid_post_def)
    then show ?thesis using arena_get_grows[of p q b p1] pu p0 True by (simp add: hybrid_get_def h')
  next
    case False
    then show ?thesis using q po by (simp add: hybrid_get_def h')
  qed
  moreover have "hybrid_ok h'" using assms(2) pu po by (simp add: hybrid_ok_def h')
  ultimately show ?thesis using pu by blast
qed

interpretation hybrid: blob_store "hybrid_put jp leftover" hybrid_get hybrid_ok
proof
  fix s s' :: hybrid and r :: "opfs_error body" and ref sz
  assume put: "hybrid_put jp leftover s r = Inr (ref, sz, s')"
  then have Put: "hybrid_Put jp leftover (chop 1048575 (fst r)) (snd r) s = (Inr (ref, sz), s')"
    by (auto simp: hybrid_put_def split: prod.splits sum.splits)
  show "snd r = None"
    using Put by (auto simp: hybrid_Put_def arena_Put_def and_then_Inr split: prod.splits sum.splits
        dest!: put_chunks_complete)
  assume ok: "hybrid_ok s"
  note p = hybrid_Put_ok[OF Put ok]
  show "hybrid_get s' ref = Some (fst r) \<and> sz = int (length (fst r))" using p by simp
  show "hybrid_get s' q = Some b" if "hybrid_get s q = Some b" for q b using p that by blast
  show "hybrid_ok s'" using p by blast
qed

lemma hybrid_files_backed:
  assumes "applyLayerFiltered (hybrid_put jp leftover) skip decode mt r (root, h) = Inr (root', h')"
    and "hybrid_ok h" "wf_node root" "is_dir root" "backed hybrid_get h root"
  shows "hybrid_ok h' \<and> wf_node root' \<and> is_dir root' \<and> backed hybrid_get h' root'"
  using assms by (rule hybrid.applyLayer_backed)

lemma hybrid_Open_reads:
  assumes "hybrid_Open ja jp ref h = (Inr r, h')" "hybrid_ok h" "hybrid_get h ref = Some b"
  shows "slice_all n r = b"
proof (cases "has_prefix ref ''o:''")
  case True
  with assms obtain p p1 where "hy_post h = Some p" "arena_get p ref = Some b" "arena_Open jp ref p = (Inr r, p1)" "arena_ok p"
    by (auto simp: hybrid_get_def hybrid_Open_def hybrid_ok_def bind_eq_Some_conv split: prod.splits)
  then show ?thesis using arena_Open_reads by blast
next
  case False
  with assms obtain a1 where "arena_get (hy_arena h) ref = Some b" "arena_Open ja ref (hy_arena h) = (Inr r, a1)" "arena_ok (hy_arena h)"
    by (auto simp: hybrid_get_def hybrid_Open_def hybrid_ok_def split: prod.splits)
  then show ?thesis using arena_Open_reads by blast
qed


section \<open>The store over a whole build\<close>

text \<open>
  A build first appends to the arena of the layers and seals it, then puts, opens and seals
  through the hybrid store in any order. A failed operation ends the build.
\<close>

datatype store_op = ArenaPut "bytes list" | ArenaSeal | HybridPut "bytes list" | HybridOpen string | HybridSeal

type_synonym issued = "(string \<times> bytes) list"

definition with_arena :: "(opfs_error + 'a) \<times> arena \<Rightarrow> hybrid \<Rightarrow> (opfs_error + 'a) \<times> hybrid" where
  "with_arena ra h = (case ra of (r, a) \<Rightarrow> (r, h\<lparr>hy_arena := a\<rparr>))"

fun store_step ::
  "(nat \<Rightarrow> bool) \<Rightarrow> (nat \<Rightarrow> bool) \<Rightarrow> bytes \<Rightarrow> store_op \<Rightarrow> hybrid \<times> issued \<Rightarrow> opfs_error + hybrid \<times> issued" where
  "store_step ja jp leftover (ArenaPut cs) (h, log) =
     (case with_arena (arena_Put ja cs None (hy_arena h)) h of
        (Inl e, _) \<Rightarrow> Inl e | (Inr (ref, n), h') \<Rightarrow> Inr (h', (ref, concat cs) # log))"
| "store_step ja jp leftover ArenaSeal (h, log) =
     (case with_arena (sealLocked ja (hy_arena h)) h of (Inl e, _) \<Rightarrow> Inl e | (Inr _, h') \<Rightarrow> Inr (h', log))"
| "store_step ja jp leftover (HybridPut cs) (h, log) =
     (case hybrid_Put jp leftover cs None h of
        (Inl e, _) \<Rightarrow> Inl e | (Inr (ref, n), h') \<Rightarrow> Inr (h', (ref, concat cs) # log))"
| "store_step ja jp leftover (HybridOpen ref) (h, log) =
     (case hybrid_Open ja jp ref h of (Inl e, _) \<Rightarrow> Inl e | (Inr _, h') \<Rightarrow> Inr (h', log))"
| "store_step ja jp leftover HybridSeal (h, log) =
     (case hybrid_seal jp h of (Inl e, _) \<Rightarrow> Inl e | (Inr _, h') \<Rightarrow> Inr (h', log))"

fun store_run ::
  "(nat \<Rightarrow> bool) \<Rightarrow> (nat \<Rightarrow> bool) \<Rightarrow> bytes \<Rightarrow> store_op list \<Rightarrow> hybrid \<times> issued \<Rightarrow> opfs_error + hybrid \<times> issued" where
  "store_run ja jp leftover [] s = Inr s"
| "store_run ja jp leftover (x # xs) s = bindR (store_step ja jp leftover x s) (store_run ja jp leftover xs)"

definition store_start :: "(nat \<Rightarrow> bool) \<Rightarrow> bytes \<Rightarrow> opfs_error + hybrid" where
  "store_start ja leftover =
     (case newOpfsArena ja leftover ''a'' of (Inl e, _) \<Rightarrow> Inl e | (Inr _, a) \<Rightarrow> Inr \<lparr>hy_arena = a, hy_post = None\<rparr>)"

definition serves :: "hybrid \<times> issued \<Rightarrow> bool" where
  "serves s \<longleftrightarrow> hybrid_ok (fst s) \<and> (\<forall>(ref, b) \<in> set (snd s). hybrid_get (fst s) ref = Some b)"

lemma hybrid_get_mono:
  assumes "arena_get (hy_arena h) q = Some b \<longrightarrow> arena_get (hy_arena h') q = Some b"
    and "\<And>p. hy_post h = Some p \<Longrightarrow> arena_get p q = Some b \<Longrightarrow> \<exists>p'. hy_post h' = Some p' \<and> arena_get p' q = Some b"
    and "hybrid_get h q = Some b"
  shows "hybrid_get h' q = Some b"
  using assms by (auto simp: hybrid_get_def bind_eq_Some_conv split: if_splits)

lemma arena_get_same:
  "arena_get a ref = Some b \<Longrightarrow> contents a' = contents a \<Longrightarrow> ar_prefix a' = ar_prefix a \<Longrightarrow> arena_get a' ref = Some b"
  using arena_get_grows[of a ref b a' "[]"] by simp

lemma arena_Open_ok:
  assumes "arena_Open js ref a = (Inr r, a')" "arena_ok a"
  shows "arena_ok a' \<and> contents a' = contents a \<and> ar_prefix a' = ar_prefix a"
  using assms sealLocked_ok[OF _ assms(2)] reopenLocked_ok
  by (fastforce simp: arena_Open_def and_then_Inr split: option.splits if_splits)

lemma serves_keep:
  assumes "serves (h, log)" "hybrid_ok h'" "\<And>q b. hybrid_get h q = Some b \<Longrightarrow> hybrid_get h' q = Some b"
  shows "serves (h', log)"
  using assms by (auto simp: serves_def)

lemma serves_issue:
  "serves (h', log) \<Longrightarrow> hybrid_get h' ref = Some b \<Longrightarrow> serves (h', (ref, b) # log)"
  by (simp add: serves_def)

lemma hybrid_ok_arena:
  assumes "hybrid_ok h" "arena_ok a" "ar_prefix a = ar_prefix (hy_arena h)"
  shows "hybrid_ok (h\<lparr>hy_arena := a\<rparr>)"
  using assms by (simp add: hybrid_ok_def)

lemma hybrid_ok_post:
  assumes "hybrid_ok h" "hy_post h = Some p" "arena_ok p'" "ar_prefix p' = ar_prefix p"
  shows "hybrid_ok (h\<lparr>hy_post := Some p'\<rparr>)"
  using assms by (simp add: hybrid_ok_def)

lemma serves_arena:
  assumes "serves (h, log)" "arena_ok a" "contents a = contents (hy_arena h) @ c" "ar_prefix a = ar_prefix (hy_arena h)"
  shows "serves (h\<lparr>hy_arena := a\<rparr>, log)"
proof (rule serves_keep[OF assms(1)])
  show "hybrid_ok (h\<lparr>hy_arena := a\<rparr>)" using assms by (simp add: serves_def hybrid_ok_arena)
  show "hybrid_get (h\<lparr>hy_arena := a\<rparr>) q = Some b" if "hybrid_get h q = Some b" for q b
    by (rule hybrid_get_mono[OF _ _ that]) (simp_all add: arena_get_grows[OF _ assms(3,4)])
qed

lemma serves_post:
  assumes "serves (h, log)" "hy_post h = Some p" "arena_ok p'" "contents p' = contents p" "ar_prefix p' = ar_prefix p"
  shows "serves (h\<lparr>hy_post := Some p'\<rparr>, log)"
proof (rule serves_keep[OF assms(1)])
  show "hybrid_ok (h\<lparr>hy_post := Some p'\<rparr>)" using assms by (simp add: serves_def hybrid_ok_post)
  show "hybrid_get (h\<lparr>hy_post := Some p'\<rparr>) q = Some b" if "hybrid_get h q = Some b" for q b
    by (rule hybrid_get_mono[OF _ _ that]) (simp_all add: assms(2) arena_get_same[OF _ assms(4,5)])
qed

lemma store_step_serves:
  assumes "store_step ja jp leftover x (h, log) = Inr s'" "serves (h, log)"
  shows "serves s'"
proof (cases x)
  case (ArenaPut cs)
  with assms(1) obtain ref n a where put: "arena_Put ja cs None (hy_arena h) = (Inr (ref, n), a)"
    and s': "s' = (h\<lparr>hy_arena := a\<rparr>, (ref, concat cs) # log)"
    by (auto simp: with_arena_def split: prod.splits sum.splits)
  have ok: "arena_ok (hy_arena h)" "ar_prefix (hy_arena h) = ''a''" using assms(2) by (auto simp: serves_def hybrid_ok_def)
  note p = arena_Put_ok[OF put ok(1)]
  have "\<not> has_prefix ref ''o:''" using p ok by (simp add: formatArenaRef_def)
  moreover have "arena_get a ref = Some (concat cs)"
    by (rule arena_get_issued[of a "contents (hy_arena h)" "concat cs" "[]"]) (use p ok in \<open>auto simp: arena_ok_def\<close>)
  ultimately have "hybrid_get (h\<lparr>hy_arena := a\<rparr>) ref = Some (concat cs)" by (simp add: hybrid_get_def)
  moreover have "serves (h\<lparr>hy_arena := a\<rparr>, log)" by (rule serves_arena[OF assms(2)]) (use p in auto)
  ultimately show ?thesis unfolding s' by (rule serves_issue[rotated])
next
  case ArenaSeal
  with assms(1) obtain a where se: "sealLocked ja (hy_arena h) = (Inr (), a)" and s': "s' = (h\<lparr>hy_arena := a\<rparr>, log)"
    by (auto simp: with_arena_def split: prod.splits sum.splits)
  show ?thesis unfolding s'
    by (rule serves_arena[OF assms(2), where c = "[]"])
       (use sealLocked_ok[OF se] assms(2) in \<open>auto simp: serves_def hybrid_ok_def\<close>)
next
  case (HybridPut cs)
  with assms(1) obtain ref n h' where put: "hybrid_Put jp leftover cs None h = (Inr (ref, n), h')"
    and s': "s' = (h', (ref, concat cs) # log)"
    by (auto split: prod.splits sum.splits)
  have "hybrid_ok h" using assms(2) by (simp add: serves_def)
  note p = hybrid_Put_ok[OF put this]
  show ?thesis unfolding s' by (rule serves_issue[OF serves_keep[OF assms(2)]]) (use p in blast)+
next
  case (HybridOpen ref)
  with assms(1) obtain r h' where op: "hybrid_Open ja jp ref h = (Inr r, h')" and s': "s' = (h', log)"
    by (auto split: prod.splits sum.splits)
  show ?thesis
  proof (cases "has_prefix ref ''o:''")
    case True
    with op obtain p p1 where p: "hy_post h = Some p" "arena_Open jp ref p = (Inr r, p1)" "h' = h\<lparr>hy_post := Some p1\<rparr>"
      by (auto simp: hybrid_Open_def split: option.splits prod.splits)
    then have "arena_ok p" using assms(2) by (simp add: serves_def hybrid_ok_def)
    then show ?thesis unfolding s' p(3) using serves_post[OF assms(2) p(1)] arena_Open_ok[OF p(2)] by blast
  next
    case False
    with op obtain a where a: "arena_Open ja ref (hy_arena h) = (Inr r, a)" "h' = h\<lparr>hy_arena := a\<rparr>"
      by (auto simp: hybrid_Open_def split: prod.splits)
    have "arena_ok (hy_arena h)" using assms(2) by (simp add: serves_def hybrid_ok_def)
    then show ?thesis unfolding s' a(2)
      using serves_arena[OF assms(2), of a "[]"] arena_Open_ok[OF a(1)] by simp
  qed
next
  case HybridSeal
  show ?thesis
  proof (cases "hy_post h")
    case None
    then show ?thesis using assms HybridSeal by (simp add: hybrid_seal_def)
  next
    case (Some p)
    with assms(1) HybridSeal obtain p1 where p: "sealLocked jp p = (Inr (), p1)" and s': "s' = (h\<lparr>hy_post := Some p1\<rparr>, log)"
      by (auto simp: hybrid_seal_def split: prod.splits sum.splits)
    have "arena_ok p" using assms(2) Some by (simp add: serves_def hybrid_ok_def)
    then show ?thesis unfolding s' using serves_post[OF assms(2) Some] sealLocked_ok[OF p] by blast
  qed
qed

lemma store_run_serves: "store_run ja jp leftover xs s = Inr s' \<Longrightarrow> serves s \<Longrightarrow> serves s'"
proof (induction xs arbitrary: s)
  case (Cons x xs)
  then obtain s1 where "store_step ja jp leftover x s = Inr s1" "store_run ja jp leftover xs s1 = Inr s'"
    by (auto simp: bindR_def split: sum.splits)
  then show ?case using Cons store_step_serves by (cases s) blast
qed simp

lemma store_start_serves: "store_start ja leftover = Inr h \<Longrightarrow> serves (h, [])"
  using newOpfsArena_ok[of ja leftover "''a''"]
  by (auto simp: store_start_def serves_def hybrid_ok_def split: prod.splits sum.splits)

lemma arena_Open_available:
  assumes "arena_ok a" "arena_get a ref = Some b"
  shows "\<exists>r a'. arena_Open (\<lambda>_. False) ref a = (Inr r, a')"
proof -
  have "\<exists>a1. sealLocked (\<lambda>_. False) a = (Inr (), a1)" "\<exists>a1. reopenLocked (\<lambda>_. False) a = (Inr (), a1)" if "arena_ok a" for a
    using that
    by (auto simp: sealLocked_def reopenLocked_def and_then_def await_def js_close_def js_getFile_def js_createWritable_def js_seek_def
        arena_ok_def split: option.splits if_splits)
  then show ?thesis using assms sealLocked_ok[OF _ assms(1)]
    by (fastforce simp: arena_Open_def arena_get_def and_then_def split: option.splits if_splits prod.splits sum.splits)
qed

lemma hybrid_Open_available:
  assumes "hybrid_ok h" "hybrid_get h ref = Some b"
  shows "\<exists>r h'. hybrid_Open (\<lambda>_. False) (\<lambda>_. False) ref h = (Inr r, h')"
  using assms arena_Open_available
  by (auto simp: hybrid_Open_def hybrid_get_def hybrid_ok_def bind_eq_Some_conv split: if_splits prod.splits; fastforce)


definition never :: "nat \<Rightarrow> bool" where
  "never n = False"

definition demo_ops :: "store_op list" where
  "demo_ops = [ArenaPut [[1, 2], [3]], HybridPut [[4]], HybridOpen ''o:0:1'', ArenaSeal, HybridPut [[5, 6]], HybridSeal]"

text \<open>A body whose reader fails is not rolled back: the stream has moved, the offset has not.\<close>

lemma failed_put_shifts:
  "\<exists>a0 e a1 a2 rd a3. newOpfsArena never [] ''a'' = (Inr (), a0) \<and>
     arena_Put never [[1, 2]] (Some e) a0 = (Inl e, a1) \<and>
     arena_Put never [[7, 8]] None a1 = (Inr (''a:0:2'', 2), a2) \<and>
     arena_Open never ''a:0:2'' a2 = (Inr rd, a3) \<and> sr_blob rd = [1, 2]"
proof -
  have "case newOpfsArena never [] ''a'' of (r0, a0) \<Rightarrow> case arena_Put never [[1, 2]] (Some (ReaderFailed [])) a0 of (r1, a1) \<Rightarrow>
      case arena_Put never [[7, 8]] None a1 of (r2, a2) \<Rightarrow> case arena_Open never ''a:0:2'' a2 of (r3, a3) \<Rightarrow>
      r0 = Inr () \<and> r1 = Inl (ReaderFailed []) \<and> r2 = Inr (''a:0:2'', 2) \<and>
      (case r3 of Inl _ \<Rightarrow> False | Inr rd \<Rightarrow> sr_blob rd = [1, 2])"
    by code_simp
  then show ?thesis by (fastforce split: prod.splits sum.splits)
qed

text \<open>Sealing the hybrid store does not stop further writes.\<close>

definition sealed_then_put :: bool where
  "sealed_then_put =
     (case store_start never [] of Inl _ \<Rightarrow> False | Inr h0 \<Rightarrow>
      (case store_run never never [] [HybridPut [[4]], HybridSeal] (h0, []) of Inl _ \<Rightarrow> False | Inr (h1, log) \<Rightarrow>
        fst (hybrid_Put never [] [[5]] None h1) = Inr (''o:1:1'', 1)))"

lemma seal_does_not_stop: sealed_then_put
  by code_simp

text \<open>
  C36. Whatever a build appends, reads and seals, in any order and over any leftover of an
  earlier run, every reference the store issued can be opened at the end, and its reader
  delivers exactly the bytes that were put under it, with a buffer of any positive size; when the
  browser rejects a call, the open may fail, but it never delivers other bytes.\<close>

theorem opfs_serves:
  assumes "store_start ja leftover = Inr h0"
    and "store_run ja jp leftover ops (h0, []) = Inr (h, log)"
    and "(ref, b) \<in> set log"
  shows "(\<exists>r h'. hybrid_Open (\<lambda>_. False) (\<lambda>_. False) ref h = (Inr r, h')) \<and>
    (\<forall>ja' jp' r h' n. hybrid_Open ja' jp' ref h = (Inr r, h') \<longrightarrow> slice_all n r = b)"
proof -
  have "serves (h, log)" by (rule store_run_serves[OF assms(2) store_start_serves[OF assms(1)]])
  then have "hybrid_ok h" "hybrid_get h ref = Some b" using assms(3) by (auto simp: serves_def)
  then show ?thesis using hybrid_Open_available hybrid_Open_reads by blast
qed

theorem opfs_serves_witness:
  "\<exists>h0 h log r h'. store_start never [9, 9] = Inr h0 \<and> store_run never never [9, 9] demo_ops (h0, []) = Inr (h, log) \<and>
     hybrid_Open (\<lambda>_. False) (\<lambda>_. False) ''o:1:2'' h = (Inr r, h') \<and> slice_all 0 r = [5, 6]"
proof -
  have "case store_start never [9, 9] of Inl _ \<Rightarrow> False | Inr h0 \<Rightarrow>
      (case store_run never never [9, 9] demo_ops (h0, []) of Inl _ \<Rightarrow> False | Inr (h1, log) \<Rightarrow> (''o:1:2'', [5, 6]) \<in> set log)"
    by code_simp
  then obtain h0 h log where "store_start never [9, 9] = Inr h0" "store_run never never [9, 9] demo_ops (h0, []) = Inr (h, log)"
    and "(''o:1:2'', [5, 6]) \<in> set log"
    by (auto split: prod.splits sum.splits)
  moreover from opfs_serves[OF this] obtain r h' where
    "hybrid_Open (\<lambda>_. False) (\<lambda>_. False) ''o:1:2'' h = (Inr r, h')" "slice_all 0 r = [5, 6]"
    by blast
  ultimately show ?thesis by blast
qed

end
