(* ===== verification/Initrd_Overlay.thy ===== *)
theory Initrd_Overlay
  imports Boot_Chain
begin

text \<open>
  The initramfs overlay (\<^verbatim>\<open>internal/purefs/initrdoverlay.go\<close>): a \<^verbatim>\<open>newc\<close> cpio archive with the
  scripts of the live boot and the kernel modules it needs, put before the initramfs of the
  image. The reader at the end follows the format the kernel unpacks (\<^verbatim>\<open>init/initramfs.c\<close>):
  it stands on its own and shares no definition with the writer.
\<close>

section \<open>The directory of a path is shorter\<close>

definition weight :: "string list \<Rightarrow> nat" where
  "weight st = sum_list (map (\<lambda>s. Suc (length s)) st)"

lemma weight_clean_steps: "weight (foldl (clean_step r) st ps) \<le> weight st + weight ps"
proof (induction ps arbitrary: st)
  case (Cons p ps)
  have "weight (clean_step r st p) \<le> weight st + Suc (length p)"
    by (cases st) (auto simp: clean_step_def weight_def)
  then show ?case using Cons.IH[of "clean_step r st p"] by (simp add: weight_def)
qed (simp add: weight_def)

lemma length_join_weight: "st \<noteq> [] \<Longrightarrow> Suc (length (join_with ''/'' st)) = weight st"
  by (induction st rule: induct_list012) (auto simp: weight_def)

lemma weight_split: "weight (split_on c s) = Suc (length s)"
  by (induction c s rule: split_on.induct) (auto simp: weight_def split: list.splits)

lemma weight_rev [simp]: "weight (rev st) = weight st"
  by (simp add: weight_def rev_map[symmetric])

lemma clean_with_slash:
  assumes "x = y @ ''/''"
  shows "path_clean x = ''.'' \<or> path_clean x = ''/'' \<or> length (path_clean x) < length x"
proof -
  define r where "r \<longleftrightarrow> hd x = CHR ''/''"
  define ps where "ps = split_on (CHR ''/'') y"
  define st where "st = foldl (clean_step r) [] ps"
  have sp: "split_on (CHR ''/'') x = ps @ [[]]"
    by (simp add: assms ps_def split_on_append)
  have st': "foldl (clean_step r) [] (split_on (CHR ''/'') x) = st"
    by (simp add: sp st_def clean_step_def)
  have w: "weight ps = Suc (length y)" by (simp add: ps_def weight_split)
  show ?thesis
  proof (cases "st = []")
    case True
    then show ?thesis using st' assms by (auto simp: path_clean_def Let_def r_def)
  next
    case False
    then have len: "Suc (length (join_with ''/'' (rev st))) = weight st" by (simp add: length_join_weight)
    show ?thesis
    proof (cases r)
      case True
      have "y = [] \<or> (\<exists>z. y = CHR ''/'' # z)" using True assms by (cases y) (auto simp: r_def)
      then have "hd ps = []" "ps \<noteq> []" by (auto simp: ps_def)
      then obtain qs where qs: "ps = [] # qs" by (cases ps) auto
      have "st = foldl (clean_step r) [] qs" by (simp add: st_def qs clean_step_def)
      then have "weight st \<le> weight qs" using weight_clean_steps[of r "[]" qs] by (simp add: weight_def)
      also have "\<dots> = length y" using w by (simp add: qs weight_def)
      finally show ?thesis using True st' len assms by (auto simp: path_clean_def Let_def r_def)
    next
      case False
      have "weight st \<le> Suc (length y)" using weight_clean_steps[of r "[]" ps] w by (simp add: weight_def st_def)
      then show ?thesis using False st' len assms \<open>st \<noteq> []\<close>
        by (auto simp: path_clean_def Let_def r_def)
    qed
  qed
qed

lemma path_dir_shorter:
  "path_dir p = ''.'' \<or> path_dir p = ''/'' \<or> length (path_dir p) < length p"
proof -
  define f where "f = takeWhile (\<lambda>c. c \<noteq> CHR ''/'') (rev p)"
  define g where "g = dropWhile (\<lambda>c. c \<noteq> CHR ''/'') (rev p)"
  have "rev p = f @ g" by (simp add: f_def g_def)
  then have p: "p = rev g @ rev f" by (metis rev_append rev_rev_ident)
  have "length p - length (rev f) = length g" "take (length g) p = rev g" by (subst p, simp)+
  then have dir: "path_dir p = path_clean (rev g)"
    unfolding path_dir_def path_split_def Let_def fst_conv f_def by (simp only:)
  show ?thesis
  proof (cases g)
    case Nil
    then show ?thesis by (simp add: dir path_clean_def)
  next
    case (Cons c h)
    have "c = CHR ''/''" using hd_dropWhile[of "\<lambda>c. c \<noteq> CHR ''/''" "rev p"] by (simp flip: g_def add: Cons)
    then have "rev g = rev h @ ''/''" using Cons by simp
    from clean_with_slash[OF this] show ?thesis using dir p by auto
  qed
qed

section \<open>The cpio writer\<close>

record cpio_writer =
  cw_buf :: bytes
  cw_dirs :: "string list"
  cw_ino :: nat

definition newCpioWriter :: cpio_writer where
  "newCpioWriter = \<lparr>cw_buf = [], cw_dirs = [], cw_ino = 0\<rparr>"

text \<open>\<^verbatim>\<open>%08X\<close>: at least eight digits.\<close>

definition hex_char :: "nat \<Rightarrow> char" where
  "hex_char d = (if d < 10 then char_of (48 + d) else char_of (55 + d))"

fun hex_upper :: "nat \<Rightarrow> string" where
  "hex_upper n = (if n < 16 then [hex_char n] else hex_upper (n div 16) @ [hex_char (n mod 16)])"

declare hex_upper.simps [simp del]

definition hex8 :: "nat \<Rightarrow> string" where
  "hex8 n = replicate (8 - length (hex_upper n)) CHR ''0'' @ hex_upper n"

definition pad_buf :: "nat \<Rightarrow> bytes \<Rightarrow> bytes" where
  "pad_buf k b = b @ zeros ((k - length b mod k) mod k)"

definition pad4 :: "cpio_writer \<Rightarrow> cpio_writer" where
  "pad4 w = w\<lparr>cw_buf := pad_buf 4 (cw_buf w)\<rparr>"

definition cpio_write :: "bytes \<Rightarrow> cpio_writer \<Rightarrow> cpio_writer" where
  "cpio_write b w = w\<lparr>cw_buf := cw_buf w @ b\<rparr>"

definition newc_magic :: string where
  "newc_magic = ''070701''"

definition header :: "string \<Rightarrow> u32 \<Rightarrow> nat \<Rightarrow> cpio_writer \<Rightarrow> cpio_writer" where
  "header name mode sz w =
     (let ino = cw_ino w + 1 in
      pad4 (cpio_write
        (bytes_of (newc_magic @ concat (map hex8 [ino, unat mode, 0, 0, 1, 0, sz, 0, 0, 0, 0, length name + 1, 0])) @
         bytes_of name @ [0])
        (w\<lparr>cw_ino := ino\<rparr>)))"

function mkdirAll :: "string \<Rightarrow> cpio_writer \<Rightarrow> cpio_writer" where
  "mkdirAll dir w =
     (if dir = ''.'' \<or> dir = ''/'' \<or> dir = [] \<or> dir \<in> set (cw_dirs w) then w
      else let w1 = mkdirAll (path_dir dir) w in header dir 0x41ed 0 (w1\<lparr>cw_dirs := dir # cw_dirs w1\<rparr>))"
  by pat_completeness auto
termination
proof (relation "measure (\<lambda>(dir, w). if dir = ''.'' \<or> dir = ''/'' then 0 else Suc (length dir))")
  show "((path_dir dir, w), (dir, w)) \<in> measure (\<lambda>(dir, w). if dir = ''.'' \<or> dir = ''/'' then 0 else Suc (length dir))"
    if "\<not> (dir = ''.'' \<or> dir = ''/'' \<or> dir = [] \<or> dir \<in> set (cw_dirs w))" for dir w
    using path_dir_shorter[of dir] that by auto
qed simp

declare mkdirAll.simps [simp del]

definition cpio_file :: "string \<Rightarrow> u32 \<Rightarrow> bytes \<Rightarrow> cpio_writer \<Rightarrow> cpio_writer" where
  "cpio_file name mode body w =
     pad4 (cpio_write body (header name (0x8000 OR mode) (length body) (mkdirAll (path_dir name) w)))"

definition cpio_symlink :: "string \<Rightarrow> string \<Rightarrow> cpio_writer \<Rightarrow> cpio_writer" where
  "cpio_symlink name target w =
     pad4 (cpio_write (bytes_of target) (header name 0xa1ff (length target) (mkdirAll (path_dir name) w)))"

definition finish :: "cpio_writer \<Rightarrow> bytes" where
  "finish w = pad_buf 512 (cw_buf (header ''TRAILER!!!'' 0 0 w))"


section \<open>The overlay\<close>

datatype 'e overlay_error = EmbeddedMissing string | NoModulesTree string | ModuleErr 'e

text \<open>Source, destinations and mode of each script, and the links that enable the unit.\<close>

definition insts :: "(string \<times> string list \<times> u32) list" where
  "insts =
     [(''src/dracut/90tbox-live/parse-tbox-live.sh'',
        [''usr/lib/dracut/hooks/cmdline/30-parse-tbox-live.sh'',
         ''var/lib/dracut/hooks/cmdline/30-parse-tbox-live.sh''], 0x1ed),
      (''src/dracut/90tbox-live/tbox-live-root.sh'', [''sbin/tbox-live-root''], 0x1ed),
      (''src/dracut/90tbox-live/tbox-live-generator.sh'',
        [''usr/lib/systemd/system-generators/tbox-live-generator''], 0x1ed),
      (''src/dracut/95tbox-root/tbox-root-mount.sh'', [''usr/bin/tbox-root-mount.sh''], 0x1ed),
      (''src/dracut/95tbox-root/tbox-root.service'', [''usr/lib/systemd/system/tbox-root.service''], 0x1a4)]"

definition links :: "(string \<times> string) list" where
  "links =
     [(''usr/lib/systemd/system/initrd-root-fs.target.wants/tbox-root.service'', ''../tbox-root.service''),
      (''usr/lib/systemd/system/ostree-prepare-root.service.requires/tbox-root.service'', ''../tbox-root.service'')]"

definition write_inst ::
  "(string \<Rightarrow> bytes option) \<Rightarrow> string \<times> string list \<times> u32 \<Rightarrow> cpio_writer \<Rightarrow> 'e overlay_error + cpio_writer" where
  "write_inst fsys inst w =
     (case inst of (src, dsts, mode) \<Rightarrow>
        (case fsys src of
           None \<Rightarrow> Inl (EmbeddedMissing src)
         | Some b \<Rightarrow> Inr (fold (\<lambda>d. cpio_file d mode b) dsts w)))"

definition overlayScripts :: "(string \<Rightarrow> bytes option) \<Rightarrow> cpio_writer \<Rightarrow> 'e overlay_error + cpio_writer" where
  "overlayScripts fsys w =
     bindR (foldR (write_inst fsys) insts w) (\<lambda>w1. Inr (fold (\<lambda>(name, target). cpio_symlink name target) links w1))"

text \<open>
  The decoders of \<^verbatim>\<open>zstd\<close>, \<^verbatim>\<open>gzip\<close> and \<^verbatim>\<open>xz\<close> are the parameter \<open>decode\<close>, over the stream as the
  store delivers it; without compression the stream itself is read.
\<close>

datatype module_comp = ModZst | ModGz | ModXz

definition wanted :: "string list" where
  "wanted = [''erofs'', ''squashfs'', ''loop'', ''overlay'', ''isofs'', ''sr_mod'', ''cdrom'']"

definition trim_comp :: "string \<Rightarrow> string" where
  "trim_comp p = trim_suffix (trim_suffix (trim_suffix p ''.zst'') ''.gz'') ''.xz''"

definition wanted_module :: "string \<Rightarrow> bool" where
  "wanted_module p =
     (let name = trim_comp (path_base p) in has_suffix name ''.ko'' \<and> trim_suffix name ''.ko'' \<in> set wanted)"

definition module_body :: "(module_comp \<Rightarrow> 'e body \<Rightarrow> 'e + bytes) \<Rightarrow> string \<Rightarrow> 'e body \<Rightarrow> 'e + bytes" where
  "module_body decode base r =
     (if has_suffix base ''.zst'' then decode ModZst r
      else if has_suffix base ''.gz'' then decode ModGz r
      else if has_suffix base ''.xz'' then decode ModXz r
      else case snd r of None \<Rightarrow> Inr (fst r) | Some e \<Rightarrow> Inl e)"

definition module_dst :: "string \<Rightarrow> string \<Rightarrow> string" where
  "module_dst kver p = ''usr/lib/modules/'' @ kver @ ''/'' @ trim_comp p"

definition overlay_module ::
  "(string \<Rightarrow> 'e + 'e body) \<Rightarrow> (module_comp \<Rightarrow> 'e body \<Rightarrow> 'e + bytes) \<Rightarrow> string \<Rightarrow>
   string \<times> node \<Rightarrow> cpio_writer \<Rightarrow> 'e overlay_error + cpio_writer" where
  "overlay_module open decode kver pn w =
     (case pn of (p, n) \<Rightarrow>
        if ntype_of n \<noteq> TypeFile \<or> \<not> wanted_module p then Inr w
        else case bindR (open (n_ref (attrs n))) (module_body decode (path_base p)) of
               Inl e \<Rightarrow> Inl (ModuleErr e)
             | Inr body \<Rightarrow> Inr (cpio_file (module_dst kver p) 0x1a4 body w))"

definition BuildInitrdOverlay ::
  "(string \<Rightarrow> 'e + 'e body) \<Rightarrow> (module_comp \<Rightarrow> 'e body \<Rightarrow> 'e + bytes) \<Rightarrow> (string \<Rightarrow> bytes option) \<Rightarrow>
   node \<Rightarrow> string \<Rightarrow> 'e overlay_error + bytes" where
  "BuildInitrdOverlay open decode fsys root kver =
     bindR (overlayScripts fsys newCpioWriter) (\<lambda>w.
       case Lookup root (''usr/lib/modules/'' @ kver) of
         None \<Rightarrow> Inl (NoModulesTree kver)
       | Some modRoot \<Rightarrow> bindR (Walk (overlay_module open decode kver) modRoot w) (\<lambda>w1. Inr (finish w1)))"

definition BuildInitrdOverlayScriptsOnly :: "(string \<Rightarrow> bytes option) \<Rightarrow> unit overlay_error + bytes" where
  "BuildInitrdOverlayScriptsOnly fsys =
     bindR (overlayScripts fsys newCpioWriter) (\<lambda>w. Inr (finish w))"

section \<open>What the kernel unpacks\<close>

text \<open>
  One entry: 110 bytes of header in hexadecimal, the name and its NUL, the data, both padded to
  four bytes. Entries are a multiple of four long, so alignment can be counted from the entry.
\<close>

type_synonym cpio_entry = "string \<times> u32 \<times> bytes"

definition hex_nibble :: "byte \<Rightarrow> nat" where
  "hex_nibble b = (if b < 58 then unat b - 48 else if b < 97 then unat b - 55 else unat b - 87)"

definition hex_val :: "bytes \<Rightarrow> nat" where
  "hex_val bs = foldl (\<lambda>v b. 16 * v + hex_nibble b) 0 bs"

definition newc_field :: "nat \<Rightarrow> bytes \<Rightarrow> nat" where
  "newc_field i b = hex_val (take 8 (drop (6 + 8 * i) b))"

definition up4 :: "nat \<Rightarrow> nat" where
  "up4 n = (n + 3) div 4 * 4"

definition newc_entry :: "bytes \<Rightarrow> (cpio_entry \<times> bytes) option" where
  "newc_entry b =
     (let fsize = newc_field 6 b; nsize = newc_field 11 b; start = up4 (110 + nsize) in
      if length b < 110 \<or> take 6 b \<noteq> bytes_of newc_magic \<or> nsize = 0 \<or> length b < start + up4 fsize \<or>
         b ! (110 + nsize - 1) \<noteq> 0 then None
      else Some ((string_of_bytes (take (nsize - 1) (drop 110 b)), word_of_nat (newc_field 1 b), take fsize (drop start b)),
                 drop (start + up4 fsize) b))"

lemma newc_entry_shorter: "newc_entry b = Some (e, b') \<Longrightarrow> length b' < length b"
  by (auto simp: newc_entry_def Let_def up4_def split: if_splits)

function newc_read :: "bytes \<Rightarrow> (cpio_entry list \<times> bytes) option" where
  "newc_read b =
     (case newc_entry b of
        None \<Rightarrow> None
      | Some (e, b') \<Rightarrow> if fst e = ''TRAILER!!!'' then Some ([], b') else map_option (\<lambda>(es, z). (e # es, z)) (newc_read b'))"
  by pat_completeness auto
termination by (relation "measure length") (use newc_entry_shorter in auto)

declare newc_read.simps [simp del]

section \<open>The writer against the reader\<close>

lemma hex_upper_pos: "hex_upper n \<noteq> []"
  by (subst hex_upper.simps) simp

lemma length_hex_upper: "n < 16 ^ k \<Longrightarrow> 0 < k \<Longrightarrow> length (hex_upper n) \<le> k"
proof (induction n arbitrary: k rule: hex_upper.induct)
  case (1 n)
  show ?case
  proof (cases "n < 16")
    case True
    then show ?thesis using "1.prems" by (subst hex_upper.simps) simp
  next
    case False
    then obtain j where j: "k = Suc j" "0 < j" using "1.prems" by (cases k; cases "k - 1") auto
    have "n div 16 < 16 ^ j" using "1.prems"(1) j(1) by (simp add: less_mult_imp_div_less mult.commute)
    then show ?thesis using "1.IH"[OF False, of j] False j by (subst hex_upper.simps) simp
  qed
qed

lemma length_hex8: "n < 2 ^ 32 \<Longrightarrow> length (hex8 n) = 8"
  using length_hex_upper[of n 8] by (simp add: hex8_def)

lemma hex_nibble_char: "d < 16 \<Longrightarrow> hex_nibble (of_char (hex_char d)) = d"
  by (simp add: hex_nibble_def hex_char_def word_less_nat_alt unat_of_char)

lemma hex_val_snoc: "hex_val (bs @ [b]) = 16 * hex_val bs + hex_nibble b"
  by (simp add: hex_val_def)

lemma hex_val_upper: "hex_val (bytes_of (hex_upper n)) = n"
proof (induction n rule: hex_upper.induct)
  case (1 n)
  then show ?case
    by (subst hex_upper.simps) (auto simp: bytes_of_def hex_val_snoc hex_nibble_char, simp add: hex_val_def hex_nibble_char)
qed

lemma hex_val_zeros: "hex_val (bytes_of (replicate k CHR ''0'') @ bs) = hex_val bs"
proof -
  have "hex_nibble (of_char (CHR ''0'')) = 0" by code_simp
  then show ?thesis by (induction k) (auto simp: hex_val_def bytes_of_def)
qed

lemma hex_val_hex8: "hex_val (bytes_of (hex8 n)) = n"
proof -
  have "bytes_of (hex8 n) = bytes_of (replicate (8 - length (hex_upper n)) CHR ''0'') @ bytes_of (hex_upper n)"
    by (simp add: hex8_def bytes_of_def)
  then show ?thesis by (simp add: hex_val_zeros hex_val_upper)
qed


lemma pad_buf_app: "pad_buf k x = x @ zeros ((k - length x mod k) mod k)"
  by (simp add: pad_buf_def)

lemma length_pad_buf: "0 < k \<Longrightarrow> length (pad_buf k x) mod k = 0"
proof -
  assume k: "0 < k"
  have "(length x + (k - length x mod k)) mod k = (length x mod k + (k - length x mod k)) mod k"
    by (simp add: mod_add_left_eq)
  also have "\<dots> = 0" using k by (simp add: mod_le_divisor)
  finally show ?thesis by (simp add: pad_buf_def mod_add_right_eq)
qed

lemma length_pad_four: "length (pad_buf 4 x) = up4 (length x)"
proof -
  have "n + (4 - n mod 4) mod 4 = (n + 3) div 4 * 4" for n :: nat
  proof -
    have "n mod 4 = 0 \<or> n mod 4 = 1 \<or> n mod 4 = 2 \<or> n mod 4 = 3" by arith
    then show ?thesis by (elim disjE; simp; presburger)
  qed
  then show ?thesis by (simp add: pad_buf_def up4_def)
qed

lemma up4_mod [simp]: "up4 n mod 4 = 0"
  by (simp add: up4_def)

lemma pad4_append: "length x mod 4 = 0 \<Longrightarrow> pad_buf 4 (x @ y) = x @ pad_buf 4 y"
  by (simp add: pad_buf_def mod_add_eq[symmetric] flip: mod_add_left_eq)

definition newc_head :: "nat list \<Rightarrow> bytes" where
  "newc_head vs = bytes_of (newc_magic @ concat (map hex8 vs))"

lemma length_newc_magic [simp]: "length newc_magic = 6"
  by (simp add: newc_magic_def)

definition enc_head :: "nat \<Rightarrow> string \<Rightarrow> u32 \<Rightarrow> nat \<Rightarrow> bytes" where
  "enc_head ino name mode sz =
     pad_buf 4 (newc_head [ino, unat mode, 0, 0, 1, 0, sz, 0, 0, 0, 0, length name + 1, 0] @ bytes_of name @ [0])"

definition enc :: "nat \<Rightarrow> cpio_entry \<Rightarrow> bytes" where
  "enc ino e = (case e of (name, mode, d) \<Rightarrow> enc_head ino name mode (length d) @ pad_buf 4 d)"

lemma bytes_of_append [simp]: "bytes_of (a @ b) = bytes_of a @ bytes_of b"
  by (simp add: bytes_of_def)

lemma head_field:
  assumes "\<forall>v \<in> set vs. v < 2 ^ 32" "i < length vs"
  shows "newc_field i (newc_head vs @ r) = vs ! i"
proof -
  have "take 8 (drop (8 * i) (bytes_of (concat (map hex8 vs)) @ r)) = bytes_of (hex8 (vs ! i))"
    using assms
  proof (induction vs arbitrary: i)
    case (Cons v vs)
    then have l: "length (bytes_of (hex8 v)) = 8" by (simp add: length_hex8)
    show ?case
    proof (cases i)
      case 0
      then show ?thesis using l by simp
    next
      case (Suc j)
      have "drop (8 * i) (bytes_of (concat (map hex8 (v # vs))) @ r) = drop (8 * j) (bytes_of (concat (map hex8 vs)) @ r)"
        using l by (simp add: Suc)
      then show ?thesis using Cons.IH[of j] Cons.prems Suc by simp
    qed
  qed simp
  moreover have "drop (6 + 8 * i) (newc_head vs @ r) = drop (8 * i) (bytes_of (concat (map hex8 vs)) @ r)"
    by (simp add: newc_head_def)
  ultimately show ?thesis by (simp only: newc_field_def hex_val_hex8)
qed

lemma length_newc_head: "\<forall>v \<in> set vs. v < 2 ^ 32 \<Longrightarrow> length (newc_head vs) = 6 + 8 * length vs"
proof (induction vs)
  case (Cons v vs)
  then show ?case by (simp add: newc_head_def length_hex8)
qed (simp add: newc_head_def)

lemma newc_entry_enc:
  assumes "ino < 2 ^ 32" "length d < 2 ^ 32" "length name + 1 < 2 ^ 32"
  shows "newc_entry (enc ino (name, mode, d) @ rest) = Some ((name, mode, d), rest)"
proof -
  define vs where "vs = [ino, unat mode, 0, 0, 1, 0, length d, 0, 0, 0, 0, length name + 1, 0 :: nat]"
  define h where "h = newc_head vs"
  define z where "z = zeros ((4 - length (h @ bytes_of name @ [0]) mod 4) mod 4)"
  define zd where "zd = zeros ((4 - length d mod 4) mod 4)"
  have small: "\<forall>v \<in> set vs. v < 2 ^ 32" using assms unsigned_less[of mode] by (simp add: vs_def)
  have lh: "length h = 110" using length_newc_head[OF small] by (simp add: h_def vs_def)
  have start: "up4 (110 + (length name + 1)) = 111 + length name + length z"
    using length_pad_four[of "h @ bytes_of name @ [0]"] lh by (simp add: pad_buf_app z_def)
  have dlen: "up4 (length d) = length d + length zd"
    using length_pad_four[of d] by (simp add: pad_buf_app zd_def)
  have b: "enc ino (name, mode, d) @ rest = h @ bytes_of name @ [0] @ z @ d @ zd @ rest"
    by (simp add: enc_def enc_head_def pad_buf_app z_def zd_def h_def vs_def)
  have f: "newc_field 6 (h @ r) = length d" "newc_field 11 (h @ r) = length name + 1" "newc_field 1 (h @ r) = unat mode" for r
    unfolding h_def using head_field[OF small, of _ r] by (simp_all add: vs_def)
  have "take 6 (h @ r) = bytes_of newc_magic" for r by (simp add: h_def newc_head_def)
  moreover have "(h @ bytes_of name @ [0] @ r) ! (110 + (length name + 1) - 1) = 0" for r
    using lh by (simp add: nth_append)
  moreover have "drop (111 + length name + length z) (h @ bytes_of name @ [0] @ z @ r) = r" for r
    using lh by simp
  moreover have "drop (111 + length name + length z + (length d + length zd)) (h @ bytes_of name @ [0] @ z @ d @ zd @ r) = r" for r
    using lh by simp
  moreover have "take (length name) (drop 110 (h @ bytes_of name @ r)) = bytes_of name" for r
    using lh by simp
  ultimately show ?thesis
    unfolding b newc_entry_def Let_def f start dlen using lh by simp
qed

lemma length_enc_mod [simp]: "length (enc ino e) mod 4 = 0"
proof -
  obtain name mode d where e: "e = (name, mode, d)" by (cases e) auto
  show ?thesis by (simp add: e enc_def enc_head_def length_pad_four flip: mod_add_eq)
qed


section \<open>The entries of a writer\<close>

definition dir_entry :: "cpio_entry \<Rightarrow> bool" where
  "dir_entry e \<longleftrightarrow> fst (snd e) = 0x41ed"

definition at_top :: "string \<Rightarrow> bool" where
  "at_top d \<longleftrightarrow> d = ''.'' \<or> d = ''/'' \<or> d = []"

definition has_parent :: "cpio_entry list \<Rightarrow> string \<Rightarrow> bool" where
  "has_parent xs n \<longleftrightarrow> at_top (path_dir n) \<or> (path_dir n, 0x41ed, []) \<in> set xs"

text \<open>The kernel creates no missing parents: each entry follows that of its directory.\<close>

fun parents_ok :: "cpio_entry list \<Rightarrow> cpio_entry list \<Rightarrow> bool" where
  "parents_ok xs [] \<longleftrightarrow> True"
| "parents_ok xs (e # es) \<longleftrightarrow> has_parent xs (fst e) \<and> parents_ok (xs @ [e]) es"

lemma parents_ok_snoc: "parents_ok xs (es @ [e]) \<longleftrightarrow> parents_ok xs es \<and> has_parent (xs @ es) (fst e)"
  by (induction xs es rule: parents_ok.induct) auto

fun encs :: "nat \<Rightarrow> cpio_entry list \<Rightarrow> bytes" where
  "encs i [] = []"
| "encs i (e # es) = enc i e @ encs (Suc i) es"

lemma encs_append: "encs i (xs @ ys) = encs i xs @ encs (i + length xs) ys"
  by (induction i xs rule: encs.induct) auto

lemma length_encs_mod [simp]: "length (encs i es) mod 4 = 0"
  by (induction i es rule: encs.induct) (auto simp flip: mod_add_eq)

definition cpio_inv :: "cpio_writer \<Rightarrow> cpio_entry list \<Rightarrow> bool" where
  "cpio_inv w es \<longleftrightarrow> cw_buf w = encs 1 es \<and> cw_ino w = length es \<and>
     (\<forall>d \<in> set (cw_dirs w). (d, 0x41ed, []) \<in> set es) \<and> (\<forall>e \<in> set es. dir_entry e \<longrightarrow> fst e \<in> set (cw_dirs w)) \<and>
     distinct (map fst (filter dir_entry es)) \<and> parents_ok [] es"

lemma header_buf:
  "length (cw_buf w) mod 4 = 0 \<Longrightarrow>
   header n m sz w = w\<lparr>cw_ino := Suc (cw_ino w), cw_buf := cw_buf w @ enc_head (Suc (cw_ino w)) n m sz\<rparr>"
  by (simp add: header_def Let_def pad4_def cpio_write_def enc_head_def newc_head_def pad4_append del: append.simps)

lemma length_enc_head_mod: "length (enc_head i n m sz) mod 4 = 0"
  by (simp add: enc_head_def length_pad_four)

definition cpio_put :: "string \<Rightarrow> u32 \<Rightarrow> bytes \<Rightarrow> cpio_writer \<Rightarrow> cpio_writer" where
  "cpio_put n m b w = pad4 (cpio_write b (header n m (length b) w))"

lemma put_buf:
  assumes "length (cw_buf w) mod 4 = 0"
  shows "cpio_put n m b w = w\<lparr>cw_ino := Suc (cw_ino w), cw_buf := cw_buf w @ enc (Suc (cw_ino w)) (n, m, b)\<rparr>"
proof -
  have "length (cw_buf w @ enc_head (Suc (cw_ino w)) n m (length b)) mod 4 = 0"
    using assms length_enc_head_mod by (simp flip: mod_add_eq)
  then show ?thesis
    using pad4_append by (simp add: cpio_put_def header_buf[OF assms] pad4_def cpio_write_def enc_def del: append_assoc)
qed

lemma cpio_file_put: "cpio_file n m b w = cpio_put n (0x8000 OR m) b (mkdirAll (path_dir n) w)"
  by (simp add: cpio_file_def cpio_put_def)

lemma cpio_symlink_put: "cpio_symlink n t w = cpio_put n 0xa1ff (bytes_of t) (mkdirAll (path_dir n) w)"
  by (simp add: cpio_symlink_def cpio_put_def)

lemma cpio_inv_put:
  assumes "cpio_inv w es" "has_parent es n" "m \<noteq> 0x41ed"
  shows "cpio_inv (cpio_put n m b w) (es @ [(n, m, b)])"
proof -
  have "length (cw_buf w) mod 4 = 0" using assms(1) by (simp add: cpio_inv_def)
  note p = put_buf[OF this, of n m b]
  have "encs 1 (es @ [(n, m, b)]) = encs 1 es @ enc (Suc (length es)) (n, m, b)" by (simp add: encs_append)
  then show ?thesis using assms unfolding p
    by (auto simp: cpio_inv_def parents_ok_snoc dir_entry_def)
qed

lemma cpio_inv_dir:
  assumes "cpio_inv w es" "has_parent es d" "d \<notin> set (cw_dirs w)"
  shows "cpio_inv (header d 0x41ed 0 (w\<lparr>cw_dirs := d # cw_dirs w\<rparr>)) (es @ [(d, 0x41ed, [])])"
proof -
  have l: "length (cw_buf (w\<lparr>cw_dirs := d # cw_dirs w\<rparr>)) mod 4 = 0" using assms(1) by (simp add: cpio_inv_def)
  have "encs 1 (es @ [(d, 0x41ed, [])]) = encs 1 es @ enc_head (Suc (length es)) d 0x41ed 0"
    by (simp add: encs_append enc_def pad_buf_def zeros_def)
  moreover have "d \<notin> fst ` {e \<in> set es. dir_entry e}" using assms(1,3) by (auto simp: cpio_inv_def)
  ultimately show ?thesis using assms unfolding header_buf[OF l]
    by (auto simp: cpio_inv_def parents_ok_snoc dir_entry_def)
qed

definition parent_closed :: "(string \<Rightarrow> bool) \<Rightarrow> bool" where
  "parent_closed P \<longleftrightarrow> (\<forall>n. P n \<longrightarrow> at_top (path_dir n) \<or> P (path_dir n))"

lemma mkdirAll_inv:
  assumes "parent_closed P"
  shows "cpio_inv w es \<Longrightarrow> at_top d \<or> P d \<Longrightarrow>
    \<exists>new. cpio_inv (mkdirAll d w) (es @ new) \<and> list_all (\<lambda>e. dir_entry e \<and> P (fst e)) new \<and>
      (at_top d \<or> (d, 0x41ed, []) \<in> set (es @ new)) \<and> set (cw_dirs (mkdirAll d w)) \<subseteq> insert d (set (cw_dirs w) \<union> {x. length x < length d}) \<and>
      length new \<le> length d \<and> (\<forall>e \<in> set new. length (fst e) \<le> length d \<and> snd (snd e) = []) \<and> (at_top d \<longrightarrow> new = [])"
proof (induction d w arbitrary: es rule: mkdirAll.induct)
  case (1 d w)
  show ?case
  proof (cases "at_top d \<or> d \<in> set (cw_dirs w)")
    case True
    then have "mkdirAll d w = w" by (subst mkdirAll.simps) (auto simp: at_top_def)
    then show ?thesis using True "1.prems" by (intro exI[of _ "[]"]) (auto simp: cpio_inv_def)
  next
    case False
    define w1 where "w1 = mkdirAll (path_dir d) w"
    have mk: "mkdirAll d w = header d 0x41ed 0 (w1\<lparr>cw_dirs := d # cw_dirs w1\<rparr>)"
      using False by (subst mkdirAll.simps) (auto simp: at_top_def w1_def Let_def)
    have "at_top (path_dir d) \<or> P (path_dir d)" using assms "1.prems"(2) False by (auto simp: parent_closed_def)
    with "1.IH"[OF _ "1.prems"(1)] False obtain new where new: "cpio_inv w1 (es @ new)" "list_all (\<lambda>e. dir_entry e \<and> P (fst e)) new"
      "at_top (path_dir d) \<or> (path_dir d, 0x41ed, []) \<in> set (es @ new)"
      "set (cw_dirs w1) \<subseteq> insert (path_dir d) (set (cw_dirs w) \<union> {x. length x < length (path_dir d)})"
      "length new \<le> length (path_dir d)" "\<forall>e \<in> set new. length (fst e) \<le> length (path_dir d) \<and> snd (snd e) = []"
      unfolding w1_def at_top_def by blast
    show ?thesis
    proof (cases "at_top (path_dir d)")
      case True
      then have w1: "w1 = w" unfolding w1_def by (subst mkdirAll.simps) (auto simp: at_top_def)
      have "has_parent es d" using True by (simp add: has_parent_def)
      then have "cpio_inv (mkdirAll d w) (es @ [(d, 0x41ed, [])])"
        unfolding mk w1 using cpio_inv_dir[OF "1.prems"(1)] False by blast
      moreover have "set (cw_dirs (mkdirAll d w)) = insert d (set (cw_dirs w))"
        unfolding mk w1 by (simp add: header_def Let_def pad4_def cpio_write_def)
      ultimately show ?thesis using "1.prems"(2) False
        by (intro exI[of _ "[(d, 0x41ed, [])]"]) (auto simp: dir_entry_def at_top_def Suc_le_eq)
    next
      case deep: False
      have shorter: "length (path_dir d) < length d" using path_dir_shorter[of d] deep by (auto simp: at_top_def)
      have sub: "set (cw_dirs w1) \<subseteq> set (cw_dirs w) \<union> {x. length x < length d}" using new(4) shorter by auto
      then have "d \<notin> set (cw_dirs w1)" using False by auto
      moreover have "has_parent (es @ new) d" using new(3) by (simp add: has_parent_def)
      ultimately have "cpio_inv (mkdirAll d w) ((es @ new) @ [(d, 0x41ed, [])])"
        unfolding mk using cpio_inv_dir[OF new(1)] by blast
      moreover have "set (cw_dirs (mkdirAll d w)) \<subseteq> insert d (set (cw_dirs w) \<union> {x. length x < length d})"
        using sub unfolding mk by (auto simp: header_def Let_def pad4_def cpio_write_def)
      moreover have "length (new @ [(d, 0x41ed, [])]) \<le> length d" using new(5) shorter by simp
      ultimately show ?thesis using new(2,6) "1.prems"(2) False shorter
        by (intro exI[of _ "new @ [(d, 0x41ed, [])]"]) (auto simp: dir_entry_def)
    qed
  qed
qed

text \<open>A bound on the number of entries and their lengths, from the files alone.\<close>

definition cost :: "cpio_entry list \<Rightarrow> nat" where
  "cost fs = sum_list (map (\<lambda>(n, m, d). length n + length d + 1) fs)"

lemma cost_simps [simp]: "cost [] = 0" "cost (fs @ gs) = cost fs + cost gs" "cost ((n, m, d) # fs) = length n + length d + 1 + cost fs"
  by (simp_all add: cost_def)

definition writes :: "(string \<Rightarrow> bool) \<Rightarrow> cpio_writer \<Rightarrow> cpio_entry list \<Rightarrow> bool" where
  "writes P w fs \<longleftrightarrow> (\<exists>es. cpio_inv w es \<and> filter (Not \<circ> dir_entry) es = fs \<and> length es \<le> cost fs \<and>
     (\<forall>e \<in> set es. P (fst e) \<and> length (fst e) + length (snd (snd e)) < cost fs))"

lemma writes_put:
  assumes "parent_closed P" "writes P w fs" "P n" "m \<noteq> 0x41ed"
  shows "writes P (cpio_put n m b (mkdirAll (path_dir n) w)) (fs @ [(n, m, b)])"
proof -
  from assms(2) obtain es where es: "cpio_inv w es" "filter (Not \<circ> dir_entry) es = fs" "length es \<le> cost fs"
    "\<forall>e \<in> set es. P (fst e) \<and> length (fst e) + length (snd (snd e)) < cost fs"
    by (auto simp: writes_def)
  have "at_top (path_dir n) \<or> P (path_dir n)" using assms(1,3) by (auto simp: parent_closed_def)
  from mkdirAll_inv[OF assms(1) es(1) this] obtain new where
    new: "cpio_inv (mkdirAll (path_dir n) w) (es @ new)" "list_all (\<lambda>e. dir_entry e \<and> P (fst e)) new"
    and par: "has_parent (es @ new) n" and len: "length new \<le> length (path_dir n)" "at_top (path_dir n) \<longrightarrow> new = []"
      "\<forall>e \<in> set new. length (fst e) \<le> length (path_dir n) \<and> snd (snd e) = []"
    by (auto simp: has_parent_def)
  have "at_top (path_dir n) \<or> length (path_dir n) < length n" using path_dir_shorter[of n] by (auto simp: at_top_def)
  then have len': "length new \<le> length n" "\<forall>e \<in> set new. length (fst e) \<le> length n \<and> snd (snd e) = []"
    using len by force+
  have "filter (Not \<circ> dir_entry) new = []" using new(2) by (auto simp: list_all_iff filter_empty_conv)
  then show ?thesis
    using cpio_inv_put[OF new(1) par assms(4), of b] es(2-4) new(2) len' assms(3,4)
    unfolding writes_def
    by (intro exI[of _ "(es @ new) @ [(n, m, b)]"]) (fastforce simp: dir_entry_def list_all_iff)
qed

lemma writes_new: "writes P newCpioWriter []"
  by (auto simp: writes_def cpio_inv_def newCpioWriter_def intro!: exI[of _ "[]"])

lemma newc_read_encs:
  "\<forall>e \<in> set es. fst e \<noteq> ''TRAILER!!!'' \<and> length (fst e) + length (snd (snd e)) + 1 < 2 ^ 32 \<Longrightarrow> i + length es < 2 ^ 32 \<Longrightarrow>
   newc_read (encs i es @ enc (i + length es) (''TRAILER!!!'', 0, []) @ rest) = Some (es, rest)"
proof (induction es arbitrary: i)
  case Nil
  then show ?case by (subst newc_read.simps) (simp add: newc_entry_enc)
next
  case (Cons e es)
  obtain n m d where e: "e = (n, m, d)" by (cases e) auto
  have ent: "newc_entry (enc i e @ r) = Some (e, r)" for r
    unfolding e by (rule newc_entry_enc) (use Cons.prems in \<open>auto simp: e\<close>)
  show ?case
    by (subst newc_read.simps) (use Cons.IH[of "Suc i"] Cons.prems ent in \<open>auto simp: e\<close>)
qed

lemma finish_reads:
  assumes "writes P w fs" "\<not> P ''TRAILER!!!''" "cost fs + 1 < 2 ^ 32"
  shows "\<exists>es z. (\<forall>rest. newc_read (finish w @ rest) = Some (es, zeros z @ rest)) \<and> filter (Not \<circ> dir_entry) es = fs \<and>
    parents_ok [] es \<and> distinct (map fst (filter dir_entry es)) \<and> length (finish w) mod 512 = 0"
proof -
  from assms(1) obtain es where es: "cpio_inv w es" "filter (Not \<circ> dir_entry) es = fs" "length es \<le> cost fs"
    "\<forall>e \<in> set es. P (fst e) \<and> length (fst e) + length (snd (snd e)) < cost fs"
    by (auto simp: writes_def)
  have l: "length (cw_buf w) mod 4 = 0" using es(1) by (simp add: cpio_inv_def)
  have "enc (Suc (length es)) (''TRAILER!!!'', 0, []) = enc_head (Suc (length es)) ''TRAILER!!!'' 0 0"
    by (simp add: enc_def pad_buf_def zeros_def)
  then have buf: "cw_buf (header ''TRAILER!!!'' 0 0 w) = encs 1 es @ enc (1 + length es) (''TRAILER!!!'', 0, [])"
    using es(1) by (simp add: header_buf[OF l] cpio_inv_def)
  define k where "k = (512 - length (cw_buf (header ''TRAILER!!!'' 0 0 w)) mod 512) mod 512"
  have fin: "finish w = (encs 1 es @ enc (1 + length es) (''TRAILER!!!'', 0, [])) @ zeros k"
    unfolding finish_def pad_buf_def k_def by (simp only: buf)
  have "fst e \<noteq> ''TRAILER!!!'' \<and> length (fst e) + length (snd (snd e)) + 1 < 2 ^ 32" if "e \<in> set es" for e
    using es(4) assms(2,3) that by fastforce
  moreover have "1 + length es < 2 ^ 32" using es(3) assms(3) by simp
  ultimately have "newc_read (finish w @ rest) = Some (es, zeros k @ rest)" for rest
    using newc_read_encs[of es 1 "zeros k @ rest"] unfolding fin by simp
  moreover have "length (finish w) mod 512 = 0"
    by (simp add: finish_def length_pad_buf)
  ultimately show ?thesis using es by (auto simp: cpio_inv_def)
qed

section \<open>The entries of the overlay\<close>

definition clean_path :: "string \<Rightarrow> bool" where
  "clean_path n \<longleftrightarrow>
     list_all name_ok (split_on (CHR ''/'') n) \<and> hd (split_on (CHR ''/'') n) \<in> set [''usr'', ''var'', ''sbin'']"

lemma clean_path_join:
  assumes "\<forall>p \<in> set ps. name_ok p" "ps \<noteq> []" "hd ps \<in> set [''usr'', ''var'', ''sbin'']"
  shows "clean_path (join_with ''/'' ps)"
proof -
  have "split_on (CHR ''/'') (join_with ''/'' ps) = ps"
    by (rule split_on_join) (use assms in \<open>auto simp: name_ok_def\<close>)
  then show ?thesis using assms by (simp add: clean_path_def list_all_iff)
qed

lemma path_dir_single: "CHR ''/'' \<notin> set n \<Longrightarrow> path_dir n = ''.''"
proof -
  assume "CHR ''/'' \<notin> set n"
  then have "takeWhile (\<lambda>c. c \<noteq> CHR ''/'') (rev n) = rev n" unfolding takeWhile_eq_all_conv by auto
  then have "path_split n = ([], n)" unfolding path_split_def Let_def by (simp only:) simp
  then show ?thesis by (simp add: path_dir_def path_clean_def)
qed

lemma clean_path_closed: "parent_closed clean_path"
  unfolding parent_closed_def
proof (intro allI impI)
  fix n
  assume n: "clean_path n"
  define ps where "ps = split_on (CHR ''/'') n"
  have ps: "\<forall>p \<in> set ps. name_ok p" "hd ps \<in> set [''usr'', ''var'', ''sbin'']" "n = join_with ''/'' ps" "ps \<noteq> []"
    using n by (simp_all add: clean_path_def list_all_iff ps_def)
  obtain qs b where qs: "ps = qs @ [b]" using ps(4) by (metis rev_exhaust)
  show "at_top (path_dir n) \<or> clean_path (path_dir n)"
  proof (cases "qs = []")
    case True
    then have "CHR ''/'' \<notin> set n" using ps(1) by (simp add: ps(3) qs name_ok_def)
    then show ?thesis by (simp add: path_dir_single at_top_def)
  next
    case False
    then have "path_dir n = join_with ''/'' qs" unfolding ps(3) qs by (intro path_dir_names) (use ps(1) qs in auto)
    then show ?thesis using clean_path_join[of qs] ps(1,2) qs False by simp
  qed
qed

definition script_entries :: "(string \<Rightarrow> bytes option) \<Rightarrow> (string \<times> string list \<times> u32) list \<Rightarrow> cpio_entry list" where
  "script_entries fsys xs =
     concat (map (\<lambda>(src, dsts, mode). case fsys src of None \<Rightarrow> [] | Some b \<Rightarrow> map (\<lambda>d. (d, 0x8000 OR mode, b)) dsts) xs)"

definition link_entries :: "cpio_entry list" where
  "link_entries = map (\<lambda>(n, t). (n, 0xa1ff, bytes_of t)) links"

definition module_entries ::
  "(string \<Rightarrow> 'e + 'e body) \<Rightarrow> (module_comp \<Rightarrow> 'e body \<Rightarrow> 'e + bytes) \<Rightarrow> string \<Rightarrow> (string \<times> node) list \<Rightarrow> cpio_entry list" where
  "module_entries open decode kver xs =
     concat (map (\<lambda>(p, n). if ntype_of n \<noteq> TypeFile \<or> \<not> wanted_module p then []
       else case bindR (open (n_ref (attrs n))) (module_body decode (path_base p)) of
              Inl e \<Rightarrow> [] | Inr body \<Rightarrow> [(module_dst kver p, 0x81a4, body)]) xs)"

lemma writes_file:
  "writes clean_path w fs \<Longrightarrow> clean_path n \<Longrightarrow> 0x8000 OR m \<noteq> 0x41ed \<Longrightarrow>
   writes clean_path (cpio_file n m b w) (fs @ [(n, 0x8000 OR m, b)])"
  unfolding cpio_file_put by (rule writes_put[OF clean_path_closed])

lemma writes_files:
  "writes clean_path w fs \<Longrightarrow> \<forall>d \<in> set dsts. clean_path d \<Longrightarrow> 0x8000 OR m \<noteq> 0x41ed \<Longrightarrow>
   writes clean_path (fold (\<lambda>d. cpio_file d m b) dsts w) (fs @ map (\<lambda>d. (d, 0x8000 OR m, b)) dsts)"
proof (induction dsts arbitrary: w fs)
  case (Cons d dsts)
  from Cons.IH[OF writes_file[OF Cons.prems(1), of d m b]] Cons.prems show ?case by simp
qed simp

lemma writes_links:
  "writes clean_path w fs \<Longrightarrow> \<forall>l \<in> set ls. clean_path (fst l) \<Longrightarrow>
   writes clean_path (fold (\<lambda>(n, t). cpio_symlink n t) ls w) (fs @ map (\<lambda>(n, t). (n, 0xa1ff, bytes_of t)) ls)"
proof (induction ls arbitrary: w fs)
  case (Cons l ls)
  obtain n t where l: "l = (n, t)" by (cases l)
  have "writes clean_path (cpio_symlink n t w) (fs @ [(n, 0xa1ff, bytes_of t)])"
    unfolding cpio_symlink_put by (rule writes_put[OF clean_path_closed]) (use Cons.prems in \<open>auto simp: l\<close>)
  from Cons.IH[OF this] Cons.prems show ?case by (simp add: l)
qed simp

lemma writes_insts:
  "foldR (write_inst fsys) xs w = (Inr w1 :: 'e overlay_error + cpio_writer) \<Longrightarrow> writes clean_path w fs \<Longrightarrow>
   \<forall>(src, dsts, m) \<in> set xs. (\<forall>d \<in> set dsts. clean_path d) \<and> 0x8000 OR m \<noteq> 0x41ed \<Longrightarrow>
   writes clean_path w1 (fs @ script_entries fsys xs)"
proof (induction xs arbitrary: w fs)
  case (Cons x xs)
  obtain src dsts m where x: "x = (src, dsts, m)" by (cases x) auto
  from Cons.prems(1) obtain b where b: "fsys src = Some b"
    and rest: "foldR (write_inst fsys) xs (fold (\<lambda>d. cpio_file d m b) dsts w) = (Inr w1 :: 'e overlay_error + cpio_writer)"
    unfolding foldR.simps bindR_Inr_iff x by (auto simp: write_inst_def[of _ "(src, dsts, m)"] split: option.splits)
  have "writes clean_path (fold (\<lambda>d. cpio_file d m b) dsts w) (fs @ map (\<lambda>d. (d, 0x8000 OR m, b)) dsts)"
    by (rule writes_files) (use Cons.prems in \<open>auto simp: x\<close>)
  from Cons.IH[OF rest this] Cons.prems(3) show ?case by (simp add: x script_entries_def b)
qed (simp add: script_entries_def)

lemma insts_clean: "list_all (\<lambda>(src, dsts, m). list_all clean_path dsts \<and> 0x8000 OR m \<noteq> 0x41ed) insts"
  by code_simp

lemma links_clean: "list_all (\<lambda>l. clean_path (fst l)) links"
  by code_simp

lemma overlayScripts_writes:
  assumes "overlayScripts fsys newCpioWriter = (Inr w :: 'e overlay_error + cpio_writer)"
  shows "writes clean_path w (script_entries fsys insts @ link_entries)"
proof -
  from assms obtain w1 where w1: "foldR (write_inst fsys) insts newCpioWriter = (Inr w1 :: 'e overlay_error + cpio_writer)"
    and w: "w = fold (\<lambda>(n, t). cpio_symlink n t) links w1"
    unfolding overlayScripts_def bindR_Inr_iff by blast
  have "writes clean_path w1 ([] @ script_entries fsys insts)"
    by (rule writes_insts[OF w1 writes_new]) (use insts_clean in \<open>auto simp: list_all_iff\<close>)
  from writes_links[OF this] links_clean show ?thesis by (simp add: w link_entries_def list_all_iff)
qed

lemma trim_suffix_join:
  assumes "CHR ''/'' \<notin> set suf"
  shows "trim_suffix (join_with ''/'' (xs @ [b])) suf = join_with ''/'' (xs @ [trim_suffix b suf])"
proof -
  obtain pre where pre: "\<And>y. join_with ''/'' (xs @ [y]) = pre @ y" "pre = [] \<or> last pre = CHR ''/''"
  proof (cases "xs = []")
    case False
    have "join_with ''/'' (xs @ [y]) = (join_with ''/'' xs @ ''/'') @ y" for y
      using False by (induction xs rule: induct_list012) auto
    then show ?thesis using that[of "join_with ''/'' xs @ ''/''"] by simp
  qed (use that[of "[]"] in simp)
  show ?thesis
  proof (cases "has_suffix b suf")
    case True
    then obtain r where b: "b = r @ suf" by (auto simp: has_suffix_iff)
    have "trim_suffix ((pre @ r) @ suf) suf = pre @ r" by (rule trim_suffix_append)
    then show ?thesis using b by (simp add: pre(1))
  next
    case False
    have "\<not> has_suffix (pre @ b) suf"
    proof
      assume "has_suffix (pre @ b) suf"
      then obtain r where r: "pre @ b = r @ suf" by (auto simp: has_suffix_iff)
      then obtain us where "(pre = r @ us \<and> us @ b = suf) \<or> (pre @ us = r \<and> b = us @ suf)"
        by (auto simp: append_eq_append_conv2)
      then have us: "pre = r @ us" "suf = us @ b" using False by (auto simp: has_suffix_iff)
      then have "us \<noteq> []" using False by (auto simp: has_suffix_def)
      then have "CHR ''/'' \<in> set suf" using pre(2) us by (metis last_appendR last_in_set append_is_Nil_conv in_set_conv_decomp UnI1 set_append)
      then show False using assms by simp
    qed
    then show ?thesis using False by (simp add: pre(1) trim_suffix_def)
  qed
qed


lemma trim_comp_join: "trim_comp (join_with ''/'' (xs @ [b])) = join_with ''/'' (xs @ [trim_comp b])"
  by (simp only: trim_comp_def trim_suffix_join list.set insert_iff empty_iff) (simp add: trim_suffix_join)

lemma wanted_names: "list_all (\<lambda>r. name_ok (r @ ''.ko'')) wanted"
  by code_simp

lemma module_dst_clean:
  assumes "name_ok kver" "\<forall>q \<in> set qs. name_ok q" "qs \<noteq> []" "wanted_module (join_with ''/'' qs)"
  shows "clean_path (module_dst kver (join_with ''/'' qs))"
proof -
  obtain xs b where qs: "qs = xs @ [b]" using assms(3) by (metis rev_exhaust)
  have base: "path_base (join_with ''/'' qs) = b" using path_base_names[OF assms(2,3)] by (simp add: qs)
  obtain r where r: "trim_comp b = r @ ''.ko''" "r \<in> set wanted"
    using assms(4) by (auto simp: wanted_module_def Let_def base has_suffix_iff)
  then have ok: "name_ok (trim_comp b)" using wanted_names by (auto simp: list_all_iff)
  define ns where "ns = [''usr'', ''lib'', ''modules'', kver] @ xs @ [trim_comp b]"
  have "clean_path (join_with ''/'' ns)"
    by (rule clean_path_join) (use assms(1,2) ok in \<open>auto simp: ns_def qs name_ok_def\<close>)
  moreover have "module_dst kver (join_with ''/'' qs) = join_with ''/'' ns"
    unfolding module_dst_def qs trim_comp_join ns_def by (cases xs) simp_all
  ultimately show ?thesis by simp
qed

lemma writes_modules:
  "foldR (overlay_module open decode kver) xs w = (Inr w1 :: 'e overlay_error + cpio_writer) \<Longrightarrow> writes clean_path w fs \<Longrightarrow>
   \<forall>(p, n) \<in> set xs. wanted_module p \<longrightarrow> clean_path (module_dst kver p) \<Longrightarrow>
   writes clean_path w1 (fs @ module_entries open decode kver xs)"
proof (induction xs arbitrary: w fs)
  case (Cons x xs)
  obtain p n where x: "x = (p, n)" by (cases x)
  show ?case
  proof (cases "ntype_of n \<noteq> TypeFile \<or> \<not> wanted_module p")
    case True
    then have "overlay_module open decode kver x w = Inr w" by (simp add: x overlay_module_def)
    then show ?thesis using Cons.IH[of w fs] Cons.prems True by (simp add: x module_entries_def)
  next
    case False
    with Cons.prems(1) obtain body where body: "bindR (open (n_ref (attrs n))) (module_body decode (path_base p)) = Inr body"
      and rest: "foldR (overlay_module open decode kver) xs (cpio_file (module_dst kver p) 0x1a4 body w) =
        (Inr w1 :: 'e overlay_error + cpio_writer)"
      by (auto simp: x overlay_module_def[of _ _ _ "(p, n)"] split: sum.splits if_splits)
    have "writes clean_path (cpio_file (module_dst kver p) 0x1a4 body w) (fs @ [(module_dst kver p, 0x8000 OR 0x1a4, body)])"
      by (rule writes_file[OF Cons.prems(2)]) (use Cons.prems(3) False in \<open>auto simp: x\<close>)
    from Cons.IH[OF rest this] Cons.prems(3) show ?thesis using False by (simp add: x module_entries_def body)
  qed
qed (simp add: module_entries_def)

definition overlay_entries ::
  "(string \<Rightarrow> 'e + 'e body) \<Rightarrow> (module_comp \<Rightarrow> 'e body \<Rightarrow> 'e + bytes) \<Rightarrow> (string \<Rightarrow> bytes option) \<Rightarrow>
   node \<Rightarrow> string \<Rightarrow> cpio_entry list" where
  "overlay_entries open decode fsys root kver =
     script_entries fsys insts @ link_entries @
     (case Lookup root (''usr/lib/modules/'' @ kver) of
        None \<Rightarrow> [] | Some modRoot \<Rightarrow> module_entries open decode kver (walk_seq [] modRoot))"

lemma clean_path_not_trailer: "\<not> clean_path ''TRAILER!!!''"
  by code_simp

text \<open>
  C37. The overlay of an image unpacks to what it should hold. When it is built, the reader of
  the kernel takes from it the scripts at their hook paths, the two links, and each wanted kernel
  module of the tree (regular files only, decoded by their ending, the ending dropped from the name), in
  this order, with these modes and contents and nothing else but directories; every entry comes after
  the directory it lies in, no directory twice; the reader stops exactly behind the
  trailer, so that the initramfs appended after it, at a multiple of 512, is found after zeros only.\<close>

theorem initrd_overlay_unpacks:
  fixes img :: bytes
  assumes "wf_node root" "name_ok kver" "BuildInitrdOverlay open decode fsys root kver = Inr img"
    and "cost (overlay_entries open decode fsys root kver) < 2 ^ 32 - 1"
  shows "\<exists>es z. (\<forall>rest. newc_read (img @ rest) = Some (es, zeros z @ rest)) \<and>
     filter (\<lambda>e. \<not> dir_entry e) es = overlay_entries open decode fsys root kver \<and>
     parents_ok [] es \<and> distinct (map fst (filter dir_entry es)) \<and> length img mod 512 = 0"
proof -
  from assms(3) obtain w modRoot w1 where ov: "overlayScripts fsys newCpioWriter = (Inr w :: 'a overlay_error + cpio_writer)"
    and look: "Lookup root (''usr/lib/modules/'' @ kver) = Some modRoot"
    and mods: "foldR (overlay_module open decode kver) (walk_seq [] modRoot) w = (Inr w1 :: 'a overlay_error + cpio_writer)"
    and img: "img = finish w1"
    unfolding BuildInitrdOverlay_def bindR_Inr_iff Walk_def by (auto split: option.splits simp: bindR_Inr_iff)
  have wf: "wf_node modRoot" using look assms(1) wf_lookup unfolding Lookup_def by blast
  have "clean_path (module_dst kver p)" if pn: "(p, n) \<in> set (walk_seq [] modRoot)" and wm: "wanted_module p" for p n
  proof -
    obtain qs where qs: "qs \<noteq> []" "p = join_with ''/'' qs" "lookup modRoot qs = Some n"
      using walk_seq_mem[OF wf, of "[]" p n] pn by auto
    show ?thesis using module_dst_clean[OF assms(2) lookup_names[OF wf qs(3)] qs(1)] wm qs(2) by simp
  qed
  then have "writes clean_path w1 ((script_entries fsys insts @ link_entries) @ module_entries open decode kver (walk_seq [] modRoot))"
    by (intro writes_modules[OF mods overlayScripts_writes[OF ov]]) blast
  then have "writes clean_path w1 (overlay_entries open decode fsys root kver)"
    unfolding overlay_entries_def look by simp
  from finish_reads[OF this clean_path_not_trailer] assms(4) show ?thesis
    unfolding img by (simp add: comp_def)
qed


lemma foldR_total: "(\<And>x s. \<exists>s'. f x s = Inr s') \<Longrightarrow> \<exists>s'. foldR f xs s = Inr s'"
proof (induction xs arbitrary: s)
  case (Cons x xs)
  obtain s1 where "f x s = Inr s1" using Cons.prems by blast
  then show ?case using Cons.IH[OF Cons.prems, of s1] by simp
qed simp

lemma BuildInitrdOverlay_available:
  fixes opn :: "string \<Rightarrow> 'e + 'e body"
  assumes "\<And>src. fsys src \<noteq> None" "Lookup root (''usr/lib/modules/'' @ kver) = Some modRoot"
    and "\<And>ref. \<exists>b. opn ref = Inr (b, None)" "\<And>c r. \<exists>b. decode c r = Inr b"
  shows "\<exists>img. BuildInitrdOverlay opn decode fsys root kver = Inr img"
proof -
  have "\<exists>w'. write_inst fsys x w = (Inr w' :: 'e overlay_error + cpio_writer)" for x w
    using assms(1) by (cases x) (auto simp: write_inst_def split: option.splits)
  then obtain w where "foldR (write_inst fsys) insts newCpioWriter = (Inr w :: 'e overlay_error + cpio_writer)"
    using foldR_total by metis
  then obtain w1 where ov: "overlayScripts fsys newCpioWriter = (Inr w1 :: 'e overlay_error + cpio_writer)"
    by (simp add: overlayScripts_def)
  have "\<exists>w'. overlay_module opn decode kver x w = Inr w'" for x w
  proof -
    obtain p n where x: "x = (p, n)" by (cases x)
    obtain b where "opn (n_ref (attrs n)) = Inr (b, None)" using assms(3) by blast
    then have "\<exists>b. bindR (opn (n_ref (attrs n))) (module_body decode (path_base p)) = Inr b"
      using assms(4) by (auto simp: module_body_def)
    then show ?thesis by (auto simp: x overlay_module_def split: sum.splits)
  qed
  then obtain w2 where "foldR (overlay_module opn decode kver) (walk_seq [] modRoot) w1 = Inr w2"
    using foldR_total by metis
  then show ?thesis unfolding BuildInitrdOverlay_def ov Walk_def assms(2) by simp
qed

definition demo_dir :: "(string \<times> node) list \<Rightarrow> node" where
  "demo_dir cs = Node blank_attrs cs"

definition demo_modules :: node where
  "demo_modules = demo_dir [(''usr'', demo_dir [(''lib'', demo_dir [(''modules'', demo_dir [(''6.1'', demo_dir
     [(''fs'', demo_dir [(''erofs.ko.xz'', Node (blank_attrs\<lparr>n_type := TypeFile\<rparr>) []),
                       (''xfs.ko'', Node (blank_attrs\<lparr>n_type := TypeFile\<rparr>) [])])])])])])]"

definition demo_open :: "string \<Rightarrow> unit + unit body" where
  "demo_open ref = Inr ([7], None)"

definition demo_decode :: "module_comp \<Rightarrow> unit body \<Rightarrow> unit + bytes" where
  "demo_decode c r = Inr (8 # fst r)"

definition demo_fsys :: "string \<Rightarrow> bytes option" where
  "demo_fsys src = Some [1]"

theorem initrd_overlay_unpacks_witness:
  "\<exists>img es z. BuildInitrdOverlay demo_open demo_decode demo_fsys demo_modules ''6.1'' = Inr img \<and>
     newc_read (img @ [31, 139]) = Some (es, zeros z @ [31, 139]) \<and>
     (''usr/lib/modules/6.1/fs/erofs.ko'', 0x81a4, [8, 7]) \<in> set es \<and> (''sbin/tbox-live-root'', 0x81ed, [1]) \<in> set es"
proof -
  have wf: "wf_node demo_modules" "name_ok ''6.1''" by code_simp+
  have "Lookup demo_modules (''usr/lib/modules/'' @ ''6.1'') \<noteq> None" by code_simp
  then obtain img where img: "BuildInitrdOverlay demo_open demo_decode demo_fsys demo_modules ''6.1'' = Inr img"
    using BuildInitrdOverlay_available[of demo_fsys demo_modules "''6.1''" _ demo_open demo_decode]
    by (auto simp: demo_fsys_def demo_open_def demo_decode_def)
  have "int (cost (overlay_entries demo_open demo_decode demo_fsys demo_modules ''6.1'')) < 4294967295" by code_simp
  then have small: "cost (overlay_entries demo_open demo_decode demo_fsys demo_modules ''6.1'') < 2 ^ 32 - 1" by simp
  have mem: "(''usr/lib/modules/6.1/fs/erofs.ko'', 0x81a4, [8, 7]) \<in> set (overlay_entries demo_open demo_decode demo_fsys demo_modules ''6.1'') \<and>
    (''sbin/tbox-live-root'', 0x81ed, [1]) \<in> set (overlay_entries demo_open demo_decode demo_fsys demo_modules ''6.1'')"
    by code_simp
  obtain es z where es: "\<forall>rest. newc_read (img @ rest) = Some (es, zeros z @ rest)"
    and f: "filter (\<lambda>e. \<not> dir_entry e) es = overlay_entries demo_open demo_decode demo_fsys demo_modules ''6.1''"
    using initrd_overlay_unpacks[OF wf img small] by blast
  have "set (filter (\<lambda>e. \<not> dir_entry e) es) \<subseteq> set es" by simp
  then show ?thesis using img es mem unfolding f by blast
qed

end
