(* ===== verification/Disk_Plan.thy ===== *)
theory Disk_Plan
  imports Prelude
begin

text \<open>
  Planning of a disk image (\<^verbatim>\<open>cmd/tacklebox/build_plan.go\<close>): sizes of the recipe, partition
  layout, estimate of the store, policy of the shared store. Sizes are \<^verbatim>\<open>uint64\<close> and wrap; \<open>text_size\<close>
  is what the text says, against which the wrapping functions are compared.
\<close>

section \<open>Sizes\<close>

definition size_unit :: "string \<Rightarrow> u64 \<times> string" where
  "size_unit s =
     (let c = last s in
      if c = CHR ''K'' \<or> c = CHR ''k'' then (push_bit 10 1, butlast s)
      else if c = CHR ''M'' \<or> c = CHR ''m'' then (push_bit 20 1, butlast s)
      else if c = CHR ''G'' \<or> c = CHR ''g'' then (push_bit 30 1, butlast s)
      else if c = CHR ''T'' \<or> c = CHR ''t'' then (push_bit 40 1, butlast s)
      else (1, s))"

fun parse_digits :: "u64 \<Rightarrow> string \<Rightarrow> u64 option" where
  "parse_digits n [] = Some n"
| "parse_digits n (c # cs) =
     (if \<not> is_digit c then None else parse_digits (n * 10 + word_of_nat (of_char c - 48)) cs)"

definition parseSize :: "string \<Rightarrow> u64 option" where
  "parseSize s =
     (if s = [] then None
      else case size_unit s of (unit, digits) \<Rightarrow>
        (case parse_digits 0 digits of
           None \<Rightarrow> None
         | Some n \<Rightarrow> if n = 0 then None else Some (n * unit)))"

text \<open>The size the text means.\<close>

definition text_size :: "string \<Rightarrow> nat option" where
  "text_size s =
     (if s = [] then None
      else case size_unit s of (unit, digits) \<Rightarrow>
        if list_all is_digit digits \<and> dec_val digits \<noteq> 0 then Some (dec_val digits * unat unit) else None)"

lemma parse_digits_val: "parse_digits n s = (if list_all is_digit s
    then Some (n * 10 ^ length s + word_of_nat (dec_val s)) else None)"
proof (induction n s rule: parse_digits.induct)
  case (2 n c cs)
  have "(word_of_nat (dec_val (c # cs)) :: u64) =
      word_of_nat (of_char c - 48) * 10 ^ length cs + word_of_nat (dec_val cs)"
    by (simp only: dec_val_Cons of_nat_add of_nat_mult of_nat_power of_nat_numeral)
  then show ?case using 2 by (simp add: distrib_right del: of_nat_diff)
qed (simp add: dec_val_def)

lemma size_unit_pos: "0 < unat (fst (size_unit s))"
  by (simp add: size_unit_def Let_def)

lemma parseSize_exact:
  assumes "\<forall>v. text_size s = Some v \<longrightarrow> v < 2 ^ 64"
  shows "parseSize s = map_option word_of_nat (text_size s)"
proof -
  obtain unit digits where u: "size_unit s = (unit, digits)" by (cases "size_unit s")
  have "0 < unat unit" using size_unit_pos[of s] by (simp add: u)
  then have "(word_of_nat (dec_val digits) :: u64) = 0 \<longleftrightarrow> dec_val digits = 0"
    if "s \<noteq> []" "list_all is_digit digits"
  proof (cases "dec_val digits = 0")
    case False
    then have "dec_val digits * unat unit < 2 ^ 64" using assms that by (simp add: text_size_def u)
    moreover have "dec_val digits \<le> dec_val digits * unat unit" using \<open>0 < unat unit\<close> by simp
    ultimately have "dec_val digits < 2 ^ 64" by linarith
    then show ?thesis using False by (auto simp: word_of_nat_eq_0_iff dest: dvd_imp_le)
  qed simp
  then show ?thesis
    by (auto simp: parseSize_def text_size_def u parse_digits_val)
qed


section \<open>The recipe\<close>

record shared_store =
  ss_format :: string
  ss_compression :: string
  ss_compressor :: string
  ss_dedup :: bool
  ss_dedup_layout :: string
  ss_delta_base :: string
  ss_prune_source :: bool

record partition_sizes =
  ps_esp :: string
  ps_store :: string
  ps_persist :: string

record boot_env =
  en_id :: string
  en_image :: string
  en_title :: string
  en_desktop :: string
  en_backend :: string
  en_modes :: "string list"
  en_skip_initramfs :: bool
  en_customize :: "string list"
  en_remora :: string

text \<open>A payload is the pair of its source and its reference.\<close>

record media_recipe =
  rc_name :: string
  rc_size :: string
  rc_store :: shared_store
  rc_parts :: partition_sizes
  rc_default_boot :: string
  rc_envs :: "boot_env list"
  rc_payloads :: "(string \<times> string) list"
  rc_kargs :: "string list"

datatype plan_error =
    BadLayout string | LayoutWithoutDedup | BaseWithoutDelta | UnknownBase string
  | BadSize string | BadPartitionSize string string | TooSmall string | IndexPanic

definition validateDedupLayout :: "media_recipe \<Rightarrow> plan_error option" where
  "validateDedupLayout r =
     (let s = rc_store r in
      if ss_dedup_layout s \<notin> set ['''', ''combined'', ''delta''] then Some (BadLayout (ss_dedup_layout s))
      else if ss_dedup_layout s \<noteq> '''' \<and> \<not> ss_dedup s then Some LayoutWithoutDedup
      else if ss_delta_base s \<noteq> '''' then
        (if ss_dedup_layout s \<noteq> ''delta'' then Some BaseWithoutDelta
         else if list_ex (\<lambda>e. en_id e = ss_delta_base s) (rc_envs r) then None
         else Some (UnknownBase (ss_delta_base s)))
      else None)"

definition deltaBaseEnv :: "media_recipe \<Rightarrow> plan_error + string" where
  "deltaBaseEnv r =
     (if ss_delta_base (rc_store r) \<noteq> '''' then Inr (ss_delta_base (rc_store r))
      else case rc_envs r of [] \<Rightarrow> Inl IndexPanic | e # _ \<Rightarrow> Inr (en_id e))"

definition allComposefs :: "media_recipe \<Rightarrow> bool" where
  "allComposefs r \<longleftrightarrow> rc_envs r \<noteq> [] \<and> list_all (\<lambda>e. en_backend e \<noteq> '''' \<and> en_backend e = ''composefs'') (rc_envs r)"

text \<open>What the delta layout builds on is one of the environments.\<close>

lemma deltaBaseEnv_valid:
  assumes "validateDedupLayout r = None" "rc_envs r \<noteq> []"
  shows "\<exists>e \<in> set (rc_envs r). deltaBaseEnv r = Inr (en_id e)"
proof (cases "ss_delta_base (rc_store r) = ''''")
  case True
  then show ?thesis using assms(2) by (cases "rc_envs r") (auto simp: deltaBaseEnv_def)
next
  case False
  then have "list_ex (\<lambda>e. en_id e = ss_delta_base (rc_store r)) (rc_envs r)"
    using assms(1) by (auto simp: validateDedupLayout_def Let_def split: if_splits)
  then obtain e where "e \<in> set (rc_envs r)" "en_id e = ss_delta_base (rc_store r)" by (auto simp: list_ex_iff)
  then show ?thesis using False by (intro bexI[of _ e]) (simp_all add: deltaBaseEnv_def)
qed

section \<open>The partitions\<close>

record partition =
  pt_number :: nat
  pt_label :: string
  pt_size :: string
  pt_type :: string
  pt_fs :: string

definition espBytes :: u64 where "espBytes = push_bit 30 1"
definition persistBytes :: u64 where "persistBytes = push_bit 30 2"
definition minStoreBytes :: u64 where "minStoreBytes = push_bit 30 3"

definition gib_spec :: "u64 \<Rightarrow> string" where
  "gib_spec b = ''+'' @ nat_dec (unat (drop_bit 30 b)) @ ''G''"

definition resolve_size :: "string \<Rightarrow> string \<Rightarrow> string \<Rightarrow> u64 \<Rightarrow> plan_error + (string \<times> u64)" where
  "resolve_size which field def defBytes =
     (if field = [] then Inr (def, defBytes)
      else case parseSize field of
             None \<Rightarrow> Inl (BadPartitionSize which field)
           | Some b \<Rightarrow> Inr (gib_spec b, b))"

definition store_spec :: "media_recipe \<Rightarrow> u64 \<Rightarrow> u64 \<Rightarrow> u64 \<Rightarrow> plan_error + string" where
  "store_spec r whole esp persist =
     (if ps_store (rc_parts r) \<noteq> [] then map_sum id fst (resolve_size ''store'' (ps_store (rc_parts r)) [] 0)
      else if whole < esp + persist + minStoreBytes then Inl (TooSmall (rc_size r))
      else Inr (gib_spec (whole - esp - persist)))"

definition computePartitions :: "media_recipe \<Rightarrow> plan_error + partition list" where
  "computePartitions r =
     (case parseSize (rc_size r) of
        None \<Rightarrow> Inl (BadSize (rc_size r))
      | Some whole \<Rightarrow>
          bindR (resolve_size ''esp'' (ps_esp (rc_parts r)) ''+1G'' espBytes) (\<lambda>(espSpec, esp).
          bindR (resolve_size ''persist'' (ps_persist (rc_parts r)) [] persistBytes) (\<lambda>(persistSpec, persist).
          bindR (store_spec r whole esp persist) (\<lambda>storeSpec.
            Inr [\<lparr>pt_number = 1, pt_label = ''TBOX_ESP'', pt_size = espSpec, pt_type = ''ef00'', pt_fs = ''vfat''\<rparr>,
                 \<lparr>pt_number = 2, pt_label = ''TBOX_STORE'', pt_size = storeSpec, pt_type = ''8300'', pt_fs = ss_format (rc_store r)\<rparr>,
                 \<lparr>pt_number = 3, pt_label = ''TBOX_PERSIST'',
                  pt_size = (if ps_persist (rc_parts r) = [] then ''0'' else persistSpec),
                  pt_type = ''8300'', pt_fs = ''ext4''\<rparr>]))))"

definition ostreeEnvBytes :: u64 where "ostreeEnvBytes = push_bit 30 10"
definition composefsEnvBytes :: u64 where "composefsEnvBytes = push_bit 30 5"

definition size_or :: "string \<Rightarrow> u64 \<Rightarrow> u64" where
  "size_or field def = (if field = [] then def else case parseSize field of None \<Rightarrow> def | Some b \<Rightarrow> b)"

definition needed_bytes :: "boot_env list \<Rightarrow> u64" where
  "needed_bytes es = foldl (\<lambda>n e. n + (if en_backend e = ''composefs'' then composefsEnvBytes else ostreeEnvBytes)) 0 es"

definition estimateStoreUsage :: "media_recipe \<Rightarrow> (u64 \<times> u64) option" where
  "estimateStoreUsage r =
     (case parseSize (rc_size r) of
        None \<Rightarrow> None
      | Some whole \<Rightarrow>
          let esp = size_or (ps_esp (rc_parts r)) espBytes in
          if ps_store (rc_parts r) \<noteq> [] then Some (needed_bytes (rc_envs r), size_or (ps_store (rc_parts r)) 0)
          else let persist = size_or (ps_persist (rc_parts r)) persistBytes in
            if whole \<le> esp + persist then None
            else Some (needed_bytes (rc_envs r), whole - esp - persist))"


section \<open>The plan in natural numbers\<close>

definition GiB :: nat where "GiB = 2 ^ 30"

definition gib_text :: "nat \<Rightarrow> string" where
  "gib_text n = ''+'' @ nat_dec (n div GiB) @ ''G''"

definition size_default :: "string \<Rightarrow> nat \<Rightarrow> nat option" where
  "size_default field def = (if field = [] then Some def else text_size field)"

text \<open>Bytes of the whole medium, the ESP, the store and the persistent partition.\<close>

definition disk_plan :: "media_recipe \<Rightarrow> (nat \<times> nat \<times> nat \<times> nat) option" where
  "disk_plan r =
     (case (text_size (rc_size r), size_default (ps_esp (rc_parts r)) GiB, size_default (ps_persist (rc_parts r)) (2 * GiB)) of
        (Some whole, Some esp, Some persist) \<Rightarrow>
          if ps_store (rc_parts r) \<noteq> [] then map_option (\<lambda>store. (whole, esp, store, persist)) (text_size (ps_store (rc_parts r)))
          else if whole < esp + persist + 3 * GiB then None
          else Some (whole, esp, whole - esp - persist, persist)
      | _ \<Rightarrow> None)"

definition sizes_fit :: "media_recipe \<Rightarrow> bool" where
  "sizes_fit r \<longleftrightarrow> list_all (\<lambda>s. case text_size s of None \<Rightarrow> True | Some v \<Rightarrow> v < 2 ^ 62)
     [rc_size r, ps_esp (rc_parts r), ps_store (rc_parts r), ps_persist (rc_parts r)]"

lemma nat_lt_trans62: "v < 2 ^ 62 \<Longrightarrow> v < (2 :: nat) ^ 64"
  by (erule less_trans) simp

lemma parse_fit:
  "case text_size s of None \<Rightarrow> True | Some v \<Rightarrow> v < 2 ^ 62 \<Longrightarrow> parseSize s = map_option word_of_nat (text_size s)"
  by (rule parseSize_exact) (auto intro: nat_lt_trans62)

lemma gib_spec_nat: "n < 2 ^ 64 \<Longrightarrow> gib_spec (word_of_nat n) = gib_text n"
  by (simp add: gib_spec_def gib_text_def GiB_def unat_drop_bit_eq unat_of_nat take_bit_nat_eq_self) (simp add: drop_bit_eq_div)

lemma word_add3: "a < 2 ^ 62 \<Longrightarrow> b < 2 ^ 62 \<Longrightarrow> c < 2 ^ 62 \<Longrightarrow> n < 2 ^ 62 \<Longrightarrow>
    ((word_of_nat n :: u64) < word_of_nat a + word_of_nat b + word_of_nat c) = (n < a + b + c)"
  by (simp add: word_of_nat_less_iff take_bit_nat_eq_self flip: of_nat_add)

lemma resolve_size_nat:
  assumes "case text_size field of None \<Rightarrow> True | Some v \<Rightarrow> v < 2 ^ 62"
  shows "resolve_size which field def (word_of_nat d) =
    (case size_default field d of None \<Rightarrow> Inl (BadPartitionSize which field)
          | Some b \<Rightarrow> Inr (if field = [] then def else gib_text b, word_of_nat b))"
  using assms by (auto simp: resolve_size_def size_default_def parse_fit gib_spec_nat split: option.splits)

lemma size_or_nat:
  assumes "case text_size field of None \<Rightarrow> True | Some v \<Rightarrow> v < 2 ^ 62" "size_default field d = Some v"
  shows "size_or field (word_of_nat d) = word_of_nat v"
  using assms by (auto simp: size_or_def size_default_def parse_fit split: option.splits if_splits)

lemma size_default_fit:
  assumes "case text_size field of None \<Rightarrow> True | Some v \<Rightarrow> v < 2 ^ 62" "size_default field d = Some v" "d < 2 ^ 62"
  shows "v < 2 ^ 62"
  using assms by (auto simp: size_default_def split: if_splits)

lemma size_constants:
  "espBytes = word_of_nat GiB" "persistBytes = word_of_nat (2 * GiB)" "minStoreBytes = word_of_nat (3 * GiB)"
  by (simp_all add: espBytes_def persistBytes_def minStoreBytes_def GiB_def)

definition plan_parts :: "media_recipe \<Rightarrow> nat \<Rightarrow> nat \<Rightarrow> nat \<Rightarrow> partition list" where
  "plan_parts r esp store persist =
     [\<lparr>pt_number = 1, pt_label = ''TBOX_ESP'', pt_size = gib_text esp, pt_type = ''ef00'', pt_fs = ''vfat''\<rparr>,
      \<lparr>pt_number = 2, pt_label = ''TBOX_STORE'', pt_size = gib_text store, pt_type = ''8300'', pt_fs = ss_format (rc_store r)\<rparr>,
      \<lparr>pt_number = 3, pt_label = ''TBOX_PERSIST'',
       pt_size = (if ps_persist (rc_parts r) = [] then ''0'' else gib_text persist), pt_type = ''8300'', pt_fs = ''ext4''\<rparr>]"

lemma sizes_fitD:
  assumes "sizes_fit r"
  shows "parseSize (rc_size r) = map_option word_of_nat (text_size (rc_size r))"
    and "parseSize (ps_store (rc_parts r)) = map_option word_of_nat (text_size (ps_store (rc_parts r)))"
    and "resolve_size ''esp'' (ps_esp (rc_parts r)) def espBytes =
      (case size_default (ps_esp (rc_parts r)) GiB of None \<Rightarrow> Inl (BadPartitionSize ''esp'' (ps_esp (rc_parts r)))
          | Some b \<Rightarrow> Inr (if ps_esp (rc_parts r) = [] then def else gib_text b, word_of_nat b))"
    and "resolve_size ''persist'' (ps_persist (rc_parts r)) def persistBytes =
      (case size_default (ps_persist (rc_parts r)) (2 * GiB) of None \<Rightarrow> Inl (BadPartitionSize ''persist'' (ps_persist (rc_parts r)))
          | Some b \<Rightarrow> Inr (if ps_persist (rc_parts r) = [] then def else gib_text b, word_of_nat b))"
    and "text_size (rc_size r) = Some whole \<Longrightarrow> whole < 2 ^ 62"
    and "text_size (ps_store (rc_parts r)) = Some store \<Longrightarrow> store < 2 ^ 62"
    and "size_default (ps_esp (rc_parts r)) GiB = Some e \<Longrightarrow> e < 2 ^ 62 \<and> size_or (ps_esp (rc_parts r)) espBytes = word_of_nat e"
    and "size_default (ps_persist (rc_parts r)) (2 * GiB) = Some p \<Longrightarrow>
      p < 2 ^ 62 \<and> size_or (ps_persist (rc_parts r)) persistBytes = word_of_nat p"
proof -
  have F: "case text_size s of None \<Rightarrow> True | Some v \<Rightarrow> v < 2 ^ 62"
    if "s \<in> {rc_size r, ps_esp (rc_parts r), ps_store (rc_parts r), ps_persist (rc_parts r)}" for s
    using assms that by (auto simp: sizes_fit_def)
  have small: "GiB < 2 ^ 62" "2 * GiB < 2 ^ 62" by (simp_all add: GiB_def)
  show "parseSize (rc_size r) = map_option word_of_nat (text_size (rc_size r))"
    and "parseSize (ps_store (rc_parts r)) = map_option word_of_nat (text_size (ps_store (rc_parts r)))"
    by (rule parse_fit, rule F, simp)+
  show "resolve_size ''esp'' (ps_esp (rc_parts r)) def espBytes =
      (case size_default (ps_esp (rc_parts r)) GiB of None \<Rightarrow> Inl (BadPartitionSize ''esp'' (ps_esp (rc_parts r)))
          | Some b \<Rightarrow> Inr (if ps_esp (rc_parts r) = [] then def else gib_text b, word_of_nat b))"
    unfolding size_constants by (rule resolve_size_nat, rule F, simp)
  show "resolve_size ''persist'' (ps_persist (rc_parts r)) def persistBytes =
      (case size_default (ps_persist (rc_parts r)) (2 * GiB) of None \<Rightarrow> Inl (BadPartitionSize ''persist'' (ps_persist (rc_parts r)))
          | Some b \<Rightarrow> Inr (if ps_persist (rc_parts r) = [] then def else gib_text b, word_of_nat b))"
    unfolding size_constants by (rule resolve_size_nat, rule F, simp)
  show "text_size (rc_size r) = Some whole \<Longrightarrow> whole < 2 ^ 62"
    and "text_size (ps_store (rc_parts r)) = Some store \<Longrightarrow> store < 2 ^ 62"
    using F[of "rc_size r"] F[of "ps_store (rc_parts r)"] by simp_all
  have fe: "case text_size (ps_esp (rc_parts r)) of None \<Rightarrow> True | Some v \<Rightarrow> v < 2 ^ 62" by (rule F) simp
  have fp: "case text_size (ps_persist (rc_parts r)) of None \<Rightarrow> True | Some v \<Rightarrow> v < 2 ^ 62" by (rule F) simp
  show "e < 2 ^ 62 \<and> size_or (ps_esp (rc_parts r)) espBytes = word_of_nat e"
    if "size_default (ps_esp (rc_parts r)) GiB = Some e"
    using size_default_fit[OF fe that small(1)] size_or_nat[OF fe that] by (simp only: size_constants)
  show "p < 2 ^ 62 \<and> size_or (ps_persist (rc_parts r)) persistBytes = word_of_nat p"
    if "size_default (ps_persist (rc_parts r)) (2 * GiB) = Some p"
    using size_default_fit[OF fp that small(2)] size_or_nat[OF fp that] by (simp only: size_constants)
qed

text \<open>The word arithmetic of the store, when nothing overflows.\<close>

lemma store_spec_rest:
  assumes "ps_store (rc_parts r) = []" "whole < 2 ^ 62" "e < 2 ^ 62" "p < 2 ^ 62"
  shows "store_spec r (word_of_nat whole) (word_of_nat e) (word_of_nat p) =
    (if whole < e + p + 3 * GiB then Inl (TooSmall (rc_size r)) else Inr (gib_text (whole - e - p)))"
proof -
  have "3 * GiB < 2 ^ 62" by (simp add: GiB_def)
  then have "((word_of_nat whole :: u64) < word_of_nat e + word_of_nat p + minStoreBytes) = (whole < e + p + 3 * GiB)"
    unfolding size_constants using word_add3[OF assms(3,4) _ assms(2)] by blast
  moreover have "gib_spec ((word_of_nat whole :: u64) - word_of_nat e - word_of_nat p) = gib_text (whole - e - p)"
    if "\<not> whole < e + p + 3 * GiB"
  proof -
    have "(word_of_nat whole :: u64) - word_of_nat e - word_of_nat p = word_of_nat (whole - e - p)"
      using that by (simp add: of_nat_diff)
    moreover have "whole - e - p < 2 ^ 64" using assms(2) by (simp add: less_imp_diff_less)
    ultimately show ?thesis by (simp only: gib_spec_nat)
  qed
  ultimately show ?thesis using assms(1) by (simp add: store_spec_def)
qed

lemma estimate_rest:
  assumes "sizes_fit r" "ps_store (rc_parts r) = []" "text_size (rc_size r) = Some whole"
    and "size_default (ps_esp (rc_parts r)) GiB = Some e" "size_default (ps_persist (rc_parts r)) (2 * GiB) = Some p"
    and "e + p + 3 * GiB \<le> whole"
  shows "estimateStoreUsage r = Some (needed_bytes (rc_envs r), word_of_nat (whole - e - p))"
proof -
  have lt: "whole < 2 ^ 62" "e < 2 ^ 62" "p < 2 ^ 62" using sizes_fitD[OF assms(1)] assms(3-5) by blast+
  have "0 < GiB" by (simp add: GiB_def)
  then have "\<not> (word_of_nat whole :: u64) \<le> word_of_nat e + word_of_nat p"
    using assms(6) lt by (simp add: not_le word_of_nat_less_iff take_bit_nat_eq_self flip: of_nat_add)
  moreover have "(word_of_nat whole :: u64) - word_of_nat e - word_of_nat p = word_of_nat (whole - e - p)"
    using assms(6) by (simp add: of_nat_diff)
  ultimately show ?thesis
    using assms(2) sizes_fitD(1,7,8)[OF assms(1)] assms(3-5) by (simp add: estimateStoreUsage_def Let_def)
qed

lemma plan_parts_fit:
  assumes "ps_store (rc_parts r) = []" "disk_plan r = Some (whole, e, store, p)"
  shows "3 * GiB \<le> store \<and> e div GiB * GiB + store div GiB * GiB + p \<le> whole"
proof -
  have s: "store = whole - e - p" "e + p + 3 * GiB \<le> whole"
    using assms by (auto simp: disk_plan_def split: option.splits if_splits)
  have "e div GiB * GiB + store div GiB * GiB + p \<le> e + store + p"
    by (intro add_mono div_times_less_eq_dividend order_refl)
  then show ?thesis using s by simp
qed

lemma esp_default_text:
  assumes "size_default (ps_esp (rc_parts r)) GiB = Some e"
  shows "(if ps_esp (rc_parts r) = [] then ''+1G'' else gib_text e) = gib_text e"
proof -
  have "nat_dec 1 = ''1''" by code_simp
  then show ?thesis using assms by (auto simp: size_default_def gib_text_def GiB_def split: if_splits)
qed



section \<open>Examples\<close>

definition demo_recipe :: media_recipe where
  "demo_recipe = \<lparr>rc_name = ''demo'', rc_size = ''32G'',
     rc_store = \<lparr>ss_format = ''ext4'', ss_compression = '''', ss_compressor = '''', ss_dedup = False, ss_dedup_layout = '''',
       ss_delta_base = '''', ss_prune_source = False\<rparr>,
     rc_parts = \<lparr>ps_esp = '''', ps_store = '''', ps_persist = ''2G''\<rparr>, rc_default_boot = '''',
     rc_envs = [\<lparr>en_id = ''kde'', en_image = ''quay.io/x'', en_title = '''', en_desktop = ''kde'', en_backend = ''composefs'',
       en_modes = [''live''], en_skip_initramfs = False, en_customize = [], en_remora = ''''\<rparr>],
     rc_payloads = [], rc_kargs = []\<rparr>"

lemma demo_sizes: "text_size ''32G'' = Some (32 * GiB)" "text_size ''2G'' = Some (2 * GiB)" "text_size ''512M'' = Some (2 ^ 29)"
  "text_size '''' = None"
  by (simp_all add: text_size_def size_unit_def is_digit_def dec_val_def GiB_def)

lemma demo_plan: "disk_plan demo_recipe = Some (32 * GiB, GiB, 29 * GiB, 2 * GiB)"
  by (simp add: disk_plan_def demo_recipe_def demo_sizes size_default_def)


text \<open>
  Three limits of the code. A size beyond \<open>2 ^ 64\<close> bytes wraps to a small one and is accepted. An override
  that is not a whole number of GiB is cut down, so 512M asks for a partition of +0G. With an override of
  the persistent partition the three sizes add up to the whole medium, and nothing is left for the
  partition tables.\<close>

lemma size_wraps: "parseSize ''17179869185G'' = Some 1073741824"
  by (simp add: parseSize_def size_unit_def is_digit_def)

lemma half_gib_lost: "resolve_size ''esp'' ''512M'' [] 0 = Inr (''+0G'', 536870912)"
proof -
  have "nat_dec 0 = ''0''" by code_simp
  then show ?thesis by (simp add: resolve_size_def parseSize_def size_unit_def is_digit_def gib_spec_def)
qed

lemma no_room_for_tables:
  "\<exists>whole e st p. disk_plan demo_recipe = Some (whole, e, st, p) \<and> ps_persist (rc_parts demo_recipe) \<noteq> [] \<and>
     e div GiB * GiB + st div GiB * GiB + p div GiB * GiB = whole"
  by (simp add: demo_plan) (simp add: demo_recipe_def GiB_def)

end
