(* ===== verification/Disk_Target.thy ===== *)
theory Disk_Target
  imports Disk_Plan
begin

text \<open>
  Writing a disk (\<^verbatim>\<open>internal/blockdev/format.go\<close>, \<^verbatim>\<open>internal/target/block.go\<close>,
  \<^verbatim>\<open>SetupBootloader\<close> of \<^verbatim>\<open>internal/install/bootloader.go\<close>): the commands a block target runs and the
  stack that undoes them. The host is the parameter \<open>sys\<close>: what a command answers (success and
  output), which may depend on everything run before. The log records every command with
  its answer; \<open>held\<close> reads off it which loop devices and mounts the host still has.
\<close>

section \<open>Commands\<close>

text \<open>A command, with its standard input where it has one.\<close>

type_synonym command = "string list \<times> string"
type_synonym host_log = "(command \<times> bool \<times> string) list"
type_synonym host = "host_log \<Rightarrow> command \<Rightarrow> bool \<times> string"

datatype disk_error =
    CommandFailed "string list" | UnsupportedFs string | NoBootctl | UnmountErrors "string list"

type_synonym 'a act = "host_log \<Rightarrow> (disk_error + 'a) \<times> host_log"

definition exec :: "host \<Rightarrow> command \<Rightarrow> host_log \<Rightarrow> (bool \<times> string) \<times> host_log" where
  "exec sys c log = (sys log c, log @ [(c, sys log c)])"

definition run_in :: "host \<Rightarrow> string \<Rightarrow> string list \<Rightarrow> unit act" where
  "run_in sys stdin args log =
     (case exec sys (args, stdin) log of (r, log1) \<Rightarrow> (if fst r then Inr () else Inl (CommandFailed args), log1))"

abbreviation run :: "host \<Rightarrow> string list \<Rightarrow> unit act" where
  "run sys args \<equiv> run_in sys [] args"

definition run_output :: "host \<Rightarrow> string list \<Rightarrow> string act" where
  "run_output sys args log =
     (case exec sys (args, []) log of (r, log1) \<Rightarrow> (if fst r then Inr (snd r) else Inl (CommandFailed args), log1))"

text \<open>A command whose failure is ignored.\<close>

definition run_try :: "host \<Rightarrow> string list \<Rightarrow> unit act" where
  "run_try sys args log = (Inr (), snd (exec sys (args, []) log))"

definition act_return :: "'a \<Rightarrow> 'a act" where
  "act_return x log = (Inr x, log)"

definition act_bind :: "'a act \<Rightarrow> ('a \<Rightarrow> 'b act) \<Rightarrow> 'b act" where
  "act_bind f g log = (case f log of (Inl e, log1) \<Rightarrow> (Inl e, log1) | (Inr x, log1) \<Rightarrow> g x log1)"

abbreviation act_seq :: "unit act \<Rightarrow> 'b act \<Rightarrow> 'b act" where
  "act_seq f g \<equiv> act_bind f (\<lambda>_. g)"

fun act_all :: "('a \<Rightarrow> unit act) \<Rightarrow> 'a list \<Rightarrow> unit act" where
  "act_all f [] = act_return ()"
| "act_all f (x # xs) = act_seq (f x) (act_all f xs)"

section \<open>Partitioning and formatting\<close>

definition PartitionPath :: "string \<Rightarrow> nat \<Rightarrow> string" where
  "PartitionPath device n =
     (let b = trim_right_by (\<lambda>c. c = CHR ''/'') device in
      if b \<noteq> [] \<and> is_digit (last b) then b @ ''p'' @ nat_dec n else b @ nat_dec n)"

definition rereadTableMsg :: string where
  "rereadTableMsg = ''could not be re-read''"

definition sgdiskTolerant :: "host \<Rightarrow> string list \<Rightarrow> unit act" where
  "sgdiskTolerant sys args log =
     (case exec sys (''sgdisk'' # args, []) log of (r, log1) \<Rightarrow>
        (if fst r \<or> contains (snd r) rereadTableMsg then Inr () else Inl (CommandFailed (''sgdisk'' # args)), log1))"

definition new_partition :: "string \<Rightarrow> partition \<Rightarrow> string list" where
  "new_partition device p =
     (let n = nat_dec (pt_number p) in
      [''--new='' @ n @ '':0:'' @ pt_size p, ''--change-name='' @ n @ '':'' @ pt_label p,
       ''--typecode='' @ n @ '':'' @ pt_type p, device])"

definition FormatDisk :: "host \<Rightarrow> string \<Rightarrow> partition list \<Rightarrow> unit act" where
  "FormatDisk sys device parts =
     act_seq (sgdiskTolerant sys [''--zap-all'', device])
       (act_seq (act_all (\<lambda>p. sgdiskTolerant sys (new_partition device p)) parts)
         (act_seq (run_try sys [''udevadm'', ''settle''])
           (act_seq (run_try sys [''partprobe'', device]) (run_try sys [''udevadm'', ''settle'']))))"

definition mkfs_command :: "string \<Rightarrow> partition \<Rightarrow> string list option" where
  "mkfs_command device p =
     (let dev = PartitionPath device (pt_number p) in
      if pt_fs p = ''vfat'' then Some [''mkfs.vfat'', ''-I'', ''-n'', pt_label p, dev]
      else if pt_fs p = ''btrfs'' then Some [''mkfs.btrfs'', ''-f'', ''-L'', pt_label p, dev]
      else if pt_fs p = ''ext4'' then Some [''mkfs.ext4'', ''-F'', ''-i'', ''4096'', ''-L'', pt_label p, dev]
      else None)"

definition make_fs :: "host \<Rightarrow> string \<Rightarrow> partition \<Rightarrow> unit act" where
  "make_fs sys device p log =
     (case mkfs_command device p of
        None \<Rightarrow> (Inl (UnsupportedFs (pt_fs p)), log)
      | Some args \<Rightarrow> run sys args log)"

definition CreateFilesystems :: "host \<Rightarrow> string \<Rightarrow> partition list \<Rightarrow> unit act" where
  "CreateFilesystems sys device parts = act_all (make_fs sys device) parts"

section \<open>Mounts in the way\<close>

text \<open>The lines of \<^verbatim>\<open>/proc/mounts\<close>; \<open>None\<close> when it cannot be read or a line is too long for the scanner.\<close>

definition readMounts :: "string option \<Rightarrow> (string \<times> string) list option" where
  "readMounts file =
     (case file of
        None \<Rightarrow> None
      | Some s \<Rightarrow>
          let ls = split_on (CHR 0x0A) s in
          if list_ex (\<lambda>l. 65536 \<le> int (length l)) ls then None
          else Some (concat (map (\<lambda>l. case Prelude.fields l of src # tgt # _ \<Rightarrow> [(src, tgt)] | _ \<Rightarrow> []) ls)))"

definition mounts_under :: "string \<Rightarrow> (string \<times> string) list \<Rightarrow> string list" where
  "mounts_under device ms = map snd (filter (\<lambda>m. fst m = device \<or> has_prefix (fst m) device) ms)"

fun unmount_each :: "host \<Rightarrow> string list \<Rightarrow> string list \<Rightarrow> string list act" where
  "unmount_each sys [] errs log = (Inr errs, log)"
| "unmount_each sys (t # ts) errs log =
     (case run sys [''sudo'', ''umount'', ''-l'', t] log of
        (Inl _, log1) \<Rightarrow> unmount_each sys ts (errs @ [t]) log1
      | (Inr _, log1) \<Rightarrow> unmount_each sys ts errs log1)"

definition UnmountDevice :: "host \<Rightarrow> string option \<Rightarrow> string \<Rightarrow> unit act" where
  "UnmountDevice sys mountsFile device log =
     (if \<not> has_prefix device ''/dev/'' then (Inr (), log)
      else case readMounts mountsFile of
        None \<Rightarrow> (Inr (), log)
      | Some ms \<Rightarrow>
          let targets = mounts_under device ms in
          if targets = [] then (Inr (), log)
          else act_bind (unmount_each sys targets []) (\<lambda>errs.
                 if errs \<noteq> [] then (\<lambda>log1. (Inl (UnmountErrors errs), log1))
                 else run_try sys [''udevadm'', ''settle'', ''--timeout=5'']) log)"

section \<open>The boot loader\<close>

definition loaderConf :: string where
  "loaderConf = ''timeout 5'' @ [CHR 0x0A] @ ''default *'' @ [CHR 0x0A] @ ''console-mode max'' @ [CHR 0x0A] @ ''editor no'' @ [CHR 0x0A]"

definition SetupBootloader :: "host \<Rightarrow> string option \<Rightarrow> string \<Rightarrow> unit act" where
  "SetupBootloader sys bootctlPath espMount log =
     (case bootctlPath of
        None \<Rightarrow> (Inl NoBootctl, log)
      | Some bootctl \<Rightarrow>
          act_seq (run sys [''sudo'', bootctl, ''install'', ''--esp-path'', espMount, ''--no-variables''])
            (let p = path_join [espMount, ''loader'', ''loader.conf''] in
             act_seq (run sys [''sudo'', ''mkdir'', ''-p'', path_dir p]) (run_in sys loaderConf [''sudo'', ''tee'', p])) log)"


section \<open>The block target\<close>

datatype undo = DetachLoop string | Unmount string

record block_target =
  bt_device :: string
  bt_base :: string
  bt_parts :: "partition list"
  bt_size :: string
  bt_image :: string
  bt_target :: string
  bt_cleanups :: "undo list"
  bt_disarmed :: bool

type_synonym 'a bt_act = "block_target \<times> host_log \<Rightarrow> (disk_error + 'a) \<times> block_target \<times> host_log"

definition NewBlockTarget :: "string \<Rightarrow> string \<Rightarrow> string \<Rightarrow> partition list \<Rightarrow> block_target" where
  "NewBlockTarget base device sizeSpec parts =
     \<lparr>bt_device = device, bt_base = base, bt_parts = parts, bt_size = sizeSpec, bt_image = [], bt_target = [],
      bt_cleanups = [], bt_disarmed = False\<rparr>"

definition addCleanup :: "undo \<Rightarrow> block_target \<Rightarrow> block_target" where
  "addCleanup u b = b\<lparr>bt_cleanups := bt_cleanups b @ [u]\<rparr>"

definition lift_act :: "'a act \<Rightarrow> 'a bt_act" where
  "lift_act f s = (case f (snd s) of (r, log1) \<Rightarrow> (r, fst s, log1))"

definition bt_bind :: "'a bt_act \<Rightarrow> ('a \<Rightarrow> 'b bt_act) \<Rightarrow> 'b bt_act" where
  "bt_bind f g s = (case f s of (Inl e, s1) \<Rightarrow> (Inl e, s1) | (Inr x, s1) \<Rightarrow> g x s1)"

abbreviation bt_seq :: "unit bt_act \<Rightarrow> 'b bt_act \<Rightarrow> 'b bt_act" where
  "bt_seq f g \<equiv> bt_bind f (\<lambda>_. g)"

definition bt_update :: "(block_target \<Rightarrow> block_target) \<Rightarrow> unit bt_act" where
  "bt_update f s = (Inr (), f (fst s), snd s)"

text \<open>The device to write: a loop device over a new image, or the given one with its mounts removed.\<close>

definition attach_image :: "host \<Rightarrow> string \<Rightarrow> string \<Rightarrow> unit bt_act" where
  "attach_image sys sz img =
     bt_seq (lift_act (run sys [''truncate'', ''-s'', sz, img]))
       (bt_bind (lift_act (run_output sys [''sudo'', ''losetup'', ''--find'', ''--show'', ''--partscan'', img])) (\<lambda>out.
          bt_update (\<lambda>b. addCleanup (DetachLoop (trim_space out)) (b\<lparr>bt_target := trim_space out\<rparr>))))"

definition open_device :: "host \<Rightarrow> string option \<Rightarrow> unit bt_act" where
  "open_device sys mountsFile s =
     (let b = fst s in
      if bt_device b = [] then
        (let img = path_join [bt_base b, ''tacklebox.img''] in
         attach_image sys (bt_size b) img (b\<lparr>bt_image := img\<rparr>, snd s))
      else (Inr (), b\<lparr>bt_target := bt_device b\<rparr>, snd (UnmountDevice sys mountsFile (bt_device b) (snd s))))"

text \<open>\<^verbatim>\<open>sudo mount\<close> and, when it succeeded, its undoing.\<close>

definition mount_partition :: "host \<Rightarrow> string \<Rightarrow> string \<Rightarrow> unit bt_act" where
  "mount_partition sys dev dir =
     bt_seq (lift_act (run sys [''sudo'', ''mount'', dev, dir])) (bt_update (addCleanup (Unmount dir)))"

definition esp_dir :: "block_target \<Rightarrow> string" where
  "esp_dir b = path_join [bt_base b, ''mount-esp'']"

definition store_dir :: "block_target \<Rightarrow> string" where
  "store_dir b = path_join [bt_base b, ''mount-store'']"

definition write_device :: "host \<Rightarrow> string option \<Rightarrow> (string \<times> string) bt_act" where
  "write_device sys bootctlPath s =
     (let b = fst s; dev = bt_target b in
      bt_seq (lift_act (FormatDisk sys dev (bt_parts b)))
        (bt_seq (lift_act (CreateFilesystems sys dev (bt_parts b)))
          (bt_seq (lift_act (run_try sys [''udevadm'', ''settle'', ''--timeout=10'']))
            (bt_seq (mount_partition sys (PartitionPath dev 1) (esp_dir b))
              (bt_seq (mount_partition sys (PartitionPath dev 2) (store_dir b))
                (bt_seq (lift_act (SetupBootloader sys bootctlPath (esp_dir b)))
                  (\<lambda>s1. (Inr (esp_dir b, store_dir b), s1))))))) s)"

definition block_Prepare :: "host \<Rightarrow> string option \<Rightarrow> string option \<Rightarrow> (string \<times> string) bt_act" where
  "block_Prepare sys mountsFile bootctlPath = bt_seq (open_device sys mountsFile) (write_device sys bootctlPath)"

fun undo_command :: "undo \<Rightarrow> string list" where
  "undo_command (DetachLoop d) = [''sudo'', ''losetup'', ''-d'', d]"
| "undo_command (Unmount m) = [''sudo'', ''umount'', m]"

definition block_Cleanup :: "host \<Rightarrow> block_target \<times> host_log \<Rightarrow> block_target \<times> host_log" where
  "block_Cleanup sys s =
     (if bt_disarmed (fst s) then s
      else ((fst s)\<lparr>bt_disarmed := True, bt_cleanups := []\<rparr>,
            fold (\<lambda>u log. snd (run_try sys (undo_command u) log)) (rev (bt_cleanups (fst s))) (snd s)))"

definition block_Finalize :: "host \<Rightarrow> block_target \<times> host_log \<Rightarrow> string \<times> block_target \<times> host_log" where
  "block_Finalize sys s =
     (let s1 = block_Cleanup sys s in (if bt_device (fst s1) = [] then bt_image (fst s1) else bt_device (fst s1), s1))"

definition KernelPath :: "string \<Rightarrow> string" where
  "KernelPath envID = ''/EFI/'' @ envID @ ''/vmlinuz''"

definition InitrdPath :: "string \<Rightarrow> string" where
  "InitrdPath envID = ''/EFI/'' @ envID @ ''/initrd.img''"

definition DevicetreePath :: "string \<Rightarrow> string" where
  "DevicetreePath envID = ''/EFI/'' @ envID @ ''/devicetree''"

section \<open>What the host holds\<close>

text \<open>
  The resources a log leaves on the host, newest first. A mount that is still in use keeps
  its loop device: detaching one while anything is mounted has no effect.\<close>

datatype resource = Loop string | Mounted string string

definition is_mount :: "resource \<Rightarrow> bool" where
  "is_mount h = (case h of Loop _ \<Rightarrow> False | Mounted _ _ \<Rightarrow> True)"

definition mounted_at :: "string \<Rightarrow> resource \<Rightarrow> bool" where
  "mounted_at m h = (case h of Loop _ \<Rightarrow> False | Mounted _ t \<Rightarrow> t = m)"

fun remove_first :: "('a \<Rightarrow> bool) \<Rightarrow> 'a list \<Rightarrow> 'a list" where
  "remove_first P [] = []"
| "remove_first P (x # xs) = (if P x then xs else x # remove_first P xs)"

definition sudo_effect :: "string list \<Rightarrow> string \<Rightarrow> resource list \<Rightarrow> resource list" where
  "sudo_effect args out hs =
     (if args = [] then hs
      else if hd args = ''mount'' then (case tl args of [dev, m] \<Rightarrow> Mounted dev m # hs | _ \<Rightarrow> hs)
      else if hd args = ''umount'' then (case tl args of [m] \<Rightarrow> remove_first (mounted_at m) hs | _ \<Rightarrow> hs)
      else if hd args = ''losetup'' then
        (case tl args of
           [a, d] \<Rightarrow> if a = ''-d'' \<and> \<not> list_ex is_mount hs then remove_first (\<lambda>h. h = Loop d) hs else hs
         | [a, b, c, img] \<Rightarrow> if a = ''--find'' then Loop (trim_space out) # hs else hs
         | _ \<Rightarrow> hs)
      else hs)"

definition effect :: "command \<times> bool \<times> string \<Rightarrow> resource list \<Rightarrow> resource list" where
  "effect entry hs =
     (case entry of ((args, _), ok, out) \<Rightarrow>
        if \<not> ok \<or> args = [] \<or> hd args \<noteq> ''sudo'' then hs else sudo_effect (tl args) out hs)"

definition held :: "host_log \<Rightarrow> resource list" where
  "held log = fold effect log []"


section \<open>Quiet actions\<close>

text \<open>An action that leaves the resources alone and only extends the log.\<close>

definition quiet :: "'a act \<Rightarrow> bool" where
  "quiet f \<longleftrightarrow> (\<forall>log. held (snd (f log)) = held log \<and> prefix log (snd (f log)))"

definition harmless :: "string list \<Rightarrow> bool" where
  "harmless args \<longleftrightarrow> (\<forall>stdin r hs. effect ((args, stdin), r) hs = hs)"

lemma harmlessD: "harmless args \<Longrightarrow> effect ((args, stdin), r) hs = hs"
  by (cases r) (simp add: harmless_def)

lemma held_snoc [simp]: "held (log @ [x]) = effect x (held log)"
  by (simp add: held_def)

lemma quiet_run: "harmless args \<Longrightarrow> quiet (run_in sys stdin args)"
  by (simp add: quiet_def harmlessD run_in_def exec_def split_beta)

lemma quiet_try: "harmless args \<Longrightarrow> quiet (run_try sys args)"
  by (simp add: quiet_def harmlessD run_try_def exec_def split_beta)

lemma quiet_sgdisk: "harmless (''sgdisk'' # args) \<Longrightarrow> quiet (sgdiskTolerant sys args)"
  by (simp add: quiet_def harmlessD sgdiskTolerant_def exec_def split_beta)

lemma quiet_bind:
  assumes "quiet f" "\<And>x. quiet (g x)"
  shows "quiet (act_bind f g)"
  unfolding quiet_def
proof
  fix log
  obtain r log1 where f: "f log = (r, log1)" by (cases "f log")
  then have 1: "held log1 = held log" "prefix log log1" using assms(1) unfolding quiet_def by (metis snd_conv)+
  show "held (snd (act_bind f g log)) = held log \<and> prefix log (snd (act_bind f g log))"
  proof (cases r)
    case (Inr x)
    have "held (snd (g x log1)) = held log1 \<and> prefix log1 (snd (g x log1))" using assms(2) by (simp add: quiet_def)
    then show ?thesis using 1 by (auto simp: act_bind_def f Inr intro: prefix_order.trans)
  qed (use 1 in \<open>simp add: act_bind_def f\<close>)
qed

lemma quiet_return: "quiet (act_return x)"
  by (simp add: quiet_def act_return_def)

lemma quiet_all: "(\<And>x. quiet (f x)) \<Longrightarrow> quiet (act_all f xs)"
  by (induction f xs rule: act_all.induct) (simp_all add: quiet_return quiet_bind)

lemma harmless_other: "args = [] \<or> hd args \<noteq> ''sudo'' \<Longrightarrow> harmless args"
  unfolding harmless_def effect_def by (simp add: split_beta)

lemma harmless_sudo: "b \<noteq> ''mount'' \<Longrightarrow> b \<noteq> ''umount'' \<Longrightarrow> b \<noteq> ''losetup'' \<Longrightarrow> harmless (''sudo'' # b # rest)"
  unfolding harmless_def effect_def sudo_effect_def by (simp add: split_beta)

lemma harmless_lazy: "harmless [''sudo'', ''umount'', ''-l'', t]"
  by (simp add: harmless_def effect_def sudo_effect_def)

lemma harmless_bootctl: "harmless [''sudo'', b, ''install'', ''--esp-path'', d, ''--no-variables'']"
  by (simp add: harmless_def effect_def sudo_effect_def)

lemma quiet_FormatDisk: "quiet (FormatDisk sys device parts)"
  unfolding FormatDisk_def
  by (intro quiet_bind quiet_all quiet_sgdisk quiet_try harmless_other) simp_all

lemma quiet_make_fs: "quiet (make_fs sys device p)"
proof (cases "mkfs_command device p")
  case None
  then show ?thesis by (simp add: quiet_def make_fs_def)
next
  case (Some args)
  then have "hd args \<noteq> ''sudo''" by (auto simp: mkfs_command_def Let_def split: if_splits)
  then have "quiet (run sys args)" by (intro quiet_run harmless_other) simp
  then show ?thesis by (simp add: quiet_def make_fs_def Some)
qed

lemma quiet_CreateFilesystems: "quiet (CreateFilesystems sys device parts)"
  unfolding CreateFilesystems_def by (rule quiet_all) (rule quiet_make_fs)

lemma quiet_SetupBootloader: "quiet (SetupBootloader sys bootctl esp)"
proof (cases bootctl)
  case None
  then show ?thesis by (simp add: quiet_def SetupBootloader_def)
next
  case (Some b)
  define f where "f = act_seq (run sys [''sudo'', b, ''install'', ''--esp-path'', esp, ''--no-variables''])
    (let p = path_join [esp, ''loader'', ''loader.conf''] in
      act_seq (run sys [''sudo'', ''mkdir'', ''-p'', path_dir p]) (run_in sys loaderConf [''sudo'', ''tee'', p]))"
  have "quiet f" unfolding f_def Let_def
    by (intro quiet_bind quiet_run harmless_bootctl harmless_sudo) simp_all
  moreover have "SetupBootloader sys bootctl esp = f" by (rule ext) (simp add: SetupBootloader_def Some f_def)
  ultimately show ?thesis by simp
qed

lemma quiet_unmount_each: "quiet (unmount_each sys ts errs)"
proof (induction ts arbitrary: errs)
  case Nil
  then show ?case by (simp add: quiet_def)
next
  case (Cons t ts)
  have r: "quiet (run sys [''sudo'', ''umount'', ''-l'', t])" by (rule quiet_run) (rule harmless_lazy)
  show ?case
    unfolding quiet_def
  proof
    fix log
    obtain x log1 where f: "run sys [''sudo'', ''umount'', ''-l'', t] log = (x, log1)" by (cases "run sys [''sudo'', ''umount'', ''-l'', t] log")
    then have 1: "held log1 = held log" "prefix log log1" using r unfolding quiet_def by (metis snd_conv)+
    obtain es where "unmount_each sys (t # ts) errs log = unmount_each sys ts es log1"
      by (cases x) (simp_all add: f)
    moreover have "held (snd (unmount_each sys ts es log1)) = held log1 \<and> prefix log1 (snd (unmount_each sys ts es log1))"
      using Cons.IH by (simp add: quiet_def)
    ultimately show "held (snd (unmount_each sys (t # ts) errs log)) = held log \<and> prefix log (snd (unmount_each sys (t # ts) errs log))"
      using 1 prefix_order.trans by metis
  qed
qed

lemma quiet_UnmountDevice: "quiet (UnmountDevice sys mountsFile device)"
proof -
  have q: "quiet (act_bind (unmount_each sys ts []) (\<lambda>errs. if errs \<noteq> [] then (\<lambda>log1. (Inl (UnmountErrors errs), log1))
      else run_try sys [''udevadm'', ''settle'', ''--timeout=5'']))" for ts
    by (rule quiet_bind[OF quiet_unmount_each]) (auto simp: quiet_def intro!: quiet_try[unfolded quiet_def, rule_format] harmless_other)
  show ?thesis
    unfolding quiet_def
  proof
    fix log
    show "held (snd (UnmountDevice sys mountsFile device log)) = held log \<and> prefix log (snd (UnmountDevice sys mountsFile device log))"
      using q[unfolded quiet_def, rule_format]
      by (auto simp: UnmountDevice_def Let_def split: option.splits)
  qed
qed


section \<open>The stack of cleanups matches what is held\<close>

definition bt_inv :: "block_target \<times> host_log \<Rightarrow> bool" where
  "bt_inv s \<longleftrightarrow> \<not> bt_disarmed (fst s) \<and> (\<exists>ls ms. length ls \<le> 1 \<and>
     held (snd s) = map (\<lambda>(d, m). Mounted d m) ms @ map Loop ls \<and>
     bt_cleanups (fst s) = map DetachLoop ls @ rev (map (Unmount \<circ> snd) ms))"

lemma bt_invI:
  "\<not> bt_disarmed b \<Longrightarrow> length ls \<le> 1 \<Longrightarrow> held log = map (\<lambda>(d, m). Mounted d m) ms @ map Loop ls \<Longrightarrow>
   bt_cleanups b = map DetachLoop ls @ rev (map (Unmount \<circ> snd) ms) \<Longrightarrow> bt_inv (b, log)"
  by (auto simp: bt_inv_def)

definition keeps :: "'a bt_act \<Rightarrow> bool" where
  "keeps f \<longleftrightarrow> (\<forall>s. bt_inv s \<longrightarrow> bt_inv (snd (f s)))"

lemma keeps_bind:
  assumes "keeps f" "\<And>x. keeps (g x)"
  shows "keeps (bt_bind f g)"
  unfolding keeps_def
proof (intro allI impI)
  fix s
  assume s: "bt_inv s"
  obtain r s1 where f: "f s = (r, s1)" by (cases "f s")
  then have "bt_inv s1" using assms(1) s unfolding keeps_def by (metis snd_conv)
  then show "bt_inv (snd (bt_bind f g s))" using assms(2)[unfolded keeps_def, rule_format] by (cases r) (simp_all add: bt_bind_def f)
qed

lemma keeps_lift: "quiet f \<Longrightarrow> keeps (lift_act f)"
  by (auto simp: keeps_def lift_act_def bt_inv_def quiet_def split_beta)

lemma keeps_return: "keeps (\<lambda>s. (Inr x, s))"
  by (simp add: keeps_def)

lemma mount_partition_cases:
  "mount_partition sys dev dir (b, log) =
     (let log1 = log @ [(([''sudo'', ''mount'', dev, dir], []), sys log ([''sudo'', ''mount'', dev, dir], []))] in
      if fst (sys log ([''sudo'', ''mount'', dev, dir], [])) then (Inr (), addCleanup (Unmount dir) b, log1)
      else (Inl (CommandFailed [''sudo'', ''mount'', dev, dir]), b, log1))"
  by (simp add: mount_partition_def bt_bind_def lift_act_def run_in_def exec_def bt_update_def)

lemma effect_mount: "effect (([''sudo'', ''mount'', dev, dir], x), r) hs = (if fst r then Mounted dev dir # hs else hs)"
  by (cases r) (simp add: effect_def sudo_effect_def)

lemma effect_umount: "effect (([''sudo'', ''umount'', dir], x), r) hs = (if fst r then remove_first (mounted_at dir) hs else hs)"
  by (cases r) (simp add: effect_def sudo_effect_def)

lemma effect_detach: "effect (([''sudo'', ''losetup'', ''-d'', d], x), r) hs =
    (if fst r \<and> \<not> list_ex is_mount hs then remove_first (\<lambda>h. h = Loop d) hs else hs)"
  by (cases r) (simp add: effect_def sudo_effect_def)

lemma effect_attach: "effect (([''sudo'', ''losetup'', ''--find'', ''--show'', ''--partscan'', img], x), r) hs =
    (if fst r then Loop (trim_space (snd r)) # hs else hs)"
  by (cases r) (simp add: effect_def sudo_effect_def)

lemma keeps_mount: "keeps (mount_partition sys dev dir)"
  unfolding keeps_def
proof (intro allI impI)
  fix s
  assume "bt_inv s"
  then obtain b log ls ms where s: "s = (b, log)" "\<not> bt_disarmed b" "length ls \<le> 1"
    "held log = map (\<lambda>(d, m). Mounted d m) ms @ map Loop ls" "bt_cleanups b = map DetachLoop ls @ rev (map (Unmount \<circ> snd) ms)"
    by (cases s) (auto simp: bt_inv_def)
  show "bt_inv (snd (mount_partition sys dev dir s))"
  proof (cases "fst (sys log ([''sudo'', ''mount'', dev, dir], []))")
    case True
    have "held (log @ [(([''sudo'', ''mount'', dev, dir], []), sys log ([''sudo'', ''mount'', dev, dir], []))])
        = map (\<lambda>(d, m). Mounted d m) ((dev, dir) # ms) @ map Loop ls"
      using True s(4) by (simp add: effect_mount)
    moreover have "bt_cleanups (addCleanup (Unmount dir) b) = map DetachLoop ls @ rev (map (Unmount \<circ> snd) ((dev, dir) # ms))"
      using s(5) by (simp add: addCleanup_def)
    moreover have "\<not> bt_disarmed (addCleanup (Unmount dir) b)" using s(2) by (simp add: addCleanup_def)
    ultimately show ?thesis using True s(3) unfolding s(1) mount_partition_cases Let_def
      by (simp only: if_True snd_conv) (rule bt_invI)
  next
    case False
    then have "held (log @ [(([''sudo'', ''mount'', dev, dir], []), sys log ([''sudo'', ''mount'', dev, dir], []))]) = held log"
      by (simp add: effect_mount)
    then show ?thesis using False s unfolding s(1) mount_partition_cases Let_def bt_inv_def by auto
  qed
qed

lemma keeps_write_device: "keeps (write_device sys bootctl)"
proof -
  define G where "G b = bt_seq (lift_act (FormatDisk sys (bt_target b) (bt_parts b)))
        (bt_seq (lift_act (CreateFilesystems sys (bt_target b) (bt_parts b)))
          (bt_seq (lift_act (run_try sys [''udevadm'', ''settle'', ''--timeout=10'']))
            (bt_seq (mount_partition sys (PartitionPath (bt_target b) 1) (esp_dir b))
              (bt_seq (mount_partition sys (PartitionPath (bt_target b) 2) (store_dir b))
                (bt_seq (lift_act (SetupBootloader sys bootctl (esp_dir b)))
                  (\<lambda>s1. (Inr (esp_dir b, store_dir b), s1)))))))" for b
  have "keeps (G b)" for b
    unfolding G_def
    by (intro keeps_bind keeps_lift keeps_mount keeps_return quiet_FormatDisk quiet_CreateFilesystems quiet_SetupBootloader
        quiet_try harmless_other) simp_all
  moreover have "write_device sys bootctl s = G (fst s) s" for s by (simp add: write_device_def G_def Let_def)
  ultimately show ?thesis by (simp add: keeps_def)
qed

lemma open_device_inv:
  assumes "open_device sys mf (NewBlockTarget base device sz parts, log) = (r, b1, log1)" "held log = []"
  shows "bt_inv (b1, log1) \<and> bt_parts b1 = parts \<and> bt_base b1 = base \<and>
    (r = Inr () \<longrightarrow> held log1 = (if device = [] then [Loop (bt_target b1)] else []) \<and> (device \<noteq> [] \<longrightarrow> bt_target b1 = device))"
proof (cases "device = []")
  case False
  then have "r = Inr ()" "b1 = (NewBlockTarget base device sz parts)\<lparr>bt_target := device\<rparr>"
    "log1 = snd (UnmountDevice sys mf device log)"
    using assms(1) by (auto simp: open_device_def NewBlockTarget_def Let_def)
  moreover have "held (snd (UnmountDevice sys mf device log)) = []"
    using quiet_UnmountDevice assms(2) by (simp add: quiet_def)
  ultimately show ?thesis using False by (auto simp: bt_inv_def NewBlockTarget_def intro!: exI[of _ "[]"])
next
  case True
  define img where "img = path_join [base, ''tacklebox.img'']"
  define b where "b = (NewBlockTarget base device sz parts)\<lparr>bt_image := img\<rparr>"
  have b: "bt_cleanups b = []" "\<not> bt_disarmed b" "bt_parts b = parts" "bt_base b = base"
    by (simp_all add: b_def NewBlockTarget_def)
  have run: "attach_image sys sz img (b, log) = (r, b1, log1)"
    using assms(1) True by (simp add: open_device_def Let_def b_def img_def) (simp add: NewBlockTarget_def Let_def)
  obtain r0 log0 where t: "run sys [''truncate'', ''-s'', sz, img] log = (r0, log0)" by (cases "run sys [''truncate'', ''-s'', sz, img] log")
  have "quiet (run sys [''truncate'', ''-s'', sz, img])" by (intro quiet_run harmless_other) simp
  then have h0: "held log0 = []" using t assms(2) unfolding quiet_def by (metis snd_conv)
  define ans where "ans = sys log0 ([''sudo'', ''losetup'', ''--find'', ''--show'', ''--partscan'', img], [])"
  define log2 where "log2 = log0 @ [(([''sudo'', ''losetup'', ''--find'', ''--show'', ''--partscan'', img], []), ans)]"
  have res: "(r, b1, log1) = (case r0 of Inl e \<Rightarrow> (Inl e, b, log0) | Inr _ \<Rightarrow>
      if fst ans then (Inr (), addCleanup (DetachLoop (trim_space (snd ans))) (b\<lparr>bt_target := trim_space (snd ans)\<rparr>), log2)
      else (Inl (CommandFailed [''sudo'', ''losetup'', ''--find'', ''--show'', ''--partscan'', img]), b, log2))"
    unfolding run[symmetric]
    by (simp add: attach_image_def bt_bind_def bt_update_def lift_act_def t run_output_def exec_def ans_def log2_def split: sum.splits)
  have h2: "held log2 = (if fst ans then [Loop (trim_space (snd ans))] else [])" by (simp add: log2_def effect_attach h0)
  show ?thesis
  proof (cases r0)
    case (Inl e)
    then show ?thesis using res b h0 by (auto intro: bt_invI[of _ "[]" _ "[]"])
  next
    case (Inr u)
    show ?thesis
    proof (cases "fst ans")
      case ok: True
      then have "bt_cleanups b1 = [DetachLoop (trim_space (snd ans))]" "\<not> bt_disarmed b1" "bt_parts b1 = parts" "bt_base b1 = base"
        "bt_target b1 = trim_space (snd ans)" "held log1 = [Loop (trim_space (snd ans))]"
        using res b h2 Inr by (simp_all add: addCleanup_def)
      then show ?thesis using True by (auto intro: bt_invI[of _ "[trim_space (snd ans)]" _ "[]"])
    next
      case False
      then show ?thesis using res b h2 Inr by (auto intro: bt_invI[of _ "[]" _ "[]"])
    qed
  qed
qed

lemma Prepare_inv:
  assumes "block_Prepare sys mf bootctl (NewBlockTarget base device sz parts, log) = (r, s1)" "held log = []"
  shows "bt_inv s1"
proof -
  obtain r0 b0 log0 where o: "open_device sys mf (NewBlockTarget base device sz parts, log) = (r0, b0, log0)"
    by (metis prod_cases3)
  have "bt_inv (b0, log0)" using open_device_inv[OF o assms(2)] by blast
  then have "bt_inv (snd (write_device sys bootctl (b0, log0)))" using keeps_write_device by (simp add: keeps_def)
  then show ?thesis using assms(1) \<open>bt_inv (b0, log0)\<close> by (cases r0) (auto simp: block_Prepare_def bt_bind_def o)
qed

section \<open>Cleanup\<close>

lemma cleanup_step: "held (snd (run_try sys args log)) = effect ((args, []), sys log (args, [])) (held log)"
  by (simp add: run_try_def exec_def)

lemma cleanup_releases:
  assumes "\<And>u log. fst (sys log (undo_command u, []))" "length ls \<le> 1"
  shows "held log = map (\<lambda>(d, m). Mounted d m) ms @ map Loop ls \<Longrightarrow>
    held (fold (\<lambda>u log. snd (run_try sys (undo_command u) log)) (map (Unmount \<circ> snd) ms @ map DetachLoop ls) log) = []"
proof (induction ms arbitrary: log)
  case Nil
  obtain l where "ls = [] \<or> ls = [l]" using assms(2) by (cases ls; cases "tl ls") auto
  then show ?case using Nil assms(1)[of _ "DetachLoop l"] by (auto simp: cleanup_step effect_detach is_mount_def)
next
  case (Cons dm ms)
  have "held (snd (run_try sys (undo_command (Unmount (snd dm))) log)) = map (\<lambda>(d, m). Mounted d m) ms @ map Loop ls"
    using Cons.prems assms(1)[of _ "Unmount (snd dm)"] by (simp add: cleanup_step effect_umount mounted_at_def split_beta)
  then show ?case using Cons.IH by simp
qed

lemma Cleanup_held:
  assumes "\<And>u log. fst (sys log (undo_command u, []))" "bt_inv s"
  shows "held (snd (block_Cleanup sys s)) = []"
proof -
  obtain ls ms where i: "\<not> bt_disarmed (fst s)" "length ls \<le> 1" "held (snd s) = map (\<lambda>(d, m). Mounted d m) ms @ map Loop ls"
    "bt_cleanups (fst s) = map DetachLoop ls @ rev (map (Unmount \<circ> snd) ms)"
    using assms(2) by (auto simp: bt_inv_def)
  have "rev (map DetachLoop ls) = map DetachLoop ls" using i(2) by (cases ls; cases "tl ls") auto
  then have "rev (bt_cleanups (fst s)) = map (Unmount \<circ> snd) ms @ map DetachLoop ls" using i(4) by simp
  then show ?thesis using cleanup_releases[of sys ls "snd s" ms] assms(1) i(1-3) by (simp add: block_Cleanup_def)
qed

lemma Cleanup_once: "block_Cleanup sys (block_Cleanup sys s) = block_Cleanup sys s"
  by (simp add: block_Cleanup_def)


section \<open>A successful Prepare\<close>

lemma act_bind_Inr: "act_bind f g log = (Inr y, log2) \<longleftrightarrow> (\<exists>x log1. f log = (Inr x, log1) \<and> g x log1 = (Inr y, log2))"
  by (auto simp: act_bind_def split: prod.splits sum.splits)

lemma bt_bind_Inr: "bt_bind f g s = (Inr y, s2) \<longleftrightarrow> (\<exists>x s1. f s = (Inr x, s1) \<and> g x s1 = (Inr y, s2))"
  by (auto simp: bt_bind_def split: prod.splits sum.splits)

lemma lift_act_Inr: "lift_act f s = (Inr y, s1) \<longleftrightarrow> (\<exists>log1. f (snd s) = (Inr y, log1) \<and> s1 = (fst s, log1))"
  by (auto simp: lift_act_def split: prod.splits)

lemma quietD: "quiet f \<Longrightarrow> f log = (r, log1) \<Longrightarrow> held log1 = held log \<and> prefix log log1"
  unfolding quiet_def by (metis snd_conv)

lemma act_all_Inr:
  assumes "\<And>x. quiet (f x)"
  shows "act_all f xs log = (Inr u, log2) \<Longrightarrow> x \<in> set xs \<Longrightarrow> \<exists>log0 log1. f x log0 = (Inr (), log1) \<and> prefix log1 log2"
proof (induction xs arbitrary: log)
  case (Cons y ys)
  then obtain log1 where y: "f y log = (Inr (), log1)" and ys: "act_all f ys log1 = (Inr u, log2)"
    by (auto simp: act_bind_Inr)
  show ?case
  proof (cases "x = y")
    case True
    have "quiet (act_all f ys)" by (rule quiet_all) (rule assms)
    then have "prefix log1 log2" using quietD ys by blast
    then show ?thesis using y True by blast
  next
    case False
    then show ?thesis using Cons.IH[OF ys] Cons.prems(2) by simp
  qed
qed simp

text \<open>The partition was created and given its file system by commands the log holds.\<close>

definition formatted :: "string \<Rightarrow> host_log \<Rightarrow> partition \<Rightarrow> bool" where
  "formatted dev log p \<longleftrightarrow>
     (\<exists>ok out. ((''sgdisk'' # new_partition dev p, []), ok, out) \<in> set log \<and> (ok \<or> contains out rereadTableMsg)) \<and>
     (\<exists>args out. mkfs_command dev p = Some args \<and> ((args, []), True, out) \<in> set log)"

lemma FormatDisk_created:
  assumes "FormatDisk sys dev parts log = (Inr u, log2)" "p \<in> set parts"
  shows "\<exists>ok out. ((''sgdisk'' # new_partition dev p, []), ok, out) \<in> set log2 \<and> (ok \<or> contains out rereadTableMsg)"
proof -
  obtain l1 l2 l3 where all: "act_all (\<lambda>p. sgdiskTolerant sys (new_partition dev p)) parts l1 = (Inr (), l2)"
    and rest: "act_seq (run_try sys [''udevadm'', ''settle'']) (act_seq (run_try sys [''partprobe'', dev]) (run_try sys [''udevadm'', ''settle''])) l2 = (Inr u, log2)"
    using assms(1) by (auto simp: FormatDisk_def act_bind_Inr)
  have q: "quiet (sgdiskTolerant sys (new_partition dev p))" for p by (intro quiet_sgdisk harmless_other) simp
  obtain m0 m1 where m: "sgdiskTolerant sys (new_partition dev p) m0 = (Inr (), m1)" "prefix m1 l2"
    using act_all_Inr[OF q all assms(2)] by blast
  have q2: "quiet (act_seq (run_try sys [''udevadm'', ''settle'']) (act_seq (run_try sys [''partprobe'', dev]) (run_try sys [''udevadm'', ''settle''])))"
    by (intro quiet_bind quiet_try harmless_other) simp_all
  have "prefix m1 log2" using quietD[OF q2 rest] m(2) prefix_order.trans by blast
  then have sub: "set m1 \<subseteq> set log2" by (rule set_mono_prefix)
  define c where "c = (''sgdisk'' # new_partition dev p, [] :: string)"
  have "(c, sys m0 c) \<in> set m1 \<and> (fst (sys m0 c) \<or> contains (snd (sys m0 c)) rereadTableMsg)"
    using m(1) by (auto simp: sgdiskTolerant_def exec_def c_def[symmetric] split: if_splits)
  then have "(c, fst (sys m0 c), snd (sys m0 c)) \<in> set log2 \<and> (fst (sys m0 c) \<or> contains (snd (sys m0 c)) rereadTableMsg)"
    using sub by auto
  then show ?thesis unfolding c_def by blast
qed

lemma CreateFilesystems_made:
  assumes "CreateFilesystems sys dev parts log = (Inr u, log2)" "p \<in> set parts"
  shows "\<exists>args out. mkfs_command dev p = Some args \<and> ((args, []), True, out) \<in> set log2"
proof -
  obtain m0 m1 where m: "make_fs sys dev p m0 = (Inr (), m1)" "prefix m1 log2"
    using act_all_Inr[OF quiet_make_fs assms(1)[unfolded CreateFilesystems_def] assms(2)] by blast
  from m(1) obtain args where args: "mkfs_command dev p = Some args" "run sys args m0 = (Inr (), m1)"
    by (auto simp: make_fs_def split: option.splits)
  then have "((args, []), True, snd (sys m0 (args, []))) \<in> set m1"
    by (cases "sys m0 (args, [])") (auto simp: run_in_def exec_def split: if_splits)
  then show ?thesis using args(1) set_mono_prefix[OF m(2)] by blast
qed

lemma write_device_done:
  assumes "write_device sys bootctl (b, log) = (Inr dirs, b2, log2)"
  shows "dirs = (esp_dir b, store_dir b) \<and> bt_target b2 = bt_target b \<and>
    held log2 = [Mounted (PartitionPath (bt_target b) 2) (store_dir b), Mounted (PartitionPath (bt_target b) 1) (esp_dir b)] @ held log \<and>
    (\<forall>p \<in> set (bt_parts b). formatted (bt_target b) log2 p)"
proof -
  let ?dev = "bt_target b"
  obtain l1 l2 l3 b4 l4 b5 l5 where s: "FormatDisk sys ?dev (bt_parts b) log = (Inr (), l1)"
    "CreateFilesystems sys ?dev (bt_parts b) l1 = (Inr (), l2)"
    "run_try sys [''udevadm'', ''settle'', ''--timeout=10''] l2 = (Inr (), l3)"
    "mount_partition sys (PartitionPath ?dev 1) (esp_dir b) (b, l3) = (Inr (), b4, l4)"
    "mount_partition sys (PartitionPath ?dev 2) (store_dir b) (b4, l4) = (Inr (), b5, l5)"
    "SetupBootloader sys bootctl (esp_dir b) l5 = (Inr (), log2)" "b2 = b5" "dirs = (esp_dir b, store_dir b)"
    using assms by (auto simp: write_device_def Let_def bt_bind_Inr lift_act_Inr)
  have q3: "quiet (run_try sys [''udevadm'', ''settle'', ''--timeout=10''])" by (intro quiet_try harmless_other) simp
  have mnt: "held lb = Mounted dev dir # held la \<and> prefix la lb \<and> bt_target b' = bt_target b0"
    if "mount_partition sys dev dir (b0, la) = (Inr (), b', lb)" for dev dir b0 la b' lb
    using that by (auto simp: mount_partition_cases Let_def effect_mount addCleanup_def split: if_splits)
  note h = quietD[OF quiet_FormatDisk s(1)] quietD[OF quiet_CreateFilesystems s(2)] quietD[OF q3 s(3)] mnt[OF s(4)] mnt[OF s(5)]
    quietD[OF quiet_SetupBootloader s(6)]
  have "prefix l2 log2" "prefix l1 log2" using h prefix_order.trans by blast+
  then have "formatted ?dev log2 p" if "p \<in> set (bt_parts b)" for p
    using FormatDisk_created[OF s(1) that] CreateFilesystems_made[OF s(2) that] set_mono_prefix unfolding formatted_def by blast
  then show ?thesis using h s(7,8) by auto
qed



section \<open>Examples\<close>

definition willing_host :: host where
  "willing_host log c = (True, if ''--find'' \<in> set (fst c) then ''/dev/loop7'' else [])"

definition demo_parts :: "partition list" where
  "demo_parts = [\<lparr>pt_number = 1, pt_label = ''E'', pt_size = ''+1G'', pt_type = ''ef00'', pt_fs = ''vfat''\<rparr>,
     \<lparr>pt_number = 2, pt_label = ''S'', pt_size = ''+4G'', pt_type = ''8300'', pt_fs = ''ext4''\<rparr>]"

definition demo_prepared :: "(disk_error + string \<times> string) \<times> block_target \<times> host_log" where
  "demo_prepared = block_Prepare willing_host None (Some ''/usr/bin/bootctl'') (NewBlockTarget ''/o'' [] ''8G'' demo_parts, [])"


text \<open>
  Two limits of the pre-flight unmount: the prefix test takes the mounts of another disk whose name
  merely starts with that of the device, and the escapes of \<^verbatim>\<open>/proc/mounts\<close> are passed on undecoded.\<close>

lemma unmounts_other_disk: "mounts_under ''/dev/sda'' [(''/dev/sdaa1'', ''/home''), (''/dev/sdb1'', ''/x'')] = [''/home'']"
  by code_simp

lemma escape_not_decoded:
  "readMounts (Some (''/dev/sdb1 /media/MY'' @ CHR 0x5C # ''040DISK vfat rw 0 0'')) =
   Some [(''/dev/sdb1'', ''/media/MY'' @ CHR 0x5C # ''040DISK'')]"
  by code_simp

end
