(* ===== verification/Ddi_Release.thy ===== *)
theory Ddi_Release
  imports Prelude "HOL-Library.Multiset"
begin

text \<open>
  Choosing a release from a \<^verbatim>\<open>SHA256SUMS\<close> listing (\<^verbatim>\<open>internal/purefs/sysupdate.go\<close>): the file
  name patterns, the order of versions and \<^verbatim>\<open>ResolveDdiRelease\<close>. A version is ordered by its runs of
  digits and of other characters; \<open>run\<close> with its \<open>linorder\<close> instance is that order, and \<open>versionLess\<close> is
  shown to be the lexicographic order of the lists of runs.

  The order in which Go walks its map of versions, and how its sort leaves equal ones, is the
  parameter \<open>ord\<close>: an arbitrary rearrangement before a stable sort.
\<close>

section \<open>The order of versions\<close>

definition splitLead :: "string \<Rightarrow> string \<times> string" where
  "splitLead s =
     (let num = is_digit (hd s) in
      (takeWhile (\<lambda>c. is_digit c = num) s, dropWhile (\<lambda>c. is_digit c = num) s))"

definition isNum :: "string \<Rightarrow> bool" where
  "isNum s \<longleftrightarrow> s \<noteq> [] \<and> is_digit (hd s)"

definition trim_zeros :: "string \<Rightarrow> string" where
  "trim_zeros a = (let t = dropWhile (\<lambda>c. c = CHR ''0'') a in if t = [] then ''0'' else t)"

definition compareNum :: "string \<Rightarrow> string \<Rightarrow> int" where
  "compareNum a b =
     (let a' = trim_zeros a; b' = trim_zeros b in
      if length a' \<noteq> length b' then (if length a' < length b' then -1 else 1)
      else if a' < b' then -1 else if b' < a' then 1 else 0)"

lemma splitLead_shorter: "s \<noteq> [] \<Longrightarrow> length (snd (splitLead s)) < length s"
  by (cases s) (auto simp: splitLead_def Let_def le_imp_less_Suc length_dropWhile_le)

function versionLess :: "string \<Rightarrow> string \<Rightarrow> bool" where
  "versionLess a b =
     (if a = [] \<or> b = [] then a = [] \<and> b \<noteq> []
      else case (splitLead a, splitLead b) of ((ad, an), (bd, bn)) \<Rightarrow>
        if isNum ad \<and> isNum bd then
          (if compareNum ad bd = -1 then True else if compareNum ad bd = 1 then False else versionLess an bn)
        else if ad \<noteq> bd then ad < bd
        else versionLess an bn)"
  by pat_completeness auto

termination
proof (relation "measure (\<lambda>(a, b). length a)")
  show "((an, bn), (a, b)) \<in> measure (\<lambda>(a, b). length a)"
    if "\<not> (a = [] \<or> b = [])" "(x, y) = (splitLead a, splitLead b)" "(ad, an) = x" "(bd, bn) = y"
    for a b x y ad an bd bn
    using that splitLead_shorter[of a] by (auto simp: prod_eq_iff)
  show "((an, bn), (a, b)) \<in> measure (\<lambda>(a, b). length a)"
    if "\<not> (a = [] \<or> b = [])" "(x, y) = (splitLead a, splitLead b)" "(ad, an) = x" "(bd, bn) = y"
    for a b x y ad an bd bn
    using that splitLead_shorter[of a] by (auto simp: prod_eq_iff)
qed simp

declare versionLess.simps [simp del]

text \<open>A number by its value; any other text by its bytes, before or behind all numbers by its first byte.\<close>

datatype run = Num nat | Txt string

definition run_key :: "run \<Rightarrow> nat \<times> nat \<times> string" where
  "run_key r =
     (case r of
        Num n \<Rightarrow> (1, n, [])
      | Txt s \<Rightarrow> (if s = [] \<or> hd s < CHR ''0'' then 0 else 2, 0, s))"

instantiation run :: linorder
begin

definition less_eq_run :: "run \<Rightarrow> run \<Rightarrow> bool" where
  "less_eq_run a b \<longleftrightarrow>
     (case (run_key a, run_key b) of ((i, m, s), (j, n, t)) \<Rightarrow> i < j \<or> i = j \<and> (m < n \<or> m = n \<and> s \<le> t))"

definition less_run :: "run \<Rightarrow> run \<Rightarrow> bool" where
  "less_run a b \<longleftrightarrow>
     (case (run_key a, run_key b) of ((i, m, s), (j, n, t)) \<Rightarrow> i < j \<or> i = j \<and> (m < n \<or> m = n \<and> s < t))"

instance
proof
  have inj: "run_key a = run_key b \<Longrightarrow> a = b" for a b :: run
    by (cases a; cases b) (auto simp: run_key_def split: if_splits)
  fix a b c :: run
  show "a < b \<longleftrightarrow> a \<le> b \<and> \<not> b \<le> a"
    by (auto simp: less_run_def less_eq_run_def split: prod.splits)
  show "a \<le> a" by (auto simp: less_eq_run_def split: prod.splits)
  show "a \<le> c" if "a \<le> b" "b \<le> c"
    using that by (auto simp: less_eq_run_def split: prod.splits)
  show "a = b" if "a \<le> b" "b \<le> a"
    by (rule inj) (use that in \<open>auto simp: less_eq_run_def split: prod.splits\<close>)
  show "a \<le> b \<or> b \<le> a" by (auto simp: less_eq_run_def split: prod.splits)
qed

end

definition run_of :: "string \<Rightarrow> run" where
  "run_of s = (if isNum s then Num (dec_val s) else Txt s)"

function runs :: "string \<Rightarrow> run list" where
  "runs s = (if s = [] then [] else run_of (fst (splitLead s)) # runs (snd (splitLead s)))"
  by pat_completeness auto
termination by (relation "measure length") (use splitLead_shorter in auto)

declare runs.simps [simp del]


lemma dec_val_less: "list_all is_digit s \<Longrightarrow> dec_val s < 10 ^ length s"
proof (induction s)
  case (Cons c cs)
  then have "of_char c - 48 \<le> (9 :: nat)" "dec_val cs < 10 ^ length cs" by (auto simp: is_digit_def)
  then have "(of_char c - 48) * 10 ^ length cs + dec_val cs < 9 * 10 ^ length cs + (10 :: nat) ^ length cs"
    by (intro add_le_less_mono mult_right_mono) simp_all
  then show ?case by (simp add: dec_val_Cons)
qed (simp add: dec_val_def)

lemma digits_less:
  "length a = length b \<Longrightarrow> list_all is_digit a \<Longrightarrow> list_all is_digit b \<Longrightarrow> a < b \<longleftrightarrow> dec_val a < dec_val b"
proof (induction a b rule: list_induct2)
  case (Cons x xs y ys)
  have lt: "dec_val xs < 10 ^ length xs" "dec_val ys < 10 ^ length xs"
    using dec_val_less[of xs] dec_val_less[of ys] Cons by simp_all
  have d: "(48 :: nat) \<le> of_char x" "(48 :: nat) \<le> of_char y" using Cons.prems by (simp_all add: is_digit_def)
  define m where "m = (of_char x - 48 :: nat)"
  define n where "n = (of_char y - 48 :: nat)"
  have "x = y" if "m = n" using d that unfolding m_def n_def by (metis char_of_char le_add_diff_inverse)
  then have xy: "x < y \<longleftrightarrow> m < n" "x = y \<longleftrightarrow> m = n"
    using d by (auto simp: m_def n_def less_char_def)
  have step: "m * k + u < n * k + v" if "m < n" "u < k" for m n k u v :: nat
  proof -
    have "m * k + u < Suc m * k" using that(2) by simp
    also have "\<dots> \<le> n * k" using that(1) by (intro mult_right_mono) simp_all
    finally show ?thesis by simp
  qed
  have "m * 10 ^ length xs + dec_val xs < n * 10 ^ length xs + dec_val ys \<longleftrightarrow> m < n \<or> m = n \<and> dec_val xs < dec_val ys"
    using step[of m n "dec_val xs" "10 ^ length xs" "dec_val ys"] step[of n m "dec_val ys" "10 ^ length xs" "dec_val xs"] lt
    by (cases m n rule: linorder_cases) auto
  then show ?case using Cons by (simp add: dec_val_Cons xy m_def n_def)
qed (simp add: dec_val_def)

lemma trim_zeros_digits:
  assumes "list_all is_digit a"
  shows "list_all is_digit (trim_zeros a) \<and> dec_val (trim_zeros a) = dec_val a \<and>
    (trim_zeros a = ''0'' \<or> (trim_zeros a \<noteq> [] \<and> hd (trim_zeros a) \<noteq> CHR ''0''))"
proof -
  have "dec_val (dropWhile (\<lambda>c. c = CHR ''0'') a) = dec_val a"
    by (induction a) (auto simp: dec_val_Cons)
  moreover have "list_all is_digit (dropWhile (\<lambda>c. c = CHR ''0'') a)"
    using assms by (auto simp: list_all_iff dest: set_dropWhileD)
  moreover have "is_digit (CHR ''0'')" "dec_val ''0'' = 0" "dec_val [] = 0" by (simp_all add: is_digit_def dec_val_def)
  moreover have "dropWhile (\<lambda>c. c = CHR ''0'') a \<noteq> [] \<Longrightarrow> hd (dropWhile (\<lambda>c. c = CHR ''0'') a) \<noteq> CHR ''0''"
    by (rule hd_dropWhile)
  ultimately show ?thesis
    by (cases "dropWhile (\<lambda>c. c = CHR ''0'') a = []") (simp_all add: trim_zeros_def Let_def del: dropWhile_eq_Nil_conv)
qed

lemma shorter_less:
  assumes "list_all is_digit a" "list_all is_digit b" "length a < length b" "hd b \<noteq> CHR ''0''"
  shows "dec_val a < dec_val b"
proof -
  obtain c cs where b: "b = c # cs" using assms(3) by (cases b) auto
  have "(of_char (CHR ''0'') :: nat) = 48" by simp
  then have "(of_char c :: nat) \<noteq> 48" using assms(4) b by (metis char_of_char list.sel(1))
  moreover have "(48 :: nat) \<le> of_char c" using assms(2) b by (simp add: is_digit_def)
  ultimately have "1 \<le> (of_char c - 48 :: nat)" by linarith
  then have "10 ^ length cs \<le> (of_char c - 48 :: nat) * 10 ^ length cs" by simp
  moreover have "dec_val a < 10 ^ length a" by (rule dec_val_less) fact
  moreover have "(10 :: nat) ^ length a \<le> 10 ^ length cs" using assms(3) b by (intro power_increasing) simp_all
  ultimately show ?thesis unfolding b dec_val_Cons by linarith
qed

lemma compareNum_val:
  assumes "list_all is_digit a" "list_all is_digit b"
  shows "compareNum a b = (if dec_val a < dec_val b then -1 else if dec_val b < dec_val a then 1 else 0)"
proof -
  note a = trim_zeros_digits[OF assms(1)]
  note b = trim_zeros_digits[OF assms(2)]
  have lt: "dec_val x < dec_val y"
    if "list_all is_digit x" "list_all is_digit y" "length x < length y" "x \<noteq> []" "y = ''0'' \<or> hd y \<noteq> CHR ''0''" for x y
    using that shorter_less[of x y] by (cases x) auto
  show ?thesis
  proof (cases "length (trim_zeros a) = length (trim_zeros b)")
    case True
    then show ?thesis using a b digits_less[of "trim_zeros a" "trim_zeros b"] digits_less[of "trim_zeros b" "trim_zeros a"]
      by (auto simp: compareNum_def Let_def)
  next
    case False
    have ne: "trim_zeros a \<noteq> []" "trim_zeros b \<noteq> []" by (auto simp: trim_zeros_def Let_def)
    show ?thesis using False lt[of "trim_zeros a" "trim_zeros b"] lt[of "trim_zeros b" "trim_zeros a"] a b ne
      by (auto simp: compareNum_def Let_def linorder_neq_iff)
  qed
qed


lemma splitLead_parts:
  assumes "s \<noteq> []"
  shows "fst (splitLead s) \<noteq> []" "hd (fst (splitLead s)) = hd s"
    "isNum (fst (splitLead s)) \<longleftrightarrow> is_digit (hd s)"
    "is_digit (hd s) \<Longrightarrow> list_all is_digit (fst (splitLead s))"
proof -
  obtain c cs where s: "s = c # cs" using assms by (cases s) auto
  show 1: "fst (splitLead s) \<noteq> []" "hd (fst (splitLead s)) = hd s" by (simp_all add: s splitLead_def Let_def)
  then show "isNum (fst (splitLead s)) \<longleftrightarrow> is_digit (hd s)" by (simp add: isNum_def)
  show "list_all is_digit (fst (splitLead s))" if "is_digit (hd s)"
    using that by (auto simp: splitLead_def Let_def list_all_iff dest: set_takeWhileD)
qed

lemma digit_or_apart:
  assumes "is_digit c" "\<not> is_digit d"
  shows "c < d \<longleftrightarrow> \<not> d < CHR ''0''" "d \<noteq> c"
  using assms by (auto simp: is_digit_def less_char_def)

lemma list_less_hd: "s \<noteq> [] \<Longrightarrow> t \<noteq> [] \<Longrightarrow> hd s \<noteq> hd t \<Longrightarrow> s < t \<longleftrightarrow> hd s < hd (t :: string)"
  by (cases s; cases t) auto

lemma run_less_num: "Num m < Num n \<longleftrightarrow> m < n"
  by (simp add: less_run_def run_key_def)

lemma run_less_txt: "s \<noteq> [] \<Longrightarrow> t \<noteq> [] \<Longrightarrow> Txt s < Txt t \<longleftrightarrow> s < t"
proof -
  assume "s \<noteq> []" "t \<noteq> []"
  then obtain c cs d ds where "s = c # cs" "t = d # ds" by (cases s; cases t) auto
  then show ?thesis by (auto simp: less_run_def run_key_def)
qed

lemma run_less_mixed: "t \<noteq> [] \<Longrightarrow> Num n < Txt t \<longleftrightarrow> \<not> hd t < CHR ''0''" "t \<noteq> [] \<Longrightarrow> Txt t < Num n \<longleftrightarrow> hd t < CHR ''0''"
  by (simp_all add: less_run_def run_key_def)

lemma run_of_less:
  assumes "a \<noteq> []" "b \<noteq> []" "ad = fst (splitLead a)" "bd = fst (splitLead b)" "\<not> (isNum ad \<and> isNum bd)"
  shows "run_of ad < run_of bd \<longleftrightarrow> ad < bd" "run_of ad = run_of bd \<longleftrightarrow> ad = bd"
proof -
  note pa = splitLead_parts[OF assms(1)]
  note pb = splitLead_parts[OF assms(2)]
  have ne: "ad \<noteq> []" "bd \<noteq> []" using pa(1) pb(1) assms(3,4) by simp_all
  show "run_of ad < run_of bd \<longleftrightarrow> ad < bd"
  proof (cases "isNum ad")
    case True
    then have b: "\<not> isNum bd" using assms(5) by simp
    then have d: "is_digit (hd ad)" "\<not> is_digit (hd bd)" using True ne by (simp_all add: isNum_def)
    show ?thesis using True b run_less_mixed(1)[OF ne(2)] list_less_hd[OF ne] digit_or_apart[OF d] by (simp add: run_of_def)
  next
    case False
    show ?thesis
    proof (cases "isNum bd")
      case True
      then have d: "is_digit (hd bd)" "\<not> is_digit (hd ad)" using False ne by (simp_all add: isNum_def)
      show ?thesis using True False run_less_mixed(2)[OF ne(1)] list_less_hd[OF ne] digit_or_apart[OF d] by (auto simp: run_of_def)
    next
      case plain: False
      then show ?thesis using False run_less_txt[OF ne] by (simp add: run_of_def)
    qed
  qed
  show "run_of ad = run_of bd \<longleftrightarrow> ad = bd" using assms(5) by (auto simp: run_of_def)
qed

lemma versionLess_runs: "versionLess a b \<longleftrightarrow> runs a < runs b"
proof (induction a b rule: versionLess.induct)
  case (1 a b)
  show ?case
  proof (cases "a = [] \<or> b = []")
    case True
    then show ?thesis by (subst versionLess.simps) (auto simp: runs.simps[of a] runs.simps[of b])
  next
    case False
    then have ne: "a \<noteq> []" "b \<noteq> []" by simp_all
    obtain ad an bd bn where sp: "splitLead a = (ad, an)" "splitLead b = (bd, bn)" by fastforce
    have runs: "runs a = run_of ad # runs an" "runs b = run_of bd # runs bn"
      using ne by (simp_all add: runs.simps[of a] runs.simps[of b] sp)
    show ?thesis
    proof (cases "isNum ad \<and> isNum bd")
      case True
      then have dig: "list_all is_digit ad" "list_all is_digit bd"
        using splitLead_parts[OF ne(1)] splitLead_parts[OF ne(2)] by (simp_all add: sp)
      have "versionLess an bn \<longleftrightarrow> runs an < runs bn" if "dec_val ad = dec_val bd"
        using "1.IH"(1)[OF False, of "(ad, an)" "(bd, bn)" ad an bd bn] True that dig
        by (simp add: sp compareNum_val)
      then show ?thesis using False True dig
        by (subst versionLess.simps) (auto simp: sp compareNum_val runs run_of_def run_less_num)
    next
      case other: False
      have "versionLess an bn \<longleftrightarrow> runs an < runs bn" if "ad = bd"
        using "1.IH"(2)[OF False, of "(ad, an)" "(bd, bn)" ad an bd bn] other that by (simp add: sp)
      moreover have "versionLess a b \<longleftrightarrow> (if ad \<noteq> bd then ad < bd else versionLess an bn)"
        using False other by (subst versionLess.simps) (auto simp: sp)
      moreover have "run_of ad < run_of bd \<longleftrightarrow> ad < bd" "run_of ad = run_of bd \<longleftrightarrow> ad = bd"
        using run_of_less[OF ne, of ad bd] other by (simp_all add: sp)
      ultimately show ?thesis by (auto simp: runs)
    qed
  qed
qed


section \<open>File names\<close>

definition is_alnum :: "char \<Rightarrow> bool" where
  "is_alnum c \<longleftrightarrow> is_digit c \<or> (CHR ''A'' \<le> c \<and> c \<le> CHR ''Z'') \<or> (CHR ''a'' \<le> c \<and> c \<le> CHR ''z'')"

definition stem_char :: "char \<Rightarrow> bool" where
  "stem_char c \<longleftrightarrow> is_alnum c \<or> c = CHR ''.'' \<or> c = CHR ''-''"

definition version_char :: "char \<Rightarrow> bool" where
  "version_char c \<longleftrightarrow> stem_char c \<or> c = CHR ''+''"

definition uuid_char :: "char \<Rightarrow> bool" where
  "uuid_char c \<longleftrightarrow> is_digit c \<or> (CHR ''a'' \<le> c \<and> c \<le> CHR ''f'') \<or> (CHR ''A'' \<le> c \<and> c \<le> CHR ''F'') \<or> c = CHR ''-''"

text \<open>
  The patterns, as the stem and the version they capture. No character class contains the
  underscore, so the parts between underscores are the only way to match.\<close>

definition ukiPat :: "string \<Rightarrow> (string \<times> string) option" where
  "ukiPat name =
     (case split_on (CHR ''_'') name of
        [st, r] \<Rightarrow>
          let v = trim_suffix r ''.efi'' in
          if st \<noteq> [] \<and> list_all stem_char st \<and> has_suffix r ''.efi'' \<and> v \<noteq> [] \<and> list_all version_char v
          then Some (st, v) else None
      | _ \<Rightarrow> None)"

definition rootPat :: "string \<Rightarrow> (string \<times> string) option" where
  "rootPat name =
     (case split_on (CHR ''_'') name of
        [st, v, r] \<Rightarrow>
          if st \<noteq> [] \<and> list_all stem_char st \<and> v \<noteq> [] \<and> list_all version_char v \<and>
             length (take 36 r) = 36 \<and> list_all uuid_char (take 36 r) \<and>
             (drop 36 r = ''.root.raw'' \<or> drop 36 r = ''.root.raw.xz'')
          then Some (st, v) else None
      | _ \<Rightarrow> None)"

section \<open>The listing\<close>

record ddi_half =
  hf_uki :: string
  hf_root :: string
  hf_ukiSHA :: string
  hf_rootSHA :: string

definition empty_half :: ddi_half where
  "empty_half = \<lparr>hf_uki = [], hf_root = [], hf_ukiSHA = [], hf_rootSHA = []\<rparr>"

text \<open>Digest and name of a line; \<open>None\<close> for a line that is skipped.\<close>

definition sum_line :: "string \<Rightarrow> (string \<times> string) option" where
  "sum_line raw =
     (let line = trim_space raw in
      if line = [] \<or> has_prefix line ''#'' then None
      else case Prelude.fields line of
             [f0, f1] \<Rightarrow> if length f0 = 64 then Some (f0, trim_prefix f1 ''*'') else Some ([], line)
           | _ \<Rightarrow> Some ([], line))"

type_synonym listing = "(string \<times> ddi_half) list \<times> string list"

definition half_of :: "(string \<times> ddi_half) list \<Rightarrow> string \<Rightarrow> ddi_half" where
  "half_of m v = (case map_of m v of None \<Rightarrow> empty_half | Some h \<Rightarrow> h)"

definition read_line :: "string \<Rightarrow> string \<Rightarrow> listing \<Rightarrow> listing" where
  "read_line base raw st =
     (case st of (byVersion, stems) \<Rightarrow>
        case sum_line raw of
          None \<Rightarrow> st
        | Some (sha, name) \<Rightarrow>
            (case ukiPat name of
               Some (s, v) \<Rightarrow>
                 if base \<noteq> [] \<and> s \<noteq> base then st
                 else (AList.update v ((half_of byVersion v)\<lparr>hf_uki := name, hf_ukiSHA := sha\<rparr>) byVersion, List.insert s stems)
             | None \<Rightarrow>
                 (case rootPat name of
                    Some (s, v) \<Rightarrow>
                      if base \<noteq> [] \<and> s \<noteq> base then st
                      else (AList.update v ((half_of byVersion v)\<lparr>hf_root := name, hf_rootSHA := sha\<rparr>) byVersion, List.insert s stems)
                  | None \<Rightarrow> st)))"

record ddi_release =
  dr_version :: string
  dr_uki :: string
  dr_root :: string
  dr_ukiSHA :: string
  dr_rootSHA :: string

datatype ddi_error = LineTooLong | ManyStems "string list" | NoRelease | MissingDigest string

fun insert_version :: "string \<Rightarrow> string list \<Rightarrow> string list" where
  "insert_version v [] = [v]"
| "insert_version v (w # ws) = (if versionLess w v then w # insert_version v ws else v # w # ws)"

definition sort_versions :: "string list \<Rightarrow> string list" where
  "sort_versions vs = foldr insert_version vs []"

definition complete :: "ddi_half \<Rightarrow> bool" where
  "complete h \<longleftrightarrow> hf_uki h \<noteq> [] \<and> hf_root h \<noteq> []"

definition ResolveDdiRelease ::
  "(string list \<Rightarrow> string list) \<Rightarrow> string \<Rightarrow> string \<Rightarrow> ddi_error + ddi_release" where
  "ResolveDdiRelease ord manifest base =
     (let ls = split_on (CHR 0x0A) manifest in
      if list_ex (\<lambda>l. 65536 \<le> int (length l)) ls then Inl LineTooLong
      else case fold (read_line base) ls ([], []) of (byVersion, stems) \<Rightarrow>
        if base = [] \<and> 1 < length stems then Inl (ManyStems (sort stems))
        else
          let versions = sort_versions (ord (map fst (filter (complete \<circ> snd) byVersion))) in
          if versions = [] then Inl NoRelease
          else let v = last versions; h = half_of byVersion v in
            if hf_ukiSHA h = [] \<or> hf_rootSHA h = [] then Inl (MissingDigest v)
            else Inr \<lparr>dr_version = v, dr_uki = hf_uki h, dr_root = hf_root h,
                      dr_ukiSHA = hf_ukiSHA h, dr_rootSHA = hf_rootSHA h\<rparr>)"

section \<open>What is published\<close>

text \<open>The artifacts a listing names, read off its lines: the last line for a version counts.\<close>

datatype kind = Uki | Root

definition artifact :: "string \<Rightarrow> string \<Rightarrow> (kind \<times> string \<times> string \<times> string \<times> string) option" where
  "artifact base raw =
     (case sum_line raw of
        None \<Rightarrow> None
      | Some (sha, name) \<Rightarrow>
          (case (ukiPat name, rootPat name) of
             (Some (s, v), _) \<Rightarrow> if base = [] \<or> s = base then Some (Uki, v, name, sha, s) else None
           | (None, Some (s, v)) \<Rightarrow> if base = [] \<or> s = base then Some (Root, v, name, sha, s) else None
           | _ \<Rightarrow> None))"

definition artifacts :: "string \<Rightarrow> string \<Rightarrow> (kind \<times> string \<times> string \<times> string \<times> string) list" where
  "artifacts manifest base = List.map_filter (artifact base) (split_on (CHR 0x0A) manifest)"

definition last_of :: "kind \<Rightarrow> string \<Rightarrow> (kind \<times> string \<times> string \<times> string \<times> string) list \<Rightarrow> (string \<times> string) option" where
  "last_of k v as = map_option (\<lambda>(_, _, name, sha, _). (name, sha)) (find (\<lambda>(k', v', _). k' = k \<and> v' = v) (rev as))"

definition published :: "string \<Rightarrow> string \<Rightarrow> string \<Rightarrow> bool" where
  "published manifest base v \<longleftrightarrow>
     last_of Uki v (artifacts manifest base) \<noteq> None \<and> last_of Root v (artifacts manifest base) \<noteq> None"

definition newest :: "string \<Rightarrow> string \<Rightarrow> string \<Rightarrow> bool" where
  "newest manifest base v \<longleftrightarrow> published manifest base v \<and> (\<forall>w. published manifest base w \<longrightarrow> runs w \<le> runs v)"

definition stem_of :: "kind \<times> string \<times> string \<times> string \<times> string \<Rightarrow> string" where
  "stem_of a = snd (snd (snd (snd a)))"

lemma stem_of_simp [simp]: "stem_of (k, v, n, s, st) = st"
  by (simp add: stem_of_def)

lemma sort_versions_runs: "sort_versions vs = sort_key runs vs"
proof -
  have "insert_version v ws = insort_key runs v ws" for v ws
    by (induction ws) (auto simp: versionLess_runs)
  then have "insert_version = insort_key runs" by blast
  then show ?thesis by (simp add: sort_versions_def sort_key_def)
qed

definition half_parts :: "(kind \<times> string \<times> string \<times> string \<times> string) list \<Rightarrow> string \<Rightarrow> ddi_half" where
  "half_parts as v =
     (case (last_of Uki v as, last_of Root v as) of
        (u, r) \<Rightarrow> \<lparr>hf_uki = (case u of None \<Rightarrow> [] | Some (n, _) \<Rightarrow> n), hf_root = (case r of None \<Rightarrow> [] | Some (n, _) \<Rightarrow> n),
                  hf_ukiSHA = (case u of None \<Rightarrow> [] | Some (_, s) \<Rightarrow> s), hf_rootSHA = (case r of None \<Rightarrow> [] | Some (_, s) \<Rightarrow> s)\<rparr>)"

lemma last_of_snoc: "last_of k v (as @ [(k', v', n, s, st)]) = (if k' = k \<and> v' = v then Some (n, s) else last_of k v as)"
  by (simp add: last_of_def)

lemma read_line_artifact:
  "read_line base raw (m, stems) =
     (case artifact base raw of
        None \<Rightarrow> (m, stems)
      | Some (Uki, v, n, s, st) \<Rightarrow> (AList.update v ((half_of m v)\<lparr>hf_uki := n, hf_ukiSHA := s\<rparr>) m, List.insert st stems)
      | Some (Root, v, n, s, st) \<Rightarrow> (AList.update v ((half_of m v)\<lparr>hf_root := n, hf_rootSHA := s\<rparr>) m, List.insert st stems))"
  by (auto simp: read_line_def artifact_def split: option.splits prod.splits)

lemma artifact_name: "artifact base raw = Some (k, v, n, s, st) \<Longrightarrow> n \<noteq> []"
  by (auto simp: artifact_def ukiPat_def rootPat_def split: option.splits prod.splits if_splits list.splits)

lemma read_lines:
  "fold (read_line base) ls ([], []) = (m, stems) \<Longrightarrow>
   half_of m = half_parts (List.map_filter (artifact base) ls) \<and> distinct (map fst m) \<and> distinct stems \<and>
   set stems = stem_of ` set (List.map_filter (artifact base) ls)"
proof (induction ls arbitrary: m stems rule: rev_induct)
  case Nil
  then show ?case by (auto simp: half_of_def half_parts_def last_of_def empty_half_def List.map_filter_def)
next
  case (snoc l ls)
  obtain m0 st0 where f: "fold (read_line base) ls ([], []) = (m0, st0)" by fastforce
  note IH = snoc.IH[OF f]
  have step: "read_line base l (m0, st0) = (m, stems)" using snoc.prems f by simp
  have app: "List.map_filter (artifact base) (ls @ [l]) =
      List.map_filter (artifact base) ls @ (case artifact base l of None \<Rightarrow> [] | Some a \<Rightarrow> [a])"
    by (simp add: List.map_filter_def split: option.split)
  show ?case
  proof (cases "artifact base l")
    case None
    then show ?thesis using IH step by (simp add: app read_line_artifact)
  next
    case (Some a)
    obtain k v n s st where a: "a = (k, v, n, s, st)" by (cases a) auto
    have upd: "half_of (AList.update v h m0) = (half_of m0)(v := h)" for h
      by (rule ext) (simp add: half_of_def)
    have e: "stems = List.insert st st0" "distinct stems \<and> distinct (map fst m)"
      using step Some IH by (cases k; auto simp: a read_line_artifact distinct_update)+
    have "half_of m = half_parts (List.map_filter (artifact base) (ls @ [l]))"
      using IH step Some
      by (cases k) (auto simp: app a read_line_artifact upd half_parts_def last_of_snoc fun_eq_iff)
    moreover have "set stems = stem_of ` set (List.map_filter (artifact base) (ls @ [l]))"
      using IH Some by (simp add: app a e(1))
    ultimately show ?thesis using e(2) by blast
  qed
qed

lemma complete_published:
  assumes "half_of m = half_parts (artifacts manifest base)"
  shows "complete (half_of m v) \<longleftrightarrow> published manifest base v"
proof -
  have ne: "n \<noteq> []" if l: "last_of k v (artifacts manifest base) = Some (n, s)" for k n s
  proof -
    from l obtain a where a: "find (\<lambda>(k', v', _). k' = k \<and> v' = v) (rev (artifacts manifest base)) = Some a"
      and n: "fst (snd (snd a)) = n"
      by (auto simp: last_of_def)
    from a have "a \<in> set (artifacts manifest base)" by (metis find_Some_iff nth_mem set_rev)
    then obtain raw where "artifact base raw = Some a" by (auto simp: artifacts_def List.map_filter_def)
    then show ?thesis using artifact_name[of base raw] n by (cases a) auto
  qed
  show ?thesis unfolding assms
    using ne by (auto simp: complete_def half_parts_def published_def split: option.splits)
qed

lemma last_maximal: "xs \<noteq> [] \<Longrightarrow> last (sort_key f xs) \<in> set xs \<and> (\<forall>x \<in> set xs. f x \<le> f (last (sort_key f xs)))"
proof -
  assume "xs \<noteq> []"
  then have "sort_key f xs \<noteq> []" by (metis set_empty set_sort)
  then obtain ys y where ys: "sort_key f xs = ys @ [y]" by (metis rev_exhaust)
  have "sorted (map f (ys @ [y]))" unfolding ys[symmetric] by (rule sorted_sort_key)
  moreover have "set xs = set (ys @ [y])" by (metis ys set_sort)
  ultimately show ?thesis by (auto simp: ys sorted_append)
qed

text \<open>
  C40. Whatever the order in which Go visits its map and leaves versions that tie, the release chosen
  is a newest one among the versions that publish both artifacts, in the order of the runs of their names;
  its artifacts are the last ones listed for it, both bound to a digest, and all of one stem unless
  the caller named it. Every refusal is for its reason: a line too long for the scanner, artifacts of
  several stems, no version with both artifacts, or a newest version without a digest.\<close>

theorem ResolveDdiRelease_newest:
  assumes "\<And>xs. mset (ord xs) = mset xs"
  shows "case ResolveDdiRelease ord manifest base of
      Inr r \<Rightarrow> newest manifest base (dr_version r) \<and>
        last_of Uki (dr_version r) (artifacts manifest base) = Some (dr_uki r, dr_ukiSHA r) \<and> dr_ukiSHA r \<noteq> [] \<and>
        last_of Root (dr_version r) (artifacts manifest base) = Some (dr_root r, dr_rootSHA r) \<and> dr_rootSHA r \<noteq> [] \<and>
        (base = [] \<longrightarrow> (\<forall>a \<in> set (artifacts manifest base). \<forall>b \<in> set (artifacts manifest base). stem_of a = stem_of b))
    | Inl LineTooLong \<Rightarrow> (\<exists>l \<in> set (split_on (CHR 0x0A) manifest). 65536 \<le> length l)
    | Inl (ManyStems names) \<Rightarrow> base = [] \<and> (\<exists>a \<in> set (artifacts manifest base). \<exists>b \<in> set (artifacts manifest base). stem_of a \<noteq> stem_of b) \<and>
        sorted names \<and> distinct names \<and> set names = stem_of ` set (artifacts manifest base)
    | Inl NoRelease \<Rightarrow> \<not> (\<exists>v. published manifest base v)
    | Inl (MissingDigest v) \<Rightarrow> newest manifest base v \<and>
        (\<exists>n k. last_of k v (artifacts manifest base) = Some (n, []))"
proof -
  define ls where "ls = split_on (CHR 0x0A) manifest"
  obtain m stems where f: "fold (read_line base) ls ([], []) = (m, stems)" by fastforce
  have arts: "artifacts manifest base = List.map_filter (artifact base) ls" by (simp add: artifacts_def ls_def)
  have R: "half_of m = half_parts (artifacts manifest base)" "distinct (map fst m)" "distinct stems"
    "set stems = stem_of ` set (artifacts manifest base)"
    using read_lines[OF f] by (simp_all add: arts)
  define vs where "vs = ord (map fst (filter (complete \<circ> snd) m))"
  have "set vs = set (map fst (filter (complete \<circ> snd) m))"
    unfolding vs_def using assms by (metis set_mset_mset)
  also have "\<dots> = {v. complete (half_of m v)}"
  proof -
    have "v \<in> fst ` set (filter (complete \<circ> snd) m) \<longleftrightarrow> complete (half_of m v)" for v
    proof -
      have e: "v \<in> fst ` set (filter (complete \<circ> snd) m) \<longleftrightarrow> (\<exists>h. (v, h) \<in> set m \<and> complete h)"
        by (auto intro: rev_image_eqI)
      also have "\<dots> \<longleftrightarrow> (\<exists>h. map_of m v = Some h \<and> complete h)" by (simp add: map_of_eq_Some_iff[OF R(2)])
      also have "\<dots> \<longleftrightarrow> complete (half_of m v)"
        by (cases "map_of m v") (simp_all add: half_of_def complete_def empty_half_def)
      finally show ?thesis .
    qed
    then show ?thesis unfolding set_map by blast
  qed
  finally have vs: "v \<in> set vs \<longleftrightarrow> published manifest base v" for v
    using complete_published[OF R(1)] by simp
  have max: "newest manifest base (last (sort_versions vs))" if "vs \<noteq> []"
    using last_maximal[OF that, of runs, folded sort_versions_runs] vs unfolding newest_def by blast
  have nil: "sort_versions vs = [] \<longleftrightarrow> vs = []" by (metis set_empty set_sort sort_versions_runs)
  have many: "1 < length stems \<longleftrightarrow> (\<exists>a \<in> set (artifacts manifest base). \<exists>b \<in> set (artifacts manifest base). stem_of a \<noteq> stem_of b)"
  proof -
    have "1 < length stems \<longleftrightarrow> (\<exists>x \<in> set stems. \<exists>y \<in> set stems. x \<noteq> y)"
      using R(3) by (cases stems; cases "tl stems") auto
    then show ?thesis unfolding R(4) by blast
  qed
  have res: "ResolveDdiRelease ord manifest base =
    (if list_ex (\<lambda>l. 65536 \<le> int (length l)) ls then Inl LineTooLong
     else if base = [] \<and> 1 < length stems then Inl (ManyStems (sort stems))
     else if vs = [] then Inl NoRelease
     else let v = last (sort_versions vs); h = half_parts (artifacts manifest base) v in
       if hf_ukiSHA h = [] \<or> hf_rootSHA h = [] then Inl (MissingDigest v)
       else Inr \<lparr>dr_version = v, dr_uki = hf_uki h, dr_root = hf_root h, dr_ukiSHA = hf_ukiSHA h, dr_rootSHA = hf_rootSHA h\<rparr>)"
    unfolding ResolveDdiRelease_def Let_def ls_def[symmetric] f prod.case vs_def[symmetric] nil R(1) ..
  consider (long) "\<exists>l \<in> set ls. 65536 \<le> int (length l)"
    | (stems) "\<not> list_ex (\<lambda>l. 65536 \<le> int (length l)) ls" "base = [] \<and> 1 < length stems"
    | (ok) "\<not> list_ex (\<lambda>l. 65536 \<le> int (length l)) ls" "\<not> (base = [] \<and> 1 < length stems)"
    by (auto simp: list_ex_iff)
  then show ?thesis
  proof cases
    case long
    then have "ResolveDdiRelease ord manifest base = Inl LineTooLong" by (simp add: res list_ex_iff)
    then show ?thesis using long by (auto simp: ls_def)
  next
    case stems
    then have r: "ResolveDdiRelease ord manifest base = Inl (ManyStems (sort stems))" unfolding res by simp
    show ?thesis unfolding r using stems many R(3,4) by simp
  next
    case ok
    define v where "v = last (sort_versions vs)"
    define h where "h = half_parts (artifacts manifest base) v"
    show ?thesis
    proof (cases "vs = []")
      case True
      then have "ResolveDdiRelease ord manifest base = Inl NoRelease" using ok by (simp add: res)
      then show ?thesis using True vs by auto
    next
      case False
      have n: "newest manifest base v" using max[OF False] by (simp add: v_def)
      then obtain u us r rs where p: "last_of Uki v (artifacts manifest base) = Some (u, us)"
        "last_of Root v (artifacts manifest base) = Some (r, rs)"
        by (auto simp: newest_def published_def)
      then have h: "h = \<lparr>hf_uki = u, hf_root = r, hf_ukiSHA = us, hf_rootSHA = rs\<rparr>" by (simp add: h_def half_parts_def)
      have rs: "ResolveDdiRelease ord manifest base =
        (if us = [] \<or> rs = [] then Inl (MissingDigest v)
         else Inr \<lparr>dr_version = v, dr_uki = u, dr_root = r, dr_ukiSHA = us, dr_rootSHA = rs\<rparr>)"
        by (simp only: res ok False if_False Let_def v_def[symmetric] h_def[symmetric] h ddi_half.simps)
      show ?thesis
      proof (cases "us = [] \<or> rs = []")
        case True
        then have "\<exists>n k. last_of k v (artifacts manifest base) = Some (n, [])" using p by blast
        then show ?thesis using n True by (simp add: rs)
      next
        case dig: False
        have one: "base = [] \<longrightarrow> (\<forall>a \<in> set (artifacts manifest base). \<forall>b \<in> set (artifacts manifest base). stem_of a = stem_of b)"
          using many ok(2) by blast
        show ?thesis using n p dig one by (simp only: rs if_False sum.case ddi_release.simps) blast
      qed
    qed
  qed
qed


section \<open>Examples\<close>

definition demo_sha :: "char \<Rightarrow> string" where
  "demo_sha c = replicate 64 c"

definition demo_release :: "string \<Rightarrow> char \<Rightarrow> string list" where
  "demo_release v c =
     [demo_sha c @ ''  snow-ab_'' @ v @ ''.efi'',
      demo_sha c @ ''  snow-ab_'' @ v @ ''_01234567-89ab-cdef-0123-456789abcdef.root.raw.xz'']"

definition demo_listing :: string where
  "demo_listing = join_with [CHR 0x0A] (demo_release ''9'' CHR ''1'' @ demo_release ''10'' CHR ''2'' @ [''# end''])"

theorem ResolveDdiRelease_newest_witness:
  "\<exists>r. ResolveDdiRelease rev demo_listing [] = Inr r \<and> dr_version r = ''10'' \<and> newest demo_listing [] ''10'' \<and>
     dr_uki r = ''snow-ab_10.efi''"
proof -
  have "case ResolveDdiRelease rev demo_listing [] of Inl _ \<Rightarrow> False
    | Inr r \<Rightarrow> dr_version r = ''10'' \<and> dr_uki r = ''snow-ab_10.efi''"
    by code_simp
  then obtain r where r: "ResolveDdiRelease rev demo_listing [] = Inr r" "dr_version r = ''10''" "dr_uki r = ''snow-ab_10.efi''"
    by (auto split: sum.splits)
  have "newest demo_listing [] (dr_version r)"
    using ResolveDdiRelease_newest[of rev demo_listing "[]"] unfolding r(1) by simp
  then show ?thesis using r by metis
qed

text \<open>Versions that differ by leading zeros tie, and the one chosen depends on the order of the map.\<close>

definition tied_listing :: string where
  "tied_listing = join_with [CHR 0x0A] (demo_release ''1.01'' CHR ''1'' @ demo_release ''1.1'' CHR ''2'')"

lemma tie_depends_on_map:
  "map_sum (\<lambda>e. e) dr_version (ResolveDdiRelease (\<lambda>xs. xs) tied_listing []) = Inr ''1.1'' \<and>
   map_sum (\<lambda>e. e) dr_version (ResolveDdiRelease rev tied_listing []) = Inr ''1.01''"
  by code_simp

end
