(* ===== verification/Spec2Isabelle.thy ===== *)
theory Spec2Isabelle
  imports Oci_Walk Oci_Resume Live_Overlay Verify Live_Base Iso9660 Tree_Diff Erofs_Image Live_Boot Opfs_Store Initrd_Overlay Disk_Target Ddi_Release
begin

text \<open>
  A verification library for tacklebox, the builder of bootable live media from OCI images.

  \<^bold>\<open>The program.\<close> A build resolves an image reference to a manifest (\<^verbatim>\<open>internal/oci/client.go\<close>),
  downloads its layers (\<^verbatim>\<open>internal/oci/resume.go\<close>), applies them to an in-memory tree of nodes whose file
  bodies live in a blob store (\<^verbatim>\<open>internal/oci/unpack.go\<close>), optionally grafts a live overlay onto the
  tree (\<^verbatim>\<open>internal/purefs/liveoverlay.go\<close>), edits it (live user, autologin:
  \<^verbatim>\<open>internal/purefs/livebase.go\<close>), finds the boot loader and the kernel in it
  (\<^verbatim>\<open>bootloader.go\<close>, \<^verbatim>\<open>kernelboot.go\<close>, \<^verbatim>\<open>internal/kargsd\<close>), and writes the medium
  (\<^verbatim>\<open>iso9660.go\<close>, with the root file system of \<^verbatim>\<open>erofs.go\<close>). The verifier (\<^verbatim>\<open>internal/verify\<close>) reads a finished medium back. The
  privileged builder shares the policies and adds the delta between environments
  (\<^verbatim>\<open>internal/install/treediff.go\<close>). An experimental mode boots one ARM64 board from
  pinned inputs (\<^verbatim>\<open>internal/liveboot\<close>).

  \<^bold>\<open>Theories and what they model.\<close>
    \<^item> \<open>Prelude\<close>: machine types, errors as sums (\<open>bindR\<close>, \<open>foldR\<close>), Go's string, path and byte-order
      functions, with the lemmas the components share.
    \<^item> \<open>Oci_Types\<close>, \<open>Oci_Tree\<close>, \<open>Oci_Store\<close>, \<open>Oci_Walk\<close>: descriptors and manifests, the node tree, \<open>applyEntry\<close>
      and the layer functions, the two blob stores behind a locale, \<open>Walk\<close>.
    \<^item> \<open>Oci_Pipeline\<close>: the fetch window of \<^verbatim>\<open>layerPipeline\<close> as a step relation, \<open>Unpack\<close>, \<open>UnpackOnto\<close>.
    \<^item> \<open>Oci_Resume\<close>: \<^verbatim>\<open>resumingReader\<close> with its pump goroutine and stall timer, \<^verbatim>\<open>verifyingReader\<close>, \<open>Blob\<close>.
    \<^item> \<open>Oci_Client\<close>: tokens, ranged requests, manifest resolution.
    \<^item> \<open>Build_Request\<close>, \<open>Source_Image\<close>, \<open>Live_Overlay\<close>: the request, the provenance of what was built, the overlay.
    \<^item> \<open>Kargs\<close>, \<open>Verify\<close>: kernel arguments and boot entries, the checks on a finished medium.
    \<^item> \<open>Boot_Chain\<close>, \<open>Live_Base\<close>: boot loader and kernel selection, edits of the rootfs.
    \<^item> \<open>Iso9660\<close>: the ISO 9660 image, byte for byte.
    \<^item> \<open>Erofs\<close>, \<open>Erofs_Table\<close>, \<open>Erofs_Dir\<close>, \<open>Erofs_Image\<close>: the EROFS image, byte for byte (model; inode table
      against the tree; directory blocks; a reader that follows the kernel's on-disk format).
    \<^item> \<open>Tree_Diff\<close>: the overlayfs delta between two trees.
    \<^item> \<open>Pe_Image\<close>, \<open>Live_Board\<close>, \<open>Live_Boot\<close>: the live boot inputs: executable check with the parts of
      \<^verbatim>\<open>debug/pe\<close> it uses, device tree and hardware table against a serialised tree, pinned
      reads with their descriptors, kernel match, bundle. Out-of-range reads are the error \<open>Panic\<close>.
    \<^item> \<open>Opfs_Store\<close>: the blob store of the browser engine over streams and snapshots of the origin-private
      file system, where any call may be rejected; it satisfies the locale of \<open>Oci_Store\<close>.
    \<^item> \<open>Initrd_Overlay\<close>: the cpio archive put before the initramfs (\<^verbatim>\<open>initrdoverlay.go\<close>), against a reader of
      the format the kernel unpacks.
    \<^item> \<open>Ddi_Release\<close>: the choice of a release from a listing (\<^verbatim>\<open>sysupdate.go\<close>); \<open>run\<close> is an instance of
      \<open>linorder\<close>, and the comparison of the code is the lexicographic order of lists of runs.
    \<^item> \<open>Disk_Plan\<close>, \<open>Disk_Target\<close>: partition layout and shared-store policy
      (\<^verbatim>\<open>cmd/tacklebox/build_plan.go\<close>), and the commands that format, mount and release a disk
      (\<^verbatim>\<open>internal/blockdev\<close>, \<^verbatim>\<open>internal/target/block.go\<close>), read as resources held by the host.

  \<^bold>\<open>How the state is modelled.\<close> Pointers into the node tree become the tree itself, rebuilt along the path
  (no two names share a mutable directory in the source). A blob store is a record with \<open>put\<close> and \<open>open\<close>
  passed as functions. A call that fails returns \<open>Inl\<close>, and the state an error leaves behind is dropped
  where the caller abandons the build. Goroutines are interleaved explicitly: any completion order
  of the fetch window is a path of its step relation; the pump and timer of a download are
  scripts of chunks and idle periods.

  \<^bold>\<open>Bounds.\<close> Symbolic links are followed for at most the eight (\<open>resolveFile\<close>) and sixteen
  (\<open>resolveTreeFile\<close>) hops the code allows. Loops without a counter in the source (padding, extent
  spans, chunked comparison, clean-up of the resuming reader, device tree tokens, hardware records,
  parent directories, version comparison)
  have termination proofs. Integers are words where their width shows in the output
  (sector numbers, record lengths, checksums, partition sizes) and unbounded where the code only compares
  sizes. The disk layout is proved below \<open>2 ^ 62\<close> bytes, beyond which the code wraps; the cpio archive for names
  and contents below \<open>2 ^ 32\<close> bytes together, the width of its header fields.

  \<^bold>\<open>Parameters.\<close> HTTP responses, JSON and TOML decoding, SHA-256, tar and decompression, environment variables and the
  commands of the verifier and of the block target, the order of Go's maps, are arguments of the definitions; the hypotheses on them are stated in
  the theorems (an honest registry, an injective digest where bytes are compared through it).

  \<^bold>\<open>Not modelled.\<close> Command line handling, the browser engine outside its blob store, process execution
  (podman, mksquashfs, xorriso; for a block target the commands are modelled, what they do to a disk is not), the FAT writer, which is a library, and the texts of error messages.
  Case tables are the ASCII part of Unicode. Files with equal names in one ISO directory keep
  the order of the input, which Go's sort does not promise.
\<close>

end
